(* ===== verification/Kai_Prelude.thy ===== *)
theory Kai_Prelude
  imports Main "HOL-Library.Word"
begin

text \<open>
  Shared ground of the development: byte strings and their spans, the C library's
  character classes, source positions (line and column) as functions of a byte offset,
  and the collections of rewrite rules the component theories extend.
\<close>

unbundle bit_operations_syntax

named_theorems kai_defs
named_theorems kai_safe
named_theorems kai_wf

type_synonym i64 = "64 word"
type_synonym u32 = "32 word"

section \<open>Bytes\<close>

text \<open>
  A source buffer is a \<open>string\<close> (a list of bytes). C code reads it by index; a read at or
  past the end is written as a NUL byte, which is what the code's own guarded readers
  return and what the buffer holds at its end.
\<close>

abbreviation NUL :: char where "NUL \<equiv> CHR 0x00"
abbreviation NL :: char where "NL \<equiv> CHR 0x0A"
abbreviation DQ :: char where "DQ \<equiv> CHR 0x22"
abbreviation SQ :: char where "SQ \<equiv> CHR 0x27"
abbreviation BSL :: char where "BSL \<equiv> CHR 0x5C"

definition byte_at :: "string \<Rightarrow> nat \<Rightarrow> char" where
  "byte_at s i = (if i < length s then s ! i else NUL)"

definition slice :: "'a list \<Rightarrow> nat \<Rightarrow> nat \<Rightarrow> 'a list" where
  "slice s a b = take (b - a) (drop a s)"

lemma length_slice [simp]: "length (slice s a b) = min (b - a) (length s - a)"
  by (simp add: slice_def)

lemma length_slice_within: "a \<le> b \<Longrightarrow> b \<le> length s \<Longrightarrow> length (slice s a b) = b - a"
  by simp

lemma slice_empty [simp]: "slice s a a = []"
  by (simp add: slice_def)

lemma slice_Suc_right:
  assumes "a \<le> b" "b < length s"
  shows "slice s a (Suc b) = slice s a b @ [s ! b]"
proof -
  have "Suc b - a = Suc (b - a)" and "b - a < length (drop a s)" and "a + (b - a) = b"
    using assms by simp_all
  then show ?thesis by (simp add: slice_def take_Suc_conv_app_nth)
qed

lemma slice_Cons:
  assumes "a < b" "b \<le> length s"
  shows "slice s a b = s ! a # slice s (Suc a) b"
proof -
  have "drop a s = s ! a # drop (Suc a) s" and "b - a = Suc (b - Suc a)"
    using assms by (simp_all add: Cons_nth_drop_Suc)
  then show ?thesis by (simp add: slice_def)
qed

lemma last_slice: "a \<le> b \<Longrightarrow> b < length s \<Longrightarrow> last (slice s a (Suc b)) = s ! b"
  by (simp add: slice_Suc_right)

lemma slice_append_slice:
  "a \<le> b \<Longrightarrow> b \<le> c \<Longrightarrow> slice s a b @ slice s b c = slice s a c"
proof -
  assume ab: "a \<le> b" and bc: "b \<le> c"
  have "take (c - a) (drop a s) = take (b - a) (drop a s) @ take (c - b) (drop (b - a) (drop a s))"
    using ab bc take_add [of "b - a" "c - b" "drop a s"] by simp
  then show ?thesis using ab by (simp add: slice_def)
qed

lemma nth_slice: "i < b - a \<Longrightarrow> b \<le> length s \<Longrightarrow> slice s a b ! i = s ! (a + i)"
  by (simp add: slice_def)

lemma slice_nonempty_hd:
  "a < b \<Longrightarrow> b \<le> length s \<Longrightarrow> hd (slice s a b) = s ! a"
  by (simp add: hd_conv_nth nth_slice slice_def)

section \<open>Character classes of the C locale\<close>

abbreviation ord_char :: "char \<Rightarrow> nat" where "ord_char c \<equiv> of_char c"

definition c_isdigit :: "char \<Rightarrow> bool" where
  "c_isdigit c = (48 \<le> ord_char c \<and> ord_char c \<le> 57)"

definition c_isupper :: "char \<Rightarrow> bool" where
  "c_isupper c = (65 \<le> ord_char c \<and> ord_char c \<le> 90)"

definition c_islower :: "char \<Rightarrow> bool" where
  "c_islower c = (97 \<le> ord_char c \<and> ord_char c \<le> 122)"

definition c_isalpha :: "char \<Rightarrow> bool" where
  "c_isalpha c = (c_isupper c \<or> c_islower c)"

definition c_isalnum :: "char \<Rightarrow> bool" where
  "c_isalnum c = (c_isalpha c \<or> c_isdigit c)"

lemmas ctype_defs = c_isdigit_def c_isupper_def c_islower_def c_isalpha_def c_isalnum_def

section \<open>Line and column of a byte offset\<close>

definition line_of :: "string \<Rightarrow> nat \<Rightarrow> nat" where
  "line_of s p = 1 + length (filter (\<lambda>c. c = NL) (take p s))"

definition col_of :: "string \<Rightarrow> nat \<Rightarrow> nat" where
  "col_of s p = 1 + length (takeWhile (\<lambda>c. c \<noteq> NL) (rev (take p s)))"

lemma line_of_0 [simp]: "line_of s 0 = 1"
  by (simp add: line_of_def)

lemma col_of_0 [simp]: "col_of s 0 = 1"
  by (simp add: col_of_def)

lemma line_of_Suc:
  "p < length s \<Longrightarrow> line_of s (Suc p) = (if s ! p = NL then Suc (line_of s p) else line_of s p)"
  by (simp add: line_of_def take_Suc_conv_app_nth)

lemma col_of_Suc:
  "p < length s \<Longrightarrow> col_of s (Suc p) = (if s ! p = NL then 1 else Suc (col_of s p))"
  by (simp add: col_of_def take_Suc_conv_app_nth)

section \<open>Lists\<close>

lemma nth_mem_size [termination_simp]:
  "i < length xs \<Longrightarrow> size (xs ! i) < Suc (size_list size xs)"
  using size_list_estimation' [of "xs ! i" xs "size (xs ! i)" size] by (simp add: less_Suc_eq_le)

lemma nth_size_le [termination_simp]:
  "i < length xs \<Longrightarrow> size (xs ! i) \<le> size_list size xs"
  using nth_mem_size [of i xs] by simp

lemma last_append_single [simp]: "last (xs @ [x]) = x"
  by simp

lemma list_all_append_single [simp]: "list_all P (xs @ [x]) \<longleftrightarrow> list_all P xs \<and> P x"
  by simp

lemma drop_append_single:
  "n \<le> length xs \<Longrightarrow> drop n (xs @ [x]) = drop n xs @ [x]"
  by simp

end
