(* ===== verification/Kai_Token.thy ===== *)
theory Kai_Token
  imports Kai_Prelude
begin

text \<open>
  \<^verbatim>\<open>stage0/lexer.h\<close> and the name table of \<^verbatim>\<open>stage0/lexer.c\<close>: the token kinds, the
  token record, and \<open>tk_name\<close>. A token refers to the source by byte offset and length;
  \<open>tok_text\<close> is the text it covers.
\<close>

datatype token_kind =
    TK_EOF | TK_NEWLINE | TK_AND | TK_AS | TK_ASSERT | TK_ELSE
  | TK_FALSE | TK_FN | TK_IF | TK_IMPORT | TK_LET | TK_MATCH
  | TK_NOT | TK_OR | TK_PUB | TK_TEST | TK_TRUE | TK_TYPE
  | TK_INT | TK_REAL | TK_CHAR | TK_STRING | TK_IDENT | TK_UNDERSCORE
  | TK_LPAREN | TK_RPAREN | TK_LBRACKET | TK_RBRACKET | TK_LBRACE | TK_RBRACE
  | TK_COMMA | TK_COLON | TK_SEMI | TK_DOT | TK_DOTDOT | TK_ELLIPSIS
  | TK_EQ | TK_ARROW | TK_FAT_ARROW | TK_PIPE | TK_PIPE_APPLY | TK_PLUS
  | TK_MINUS | TK_STAR | TK_SLASH | TK_SLASH_SLASH | TK_PERCENT | TK_EQEQ
  | TK_NEQ | TK_LT | TK_GT | TK_LE | TK_GE | TK_BANG
  | TK_ERROR

record token =
  t_kind :: token_kind
  t_line :: nat
  t_col :: nat
  t_start :: nat
  t_length :: nat

definition tok_end :: "token \<Rightarrow> nat" where
  "tok_end t = t_start t + t_length t"

definition tok_text :: "string \<Rightarrow> token \<Rightarrow> string" where
  "tok_text src t = slice src (t_start t) (tok_end t)"

fun tk_name :: "token_kind \<Rightarrow> string" where
  "tk_name TK_EOF = ''EOF''"
| "tk_name TK_NEWLINE = ''NEWLINE''"
| "tk_name TK_AND = ''and''"
| "tk_name TK_AS = ''as''"
| "tk_name TK_ASSERT = ''assert''"
| "tk_name TK_ELSE = ''else''"
| "tk_name TK_FALSE = ''false''"
| "tk_name TK_FN = ''fn''"
| "tk_name TK_IF = ''if''"
| "tk_name TK_IMPORT = ''import''"
| "tk_name TK_LET = ''let''"
| "tk_name TK_MATCH = ''match''"
| "tk_name TK_NOT = ''not''"
| "tk_name TK_OR = ''or''"
| "tk_name TK_PUB = ''pub''"
| "tk_name TK_TEST = ''test''"
| "tk_name TK_TRUE = ''true''"
| "tk_name TK_TYPE = ''type''"
| "tk_name TK_INT = ''INT''"
| "tk_name TK_REAL = ''REAL''"
| "tk_name TK_CHAR = ''CHAR''"
| "tk_name TK_STRING = ''STRING''"
| "tk_name TK_IDENT = ''IDENT''"
| "tk_name TK_UNDERSCORE = ''_''"
| "tk_name TK_LPAREN = ''(''"
| "tk_name TK_RPAREN = '')''"
| "tk_name TK_LBRACKET = ''[''"
| "tk_name TK_RBRACKET = '']''"
| "tk_name TK_LBRACE = ''{''"
| "tk_name TK_RBRACE = ''}''"
| "tk_name TK_COMMA = '',''"
| "tk_name TK_COLON = '':''"
| "tk_name TK_SEMI = '';''"
| "tk_name TK_DOT = ''.''"
| "tk_name TK_DOTDOT = ''..''"
| "tk_name TK_ELLIPSIS = ''...''"
| "tk_name TK_EQ = ''=''"
| "tk_name TK_ARROW = ''->''"
| "tk_name TK_FAT_ARROW = ''=>''"
| "tk_name TK_PIPE = ''|''"
| "tk_name TK_PIPE_APPLY = ''|>''"
| "tk_name TK_PLUS = ''+''"
| "tk_name TK_MINUS = ''-''"
| "tk_name TK_STAR = ''*''"
| "tk_name TK_SLASH = ''/''"
| "tk_name TK_SLASH_SLASH = ''//''"
| "tk_name TK_PERCENT = ''%''"
| "tk_name TK_EQEQ = ''==''"
| "tk_name TK_NEQ = ''!=''"
| "tk_name TK_LT = ''<''"
| "tk_name TK_GT = ''>''"
| "tk_name TK_LE = ''<=''"
| "tk_name TK_GE = ''>=''"
| "tk_name TK_BANG = ''!''"
| "tk_name TK_ERROR = ''ERROR''"

text \<open>The position of a kind in the C enumeration; it orders the kinds.\<close>

fun tk_index :: "token_kind \<Rightarrow> nat" where
  "tk_index TK_EOF = 0"
| "tk_index TK_NEWLINE = 1"
| "tk_index TK_AND = 2"
| "tk_index TK_AS = 3"
| "tk_index TK_ASSERT = 4"
| "tk_index TK_ELSE = 5"
| "tk_index TK_FALSE = 6"
| "tk_index TK_FN = 7"
| "tk_index TK_IF = 8"
| "tk_index TK_IMPORT = 9"
| "tk_index TK_LET = 10"
| "tk_index TK_MATCH = 11"
| "tk_index TK_NOT = 12"
| "tk_index TK_OR = 13"
| "tk_index TK_PUB = 14"
| "tk_index TK_TEST = 15"
| "tk_index TK_TRUE = 16"
| "tk_index TK_TYPE = 17"
| "tk_index TK_INT = 18"
| "tk_index TK_REAL = 19"
| "tk_index TK_CHAR = 20"
| "tk_index TK_STRING = 21"
| "tk_index TK_IDENT = 22"
| "tk_index TK_UNDERSCORE = 23"
| "tk_index TK_LPAREN = 24"
| "tk_index TK_RPAREN = 25"
| "tk_index TK_LBRACKET = 26"
| "tk_index TK_RBRACKET = 27"
| "tk_index TK_LBRACE = 28"
| "tk_index TK_RBRACE = 29"
| "tk_index TK_COMMA = 30"
| "tk_index TK_COLON = 31"
| "tk_index TK_SEMI = 32"
| "tk_index TK_DOT = 33"
| "tk_index TK_DOTDOT = 34"
| "tk_index TK_ELLIPSIS = 35"
| "tk_index TK_EQ = 36"
| "tk_index TK_ARROW = 37"
| "tk_index TK_FAT_ARROW = 38"
| "tk_index TK_PIPE = 39"
| "tk_index TK_PIPE_APPLY = 40"
| "tk_index TK_PLUS = 41"
| "tk_index TK_MINUS = 42"
| "tk_index TK_STAR = 43"
| "tk_index TK_SLASH = 44"
| "tk_index TK_SLASH_SLASH = 45"
| "tk_index TK_PERCENT = 46"
| "tk_index TK_EQEQ = 47"
| "tk_index TK_NEQ = 48"
| "tk_index TK_LT = 49"
| "tk_index TK_GT = 50"
| "tk_index TK_LE = 51"
| "tk_index TK_GE = 52"
| "tk_index TK_BANG = 53"
| "tk_index TK_ERROR = 54"

definition tk_all :: "token_kind list" where
  "tk_all =
    [TK_EOF, TK_NEWLINE, TK_AND, TK_AS, TK_ASSERT, TK_ELSE,
     TK_FALSE, TK_FN, TK_IF, TK_IMPORT, TK_LET, TK_MATCH,
     TK_NOT, TK_OR, TK_PUB, TK_TEST, TK_TRUE, TK_TYPE,
     TK_INT, TK_REAL, TK_CHAR, TK_STRING, TK_IDENT, TK_UNDERSCORE,
     TK_LPAREN, TK_RPAREN, TK_LBRACKET, TK_RBRACKET, TK_LBRACE, TK_RBRACE,
     TK_COMMA, TK_COLON, TK_SEMI, TK_DOT, TK_DOTDOT, TK_ELLIPSIS,
     TK_EQ, TK_ARROW, TK_FAT_ARROW, TK_PIPE, TK_PIPE_APPLY, TK_PLUS,
     TK_MINUS, TK_STAR, TK_SLASH, TK_SLASH_SLASH, TK_PERCENT, TK_EQEQ,
     TK_NEQ, TK_LT, TK_GT, TK_LE, TK_GE, TK_BANG,
     TK_ERROR]"

lemma tk_all_index: "tk_all ! tk_index k = k"
  by (cases k) (simp_all add: tk_all_def)

lemma tk_index_inj: "tk_index a = tk_index b \<longleftrightarrow> a = b"
  by (metis tk_all_index)

lemma tk_index_bound: "tk_index k \<le> tk_index TK_ERROR"
  by (cases k) simp_all

instantiation token_kind :: linorder
begin

definition less_eq_token_kind :: "token_kind \<Rightarrow> token_kind \<Rightarrow> bool" where
  "less_eq_token_kind a b \<longleftrightarrow> tk_index a \<le> tk_index b"

definition less_token_kind :: "token_kind \<Rightarrow> token_kind \<Rightarrow> bool" where
  "less_token_kind a b \<longleftrightarrow> tk_index a < tk_index b"

instance
  by standard (auto simp: less_eq_token_kind_def less_token_kind_def tk_index_inj)

end

text \<open>
  The keyword table, and the kinds whose tokens have one fixed spelling: there the
  name the diagnostics print is that spelling.
\<close>

definition KEYWORDS :: "(string \<times> token_kind) list" where
  "KEYWORDS =
    [(''and'', TK_AND), (''as'', TK_AS), (''assert'', TK_ASSERT),
     (''else'', TK_ELSE), (''false'', TK_FALSE), (''fn'', TK_FN),
     (''if'', TK_IF), (''import'', TK_IMPORT), (''let'', TK_LET),
     (''match'', TK_MATCH), (''not'', TK_NOT), (''or'', TK_OR),
     (''pub'', TK_PUB), (''test'', TK_TEST), (''true'', TK_TRUE),
     (''type'', TK_TYPE)]"

definition keyword_kind :: "token_kind \<Rightarrow> bool" where
  "keyword_kind k \<longleftrightarrow> TK_AND \<le> k \<and> k \<le> TK_TYPE"

definition punct_kind :: "token_kind \<Rightarrow> bool" where
  "punct_kind k \<longleftrightarrow> TK_LPAREN \<le> k \<and> k \<le> TK_BANG"

lemma KEYWORDS_names: "(w, k) \<in> set KEYWORDS \<longleftrightarrow> keyword_kind k \<and> w = tk_name k"
  by (cases k) (auto simp: KEYWORDS_def keyword_kind_def less_eq_token_kind_def)

lemma tk_name_nonempty: "tk_name k \<noteq> []"
  by (cases k) simp_all

end
