(* ===== verification/Kai_Ast.thy ===== *)
theory Kai_Ast
  imports Kai_Token
begin

text \<open>
  \<^verbatim>\<open>stage0/ast.h\<close> and \<^verbatim>\<open>stage0/ast.c\<close>: the syntax tree. A C \<open>Node *\<close> is a value of type
  \<open>node\<close>, with the null pointer as a constructor. Every node carries the address
  \<open>kai_new_node\<close> gave it (a counter of allocations), because the emitter tells bindings
  apart by pointer. The union \<open>v\<close> is a flags word and a typed payload; no kind uses both.
  \<open>wf_node\<close> is the layout the header file documents for each kind.
\<close>

datatype node_kind =
    N_PROGRAM | N_FN | N_PARAM | N_TYPE_DECL | N_TEST | N_IMPORT
  | N_TY_NAME | N_TY_LIST | N_TY_FN | N_TY_RECORD | N_TY_SUM | N_TY_ALIAS
  | N_TY_INFER | N_FIELD_DECL | N_VARIANT | N_LET | N_ASSERT | N_EXPR_STMT
  | N_INT | N_REAL | N_CHAR | N_STRING | N_BOOL | N_UNIT
  | N_IDENT | N_PLACEHOLDER | N_CALL | N_FIELD | N_INDEX | N_BINOP
  | N_UNOP | N_IF | N_MATCH | N_ARM | N_LAMBDA | N_RECORD_LIT
  | N_FIELD_INIT | N_LIST_LIT | N_RANGE_LIT | N_SPREAD | N_PIPE | N_BLOCK
  | N_PAT_WILD | N_PAT_LIT | N_PAT_BIND | N_PAT_LIST | N_PAT_VARIANT | N_PAT_RECORD
  | N_PAT_FIELD

datatype payload =
    V_none
  | is_V_int: V_int i64
  | is_V_real: V_real string
  | is_V_char: V_char u32
  | is_V_bool: V_bool bool
  | is_V_op: V_op (op_of: token_kind)

text \<open>
  \<open>V_real\<close> holds the digits \<open>decode_real\<close> hands to \<open>strtod\<close>, not the binary value:
  nothing in the front end computes with it.
\<close>

datatype node =
    NULL
  | Node (n_kind: node_kind) (n_id: nat) (n_line: nat) (n_col: nat) (n_name: string)
      (n_flags: nat) (n_val: payload) (n_children: "node list")

fun nk_name :: "node_kind \<Rightarrow> string" where
  "nk_name N_PROGRAM = ''program''"
| "nk_name N_FN = ''fn''"
| "nk_name N_PARAM = ''param''"
| "nk_name N_TYPE_DECL = ''type_decl''"
| "nk_name N_TEST = ''test''"
| "nk_name N_IMPORT = ''import''"
| "nk_name N_TY_NAME = ''ty_name''"
| "nk_name N_TY_LIST = ''ty_list''"
| "nk_name N_TY_FN = ''ty_fn''"
| "nk_name N_TY_RECORD = ''ty_record''"
| "nk_name N_TY_SUM = ''ty_sum''"
| "nk_name N_TY_ALIAS = ''ty_alias''"
| "nk_name N_TY_INFER = ''ty_infer''"
| "nk_name N_FIELD_DECL = ''field_decl''"
| "nk_name N_VARIANT = ''variant''"
| "nk_name N_LET = ''let''"
| "nk_name N_ASSERT = ''assert''"
| "nk_name N_EXPR_STMT = ''expr_stmt''"
| "nk_name N_INT = ''int''"
| "nk_name N_REAL = ''real''"
| "nk_name N_CHAR = ''char''"
| "nk_name N_STRING = ''string''"
| "nk_name N_BOOL = ''bool''"
| "nk_name N_UNIT = ''unit''"
| "nk_name N_IDENT = ''ident''"
| "nk_name N_PLACEHOLDER = ''placeholder''"
| "nk_name N_CALL = ''call''"
| "nk_name N_FIELD = ''field''"
| "nk_name N_INDEX = ''index''"
| "nk_name N_BINOP = ''binop''"
| "nk_name N_UNOP = ''unop''"
| "nk_name N_IF = ''if''"
| "nk_name N_MATCH = ''match''"
| "nk_name N_ARM = ''arm''"
| "nk_name N_LAMBDA = ''lambda''"
| "nk_name N_RECORD_LIT = ''record_lit''"
| "nk_name N_FIELD_INIT = ''field_init''"
| "nk_name N_LIST_LIT = ''list_lit''"
| "nk_name N_RANGE_LIT = ''range_lit''"
| "nk_name N_SPREAD = ''spread''"
| "nk_name N_PIPE = ''pipe''"
| "nk_name N_BLOCK = ''block''"
| "nk_name N_PAT_WILD = ''pat_wild''"
| "nk_name N_PAT_LIT = ''pat_lit''"
| "nk_name N_PAT_BIND = ''pat_bind''"
| "nk_name N_PAT_LIST = ''pat_list''"
| "nk_name N_PAT_VARIANT = ''pat_variant''"
| "nk_name N_PAT_RECORD = ''pat_record''"
| "nk_name N_PAT_FIELD = ''pat_field''"

section \<open>Operations\<close>

definition kai_new_node :: "node_kind \<Rightarrow> nat \<Rightarrow> nat \<Rightarrow> nat \<Rightarrow> node" where
  "kai_new_node k addr line col = Node k addr line col [] 0 V_none []"

fun kai_node_push :: "node \<Rightarrow> node \<Rightarrow> node" where
  "kai_node_push NULL child = NULL"
| "kai_node_push (Node k a l c nm fl v ch) child = Node k a l c nm fl v (ch @ [child])"

fun set_child :: "node \<Rightarrow> nat \<Rightarrow> node \<Rightarrow> node" where
  "set_child NULL i child = NULL"
| "set_child (Node k a l c nm fl v ch) i child = Node k a l c nm fl v (ch[i := child])"

fun set_name :: "node \<Rightarrow> string \<Rightarrow> node" where
  "set_name NULL s = NULL"
| "set_name (Node k a l c nm fl v ch) s = Node k a l c s fl v ch"

fun or_flags :: "node \<Rightarrow> nat \<Rightarrow> node" where
  "or_flags NULL b = NULL"
| "or_flags (Node k a l c nm fl v ch) b = Node k a l c nm (fl OR b) v ch"

fun set_val :: "node \<Rightarrow> payload \<Rightarrow> node" where
  "set_val NULL x = NULL"
| "set_val (Node k a l c nm fl v ch) x = Node k a l c nm fl x ch"

definition has_flag :: "node \<Rightarrow> nat \<Rightarrow> bool" where
  "has_flag n b \<longleftrightarrow> n_flags n AND b \<noteq> 0"

lemmas node_ops = kai_new_node_def has_flag_def

section \<open>Growth of the child array\<close>

text \<open>
  \<open>kai_node_push\<close> keeps no capacity: it recomputes one from the number of children, the
  smallest power of two, from 2, that is at least that number.
\<close>

function grow_to :: "nat \<Rightarrow> nat \<Rightarrow> nat" where
  "grow_to n cap = (if 0 < cap \<and> cap < n then grow_to n (cap * 2) else cap)"
  by pat_completeness auto
termination
  by (relation "measure (\<lambda>(n, cap). n - cap)") auto

declare grow_to.simps [simp del]

definition node_cap :: "nat \<Rightarrow> nat" where
  "node_cap n = (if n = 0 then 0 else grow_to n 2)"

text \<open>The size of the block behind \<open>children\<close> after a push onto \<open>n\<close> children.\<close>

definition alloc_after_push :: "nat \<Rightarrow> nat \<Rightarrow> nat" where
  "alloc_after_push n alloc =
     (let cap = node_cap n in
      if n \<ge> cap then (if cap = 0 then 2 else cap * 2) else alloc)"

fun alloc_of :: "nat \<Rightarrow> nat" where
  "alloc_of 0 = 0"
| "alloc_of (Suc n) = alloc_after_push n (alloc_of n)"

section \<open>Kinds of nodes\<close>

definition expr_kind :: "node_kind \<Rightarrow> bool" where
  "expr_kind k \<longleftrightarrow> k \<in> set [N_INT, N_REAL, N_CHAR, N_STRING, N_BOOL, N_UNIT, N_IDENT,
     N_PLACEHOLDER, N_CALL, N_FIELD, N_INDEX, N_BINOP, N_UNOP, N_IF, N_MATCH, N_LAMBDA,
     N_RECORD_LIT, N_LIST_LIT, N_RANGE_LIT, N_PIPE, N_BLOCK]"

definition type_kind :: "node_kind \<Rightarrow> bool" where
  "type_kind k \<longleftrightarrow> k \<in> set [N_TY_NAME, N_TY_LIST, N_TY_FN]"

definition pat_kind :: "node_kind \<Rightarrow> bool" where
  "pat_kind k \<longleftrightarrow> k \<in> set [N_PAT_WILD, N_PAT_LIT, N_PAT_BIND, N_PAT_LIST, N_PAT_VARIANT, N_PAT_RECORD]"

definition stmt_kind :: "node_kind \<Rightarrow> bool" where
  "stmt_kind k \<longleftrightarrow> k \<in> set [N_LET, N_ASSERT, N_EXPR_STMT]"

definition decl_kind :: "node_kind \<Rightarrow> bool" where
  "decl_kind k \<longleftrightarrow> k \<in> set [N_FN, N_TYPE_DECL, N_TEST, N_IMPORT]"

definition lit_kind :: "node_kind \<Rightarrow> bool" where
  "lit_kind k \<longleftrightarrow> k \<in> set [N_INT, N_REAL, N_CHAR, N_STRING, N_BOOL]"

lemmas kind_defs = expr_kind_def type_kind_def pat_kind_def stmt_kind_def decl_kind_def lit_kind_def

definition binop_kind :: "token_kind \<Rightarrow> bool" where
  "binop_kind k \<longleftrightarrow> k \<in> set [TK_OR, TK_AND, TK_EQEQ, TK_NEQ, TK_LT, TK_GT, TK_LE, TK_GE,
     TK_PLUS, TK_MINUS, TK_STAR, TK_SLASH, TK_SLASH_SLASH, TK_PERCENT]"

definition unop_kind :: "token_kind \<Rightarrow> bool" where
  "unop_kind k \<longleftrightarrow> k \<in> set [TK_MINUS, TK_NOT]"

section \<open>The documented layout\<close>

definition all_kinds :: "(node_kind \<Rightarrow> bool) \<Rightarrow> node list \<Rightarrow> bool" where
  "all_kinds P ch \<longleftrightarrow> list_all (\<lambda>c. P (n_kind c)) ch"

lemma all_kinds_simps [simp]:
  "all_kinds P []"
  "all_kinds P (c # cs) \<longleftrightarrow> P (n_kind c) \<and> all_kinds P cs"
  "all_kinds P (xs @ ys) \<longleftrightarrow> all_kinds P xs \<and> all_kinds P ys"
  by (simp_all add: all_kinds_def)

text \<open>The bits 0x1 and 0x2 of the flags.\<close>

abbreviation bit1 :: "nat \<Rightarrow> bool" where "bit1 fl \<equiv> fl AND 1 \<noteq> 0"
abbreviation bit2 :: "nat \<Rightarrow> bool" where "bit2 fl \<equiv> fl AND 2 \<noteq> 0"

fun layout :: "node_kind \<Rightarrow> string \<Rightarrow> nat \<Rightarrow> payload \<Rightarrow> node list \<Rightarrow> bool" where
  "layout N_PROGRAM nm fl v ch = (all_kinds decl_kind ch)"
| "layout N_FN nm fl v ch = (nm \<noteq> [] \<and> (case ch of ret # body # params
     \<Rightarrow> type_kind (n_kind ret) \<and> expr_kind (n_kind body) \<and> (\<not> bit2 fl
     \<longrightarrow> n_kind body = N_BLOCK) \<and> all_kinds (\<lambda>k. k = N_PARAM) params |
     _ \<Rightarrow> False))"
| "layout N_PARAM nm fl v ch = (nm \<noteq> [] \<and> length ch = 1 \<and> all_kinds type_kind
     ch)"
| "layout N_TYPE_DECL nm fl v ch = (nm \<noteq> [] \<and> (case ch of body # ps \<Rightarrow>
     n_kind body \<in> {N_TY_RECORD, N_TY_SUM, N_TY_ALIAS} \<and> all_kinds (\<lambda>k. k =
     N_IDENT) ps | [] \<Rightarrow> False))"
| "layout N_TEST nm fl v ch = (nm \<noteq> [] \<and> length ch = 1 \<and> all_kinds
     (\<lambda>k. k = N_BLOCK) ch)"
| "layout N_IMPORT nm fl v ch = (nm \<noteq> [] \<and> all_kinds (\<lambda>k. k = N_IDENT) ch
     \<and> (bit1 fl \<longrightarrow> length ch = 1))"
| "layout N_TY_NAME nm fl v ch = (nm \<noteq> [] \<and> all_kinds type_kind ch)"
| "layout N_TY_LIST nm fl v ch = (length ch = 1 \<and> all_kinds type_kind ch)"
| "layout N_TY_FN nm fl v ch = (ch \<noteq> [] \<and> all_kinds type_kind ch)"
| "layout N_TY_RECORD nm fl v ch = (all_kinds (\<lambda>k. k = N_FIELD_DECL) ch)"
| "layout N_TY_SUM nm fl v ch = (ch \<noteq> [] \<and> all_kinds (\<lambda>k. k = N_VARIANT)
     ch)"
| "layout N_TY_ALIAS nm fl v ch = (length ch = 1 \<and> all_kinds type_kind ch)"
| "layout N_TY_INFER nm fl v ch = (ch = [])"
| "layout N_FIELD_DECL nm fl v ch = (nm \<noteq> [] \<and> length ch = 1 \<and> all_kinds
     type_kind ch)"
| "layout N_VARIANT nm fl v ch = (nm \<noteq> [] \<and> all_kinds type_kind ch)"
| "layout N_LET nm fl v ch = ((case ch of [p, t, e] \<Rightarrow> pat_kind (n_kind p) \<and>
     (if bit1 fl then type_kind (n_kind t) else n_kind t = N_TY_INFER) \<and> expr_kind (n_kind
     e) | _ \<Rightarrow> False))"
| "layout N_ASSERT nm fl v ch = (length ch = (if bit1 fl then 2 else 1) \<and> all_kinds
     expr_kind ch)"
| "layout N_EXPR_STMT nm fl v ch = (length ch = 1 \<and> all_kinds expr_kind ch)"
| "layout N_INT nm fl v ch = (ch = [] \<and> is_V_int v)"
| "layout N_REAL nm fl v ch = (ch = [] \<and> is_V_real v)"
| "layout N_CHAR nm fl v ch = (ch = [] \<and> is_V_char v)"
| "layout N_STRING nm fl v ch = (nm \<noteq> [] \<and> ch = [])"
| "layout N_BOOL nm fl v ch = (ch = [] \<and> is_V_bool v)"
| "layout N_UNIT nm fl v ch = (ch = [])"
| "layout N_IDENT nm fl v ch = (nm \<noteq> [] \<and> ch = [])"
| "layout N_PLACEHOLDER nm fl v ch = (ch = [])"
| "layout N_CALL nm fl v ch = (ch \<noteq> [] \<and> all_kinds expr_kind ch \<and> fl = 0)"
| "layout N_FIELD nm fl v ch = (nm \<noteq> [] \<and> length ch = 1 \<and> all_kinds expr_kind
     ch)"
| "layout N_INDEX nm fl v ch = (length ch = 2 \<and> all_kinds expr_kind ch)"
| "layout N_BINOP nm fl v ch = (length ch = 2 \<and> all_kinds expr_kind ch \<and>
     is_V_op v \<and> binop_kind (op_of v))"
| "layout N_UNOP nm fl v ch = (length ch = 1 \<and> all_kinds expr_kind ch \<and> is_V_op v
     \<and> unop_kind (op_of v))"
| "layout N_IF nm fl v ch = ((case ch of c # t # r \<Rightarrow> expr_kind (n_kind c) \<and>
     n_kind t = N_BLOCK \<and> length r = (if bit1 fl then 1 else 0) \<and> all_kinds
     (\<lambda>k. k \<in> {N_IF, N_BLOCK}) r | _ \<Rightarrow> False))"
| "layout N_MATCH nm fl v ch = ((case ch of s # arms \<Rightarrow> expr_kind (n_kind s) \<and>
     all_kinds (\<lambda>k. k = N_ARM) arms | [] \<Rightarrow> False))"
| "layout N_ARM nm fl v ch = ((case ch of p # r \<Rightarrow> pat_kind (n_kind p) \<and> length
     r = (if bit1 fl then 2 else 1) \<and> all_kinds expr_kind r | [] \<Rightarrow> False))"
| "layout N_LAMBDA nm fl v ch = ((case ch of b # ps \<Rightarrow> expr_kind (n_kind b) \<and>
     all_kinds (\<lambda>k. k = N_IDENT) ps | [] \<Rightarrow> False))"
| "layout N_RECORD_LIT nm fl v ch = (nm \<noteq> [] \<and> all_kinds (\<lambda>k. k =
     N_FIELD_INIT) ch)"
| "layout N_FIELD_INIT nm fl v ch = (nm \<noteq> [] \<and> length ch = 1 \<and> all_kinds
     expr_kind ch)"
| "layout N_LIST_LIT nm fl v ch = (all_kinds (\<lambda>k. expr_kind k \<or> k = N_SPREAD) ch)"
| "layout N_RANGE_LIT nm fl v ch = (length ch = (if bit1 fl then 3 else 2) \<and> all_kinds
     expr_kind ch)"
| "layout N_SPREAD nm fl v ch = (length ch = 1 \<and> all_kinds expr_kind ch)"
| "layout N_PIPE nm fl v ch = (length ch = 2 \<and> all_kinds expr_kind ch)"
| "layout N_BLOCK nm fl v ch = (ch \<noteq> [] \<and> all_kinds stmt_kind (butlast ch) \<and>
     (if bit1 fl then expr_kind (n_kind (last ch)) else n_kind (last ch) = N_UNIT))"
| "layout N_PAT_WILD nm fl v ch = (ch = [])"
| "layout N_PAT_LIT nm fl v ch = (length ch = 1 \<and> all_kinds lit_kind ch)"
| "layout N_PAT_BIND nm fl v ch = (nm \<noteq> [] \<and> ch = [])"
| "layout N_PAT_LIST nm fl v ch = (all_kinds pat_kind ch \<and> (bit1 fl \<longrightarrow> ch
     \<noteq> [] \<and> n_kind (last ch) = N_PAT_BIND))"
| "layout N_PAT_VARIANT nm fl v ch = (nm \<noteq> [] \<and> all_kinds pat_kind ch)"
| "layout N_PAT_RECORD nm fl v ch = (all_kinds (\<lambda>k. k = N_PAT_FIELD) ch)"
| "layout N_PAT_FIELD nm fl v ch = (nm \<noteq> [] \<and> (case ch of [s] \<Rightarrow>
     pat_kind (n_kind s) \<and> (bit1 fl \<longrightarrow> n_kind s = N_PAT_BIND \<and> n_name s
     = nm) | _ \<Rightarrow> False))"

fun wf_node :: "node \<Rightarrow> bool" where
  "wf_node NULL = False"
| "wf_node (Node k a l c nm fl v ch) = (layout k nm fl v ch \<and> (\<forall>x\<in>set ch. wf_node x))"

lemma wf_node_not_NULL [simp]: "wf_node n \<Longrightarrow> n \<noteq> NULL"
  by auto

text \<open>Only blocks have \<open>let\<close> statements among their children.\<close>

lemma not_let [simp]:
  "\<not> expr_kind N_LET" "\<not> type_kind N_LET" "\<not> pat_kind N_LET" "\<not> decl_kind N_LET" "\<not> lit_kind N_LET"
  by (simp_all add: kind_defs)

lemma all_kinds_no_let: "all_kinds P ch \<Longrightarrow> \<not> P N_LET \<Longrightarrow> \<forall>x\<in>set ch. n_kind x \<noteq> N_LET"
  by (auto simp: all_kinds_def list_all_iff)

lemma layout_no_let:
  "layout k nm fl v ch \<Longrightarrow> k \<noteq> N_BLOCK \<Longrightarrow> \<forall>x\<in>set ch. n_kind x \<noteq> N_LET"
  by (cases k) (auto dest!: all_kinds_no_let split: list.splits if_splits)

text \<open>The same for a tree read from \<open>src\<close>: no string literal is longer than the text.\<close>

fun wf_in :: "string \<Rightarrow> node \<Rightarrow> bool" where
  "wf_in src NULL = False"
| "wf_in src (Node k a l c nm fl v ch) =
     (layout k nm fl v ch \<and> (k = N_STRING \<longrightarrow> length nm \<le> length src) \<and> (\<forall>x\<in>set ch. wf_in src x))"

lemma wf_in_wf_node: "wf_in src n \<Longrightarrow> wf_node n"
  by (induction n) auto

lemma wf_in_not_NULL [simp]: "wf_in src n \<Longrightarrow> n \<noteq> NULL"
  by auto

section \<open>Addresses\<close>

text \<open>The addresses of a tree, and the trees built between two states of the allocator.\<close>

fun ids :: "node \<Rightarrow> nat list" where
  "ids NULL = []"
| "ids (Node k a l c nm fl v ch) = a # concat (map ids ch)"

definition within :: "nat \<Rightarrow> nat \<Rightarrow> nat list \<Rightarrow> bool" where
  "within a b xs \<longleftrightarrow> distinct xs \<and> list_all (\<lambda>i. a \<le> i \<and> i < b) xs"

lemma within_Nil [simp]: "within a b []"
  by (simp add: within_def)

lemma within_append:
  "within a b xs \<Longrightarrow> within b c ys \<Longrightarrow> a \<le> b \<Longrightarrow> b \<le> c \<Longrightarrow> within a c (xs @ ys)"
  by (fastforce simp: within_def list_all_iff)

lemma within_append_later:
  "within b c xs \<Longrightarrow> within a b ys \<Longrightarrow> a \<le> b \<Longrightarrow> b \<le> c \<Longrightarrow> within a c (xs @ ys)"
  by (fastforce simp: within_def list_all_iff)

lemma within_append_later2:
  "within b c xs \<Longrightarrow> within c d ys \<Longrightarrow> within a b zs \<Longrightarrow> a \<le> b \<Longrightarrow> b \<le> c \<Longrightarrow> c \<le> d
    \<Longrightarrow> within a d (xs @ ys @ zs)"
  by (fastforce simp: within_def list_all_iff)

lemma within_first: "within (Suc a) b xs \<Longrightarrow> a < b \<Longrightarrow> within a b (a # xs)"
  by (fastforce simp: within_def list_all_iff)

lemma within_last: "within a b xs \<Longrightarrow> a \<le> b \<Longrightarrow> within a (Suc b) (b # xs)"
  by (fastforce simp: within_def list_all_iff)

lemma within_mono: "within a b xs \<Longrightarrow> a' \<le> a \<Longrightarrow> b \<le> b' \<Longrightarrow> within a' b' xs"
  by (fastforce simp: within_def list_all_iff)

section \<open>The child array never overflows\<close>

lemma grow_to_ge: "0 < cap \<Longrightarrow> n \<le> grow_to n cap \<and> cap \<le> grow_to n cap"
proof (induction n cap rule: grow_to.induct)
  case (1 n cap)
  then show ?case by (subst (1 2) grow_to.simps) fastforce
qed

lemma grow_to_same: "0 < cap \<Longrightarrow> n < grow_to n cap \<Longrightarrow> grow_to (Suc n) cap = grow_to n cap"
proof (induction n cap rule: grow_to.induct)
  case (1 n cap)
  show ?case
  proof (cases "cap < n")
    case True
    then have "grow_to n cap = grow_to n (cap * 2)" "grow_to (Suc n) cap = grow_to (Suc n) (cap * 2)"
      using 1 by (simp_all add: grow_to.simps [of n cap] grow_to.simps [of "Suc n" cap])
    then show ?thesis using 1 True by simp
  next
    case False
    then have "grow_to n cap = cap" by (simp add: grow_to.simps [of n cap])
    then show ?thesis using 1 by (simp add: grow_to.simps [of "Suc n" cap])
  qed
qed

lemma grow_to_double: "0 < cap \<Longrightarrow> n = grow_to n cap \<Longrightarrow> grow_to (Suc n) cap = n * 2"
proof (induction n cap rule: grow_to.induct)
  case (1 n cap)
  show ?case
  proof (cases "cap < n")
    case True
    then have "grow_to n cap = grow_to n (cap * 2)" "grow_to (Suc n) cap = grow_to (Suc n) (cap * 2)"
      using 1 by (simp_all add: grow_to.simps [of n cap] grow_to.simps [of "Suc n" cap])
    then show ?thesis using 1 True by simp
  next
    case False
    then have n: "n = cap" using 1 by (simp add: grow_to.simps [of n cap])
    then show ?thesis
      using 1(2) by (simp add: grow_to.simps [of "Suc cap" cap] grow_to.simps [of "Suc cap" "cap * 2"])
  qed
qed

lemma alloc_of_cap: "alloc_of n = node_cap n"
proof (induction n)
  case (Suc n)
  show ?case
  proof (cases "n = 0")
    case True
    then show ?thesis
      by (simp add: alloc_after_push_def node_cap_def grow_to.simps [of "Suc 0" 2])
  next
    case False
    have "n \<le> grow_to n 2" using grow_to_ge [of 2 n] by simp
    then consider "n = grow_to n 2" | "n < grow_to n 2" by linarith
    then show ?thesis
      using False Suc grow_to_double [of 2 n] grow_to_same [of 2 n]
      by cases (auto simp: alloc_after_push_def node_cap_def Let_def)
  qed
qed (simp add: node_cap_def)

text \<open>
  However many children are pushed, the write of \<open>kai_node_push\<close> lands inside the block
  \<open>realloc\<close> returned, although the capacity is not stored: the block always has exactly the
  size the next push recomputes from the number of children.
\<close>

theorem node_push_in_bounds:
  "n < alloc_of (Suc n) \<and> alloc_of n = node_cap n"
proof -
  have "Suc n \<le> grow_to (Suc n) 2" using grow_to_ge [of 2 "Suc n"] by simp
  then show ?thesis using alloc_of_cap [of "Suc n"] alloc_of_cap [of n] by (simp add: node_cap_def)
qed

end
