(* ===== verification/Kai_Decode.thy ===== *)
theory Kai_Decode
  imports Kai_Prelude
begin

text \<open>
  The literal decoders of \<^verbatim>\<open>stage0/parser.c\<close>: integers (with the wrap-around of a 64-bit
  register), the digit buffer handed to \<open>strtod\<close>, and character literals with their
  escapes and UTF-8 sequences. \<open>kai_utf8_encode\<close> of \<^verbatim>\<open>stage2/runtime/core_basic.h\<close>, which
  prints characters at run time, is the other half of the round trip.
\<close>

section \<open>Integers\<close>

fun decode_int_loop :: "i64 \<Rightarrow> string \<Rightarrow> i64" where
  "decode_int_loop v [] = v"
| "decode_int_loop v (c # cs) =
     (if c = CHR ''_'' then decode_int_loop v cs
      else if \<not> c_isdigit c then v
      else decode_int_loop (v * 10 + of_nat (ord_char c - 48)) cs)"

text \<open>The accumulator is signed in C and overflows for literals of \<open>2 ^ 63\<close> and more; here it wraps.\<close>

definition decode_int :: "string \<Rightarrow> i64" where
  "decode_int s =
     (if s \<noteq> [] \<and> hd s = CHR ''-'' then - decode_int_loop 0 (tl s) else decode_int_loop 0 s)"

text \<open>The value of the digits of a literal, separators left out.\<close>

definition digits_value :: "string \<Rightarrow> nat" where
  "digits_value s = foldl (\<lambda>n c. n * 10 + (ord_char c - 48)) 0 (filter c_isdigit s)"

lemma decode_int_loop_value:
  "list_all (\<lambda>c. c_isdigit c \<or> c = CHR ''_'') s \<Longrightarrow>
     decode_int_loop (of_nat n) s
       = of_nat (foldl (\<lambda>n c. n * 10 + (ord_char c - 48)) n (filter c_isdigit s))"
proof (induction s arbitrary: n)
  case (Cons c s)
  have "\<not> c_isdigit (CHR ''_'')" by (simp add: c_isdigit_def)
  moreover have "(of_nat n :: i64) * 10 + of_nat (ord_char c - 48)
      = of_nat (n * 10 + (ord_char c - 48))" by simp
  ultimately show ?case
    using Cons.prems Cons.IH [of n] Cons.IH [of "n * 10 + (ord_char c - 48)"]
    by (auto simp del: of_nat_add of_nat_mult)
qed simp

lemma decode_int_digits:
  assumes "list_all (\<lambda>c. c_isdigit c \<or> c = CHR ''_'') s"
  shows "decode_int s = of_nat (digits_value s)"
proof -
  have "\<not> (s \<noteq> [] \<and> hd s = CHR ''-'')"
    using assms by (cases s) (auto simp: c_isdigit_def)
  then show ?thesis
    using decode_int_loop_value [OF assms, of 0] by (auto simp: decode_int_def digits_value_def)
qed

section \<open>Reals\<close>

definition decode_real_buf :: "string \<Rightarrow> string" where
  "decode_real_buf s = take 127 (filter (\<lambda>c. c \<noteq> CHR ''_'') s)"

section \<open>Characters\<close>

definition u8_of :: "char \<Rightarrow> u32" where
  "u8_of c = of_nat (ord_char c)"

fun decode_hex_loop :: "u32 \<Rightarrow> string \<Rightarrow> u32" where
  "decode_hex_loop v [] = v"
| "decode_hex_loop v (c # cs) =
     (if c = CHR ''}'' then v
      else
        (let v = v * 16;
             n = ord_char c;
             v = (if c_isdigit c then v + of_nat (n - 48)
                  else if 97 \<le> n \<and> n \<le> 102 then v + of_nat (10 + n - 97)
                  else if 65 \<le> n \<and> n \<le> 70 then v + of_nat (10 + n - 65)
                  else v)
         in decode_hex_loop v cs))"

text \<open>\<open>s\<close> is the text from the \<open>u\<close> to the end of the literal's body.\<close>

definition decode_unicode_escape :: "string \<Rightarrow> u32" where
  "decode_unicode_escape s =
     (if length s \<le> 1 \<or> s ! 1 \<noteq> CHR ''{'' then 0 else decode_hex_loop 0 (drop 2 s))"

definition decode_utf8_char :: "char \<Rightarrow> string \<Rightarrow> u32" where
  "decode_utf8_char c rest =
     (let b0 = u8_of c;
          (v, extra) =
            (if b0 AND 0xE0 = 0xC0 then (b0 AND 0x1F, 1)
             else if b0 AND 0xF0 = 0xE0 then (b0 AND 0x0F, 2)
             else if b0 AND 0xF8 = 0xF0 then (b0 AND 0x07, 3)
             else (b0, 0))
      in if b0 < 0x80 then b0
         else foldl (\<lambda>v b. push_bit 6 v OR (u8_of b AND 0x3F)) v (take extra rest))"

definition decode_char :: "string \<Rightarrow> u32" where
  "decode_char s =
     (if length s < 2 then 0
      else let body = slice s 1 (length s - 1) in
        if s ! 1 = BSL then
          (case drop 1 body of
             [] \<Rightarrow> 0
           | c # cs \<Rightarrow>
               (if c = CHR ''n'' then 10
                else if c = CHR ''t'' then 9
                else if c = CHR ''r'' then 13
                else if c = BSL then 92
                else if c = SQ then 39
                else if c = DQ then 34
                else if c = CHR ''0'' then 0
                else if c = CHR ''u'' then decode_unicode_escape (c # cs)
                else u8_of c))
        else decode_utf8_char (s ! 1) (drop 1 body))"

section \<open>The encoder of the run-time system\<close>

text \<open>
  \<open>kai_utf8_encode\<close>: the one to four bytes of a code point. What is no scalar value (a
  surrogate, or past the last plane) is written as U+FFFD.
\<close>

definition byte_of :: "u32 \<Rightarrow> char" where
  "byte_of w = char_of (unat (w AND 0xFF))"

definition kai_utf8_encode :: "u32 \<Rightarrow> string" where
  "kai_utf8_encode cp0 =
     (let cp = (if cp0 > 0x10FFFF \<or> (cp0 \<ge> 0xD800 \<and> cp0 \<le> 0xDFFF) then 0xFFFD else cp0) in
      if cp < 0x80 then [byte_of cp]
      else if cp < 0x800 then
        [byte_of (0xC0 OR drop_bit 6 cp), byte_of (0x80 OR (cp AND 0x3F))]
      else if cp < 0x10000 then
        [byte_of (0xE0 OR drop_bit 12 cp), byte_of (0x80 OR (drop_bit 6 cp AND 0x3F)),
         byte_of (0x80 OR (cp AND 0x3F))]
      else
        [byte_of (0xF0 OR drop_bit 18 cp), byte_of (0x80 OR (drop_bit 12 cp AND 0x3F)),
         byte_of (0x80 OR (drop_bit 6 cp AND 0x3F)), byte_of (0x80 OR (cp AND 0x3F))])"

section \<open>Decoding what was encoded\<close>

lemma unat_take_bit_less: "unat (take_bit n (w :: u32)) < 2 ^ n"
  by (simp only: unsigned_take_bit_eq take_bit_nat_less_exp)

lemma u8_of_byte_of [simp]: "u8_of (byte_of w) = w AND 0xFF"
proof -
  have eq: "w AND 0xFF = take_bit 8 w" by (simp add: take_bit_eq_mask mask_eq_exp_minus_1)
  have "unat (take_bit 8 w) < 256" using unat_take_bit_less [of 8 w] by simp
  then show ?thesis by (simp add: u8_of_def byte_of_def eq)
qed

text \<open>The bit patterns of the lead and continuation bytes, checked one by one.\<close>

lemma small_word_cases:
  assumes "\<forall>x\<in>set [0..<k]. P (of_nat x :: u32)" and "unat w < k"
  shows "P w"
  using bspec [OF assms(1), of "unat w"] assms(2) by simp

lemma ascii_byte: "unat (w :: u32) < 128 \<Longrightarrow> w AND 0xFF = w"
  by (rule small_word_cases [where k = 128]) (simp_all add: upt_rec)

lemma lead2:
  "unat (w :: u32) < 32 \<Longrightarrow>
     ((0xC0 OR w) AND 0xFF) AND 0xE0 = 0xC0 \<and> ((0xC0 OR w) AND 0xFF) AND 0x1F = w
     \<and> \<not> ((0xC0 OR w) AND 0xFF) < 0x80"
  by (rule small_word_cases [where k = 32]) (simp_all add: upt_rec)

lemma lead3:
  "unat (w :: u32) < 16 \<Longrightarrow>
     ((0xE0 OR w) AND 0xFF) AND 0xE0 \<noteq> 0xC0 \<and> ((0xE0 OR w) AND 0xFF) AND 0xF0 = 0xE0
     \<and> ((0xE0 OR w) AND 0xFF) AND 0x0F = w \<and> \<not> ((0xE0 OR w) AND 0xFF) < 0x80"
  by (rule small_word_cases [where k = 16]) (simp_all add: upt_rec)

lemma lead4:
  "unat (w :: u32) < 8 \<Longrightarrow>
     ((0xF0 OR w) AND 0xFF) AND 0xE0 \<noteq> 0xC0 \<and> ((0xF0 OR w) AND 0xFF) AND 0xF0 \<noteq> 0xE0
     \<and> ((0xF0 OR w) AND 0xFF) AND 0xF8 = 0xF0
     \<and> ((0xF0 OR w) AND 0xFF) AND 0x07 = w \<and> \<not> ((0xF0 OR w) AND 0xFF) < 0x80"
  by (rule small_word_cases [where k = 8]) (simp_all add: upt_rec)

lemma cont_byte: "((0x80 OR ((w :: u32) AND 0x3F)) AND 0xFF) AND 0x3F = w AND 0x3F"
proof -
  have eq: "w AND 0x3F = take_bit 6 w" by (simp add: take_bit_eq_mask mask_eq_exp_minus_1)
  have "unat (take_bit 6 w) < 64" using unat_take_bit_less [of 6 w] by simp
  then show ?thesis unfolding eq
    by (rule small_word_cases [where k = 64, rotated]) (simp add: upt_rec)
qed

lemma sextet_step: "push_bit 6 (drop_bit (n + 6) w) OR (drop_bit n w AND 0x3F) = drop_bit n (w :: u32)"
proof -
  have "drop_bit n w AND 0x3F = take_bit 6 (drop_bit n w)"
    by (simp add: take_bit_eq_mask mask_eq_exp_minus_1)
  moreover have "drop_bit (n + 6) w = drop_bit 6 (drop_bit n w)" by (simp add: add.commute)
  moreover have "push_bit 6 (drop_bit 6 v) OR take_bit 6 v = v" for v :: u32
    by (rule bit_eqI) (auto simp: bit_simps)
  ultimately show ?thesis by (metis drop_bit_drop_bit)
qed

lemmas sextets = sextet_step [of 0, simplified] sextet_step [of 6, simplified]
  sextet_step [of 12, simplified]

lemma unat_drop: "unat (drop_bit n (w :: u32)) = unat w div 2 ^ n"
proof -
  have w: "take_bit LENGTH(32) (unat w) = unat w"
    by (rule take_bit_nat_eq_self) (use unsigned_less [of w] in simp)
  have "unat (drop_bit n w) = drop_bit n (take_bit LENGTH(32) (unat w))"
    by (rule unsigned_drop_bit_eq)
  then show ?thesis unfolding w by (simp only: drop_bit_eq_div)
qed

lemma byte_of_not_BSL:
  "w AND 0xFF \<noteq> 92 \<Longrightarrow> byte_of w \<noteq> BSL"
  using u8_of_byte_of [of w] by (auto simp: u8_of_def)

lemma decode_char_body:
  assumes "b \<noteq> BSL"
  shows "decode_char (SQ # b # cs @ [SQ]) = decode_utf8_char b cs"
  using assms by (simp add: decode_char_def slice_def)

text \<open>A code point the encoder keeps as it is.\<close>

definition scalar_value :: "u32 \<Rightarrow> bool" where
  "scalar_value cp \<longleftrightarrow> cp \<le> 0x10FFFF \<and> \<not> (0xD800 \<le> cp \<and> cp \<le> 0xDFFF)"

lemma decode_utf8_encode:
  assumes "scalar_value cp"
  shows "\<exists>b cs. kai_utf8_encode cp = b # cs \<and> decode_utf8_char b cs = cp \<and> (b = BSL \<longrightarrow> cp = 92)"
proof -
  have clamp: "\<not> (cp > 0x10FFFF \<or> (cp \<ge> 0xD800 \<and> cp \<le> 0xDFFF))"
    using assms by (auto simp: scalar_value_def)
  note enc = kai_utf8_encode_def [of cp, unfolded if_not_P [OF clamp] Let_def]
  have bsl: "byte_of w = BSL \<Longrightarrow> w AND 0xFF = 92" for w
    using byte_of_not_BSL by blast
  consider (one) "unat cp < 0x80" | (two) "\<not> unat cp < 0x80" "unat cp < 0x800"
    | (three) "\<not> unat cp < 0x800" "unat cp < 0x10000"
    | (four) "\<not> unat cp < 0x10000" "unat cp \<le> 0x10FFFF"
    using clamp by (auto simp: word_le_nat_alt word_less_nat_alt)
  then show ?thesis
  proof cases
    case one
    then have eq: "cp AND 0xFF = cp" by (rule ascii_byte)
    have enc1: "kai_utf8_encode cp = [byte_of cp]"
      using one by (simp add: enc word_less_nat_alt)
    have "decode_utf8_char (byte_of cp) [] = cp"
      using one by (simp add: decode_utf8_char_def eq word_less_nat_alt split: prod.splits)
    then show ?thesis using bsl [of cp] eq enc1 by auto
  next
    case two
    then have d: "unat (drop_bit 6 cp) < 32" by (simp only: unat_drop) simp
    note l = lead2 [OF d]
    have "kai_utf8_encode cp =
        [byte_of (0xC0 OR drop_bit 6 cp), byte_of (0x80 OR (cp AND 0x3F))]"
      using two by (simp add: enc word_less_nat_alt del: drop_bit_eq_div)
    then show ?thesis
      using l bsl sextets(1) [of cp] cont_byte [of cp]
      by (auto simp: decode_utf8_char_def simp del: push_bit_eq_mult)
  next
    case three
    then have d: "unat (drop_bit 12 cp) < 16" by (simp only: unat_drop) simp
    note l = lead3 [OF d]
    have "kai_utf8_encode cp =
        [byte_of (0xE0 OR drop_bit 12 cp), byte_of (0x80 OR (drop_bit 6 cp AND 0x3F)),
         byte_of (0x80 OR (cp AND 0x3F))]"
      using three by (simp add: enc word_less_nat_alt del: drop_bit_eq_div)
    then show ?thesis
      using l bsl sextets(1,2) [of cp] cont_byte
      by (auto simp: decode_utf8_char_def simp del: push_bit_eq_mult)
  next
    case four
    then have d: "unat (drop_bit 18 cp) < 8" by (simp only: unat_drop) simp
    note l = lead4 [OF d]
    have "kai_utf8_encode cp =
        [byte_of (0xF0 OR drop_bit 18 cp), byte_of (0x80 OR (drop_bit 12 cp AND 0x3F)),
         byte_of (0x80 OR (drop_bit 6 cp AND 0x3F)), byte_of (0x80 OR (cp AND 0x3F))]"
      using four by (simp add: enc word_less_nat_alt del: drop_bit_eq_div)
    then show ?thesis
      using l bsl sextets [of cp] cont_byte
      by (auto simp: decode_utf8_char_def simp del: push_bit_eq_mult)
  qed
qed

text \<open>
  C32: Every Unicode scalar value the run-time encoder can print is read back by the compiler: the
  encoder's bytes between single quotes, or a doubled backslash for the backslash, which on its own
  starts an escape, are a literal that \<open>decode_char\<close> maps to the same code point.
\<close>

theorem decode_char_of_encoded:
  assumes "scalar_value cp"
  shows "decode_char (SQ # (if cp = 92 then [BSL, BSL] else kai_utf8_encode cp) @ [SQ]) = cp"
proof (cases "cp = 92")
  case True
  have "decode_char (SQ # [BSL, BSL] @ [SQ]) = 92" by code_simp
  then show ?thesis using True by simp
next
  case False
  obtain b cs where e: "kai_utf8_encode cp = b # cs" and d: "decode_utf8_char b cs = cp"
    and "b = BSL \<longrightarrow> cp = 92"
    using decode_utf8_encode [OF assms(1)] by blast
  with False have "b \<noteq> BSL" by blast
  then show ?thesis using decode_char_body [of b cs] False by (simp add: e d)
qed

lemma decode_char_of_encoded_witness:
  "decode_char (SQ # kai_utf8_encode 0x1F600 @ [SQ]) = 0x1F600"
  using decode_char_of_encoded [of "0x1F600"] by (simp add: scalar_value_def)

text \<open>
  An integer literal below \<open>2 ^ 63\<close> is decoded to its value: on a run of digits and
  separators \<open>decode_int\<close> yields the non-negative 64-bit integer the digits write in base
  ten. At \<open>2 ^ 63\<close> and above the C code overflows a signed integer.
\<close>

theorem decode_int_value:
  assumes "list_all (\<lambda>c. c_isdigit c \<or> c = CHR ''_'') s" and "digits_value s < 2 ^ 63"
  shows "sint (decode_int s) = int (digits_value s)"
proof -
  have "sint (of_nat (digits_value s) :: i64) = int (digits_value s)"
    using assms(2) by (simp add: signed_of_nat signed_take_bit_int_eq_self)
  then show ?thesis by (simp add: decode_int_digits [OF assms(1)])
qed

lemma decode_int_value_witness: "sint (decode_int ''1_234'') = 1234"
proof -
  have "digits_value ''1_234'' = 1234" by (simp add: digits_value_def c_isdigit_def)
  then show ?thesis using decode_int_value [of "''1_234''"] by (simp add: c_isdigit_def)
qed

end
