(* ===== verification/Kai_Parser_Base.thy ===== *)
theory Kai_Parser_Base
  imports Kai_Ast Kai_Decode
begin

text \<open>
  The parser state of \<^verbatim>\<open>stage0/parser_internal.h\<close> and the token-cursor helpers of
  \<^verbatim>\<open>stage0/parser.c\<close>, with the contract every \<open>parse_*\<close> function is shown to meet.

  A parse function returns \<open>'a option \<times> pst\<close>: \<open>None\<close> is the null pointer, and \<open>pbind\<close> is the
  \<open>if (!x) return NULL\<close> after a call. Three components have no counterpart in the C struct:
  \<open>p_heap\<close> is the address the next \<open>kai_new_node\<close> returns, \<open>p_ub\<close> records that the cursor left
  the token array, and \<open>p_spent\<close> that the recursion ran out of fuel. Both stay \<open>False\<close>, which is
  part of the contract. Memory that a failing function frees is not tracked.
\<close>

section \<open>Diagnostics\<close>

record diag =
  d_line :: nat
  d_col :: nat
  d_msg :: string
  d_excerpt :: string
  d_marker :: string

definition line_start :: "string \<Rightarrow> nat \<Rightarrow> nat" where
  "line_start src s = s - length (takeWhile (\<lambda>c. c \<noteq> NL) (rev (take s src)))"

definition diag_of :: "string \<Rightarrow> token \<Rightarrow> string \<Rightarrow> diag" where
  "diag_of src t msg =
     (let s = line_start src (t_start t);
          e = tok_end t;
          e = e + length (takeWhile (\<lambda>c. c \<noteq> NUL \<and> c \<noteq> NL) (drop e src))
      in \<lparr>d_line = t_line t, d_col = t_col t, d_msg = msg, d_excerpt = slice src s e,
          d_marker = replicate (t_col t - 1) (CHR '' '')
            @ CHR ''^'' # replicate (t_length t - 1) (CHR ''~'')\<rparr>)"

section \<open>The parser state\<close>

record pst =
  p_src :: string
  p_toks :: "token list"
  p_i :: nat
  p_err :: bool
  p_log :: "diag list"
  p_heap :: nat
  p_ub :: bool
  p_spent :: bool

type_synonym 'a pres = "'a option \<times> pst"

abbreviation (input) fail :: "pst \<Rightarrow> 'a pres" where "fail p \<equiv> (None, p)"
abbreviation (input) ret :: "'a \<Rightarrow> pst \<Rightarrow> 'a pres" where "ret x p \<equiv> (Some x, p)"

definition pbind :: "'a pres \<Rightarrow> ('a \<Rightarrow> pst \<Rightarrow> 'b pres) \<Rightarrow> 'b pres" where
  "pbind r k = (case r of (None, p) \<Rightarrow> (None, p) | (Some x, p) \<Rightarrow> k x p)"

definition out_of_fuel :: "pst \<Rightarrow> 'a pres" where
  "out_of_fuel p = (None, p\<lparr>p_spent := True\<rparr>)"

definition no_token :: token where
  "no_token = \<lparr>t_kind = TK_EOF, t_line = 0, t_col = 0, t_start = 0, t_length = 0\<rparr>"

definition tok_at :: "pst \<Rightarrow> nat \<Rightarrow> token" where
  "tok_at p j = (if j < length (p_toks p) then p_toks p ! j else no_token)"

definition peek_tok :: "pst \<Rightarrow> token" where
  "peek_tok p = tok_at p (p_i p)"

definition peek_kind :: "pst \<Rightarrow> token_kind" where
  "peek_kind p = t_kind (peek_tok p)"

definition peek_kind_n :: "pst \<Rightarrow> nat \<Rightarrow> token_kind" where
  "peek_kind_n p off =
     (let j = p_i p + off in
      if j \<ge> length (p_toks p) then TK_EOF else t_kind (p_toks p ! j))"

text \<open>\<open>p->i++\<close>\<close>

definition bump :: "pst \<Rightarrow> pst" where
  "bump p = p\<lparr>p_i := Suc (p_i p), p_ub := p_ub p \<or> Suc (p_i p) \<ge> length (p_toks p)\<rparr>"

text \<open>The tokens from the cursor on: the measure of every loop.\<close>

definition p_left :: "pst \<Rightarrow> nat" where
  "p_left p = length (p_toks p) - p_i p"

function skip_newlines :: "pst \<Rightarrow> pst" where
  "skip_newlines p = (if peek_kind p = TK_NEWLINE then skip_newlines (bump p) else p)"
  by pat_completeness auto

lemma peek_kind_left: "peek_kind p \<noteq> TK_EOF \<Longrightarrow> p_left (bump p) < p_left p"
  by (auto simp: peek_kind_def peek_tok_def tok_at_def p_left_def bump_def no_token_def split: if_splits)

termination skip_newlines
  by (relation "measure p_left") (auto intro: peek_kind_left)

function skip_newlines_and_semis :: "pst \<Rightarrow> pst" where
  "skip_newlines_and_semis p =
     (if peek_kind p = TK_NEWLINE \<or> peek_kind p = TK_SEMI then skip_newlines_and_semis (bump p) else p)"
  by pat_completeness auto
termination
  by (relation "measure p_left") (auto intro: peek_kind_left)

declare skip_newlines.simps [simp del] skip_newlines_and_semis.simps [simp del]

definition p_at :: "pst \<Rightarrow> token_kind \<Rightarrow> bool" where
  "p_at p k = (peek_kind p = k)"

definition p_match :: "token_kind \<Rightarrow> pst \<Rightarrow> bool \<times> pst" where
  "p_match k p = (if peek_kind p = k then (True, bump p) else (False, p))"

definition error_at :: "token \<Rightarrow> string \<Rightarrow> pst \<Rightarrow> pst" where
  "error_at t msg p =
     (let p = (if \<not> p_err p then p\<lparr>p_log := p_log p @ [diag_of (p_src p) t msg]\<rparr> else p)
      in p\<lparr>p_err := True\<rparr>)"

definition error_here :: "string \<Rightarrow> pst \<Rightarrow> pst" where
  "error_here msg p = error_at (peek_tok p) msg p"

definition expect :: "token_kind \<Rightarrow> string \<Rightarrow> pst \<Rightarrow> token pres" where
  "expect k msg p =
     (if peek_kind p = k then ret (peek_tok p) (bump p) else fail (error_here msg p))"

definition is_uppercase_ident :: "token \<Rightarrow> string \<Rightarrow> bool" where
  "is_uppercase_ident t src =
     (if t_kind t \<noteq> TK_IDENT \<or> t_length t = 0 then False else c_isupper (byte_at src (t_start t)))"

definition set_name_from_token :: "node \<Rightarrow> token \<Rightarrow> pst \<Rightarrow> node" where
  "set_name_from_token n t p = set_name n (tok_text (p_src p) t)"

text \<open>\<open>kai_new_node\<close> at the next free address.\<close>

definition alloc :: "node_kind \<Rightarrow> nat \<Rightarrow> nat \<Rightarrow> pst \<Rightarrow> node \<times> pst" where
  "alloc k line col p = (kai_new_node k (p_heap p) line col, p\<lparr>p_heap := Suc (p_heap p)\<rparr>)"

section \<open>The contract\<close>

text \<open>
  The token arrays the parser is given: the last token is the end-of-file token, every other
  kind of token covers some text, and they are in source order.
\<close>

definition toks_ok :: "string \<Rightarrow> token list \<Rightarrow> bool" where
  "toks_ok src toks \<longleftrightarrow> toks \<noteq> [] \<and> t_kind (last toks) = TK_EOF
     \<and> list_all (\<lambda>t. t_kind t \<noteq> TK_EOF \<longrightarrow> tok_text src t \<noteq> []) toks
     \<and> sorted_wrt (\<lambda>a b. tok_end a \<le> t_start b) toks"

definition log_ok :: "pst \<Rightarrow> bool" where
  "log_ok p \<longleftrightarrow>
     (if p_err p then \<exists>t\<in>set (p_toks p). \<exists>msg. p_log p = [diag_of (p_src p) t msg] else p_log p = [])"

definition sane :: "pst \<Rightarrow> bool" where
  "sane p \<longleftrightarrow> toks_ok (p_src p) (p_toks p) \<and> p_i p < length (p_toks p)
     \<and> \<not> p_ub p \<and> \<not> p_spent p \<and> log_ok p"

text \<open>What any piece of the parser does to the state, and what a piece that has not failed does.\<close>

definition moves :: "pst \<Rightarrow> pst \<Rightarrow> bool" where
  "moves p q \<longleftrightarrow> sane q \<and> p_src q = p_src p \<and> p_toks q = p_toks p
     \<and> p_i p \<le> p_i q \<and> p_heap p \<le> p_heap q"

definition reach :: "pst \<Rightarrow> pst \<Rightarrow> bool" where
  "reach p q \<longleftrightarrow> moves p q \<and> p_err q = p_err p"

text \<open>
  \<open>good p Q r\<close>: started at \<open>p\<close>, a function returned \<open>r\<close>; a null result comes with a logged
  error, and a result \<open>x\<close> satisfies \<open>Q\<close> and leaves the error flag as it was.
\<close>

definition good :: "pst \<Rightarrow> ('a \<Rightarrow> pst \<Rightarrow> bool) \<Rightarrow> 'a pres \<Rightarrow> bool" where
  "good p Q r \<longleftrightarrow>
     (case r of (None, q) \<Rightarrow> moves p q \<and> p_err q | (Some x, q) \<Rightarrow> reach p q \<and> Q x q)"

section \<open>Rules for the cursor\<close>

lemma pbind_simps [simp]:
  "pbind (None, p) k = (None, p)"
  "pbind (Some x, p) k = k x p"
  by (simp_all add: pbind_def)

lemma case_p_match [simp]:
  "(case p_match k p of (b, q) \<Rightarrow> f b q) = (if peek_kind p = k then f True (bump p) else f False p)"
  by (simp add: p_match_def)

lemma pbind_expect [simp]:
  "pbind (expect k msg p) f =
     (if peek_kind p = k then f (peek_tok p) (bump p) else fail (error_here msg p))"
  by (simp add: expect_def)

lemma bump_fields [simp]:
  "p_src (bump p) = p_src p" "p_toks (bump p) = p_toks p" "p_i (bump p) = Suc (p_i p)"
  "p_heap (bump p) = p_heap p" "p_err (bump p) = p_err p"
  by (simp_all add: bump_def)

lemma peek_heap [simp]:
  "peek_kind (p\<lparr>p_heap := h\<rparr>) = peek_kind p" "peek_tok (p\<lparr>p_heap := h\<rparr>) = peek_tok p"
  "peek_kind_n (p\<lparr>p_heap := h\<rparr>) j = peek_kind_n p j"
  "p_left (p\<lparr>p_heap := h\<rparr>) = p_left p"
  by (simp_all add: peek_kind_def peek_tok_def peek_kind_n_def tok_at_def p_left_def Let_def)

lemma sane_heap [simp]: "sane (p\<lparr>p_heap := h\<rparr>) = sane p"
  by (simp add: sane_def log_ok_def)

lemma peek_tok_in: "sane p \<Longrightarrow> peek_tok p \<in> set (p_toks p)"
  by (simp add: sane_def peek_tok_def tok_at_def)

lemma sane_bump: "sane p \<Longrightarrow> peek_kind p \<noteq> TK_EOF \<Longrightarrow> sane (bump p)"
proof -
  assume s: "sane p" and k: "peek_kind p \<noteq> TK_EOF"
  have "p_i p \<noteq> length (p_toks p) - 1"
    using s k by (auto simp: sane_def toks_ok_def peek_kind_def peek_tok_def tok_at_def last_conv_nth)
  then show ?thesis using s by (auto simp: sane_def bump_def log_ok_def)
qed

lemma skip_newlines_step:
  "p_src (skip_newlines p) = p_src p \<and> p_toks (skip_newlines p) = p_toks p
   \<and> p_heap (skip_newlines p) = p_heap p \<and> p_err (skip_newlines p) = p_err p
   \<and> p_i p \<le> p_i (skip_newlines p) \<and> (sane p \<longrightarrow> sane (skip_newlines p))"
proof (induction p rule: skip_newlines.induct)
  case (1 p)
  then show ?case
    by (cases "peek_kind p = TK_NEWLINE") (auto simp: skip_newlines.simps [of p] sane_bump)
qed

lemma skip_newlines_fields [simp]:
  "p_src (skip_newlines p) = p_src p" "p_toks (skip_newlines p) = p_toks p"
  "p_heap (skip_newlines p) = p_heap p" "p_err (skip_newlines p) = p_err p"
  "p_i p \<le> p_i (skip_newlines p)"
  by (simp_all add: skip_newlines_step)

lemma skip_newlines_and_semis_step:
  "p_src (skip_newlines_and_semis p) = p_src p \<and> p_toks (skip_newlines_and_semis p) = p_toks p
   \<and> p_heap (skip_newlines_and_semis p) = p_heap p \<and> p_err (skip_newlines_and_semis p) = p_err p
   \<and> p_i p \<le> p_i (skip_newlines_and_semis p) \<and> (sane p \<longrightarrow> sane (skip_newlines_and_semis p))"
proof (induction p rule: skip_newlines_and_semis.induct)
  case (1 p)
  then show ?case
    by (cases "peek_kind p = TK_NEWLINE \<or> peek_kind p = TK_SEMI") (auto simp: skip_newlines_and_semis.simps [of p] sane_bump)
qed

lemma skip_newlines_and_semis_fields [simp]:
  "p_src (skip_newlines_and_semis p) = p_src p" "p_toks (skip_newlines_and_semis p) = p_toks p"
  "p_heap (skip_newlines_and_semis p) = p_heap p" "p_err (skip_newlines_and_semis p) = p_err p"
  "p_i p \<le> p_i (skip_newlines_and_semis p)"
  by (simp_all add: skip_newlines_and_semis_step)

lemma sane_skip_newlines: "sane p \<Longrightarrow> sane (skip_newlines p)"
  by (simp add: skip_newlines_step)

lemma sane_skip_newlines_and_semis: "sane p \<Longrightarrow> sane (skip_newlines_and_semis p)"
  by (simp add: skip_newlines_and_semis_step)

lemma moves_refl: "sane p \<Longrightarrow> moves p p"
  by (simp add: moves_def)

lemma moves_trans: "moves p q \<Longrightarrow> moves q r \<Longrightarrow> moves p r"
  by (auto simp: moves_def)

lemma reach_refl: "sane p \<Longrightarrow> reach p p"
  by (simp add: reach_def moves_refl)

lemma reach_trans: "reach p q \<Longrightarrow> reach q r \<Longrightarrow> reach p r"
  by (auto simp: reach_def intro: moves_trans)

lemma reach_sane: "reach p q \<Longrightarrow> sane q"
  by (simp add: reach_def moves_def)

lemma reach_le: "reach p q \<Longrightarrow> p_i p \<le> p_i q" "reach p q \<Longrightarrow> p_heap p \<le> p_heap q"
  by (simp_all add: reach_def moves_def)

lemma reach_same: "reach p q \<Longrightarrow> p_src q = p_src p" "reach p q \<Longrightarrow> p_toks q = p_toks p"
  by (simp_all add: reach_def moves_def)

lemma reach_bump: "reach p q \<Longrightarrow> peek_kind q \<noteq> TK_EOF \<Longrightarrow> reach p (bump q)"
  using sane_bump [of q] by (simp add: reach_def moves_def)

lemma reach_bump_kind: "peek_kind q = k \<Longrightarrow> k \<noteq> TK_EOF \<Longrightarrow> reach p q \<Longrightarrow> reach p (bump q)"
  by (simp add: reach_bump)

lemma reach_skip: "reach p q \<Longrightarrow> reach p (skip_newlines q)"
  using sane_skip_newlines [of q] by (auto simp: reach_def moves_def intro: le_trans [OF _ skip_newlines_fields(5)])

lemma reach_skip_semis: "reach p q \<Longrightarrow> reach p (skip_newlines_and_semis q)"
  using sane_skip_newlines_and_semis [of q]
  by (auto simp: reach_def moves_def intro: le_trans [OF _ skip_newlines_and_semis_fields(5)])

lemma reach_heap: "reach p q \<Longrightarrow> p_heap q \<le> h \<Longrightarrow> reach p (q\<lparr>p_heap := h\<rparr>)"
  by (simp add: reach_def moves_def)

lemmas reach_intros = reach_skip reach_skip_semis reach_heap reach_bump_kind reach_bump

text \<open>Strict progress of the cursor.\<close>

lemma ahead_bump: "reach p q \<Longrightarrow> p_i p < p_i (bump q)"
  using reach_le(1) [of p q] by simp

lemma ahead_skip: "p_i p < p_i q \<Longrightarrow> p_i p < p_i (skip_newlines q)"
  using skip_newlines_fields(5) [of q] by linarith

lemma ahead_skip_semis: "p_i p < p_i q \<Longrightarrow> p_i p < p_i (skip_newlines_and_semis q)"
  using skip_newlines_and_semis_fields(5) [of q] by linarith

lemma ahead_heap: "p_i p < p_i q \<Longrightarrow> p_i p < p_i (q\<lparr>p_heap := h\<rparr>)"
  by simp

lemma behind_skip: "p_i p \<le> p_i q \<Longrightarrow> p_i p \<le> p_i (skip_newlines q)"
  using skip_newlines_fields(5) [of q] by linarith

lemma behind_skip_Suc: "p_i p \<le> p_i q \<Longrightarrow> p_i p < Suc (p_i (skip_newlines q))"
  using skip_newlines_fields(5) [of q] by linarith

lemmas ahead_intros = behind_skip behind_skip_Suc ahead_bump ahead_skip ahead_skip_semis ahead_heap

lemma left_less:
  assumes "reach p q" "p_i p < p_i q" "p_left p \<le> N"
  shows "p_left q < N"
  using assms by (auto simp: reach_def moves_def sane_def p_left_def)

lemma length_tok_text [simp]: "length (tok_text src t) \<le> length src"
  by (simp add: tok_text_def)

section \<open>Rules for results\<close>

lemma good_ret: "reach p q \<Longrightarrow> Q x q \<Longrightarrow> good p Q (ret x q)"
  by (simp add: good_def)

lemma moves_error_at:
  assumes "reach p q" "t \<in> set (p_toks p)"
  shows "moves p (error_at t msg q) \<and> p_err (error_at t msg q)"
proof -
  have "log_ok (error_at t msg q)"
    using assms by (auto simp: error_at_def reach_def moves_def sane_def log_ok_def)
  then show ?thesis using assms by (auto simp: error_at_def reach_def moves_def sane_def Let_def)
qed

lemma good_error_at: "reach p q \<Longrightarrow> t \<in> set (p_toks p) \<Longrightarrow> good p Q (fail (error_at t msg q))"
  by (simp add: good_def moves_error_at)

lemma good_error_here: "reach p q \<Longrightarrow> good p Q (fail (error_here msg q))"
  using peek_tok_in [of q] by (simp add: error_here_def good_error_at reach_same reach_sane)

lemma good_bind:
  assumes "good q R m" "reach p q"
    and k: "\<And>x q'. reach q q' \<Longrightarrow> reach p q' \<Longrightarrow> R x q' \<Longrightarrow> good p Q (k x q')"
  shows "good p Q (pbind m k)"
proof -
  obtain r q' where m: "m = (r, q')" by fastforce
  show ?thesis
  proof (cases r)
    case None
    then show ?thesis using assms(1,2) m
      by (auto simp: good_def reach_def intro: moves_trans)
  next
    case (Some x)
    then have "reach q q'" "R x q'" using assms(1) m by (simp_all add: good_def)
    moreover have "reach p q'" using \<open>reach q q'\<close> assms(2) by (blast intro: reach_trans)
    ultimately show ?thesis using k [of q' x] Some m by simp
  qed
qed

lemma good_tail:
  assumes "good q R m" "reach p q"
    and "\<And>x q'. reach q q' \<Longrightarrow> reach p q' \<Longrightarrow> R x q' \<Longrightarrow> Q x q'"
  shows "good p Q m"
proof -
  have "good p Q (pbind m ret)" by (rule good_bind [OF assms(1,2)]) (simp add: good_ret assms(3))
  moreover have "pbind m ret = m" by (cases m; cases "fst m") simp_all
  ultimately show ?thesis by simp
qed

lemma good_if:
  "(b \<Longrightarrow> good p Q x) \<Longrightarrow> (\<not> b \<Longrightarrow> good p Q y) \<Longrightarrow> good p Q (if b then x else y)"
  by simp

text \<open>A parsed node: progress, the documented layout, addresses from this call.\<close>

definition parsed :: "(node \<Rightarrow> bool) \<Rightarrow> pst \<Rightarrow> node \<Rightarrow> pst \<Rightarrow> bool" where
  "parsed K p x q \<longleftrightarrow> p_i p < p_i q \<and> wf_in (p_src p) x \<and> K x \<and> within (p_heap p) (p_heap q) (ids x)"

abbreviation parses :: "(node \<Rightarrow> bool) \<Rightarrow> pst \<Rightarrow> node pres \<Rightarrow> bool" where
  "parses K p r \<equiv> good p (parsed K p) r"

abbreviation is_expr :: "node \<Rightarrow> bool" where "is_expr x \<equiv> expr_kind (n_kind x)"
abbreviation is_pat :: "node \<Rightarrow> bool" where "is_pat x \<equiv> pat_kind (n_kind x)"
abbreviation is_type :: "node \<Rightarrow> bool" where "is_type x \<equiv> type_kind (n_kind x)"
abbreviation is_k :: "node_kind \<Rightarrow> node \<Rightarrow> bool" where "is_k k x \<equiv> n_kind x = k"

lemma bind_parses:
  assumes "parses K q m" "reach p q"
    and "\<And>x q'. \<lbrakk>reach p q'; p_src q' = p_src p; p_i p < p_i q'; p_i q < p_i q'; p_heap p \<le> p_heap q'; p_heap q \<le> p_heap q';
           wf_in (p_src p) x; K x; within (p_heap q) (p_heap q') (ids x)\<rbrakk> \<Longrightarrow> good p Q (k x q')"
  shows "good p Q (pbind m k)"
proof (rule good_bind [OF assms(1,2)])
  fix x q' assume a: "reach q q'" "reach p q'" "parsed K q x q'"
  show "good p Q (k x q')"
    by (rule assms(3)) (use a reach_le [OF assms(2)] reach_le [OF a(1)] reach_same(1) [OF a(2)] reach_same(1) [OF assms(2)] in \<open>auto simp: parsed_def\<close>)
qed

lemma tail_parses:
  assumes "parses K q m" "reach p q" "\<And>x. K x \<Longrightarrow> K' x"
  shows "parses K' p m"
proof (rule good_tail [OF assms(1,2)])
  fix x q' assume a: "reach q q'" "reach p q'" "parsed K q x q'"
  then show "parsed K' p x q'"
    using assms(3) reach_le [OF assms(2)] reach_same(1) [OF assms(2)] by (auto simp: parsed_def intro: within_mono)
qed

text \<open>
  A loop that appends children: the parent keeps its fields, and the new children satisfy
  \<open>K\<close> and have addresses from the loop.
\<close>

fun kai_node_pushes :: "node \<Rightarrow> node list \<Rightarrow> node" where
  "kai_node_pushes n [] = n"
| "kai_node_pushes n (c # cs) = kai_node_pushes (kai_node_push n c) cs"

lemma kai_node_pushes_Node [simp]:
  "kai_node_pushes (Node k a l c nm fl v ch) cs = Node k a l c nm fl v (ch @ cs)"
  by (induction cs arbitrary: ch) simp_all

definition adds :: "(node \<Rightarrow> bool) \<Rightarrow> node \<Rightarrow> pst \<Rightarrow> node \<Rightarrow> pst \<Rightarrow> bool" where
  "adds K n p x q \<longleftrightarrow> (\<exists>cs. x = kai_node_pushes n cs \<and> list_all (\<lambda>c. wf_in (p_src p) c \<and> K c) cs
     \<and> within (p_heap p) (p_heap q) (concat (map ids cs)))"

lemma adds_none: "adds K n p n q"
  unfolding adds_def by (rule exI [of _ "[]"]) simp

lemma adds_push:
  assumes "adds K (kai_node_push n c) q x q'" "wf_in (p_src p) c" "K c" "within (p_heap p) (p_heap q) (ids c)"
    "p_heap p \<le> p_heap q" "p_heap q \<le> p_heap q'" "p_src q = p_src p"
  shows "adds K n p x q'"
proof -
  obtain cs where "x = kai_node_pushes (kai_node_push n c) cs" "list_all (\<lambda>c. wf_in (p_src q) c \<and> K c) cs"
    "within (p_heap q) (p_heap q') (concat (map ids cs))"
    using assms(1) by (auto simp: adds_def)
  then show ?thesis
    unfolding adds_def using assms(2-) by (intro exI [of _ "c # cs"]) (simp add: within_append)
qed

text \<open>The same with at least one child.\<close>

definition adds1 :: "(node \<Rightarrow> bool) \<Rightarrow> node \<Rightarrow> pst \<Rightarrow> node \<Rightarrow> pst \<Rightarrow> bool" where
  "adds1 K n p x q \<longleftrightarrow> (\<exists>c cs. x = kai_node_pushes n (c # cs) \<and> list_all (\<lambda>c. wf_in (p_src p) c \<and> K c) (c # cs)
     \<and> within (p_heap p) (p_heap q) (concat (map ids (c # cs))))"

lemma adds1_adds: "adds1 K n p x q \<Longrightarrow> adds K n p x q"
  unfolding adds1_def adds_def by blast

lemma adds1_push:
  assumes "adds K (kai_node_push n c) q x q'" "wf_in (p_src p) c" "K c" "within (p_heap p) (p_heap q) (ids c)"
    "p_heap p \<le> p_heap q" "p_heap q \<le> p_heap q'" "p_src q = p_src p"
  shows "adds1 K n p x q'"
proof -
  obtain cs where "x = kai_node_pushes (kai_node_push n c) cs" "list_all (\<lambda>c. wf_in (p_src q) c \<and> K c) cs"
    "within (p_heap q) (p_heap q') (concat (map ids cs))"
    using assms(1) by (auto simp: adds_def)
  then show ?thesis
    unfolding adds1_def using assms(2-) by (intro exI [of _ c] exI [of _ cs]) (simp add: within_append)
qed

end
