(* ===== verification/Kai_Parser_Expr.thy ===== *)
theory Kai_Parser_Expr
  imports Kai_Parser_Base
begin

text \<open>
  \<^verbatim>\<open>stage0/parser_expr.c\<close> (expressions, primaries, patterns) and the statements and types of
  \<^verbatim>\<open>stage0/parser.c\<close>, which call each other.

  The C functions are mutually recursive. Here each takes the functions it reaches only after
  a token has been consumed from a record \<open>knot\<close>; the others it calls directly, as the C code
  does. \<open>tie n\<close> ties them: it allows \<open>n\<close> nested calls, and one more than the number of tokens
  left is always enough.
\<close>

record knot =
  k_expr :: "pst \<Rightarrow> node pres"
  k_unary :: "pst \<Rightarrow> node pres"
  k_if :: "pst \<Rightarrow> node pres"
  k_pattern :: "pst \<Rightarrow> node pres"
  k_type :: "pst \<Rightarrow> node pres"

text \<open>
  The loop \<open>for (;;) { x = item; push(parent, x); mid; if (!match(sep)) break; post; }\<close> that
  every bracketed list of the grammar is parsed with.
\<close>

primrec sep_loop :: "token_kind \<Rightarrow> (pst \<Rightarrow> node pres) \<Rightarrow> (pst \<Rightarrow> pst) \<Rightarrow> (pst \<Rightarrow> pst)
    \<Rightarrow> nat \<Rightarrow> node \<Rightarrow> pst \<Rightarrow> node pres" where
  "sep_loop sep item mid post 0 parent p = out_of_fuel p"
| "sep_loop sep item mid post (Suc n) parent p =
     pbind (item p) (\<lambda>x p.
       let parent = kai_node_push parent x;
           (more, p) = p_match sep (mid p)
       in if \<not> more then ret parent p else sep_loop sep item mid post n parent (post p))"

section \<open>Types\<close>

definition parse_fn_type :: "knot \<Rightarrow> token \<Rightarrow> pst \<Rightarrow> node pres" where
  "parse_fn_type kn t p =
     (let (fn, p) = alloc N_TY_FN (t_line t) (t_col t) p;
          fn = kai_node_push fn NULL;
          p = skip_newlines p
      in pbind (if \<not> p_at p TK_RPAREN
                then sep_loop TK_COMMA (k_type kn) skip_newlines skip_newlines (Suc (p_left p)) fn p
                else ret fn p) (\<lambda>fn p.
         pbind (expect TK_RPAREN ''expected `)`'' p) (\<lambda>_ p.
         pbind (expect TK_ARROW ''expected `->` in function type'' p) (\<lambda>_ p.
         pbind (k_type kn p) (\<lambda>r p.
         ret (set_child fn 0 r) p)))))"

definition parse_named_type :: "knot \<Rightarrow> pst \<Rightarrow> node pres" where
  "parse_named_type kn p =
     (let i = peek_tok p;
          p = bump p;
          (n, p) = alloc N_TY_NAME (t_line i) (t_col i) p;
          n = set_name_from_token n i p;
          (m, p) = p_match TK_LBRACKET p
      in if m then
           (let p = skip_newlines p in
            pbind (sep_loop TK_COMMA (k_type kn) skip_newlines skip_newlines (Suc (p_left p)) n p) (\<lambda>n p.
            pbind (expect TK_RBRACKET ''expected `]` after generic arguments'' p) (\<lambda>_ p.
            ret n p)))
         else ret n p)"

definition parse_type :: "knot \<Rightarrow> pst \<Rightarrow> node pres" where
  "parse_type kn p =
     (let t = peek_tok p in
      if p_at p TK_LBRACKET then
        pbind (k_type kn (bump p)) (\<lambda>inner p.
        pbind (expect TK_RBRACKET ''expected `]`'' p) (\<lambda>_ p.
        let (n, p) = alloc N_TY_LIST (t_line t) (t_col t) p
        in ret (kai_node_push n inner) p))
      else if p_at p TK_LPAREN then parse_fn_type kn t (bump p)
      else if p_at p TK_IDENT then parse_named_type kn p
      else fail (error_here ''expected type'' p))"

section \<open>Statements and blocks\<close>

definition parse_let :: "knot \<Rightarrow> pst \<Rightarrow> node pres" where
  "parse_let kn p =
     (let t = tok_at p (p_i p - 1);
          (lt, p) = alloc N_LET (t_line t) (t_col t) p
      in pbind (k_pattern kn p) (\<lambda>pat p.
         let lt = kai_node_push lt pat;
             (m, p) = p_match TK_COLON p
         in pbind
              (if m then
                 (let lt = or_flags lt 1 in
                  pbind (k_type kn p) (\<lambda>ty p. ret (kai_node_push lt ty) p))
               else
                 (let (ty, p) = alloc N_TY_INFER (t_line t) (t_col t) p
                  in ret (kai_node_push lt ty) p)) (\<lambda>lt p.
            pbind (expect TK_EQ ''expected `=` in let binding'' p) (\<lambda>_ p.
            pbind (k_expr kn (skip_newlines p)) (\<lambda>e p.
            ret (kai_node_push lt e) p)))))"

definition parse_assert :: "knot \<Rightarrow> pst \<Rightarrow> node pres" where
  "parse_assert kn p =
     (let t = tok_at p (p_i p - 1);
          (a, p) = alloc N_ASSERT (t_line t) (t_col t) p
      in pbind (k_expr kn p) (\<lambda>cond p.
         let a = kai_node_push a cond;
             (m, p) = p_match TK_COMMA p
         in if m then
              (let a = or_flags a 1 in
               pbind (k_expr kn p) (\<lambda>msg p. ret (kai_node_push a msg) p))
            else ret a p))"

definition parse_stmt :: "knot \<Rightarrow> pst \<Rightarrow> node pres" where
  "parse_stmt kn p =
     (if p_at p TK_LET then parse_let kn (bump p)
      else if p_at p TK_ASSERT then parse_assert kn (bump p)
      else
        (let t = peek_tok p in
         pbind (k_expr kn p) (\<lambda>e p.
         let (s, p) = alloc N_EXPR_STMT (t_line t) (t_col t) p
         in ret (kai_node_push s e) p)))"

text \<open>
  The result of a block item: the block, and the final value when the item was one (the C
  code's return value 0; \<open>None\<close> there is 1, a null result is -1).
\<close>

definition parse_block_item :: "knot \<Rightarrow> node \<Rightarrow> pst \<Rightarrow> (node \<times> node option) pres" where
  "parse_block_item kn b p =
     (if p_at p TK_LET \<or> p_at p TK_ASSERT then
        pbind (parse_stmt kn p) (\<lambda>s p. ret (kai_node_push b s, None) p)
      else
        (let t = peek_tok p in
         pbind (k_expr kn p) (\<lambda>e p.
         let q = skip_newlines_and_semis p in
         if p_at q TK_RBRACE then ret (b, Some e) q
         else
           (let (s, p) = alloc N_EXPR_STMT (t_line t) (t_col t) p
            in ret (kai_node_push b (kai_node_push s e), None) p))))"

primrec parse_block_loop :: "knot \<Rightarrow> nat \<Rightarrow> node \<Rightarrow> pst \<Rightarrow> (node \<times> node option) pres" where
  "parse_block_loop kn 0 b p = out_of_fuel p"
| "parse_block_loop kn (Suc n) b p =
     (if p_at p TK_RBRACE \<or> p_at p TK_EOF then ret (b, None) p
      else
        pbind (parse_block_item kn b p) (\<lambda>(b, last_expr) p.
        if last_expr \<noteq> None then ret (b, last_expr) p
        else parse_block_loop kn n b (skip_newlines_and_semis p)))"

definition parse_block :: "knot \<Rightarrow> pst \<Rightarrow> node pres" where
  "parse_block kn p =
     pbind (expect TK_LBRACE ''expected `{`'' p) (\<lambda>op p.
     let (b, p) = alloc N_BLOCK (t_line op) (t_col op) p;
         p = skip_newlines_and_semis p
     in pbind (parse_block_loop kn (Suc (p_left p)) b p) (\<lambda>(b, last_expr) p.
        pbind (expect TK_RBRACE ''expected `}` to close block'' p) (\<lambda>_ p.
        case last_expr of
          Some e \<Rightarrow> ret (kai_node_push (or_flags b 1) e) p
        | None \<Rightarrow>
            (let (u, p) = alloc N_UNIT (t_line op) (t_col op) p in ret (kai_node_push b u) p))))"

section \<open>Conditionals and matches\<close>

definition parse_if :: "knot \<Rightarrow> pst \<Rightarrow> node pres" where
  "parse_if kn p =
     pbind (expect TK_IF ''expected `if`'' p) (\<lambda>t p.
     pbind (k_expr kn (skip_newlines p)) (\<lambda>cond p.
     let p = skip_newlines p in
     if \<not> p_at p TK_LBRACE then fail (error_here ''expected `{` after if condition'' p)
     else
       pbind (parse_block kn p) (\<lambda>then_block p.
       let (if_n, p) = alloc N_IF (t_line t) (t_col t) p;
           if_n = kai_node_push (kai_node_push if_n cond) then_block;
           p = skip_newlines p
       in if p_at p TK_ELSE then
            (let p = skip_newlines (bump p);
                 if_n = or_flags if_n 1
             in pbind
                  (if p_at p TK_IF then k_if kn p
                   else if \<not> p_at p TK_LBRACE
                   then fail (error_here ''expected `{` or `if` after `else`'' p)
                   else parse_block kn p) (\<lambda>else_branch p.
                ret (kai_node_push if_n else_branch) p))
          else ret if_n p)))"

definition parse_arm :: "knot \<Rightarrow> pst \<Rightarrow> node pres" where
  "parse_arm kn p =
     (let t = peek_tok p in
      pbind (k_pattern kn p) (\<lambda>pat p.
      let (arm, p) = alloc N_ARM (t_line t) (t_col t) p;
          arm = kai_node_push arm pat;
          (m, p) = p_match TK_IF p
      in pbind
           (if m then
              (let arm = or_flags arm 1 in
               pbind (k_expr kn p) (\<lambda>guard p. ret (kai_node_push arm guard) p))
            else ret arm p) (\<lambda>arm p.
         pbind (expect TK_ARROW ''expected `->` in match arm'' p) (\<lambda>_ p.
         let p = skip_newlines p in
         pbind (if p_at p TK_LBRACE then parse_block kn p else k_expr kn p) (\<lambda>body p.
         ret (kai_node_push arm body) p)))))"

primrec parse_match_loop :: "knot \<Rightarrow> nat \<Rightarrow> node \<Rightarrow> pst \<Rightarrow> node pres" where
  "parse_match_loop kn 0 m p = out_of_fuel p"
| "parse_match_loop kn (Suc n) m p =
     (if p_at p TK_RBRACE \<or> p_at p TK_EOF then ret m p
      else
        pbind (parse_arm kn p) (\<lambda>arm p.
        parse_match_loop kn n (kai_node_push m arm) (skip_newlines_and_semis p)))"

definition parse_match :: "knot \<Rightarrow> pst \<Rightarrow> node pres" where
  "parse_match kn p =
     pbind (expect TK_MATCH ''expected `match`'' p) (\<lambda>t p.
     pbind (k_expr kn (skip_newlines p)) (\<lambda>scrutinee p.
     let p = skip_newlines p in
     pbind (expect TK_LBRACE ''expected `{` after match scrutinee'' p) (\<lambda>_ p.
     let (m, p) = alloc N_MATCH (t_line t) (t_col t) p;
         m = kai_node_push m scrutinee;
         p = skip_newlines p
     in pbind (parse_match_loop kn (Suc (p_left p)) m p) (\<lambda>m p.
        pbind (expect TK_RBRACE ''expected `}` to close match'' p) (\<lambda>_ p.
        ret m p)))))"

section \<open>Literals\<close>

definition parse_string_literal :: "pst \<Rightarrow> node pres" where
  "parse_string_literal p =
     (let t = peek_tok p;
          p = bump p;
          (s, p) = alloc N_STRING (t_line t) (t_col t) p;
          s = set_name_from_token s t p
      in if t_length t \<ge> 3 \<and> byte_at (p_src p) (t_start t) = DQ
           \<and> byte_at (p_src p) (Suc (t_start t)) = DQ
         then ret (or_flags s 1) p else ret s p)"

definition parse_field_init :: "knot \<Rightarrow> pst \<Rightarrow> node pres" where
  "parse_field_init kn p =
     pbind (expect TK_IDENT ''expected field name'' (skip_newlines p)) (\<lambda>fn p.
     pbind (expect TK_COLON ''expected `:` after field name'' p) (\<lambda>_ p.
     pbind (k_expr kn p) (\<lambda>val p.
     let (fi, p) = alloc N_FIELD_INIT (t_line fn) (t_col fn) p;
         fi = set_name_from_token fi fn p
     in ret (kai_node_push fi val) p)))"

definition parse_record_lit :: "knot \<Rightarrow> node \<Rightarrow> pst \<Rightarrow> node pres" where
  "parse_record_lit kn type_ident p =
     pbind (expect TK_LBRACE ''expected `{` after record type name'' p) (\<lambda>_ p.
     let (rec, p) = alloc N_RECORD_LIT (n_line type_ident) (n_col type_ident) p;
         rec = set_name rec (n_name type_ident);
         p = skip_newlines p
     in pbind (if \<not> p_at p TK_RBRACE
               then sep_loop TK_COMMA (parse_field_init kn) skip_newlines id (Suc (p_left p)) rec p
               else ret rec p) (\<lambda>rec p.
        pbind (expect TK_RBRACE ''expected `}` to close record'' (skip_newlines p)) (\<lambda>_ p.
        ret rec p)))"

section \<open>Lists and ranges\<close>

definition parse_range_tail :: "knot \<Rightarrow> token \<Rightarrow> node \<Rightarrow> pst \<Rightarrow> node pres" where
  "parse_range_tail kn op first p =
     pbind (k_expr kn (skip_newlines p)) (\<lambda>to p.
     let (m, p) = p_match TK_DOTDOT p in
     pbind (if m then pbind (k_expr kn (skip_newlines p)) (\<lambda>step p. ret (Some step) p)
            else ret None p) (\<lambda>step p.
     pbind (expect TK_RBRACKET ''expected `]` after range'' p) (\<lambda>_ p.
     let (r, p) = alloc N_RANGE_LIT (t_line op) (t_col op) p;
         r = (if step \<noteq> None then or_flags r 1 else r);
         r = kai_node_push (kai_node_push r first) to
     in ret (case step of Some s \<Rightarrow> kai_node_push r s | None \<Rightarrow> r) p)))"

definition push_list_elt :: "node \<Rightarrow> node \<Rightarrow> bool \<Rightarrow> pst \<Rightarrow> node \<times> pst" where
  "push_list_elt lst expr is_spread p =
     (if is_spread then
        (let (sp, p) = alloc N_SPREAD (n_line expr) (n_col expr) p
         in (kai_node_push lst (kai_node_push sp expr), p))
      else (kai_node_push lst expr, p))"

primrec parse_list_loop :: "knot \<Rightarrow> nat \<Rightarrow> node \<Rightarrow> pst \<Rightarrow> node pres" where
  "parse_list_loop kn 0 lst p = out_of_fuel p"
| "parse_list_loop kn (Suc n) lst p =
     (let (m, p) = p_match TK_COMMA p in
      if \<not> m then ret lst p
      else
        (let p = skip_newlines p in
         if p_at p TK_RBRACKET then ret lst p
         else
           (let (spread, p) = p_match TK_ELLIPSIS p in
            pbind (k_expr kn p) (\<lambda>e p.
            let (lst, p) = push_list_elt lst e spread p
            in parse_list_loop kn n lst p))))"

definition parse_list_tail :: "knot \<Rightarrow> token \<Rightarrow> node \<Rightarrow> bool \<Rightarrow> pst \<Rightarrow> node pres" where
  "parse_list_tail kn op first first_is_spread p =
     (let (lst, p) = alloc N_LIST_LIT (t_line op) (t_col op) p;
          (lst, p) = push_list_elt lst first first_is_spread p
      in pbind (parse_list_loop kn (Suc (p_left p)) lst p) (\<lambda>lst p.
         pbind (expect TK_RBRACKET ''expected `]` to close list'' (skip_newlines p)) (\<lambda>_ p.
         ret lst p)))"

definition parse_list_or_range :: "knot \<Rightarrow> pst \<Rightarrow> node pres" where
  "parse_list_or_range kn p =
     pbind (expect TK_LBRACKET ''expected `[`'' p) (\<lambda>op p.
     let (m, p) = p_match TK_RBRACKET (skip_newlines p) in
     if m then (let (n, p) = alloc N_LIST_LIT (t_line op) (t_col op) p in ret n p)
     else
       (let (first_is_spread, p) = p_match TK_ELLIPSIS p in
        pbind (k_expr kn p) (\<lambda>first p.
        if p_at p TK_DOTDOT \<and> \<not> first_is_spread then parse_range_tail kn op first (bump p)
        else parse_list_tail kn op first first_is_spread p)))"

section \<open>Lambdas and parentheses\<close>

definition skip_nl_from :: "token list \<Rightarrow> nat \<Rightarrow> nat" where
  "skip_nl_from toks j = j + length (takeWhile (\<lambda>t. t_kind t = TK_NEWLINE) (drop j toks))"

text \<open>\<open>None\<close>: a read past the end of the token array.\<close>

function lambda_scan :: "token list \<Rightarrow> nat \<Rightarrow> bool option" where
  "lambda_scan toks j =
     (if j \<ge> length toks then None
      else if t_kind (toks ! j) \<noteq> TK_IDENT then Some False
      else
        (let j = Suc j in
         if j \<ge> length toks then None
         else if t_kind (toks ! j) = TK_RPAREN then
           (if Suc j \<ge> length toks then None else Some (t_kind (toks ! Suc j) = TK_FAT_ARROW))
         else if t_kind (toks ! j) \<noteq> TK_COMMA then Some False
         else lambda_scan toks (skip_nl_from toks (Suc j))))"
  by pat_completeness auto
termination
  by (relation "measure (\<lambda>(toks, j). length toks - j)") (auto simp: skip_nl_from_def)

declare lambda_scan.simps [simp del]

definition scan_paren_is_lambda :: "pst \<Rightarrow> bool \<times> pst" where
  "scan_paren_is_lambda p =
     (if \<not> p_at p TK_IDENT then (False, p)
      else
        (case lambda_scan (p_toks p) (p_i p) of
           Some b \<Rightarrow> (b, p)
         | None \<Rightarrow> (False, p\<lparr>p_ub := True\<rparr>)))"

definition parse_lambda_param :: "pst \<Rightarrow> node pres" where
  "parse_lambda_param p =
     pbind (expect TK_IDENT ''expected parameter name'' p) (\<lambda>pn p.
     let (i, p) = alloc N_IDENT (t_line pn) (t_col pn) p
     in ret (set_name_from_token i pn p) p)"

definition parse_paren_lambda :: "knot \<Rightarrow> token \<Rightarrow> pst \<Rightarrow> node pres" where
  "parse_paren_lambda kn t p =
     (let (lam, p) = alloc N_LAMBDA (t_line t) (t_col t) p;
          lam = kai_node_push lam NULL
      in pbind (sep_loop TK_COMMA parse_lambda_param id skip_newlines (Suc (p_left p)) lam p) (\<lambda>lam p.
         pbind (expect TK_RPAREN ''expected `)` after lambda parameters'' p) (\<lambda>_ p.
         pbind (expect TK_FAT_ARROW ''expected `=>`'' p) (\<lambda>_ p.
         pbind (k_expr kn (skip_newlines p)) (\<lambda>body p.
         ret (set_child lam 0 body) p)))))"

definition parse_paren_expr :: "knot \<Rightarrow> token \<Rightarrow> pst \<Rightarrow> node pres" where
  "parse_paren_expr kn t p =
     (let p = bump p in
      if p_at p TK_RPAREN then
        (let p = bump p in
         if p_at p TK_FAT_ARROW then
           pbind (k_expr kn (skip_newlines (bump p))) (\<lambda>body p.
           let (lam, p) = alloc N_LAMBDA (t_line t) (t_col t) p
           in ret (kai_node_push lam body) p)
         else (let (u, p) = alloc N_UNIT (t_line t) (t_col t) p in ret u p))
      else
        (let (is_lambda, p) = scan_paren_is_lambda p in
         if is_lambda then parse_paren_lambda kn t p
         else
           pbind (k_expr kn (skip_newlines p)) (\<lambda>e p.
           pbind (expect TK_RPAREN ''expected `)`'' p) (\<lambda>_ p.
           ret e p))))"

definition parse_lambda_from_ident :: "knot \<Rightarrow> node \<Rightarrow> pst \<Rightarrow> node pres" where
  "parse_lambda_from_ident kn ident p =
     pbind (expect TK_FAT_ARROW ''expected `=>`'' p) (\<lambda>_ p.
     pbind (k_expr kn (skip_newlines p)) (\<lambda>body p.
     let (lam, p) = alloc N_LAMBDA (n_line ident) (n_col ident) p
     in ret (kai_node_push (kai_node_push lam body) ident) p))"

section \<open>Primary expressions\<close>

definition literal_node :: "node_kind \<Rightarrow> payload \<Rightarrow> token \<Rightarrow> pst \<Rightarrow> node \<times> pst" where
  "literal_node k v t p =
     (let (n, p) = alloc k (t_line t) (t_col t) p
      in (set_name_from_token (set_val n v) t p, p))"

definition parse_primary :: "knot \<Rightarrow> pst \<Rightarrow> node pres" where
  "parse_primary kn p =
     (let t = peek_tok p in
      case t_kind t of
        TK_INT \<Rightarrow>
          (let (n, p) = literal_node N_INT (V_int (decode_int (tok_text (p_src p) t))) t (bump p)
           in ret n p)
      | TK_REAL \<Rightarrow>
          (let (n, p) = literal_node N_REAL (V_real (decode_real_buf (tok_text (p_src p) t))) t (bump p)
           in ret n p)
      | TK_CHAR \<Rightarrow>
          (let (n, p) = literal_node N_CHAR (V_char (decode_char (tok_text (p_src p) t))) t (bump p)
           in ret n p)
      | TK_STRING \<Rightarrow> parse_string_literal p
      | TK_TRUE \<Rightarrow>
          (let (n, p) = alloc N_BOOL (t_line t) (t_col t) (bump p) in ret (set_val n (V_bool True)) p)
      | TK_FALSE \<Rightarrow>
          (let (n, p) = alloc N_BOOL (t_line t) (t_col t) (bump p) in ret (set_val n (V_bool False)) p)
      | TK_UNDERSCORE \<Rightarrow> fail (error_here ''`_` is only valid inside patterns'' p)
      | TK_DOT \<Rightarrow> (let (n, p) = alloc N_PLACEHOLDER (t_line t) (t_col t) (bump p) in ret n p)
      | TK_LBRACKET \<Rightarrow> parse_list_or_range kn p
      | TK_LBRACE \<Rightarrow> parse_block kn p
      | TK_IF \<Rightarrow> parse_if kn p
      | TK_MATCH \<Rightarrow> parse_match kn p
      | TK_LPAREN \<Rightarrow> parse_paren_expr kn t p
      | TK_IDENT \<Rightarrow>
          (let p = bump p in
           if p_at p TK_FAT_ARROW then
             (let (idn, p) = alloc N_IDENT (t_line t) (t_col t) p;
                  idn = set_name_from_token idn t p
              in parse_lambda_from_ident kn idn p)
           else if is_uppercase_ident t (p_src p) \<and> p_at p TK_LBRACE then
             (let (tn, p) = alloc N_IDENT (t_line t) (t_col t) p;
                  tn = set_name_from_token tn t p
              in parse_record_lit kn tn p)
           else
             (let (n, p) = alloc N_IDENT (t_line t) (t_col t) p
              in ret (set_name_from_token n t p) p))
      | _ \<Rightarrow> fail (error_here ''expected expression'' p))"

section \<open>Postfix forms\<close>

definition parse_call_arg :: "knot \<Rightarrow> pst \<Rightarrow> node pres" where
  "parse_call_arg kn p = k_expr kn (skip_newlines p)"

definition parse_call_suffix :: "knot \<Rightarrow> node \<Rightarrow> token \<Rightarrow> pst \<Rightarrow> node pres" where
  "parse_call_suffix kn lhs t p =
     (let p = skip_newlines (bump p);
          (call, p) = alloc N_CALL (t_line t) (t_col t) p;
          call = kai_node_push call lhs
      in pbind (if \<not> p_at p TK_RPAREN
                then sep_loop TK_COMMA (parse_call_arg kn) skip_newlines id (Suc (p_left p)) call p
                else ret call p) (\<lambda>call p.
         pbind (expect TK_RPAREN ''expected `)` after call arguments'' p) (\<lambda>_ p.
         ret call p)))"

definition parse_index_suffix :: "knot \<Rightarrow> node \<Rightarrow> token \<Rightarrow> pst \<Rightarrow> node pres" where
  "parse_index_suffix kn lhs t p =
     pbind (k_expr kn (skip_newlines (bump p))) (\<lambda>idx p.
     pbind (expect TK_RBRACKET ''expected `]` after index'' p) (\<lambda>_ p.
     let (n, p) = alloc N_INDEX (t_line t) (t_col t) p
     in ret (kai_node_push (kai_node_push n lhs) idx) p))"

primrec parse_postfix_loop :: "knot \<Rightarrow> nat \<Rightarrow> node \<Rightarrow> pst \<Rightarrow> node pres" where
  "parse_postfix_loop kn 0 lhs p = out_of_fuel p"
| "parse_postfix_loop kn (Suc n) lhs p =
     (let t = peek_tok p in
      if p_at p TK_LPAREN then
        pbind (parse_call_suffix kn lhs t p) (\<lambda>lhs p. parse_postfix_loop kn n lhs p)
      else if p_at p TK_DOT \<and> peek_kind_n p 1 = TK_IDENT then
        (let p = bump p;
             fn = peek_tok p;
             p = bump p;
             (f, p) = alloc N_FIELD (t_line t) (t_col t) p;
             f = set_name_from_token f fn p
         in parse_postfix_loop kn n (kai_node_push f lhs) p)
      else if p_at p TK_LBRACKET then
        pbind (parse_index_suffix kn lhs t p) (\<lambda>lhs p. parse_postfix_loop kn n lhs p)
      else ret lhs p)"

definition parse_postfix :: "knot \<Rightarrow> pst \<Rightarrow> node pres" where
  "parse_postfix kn p =
     pbind (parse_primary kn p) (\<lambda>lhs p. parse_postfix_loop kn (Suc (p_left p)) lhs p)"

section \<open>The precedence ladder\<close>

definition parse_unary :: "knot \<Rightarrow> pst \<Rightarrow> node pres" where
  "parse_unary kn p =
     (if p_at p TK_MINUS \<or> p_at p TK_NOT then
        (let t = peek_tok p in
         pbind (k_unary kn (skip_newlines (bump p))) (\<lambda>rhs p.
         let (n, p) = alloc N_UNOP (t_line t) (t_col t) p
         in ret (kai_node_push (set_val n (V_op (t_kind t))) rhs) p))
      else parse_postfix kn p)"

definition binop :: "token_kind \<Rightarrow> node \<Rightarrow> node \<Rightarrow> token \<Rightarrow> pst \<Rightarrow> node \<times> pst" where
  "binop op lhs rhs t p =
     (let (n, p) = alloc N_BINOP (t_line t) (t_col t) p
      in (kai_node_push (kai_node_push (set_val n (V_op op)) lhs) rhs, p))"

text \<open>The loop of a left-associative level: \<open>sub\<close> parses an operand.\<close>

primrec left_assoc :: "(pst \<Rightarrow> node pres) \<Rightarrow> token_kind list \<Rightarrow> nat \<Rightarrow> node \<Rightarrow> pst \<Rightarrow> node pres" where
  "left_assoc sub ops 0 lhs p = out_of_fuel p"
| "left_assoc sub ops (Suc n) lhs p =
     (if peek_kind p \<in> set ops then
        (let t = peek_tok p in
         pbind (sub (skip_newlines (bump p))) (\<lambda>rhs p.
         let (lhs, p) = binop (t_kind t) lhs rhs t p
         in left_assoc sub ops n lhs p))
      else ret lhs p)"

definition parse_mul :: "knot \<Rightarrow> pst \<Rightarrow> node pres" where
  "parse_mul kn p =
     pbind (parse_unary kn p) (\<lambda>lhs p.
     left_assoc (parse_unary kn) [TK_STAR, TK_SLASH, TK_SLASH_SLASH, TK_PERCENT] (Suc (p_left p)) lhs p)"

definition parse_add :: "knot \<Rightarrow> pst \<Rightarrow> node pres" where
  "parse_add kn p =
     pbind (parse_mul kn p) (\<lambda>lhs p.
     left_assoc (parse_mul kn) [TK_PLUS, TK_MINUS] (Suc (p_left p)) lhs p)"

definition is_cmp :: "token_kind \<Rightarrow> bool" where
  "is_cmp k \<longleftrightarrow> k = TK_EQEQ \<or> k = TK_NEQ \<or> k = TK_LT \<or> k = TK_GT \<or> k = TK_LE \<or> k = TK_GE"

definition parse_cmp :: "knot \<Rightarrow> pst \<Rightarrow> node pres" where
  "parse_cmp kn p =
     pbind (parse_add kn p) (\<lambda>lhs p.
     if is_cmp (peek_kind p) then
       (let t = peek_tok p in
        pbind (parse_add kn (skip_newlines (bump p))) (\<lambda>rhs p.
        let (lhs, p) = binop (t_kind t) lhs rhs t p
        in ret lhs p))
     else ret lhs p)"

definition parse_and :: "knot \<Rightarrow> pst \<Rightarrow> node pres" where
  "parse_and kn p =
     pbind (parse_cmp kn p) (\<lambda>lhs p. left_assoc (parse_cmp kn) [TK_AND] (Suc (p_left p)) lhs p)"

definition parse_or :: "knot \<Rightarrow> pst \<Rightarrow> node pres" where
  "parse_or kn p =
     pbind (parse_and kn p) (\<lambda>lhs p. left_assoc (parse_and kn) [TK_OR] (Suc (p_left p)) lhs p)"

primrec parse_pipe_loop :: "knot \<Rightarrow> nat \<Rightarrow> node \<Rightarrow> pst \<Rightarrow> node pres" where
  "parse_pipe_loop kn 0 lhs p = out_of_fuel p"
| "parse_pipe_loop kn (Suc n) lhs p =
     (let p = (if peek_kind p = TK_NEWLINE \<and> peek_kind_n p 1 = TK_PIPE_APPLY then bump p else p) in
      if \<not> p_at p TK_PIPE_APPLY then ret lhs p
      else
        (let t = peek_tok p in
         pbind (parse_or kn (skip_newlines (bump p))) (\<lambda>rhs p.
         let (pipe, p) = alloc N_PIPE (t_line t) (t_col t) p
         in parse_pipe_loop kn n (kai_node_push (kai_node_push pipe lhs) rhs) p)))"

definition parse_pipe :: "knot \<Rightarrow> pst \<Rightarrow> node pres" where
  "parse_pipe kn p =
     pbind (parse_or kn p) (\<lambda>lhs p. parse_pipe_loop kn (Suc (p_left p)) lhs p)"

definition parse_expr :: "knot \<Rightarrow> pst \<Rightarrow> node pres" where
  "parse_expr kn p = parse_pipe kn p"

section \<open>Patterns\<close>

definition parse_pat_field :: "knot \<Rightarrow> pst \<Rightarrow> node pres" where
  "parse_pat_field kn p =
     pbind (expect TK_IDENT ''expected field name in record pattern'' (skip_newlines p)) (\<lambda>fn p.
     let (pf, p) = alloc N_PAT_FIELD (t_line fn) (t_col fn) p;
         pf = set_name_from_token pf fn p;
         (m, p) = p_match TK_COLON p
     in if m then pbind (k_pattern kn p) (\<lambda>sub p. ret (kai_node_push pf sub) p)
        else
          (let pf = or_flags pf 1;
               (b, p) = alloc N_PAT_BIND (t_line fn) (t_col fn) p;
               b = set_name_from_token b fn p
           in ret (kai_node_push pf b) p))"

definition parse_record_pattern_fields :: "knot \<Rightarrow> node \<Rightarrow> pst \<Rightarrow> node pres" where
  "parse_record_pattern_fields kn pr p =
     (let p = skip_newlines p in
      pbind (if \<not> p_at p TK_RBRACE
             then sep_loop TK_COMMA (parse_pat_field kn) skip_newlines id (Suc (p_left p)) pr p
             else ret pr p) (\<lambda>pr p.
      pbind (expect TK_RBRACE ''expected `}` in record pattern'' (skip_newlines p)) (\<lambda>_ p.
      ret pr p)))"

primrec parse_list_pattern_loop :: "knot \<Rightarrow> nat \<Rightarrow> node \<Rightarrow> pst \<Rightarrow> node pres" where
  "parse_list_pattern_loop kn 0 pl p = out_of_fuel p"
| "parse_list_pattern_loop kn (Suc n) pl p =
     (let (m, p) = p_match TK_ELLIPSIS (skip_newlines p) in
      if m then
        (let pl = or_flags pl 1 in
         pbind (expect TK_IDENT ''expected identifier after `...` in list pattern'' p) (\<lambda>rn p.
         let (b, p) = alloc N_PAT_BIND (t_line rn) (t_col rn) p;
             b = set_name_from_token b rn p
         in ret (kai_node_push pl b) p))
      else
        pbind (k_pattern kn p) (\<lambda>elt p.
        let pl = kai_node_push pl elt;
            (more, p) = p_match TK_COMMA (skip_newlines p)
        in if \<not> more then ret pl p else parse_list_pattern_loop kn n pl p))"

definition parse_list_pattern :: "knot \<Rightarrow> token \<Rightarrow> pst \<Rightarrow> node pres" where
  "parse_list_pattern kn t p =
     (let p = bump p;
          (pl, p) = alloc N_PAT_LIST (t_line t) (t_col t) p;
          p = skip_newlines p
      in pbind (if \<not> p_at p TK_RBRACKET then parse_list_pattern_loop kn (Suc (p_left p)) pl p
                else ret pl p) (\<lambda>pl p.
         pbind (expect TK_RBRACKET ''expected `]` at end of list pattern'' (skip_newlines p)) (\<lambda>_ p.
         ret pl p)))"

definition parse_lit_pattern :: "knot \<Rightarrow> token \<Rightarrow> pst \<Rightarrow> node pres" where
  "parse_lit_pattern kn t p =
     pbind (if t_kind t = TK_MINUS then
              (let p = bump p;
                   numtok = peek_tok p;
                   p = bump p;
                   (n, p) = literal_node N_INT (V_int (- decode_int (tok_text (p_src p) numtok))) numtok p
               in ret n p)
            else parse_primary kn p) (\<lambda>lit p.
     let (pl, p) = alloc N_PAT_LIT (t_line t) (t_col t) p
     in ret (kai_node_push pl lit) p)"

definition starts_lit_pattern :: "token \<Rightarrow> pst \<Rightarrow> bool" where
  "starts_lit_pattern t p =
     (if t_kind t = TK_INT \<or> t_kind t = TK_REAL \<or> t_kind t = TK_CHAR \<or> t_kind t = TK_STRING
         \<or> t_kind t = TK_TRUE \<or> t_kind t = TK_FALSE
      then True
      else t_kind t = TK_MINUS \<and> peek_kind_n p 1 = TK_INT)"

definition parse_variant_arg :: "knot \<Rightarrow> pst \<Rightarrow> node pres" where
  "parse_variant_arg kn p = k_pattern kn (skip_newlines p)"

definition parse_variant_pattern_args :: "knot \<Rightarrow> node \<Rightarrow> pst \<Rightarrow> node pres" where
  "parse_variant_pattern_args kn pv p =
     (let p = skip_newlines (bump p) in
      pbind (if \<not> p_at p TK_RPAREN
             then sep_loop TK_COMMA (parse_variant_arg kn) skip_newlines id (Suc (p_left p)) pv p
             else ret pv p) (\<lambda>pv p.
      pbind (expect TK_RPAREN ''expected `)` to close variant pattern'' (skip_newlines p)) (\<lambda>_ p.
      ret pv p)))"

definition parse_ident_pattern :: "knot \<Rightarrow> pst \<Rightarrow> node pres" where
  "parse_ident_pattern kn p =
     (let i = peek_tok p;
          p = bump p;
          upper = is_uppercase_ident i (p_src p)
      in if upper \<and> p_at p TK_LPAREN then
           (let (pv, p) = alloc N_PAT_VARIANT (t_line i) (t_col i) p;
                pv = set_name_from_token pv i p
            in parse_variant_pattern_args kn pv p)
         else if upper \<and> p_at p TK_LBRACE then
           (let (pr, p) = alloc N_PAT_RECORD (t_line i) (t_col i) (bump p) in
            pbind (parse_record_pattern_fields kn pr p) (\<lambda>pr p.
            let (pv, p) = alloc N_PAT_VARIANT (t_line i) (t_col i) p;
                pv = set_name_from_token pv i p
            in ret (kai_node_push pv pr) p))
         else if upper then
           (let (pv, p) = alloc N_PAT_VARIANT (t_line i) (t_col i) p
            in ret (set_name_from_token pv i p) p)
         else
           (let (b, p) = alloc N_PAT_BIND (t_line i) (t_col i) p
            in ret (set_name_from_token b i p) p))"

definition parse_pattern :: "knot \<Rightarrow> pst \<Rightarrow> node pres" where
  "parse_pattern kn p =
     (let t = peek_tok p in
      if p_at p TK_UNDERSCORE then
        (let (n, p) = alloc N_PAT_WILD (t_line t) (t_col t) (bump p) in ret n p)
      else if p_at p TK_LBRACKET then parse_list_pattern kn t p
      else if starts_lit_pattern t p then parse_lit_pattern kn t p
      else if p_at p TK_IDENT then parse_ident_pattern kn p
      else if p_at p TK_LBRACE then
        (let (pr, p) = alloc N_PAT_RECORD (t_line t) (t_col t) (bump p)
         in parse_record_pattern_fields kn pr p)
      else fail (error_here ''expected pattern'' p))"

section \<open>Tying the knot\<close>

primrec tie :: "nat \<Rightarrow> knot" where
  "tie 0 = \<lparr>k_expr = out_of_fuel, k_unary = out_of_fuel, k_if = out_of_fuel,
     k_pattern = out_of_fuel, k_type = out_of_fuel\<rparr>"
| "tie (Suc n) =
     (let kn = tie n
      in \<lparr>k_expr = parse_expr kn, k_unary = parse_unary kn, k_if = parse_if kn,
          k_pattern = parse_pattern kn, k_type = parse_type kn\<rparr>)"

end
