(* ===== verification/Kai_Parser_Contract.thy ===== *)
theory Kai_Parser_Contract
  imports Kai_Parser_Expr
begin

text \<open>
  The contract of the parser's functions, proved once for any knot that meets it on states
  with fewer than \<open>N\<close> tokens left (the locale \<open>knot_contract\<close>), and discharged for \<open>tie n\<close>.
\<close>

declare sep_loop.simps [simp del] parse_block_loop.simps [simp del] parse_match_loop.simps [simp del]
  parse_list_loop.simps [simp del] parse_postfix_loop.simps [simp del] left_assoc.simps [simp del]
  parse_pipe_loop.simps [simp del] parse_list_pattern_loop.simps [simp del]

section \<open>Rules for the pieces\<close>

lemma alloc_Pair: "alloc k l c p = (Node k (p_heap p) l c [] 0 V_none [], p\<lparr>p_heap := Suc (p_heap p)\<rparr>)"
  by (simp add: alloc_def kai_new_node_def)

lemma set_name_from_token_Node:
  "set_name_from_token (Node k a l c nm fl v ch) t p = Node k a l c (tok_text (p_src p) t) fl v ch"
  by (simp add: set_name_from_token_def)

lemma heap_simps [simp]:
  "p_heap (p\<lparr>p_heap := h\<rparr>) = h" "p_i (p\<lparr>p_heap := h\<rparr>) = p_i p" "p_src (p\<lparr>p_heap := h\<rparr>) = p_src p"
  "p_toks (p\<lparr>p_heap := h\<rparr>) = p_toks p"
  by simp_all

lemmas parse_simps = parsed_def alloc_Pair set_name_from_token_Node p_at_def Let_def

text \<open>The text of a token that is not the end of the file.\<close>

lemma peek_text:
  assumes "sane p" "peek_kind p \<noteq> TK_EOF"
  shows "tok_text (p_src p) (peek_tok p) \<noteq> []"
  using assms peek_tok_in [of p] by (auto simp: sane_def toks_ok_def list_all_iff peek_kind_def)

lemma peek_kind_n_1: "peek_kind_n p 1 = k \<Longrightarrow> k \<noteq> TK_EOF \<Longrightarrow> peek_kind (bump p) = k"
  by (auto simp: peek_kind_n_def peek_kind_def peek_tok_def tok_at_def Let_def split: if_splits)

text \<open>A function meets its contract on the states with fewer than \<open>N\<close> tokens left.\<close>

definition level :: "nat \<Rightarrow> (node \<Rightarrow> bool) \<Rightarrow> (pst \<Rightarrow> node pres) \<Rightarrow> bool" where
  "level N K f \<longleftrightarrow> (\<forall>q. sane q \<and> p_left q < N \<longrightarrow> parses K q (f q))"

lemma levelI: "(\<And>q. sane q \<Longrightarrow> p_left q \<le> N \<Longrightarrow> parses K q (f q)) \<Longrightarrow> level (Suc N) K f"
  by (auto simp: level_def)

lemma level_Suc: "level (Suc N) K f \<Longrightarrow> level N K f"
  by (auto simp: level_def)

lemma left_reach: "reach p q \<Longrightarrow> p_left p < N \<Longrightarrow> p_left q < N"
  by (auto simp: reach_def moves_def p_left_def)

lemma bind_level:
  assumes "level N K f" "reach p q" "p_left q < N"
    and "\<And>x q'. \<lbrakk>reach p q'; p_src q' = p_src p; p_i p < p_i q'; p_i q < p_i q'; p_heap p \<le> p_heap q'; p_heap q \<le> p_heap q';
           wf_in (p_src p) x; K x; within (p_heap q) (p_heap q') (ids x)\<rbrakk> \<Longrightarrow> good p Q (k x q')"
  shows "good p Q (pbind (f q) k)"
proof -
  have "parses K q (f q)" using assms(1,3) reach_sane [OF assms(2)] by (simp add: level_def)
  then show ?thesis by (rule bind_parses [OF _ assms(2)]) (rule assms(4))
qed

text \<open>
  The three places a call is made from: a token further on than the entry of a function that
  has at most \<open>N\<close> tokens left, anywhere in a function that has fewer, and a call of a
  function of the same level.
\<close>

lemma bind_ahead:
  assumes "level N K f" "p_left p \<le> N" "reach p q" "p_i p < p_i q"
    and "\<And>x q'. \<lbrakk>reach p q'; p_src q' = p_src p; p_i p < p_i q'; p_i q < p_i q'; p_heap p \<le> p_heap q'; p_heap q \<le> p_heap q';
           wf_in (p_src p) x; K x; within (p_heap q) (p_heap q') (ids x)\<rbrakk> \<Longrightarrow> good p Q (k x q')"
  shows "good p Q (pbind (f q) k)"
  using left_less [OF assms(3,4,2)] assms by (intro bind_level [OF assms(1,3)])

lemma bind_inner:
  assumes "level N K f" "p_left p < N" "reach p q"
    and "\<And>x q'. \<lbrakk>reach p q'; p_src q' = p_src p; p_i p < p_i q'; p_i q < p_i q'; p_heap p \<le> p_heap q'; p_heap q \<le> p_heap q';
           wf_in (p_src p) x; K x; within (p_heap q) (p_heap q') (ids x)\<rbrakk> \<Longrightarrow> good p Q (k x q')"
  shows "good p Q (pbind (f q) k)"
  using left_reach [OF assms(3,2)] assms by (intro bind_level [OF assms(1,3)])

lemma bind_here:
  assumes "level (Suc N) K f" "p_left p \<le> N" "reach p q"
    and "\<And>x q'. \<lbrakk>reach p q'; p_src q' = p_src p; p_i p < p_i q'; p_i q < p_i q'; p_heap p \<le> p_heap q'; p_heap q \<le> p_heap q';
           wf_in (p_src p) x; K x; within (p_heap q) (p_heap q') (ids x)\<rbrakk> \<Longrightarrow> good p Q (k x q')"
  shows "good p Q (pbind (f q) k)"
  using assms(2) by (intro bind_inner [OF assms(1) _ assms(3)] assms(4)) simp_all

lemma tail_inner:
  assumes "level N K f" "p_left p < N" "reach p q" "\<And>x. K x \<Longrightarrow> K' x"
  shows "parses K' p (f q)"
proof -
  have "parses K q (f q)"
    using assms(1) reach_sane [OF assms(3)] left_reach [OF assms(3,2)] by (simp add: level_def)
  then show ?thesis by (rule tail_parses [OF _ assms(3,4)])
qed

lemma tail_here:
  assumes "level (Suc N) K f" "p_left p \<le> N" "reach p q" "\<And>x. K x \<Longrightarrow> K' x"
  shows "parses K' p (f q)"
  using assms(2) by (intro tail_inner [OF assms(1) _ assms(3,4)]) simp_all

lemma tail_ahead:
  assumes "level N K f" "p_left p \<le> N" "reach p q" "p_i p < p_i q" "\<And>x. K x \<Longrightarrow> K' x"
  shows "parses K' p (f q)"
proof -
  have "parses K q (f q)"
    using assms(1) reach_sane [OF assms(3)] left_less [OF assms(3,4,2)] by (simp add: level_def)
  then show ?thesis by (rule tail_parses [OF _ assms(3,5)])
qed

section \<open>Lists of items\<close>

lemma sep_loop_ok:
  assumes item: "level N K item"
    and mid: "mid \<in> {id, skip_newlines}" and post: "post \<in> {id, skip_newlines}" and sep: "sep \<noteq> TK_EOF"
  shows "\<lbrakk>sane p; p_left p < N; p_left p < n\<rbrakk>
    \<Longrightarrow> good p (\<lambda>x q. adds1 K parent p x q) (sep_loop sep item mid post n parent p)"
proof (induction n arbitrary: parent p)
  case (Suc n)
  note s = Suc.prems(1)
  show ?case
    unfolding sep_loop.simps
  proof (rule bind_inner [OF item Suc.prems(2) reach_refl [OF s]])
    fix x q
    assume q: "reach p q" "p_i p < p_i q" "p_heap p \<le> p_heap q" "wf_in (p_src p) x" "K x"
      "within (p_heap p) (p_heap q) (ids x)"
    let ?m = "mid q" and ?par = "kai_node_push parent x"
    have m: "reach p ?m" "p_heap ?m = p_heap q" "p_i p < p_i ?m"
      using mid q(1,2) by (auto intro: reach_skip ahead_skip)
    show "good p (\<lambda>x q. adds1 K parent p x q) (let parent = ?par; (more, p) = p_match sep (mid q)
       in if \<not> more then ret parent p else sep_loop sep item mid post n parent (post p))"
    proof (cases "peek_kind ?m = sep")
      case True
      let ?b = "post (bump ?m)"
      have b: "reach p ?b" "p_heap ?b = p_heap q" "p_i p < p_i ?b"
        using post True sep m by (auto intro: reach_skip reach_bump ahead_skip)
      have "p_left ?b < n" by (rule left_less [OF b(1,3)]) (use Suc.prems(3) in simp)
      then have "good ?b (\<lambda>x q. adds1 K ?par ?b x q) (sep_loop sep item mid post n ?par ?b)"
        by (rule Suc.IH [OF reach_sane [OF b(1)] left_reach [OF b(1) Suc.prems(2)]])
      then have "good p (\<lambda>x q. adds1 K parent p x q) (sep_loop sep item mid post n ?par ?b)"
      proof (rule good_tail [OF _ b(1)])
        fix x' q' assume "reach ?b q'" "adds1 K ?par ?b x' q'"
        then show "adds1 K parent p x' q'"
          using q b(2) reach_le(2) [of ?b q'] reach_same(1) [OF b(1)] by (auto intro: adds1_push adds1_adds)
      qed
      then show ?thesis using True by simp
    next
      case False
      then show ?thesis using m q reach_same(1) [OF q(1)] by (auto intro!: good_ret adds1_push adds_none)
    qed
  qed
qed (simp add: sep_loop.simps)

lemma bind_sep_level:
  assumes lv: "level N K item" and sh: "mid \<in> {id, skip_newlines}" "post \<in> {id, skip_newlines}" "sep \<noteq> TK_EOF"
    and q: "reach p0 p" "p_left p < N" and n: "p_left p < n"
    and k: "\<And>c cs q'. \<lbrakk>reach p0 q'; p_src q' = p_src p0; p_i p \<le> p_i q'; p_heap p0 \<le> p_heap q'; p_heap p \<le> p_heap q';
           list_all (\<lambda>c. wf_in (p_src p0) c \<and> K c) (c # cs);
           within (p_heap p) (p_heap q') (concat (map ids (c # cs)))\<rbrakk>
         \<Longrightarrow> good p0 Q (k (kai_node_pushes parent (c # cs)) q')"
  shows "good p0 Q (pbind (sep_loop sep item mid post n parent p) k)"
proof -
  have "good p (\<lambda>x q. adds1 K parent p x q) (sep_loop sep item mid post n parent p)"
    using sep_loop_ok [OF lv sh reach_sane [OF q(1)] q(2) n, of parent] .
  then show ?thesis
  proof (rule good_bind [OF _ q(1)])
    fix x q' assume a: "reach p q'" "reach p0 q'" "adds1 K parent p x q'"
    then obtain c cs where x: "x = kai_node_pushes parent (c # cs)"
      and cs: "list_all (\<lambda>c. wf_in (p_src p0) c \<and> K c) (c # cs)"
        "within (p_heap p) (p_heap q') (concat (map ids (c # cs)))"
      using reach_same(1) [OF q(1)] by (auto simp: adds1_def)
    show "good p0 Q (k x q')"
      unfolding x using reach_le [OF a(1)] reach_le(2) [OF a(2)] reach_same(1) [OF a(2)] a(2) cs
      by (intro k)
  qed
qed

lemma bind_sep:
  assumes lv: "level N K item" and p0: "p_left p0 \<le> N"
    and sh: "mid \<in> {id, skip_newlines}" "post \<in> {id, skip_newlines}" "sep \<noteq> TK_EOF"
    and q: "reach p0 p" "p_i p0 < p_i p" and n: "p_left p < n"
    and k: "\<And>c cs q'. \<lbrakk>reach p0 q'; p_src q' = p_src p0; p_i p0 < p_i q'; p_heap p0 \<le> p_heap q'; p_heap p \<le> p_heap q';
           list_all (\<lambda>c. wf_in (p_src p0) c \<and> K c) (c # cs);
           within (p_heap p) (p_heap q') (concat (map ids (c # cs)))\<rbrakk>
         \<Longrightarrow> good p0 Q (k (kai_node_pushes parent (c # cs)) q')"
  shows "good p0 Q (pbind (sep_loop sep item mid post n parent p) k)"
  using q(2) by (intro bind_sep_level [OF lv sh q(1) left_less [OF q p0] n] k) simp_all

lemma bind_sep_inner:
  assumes lv: "level N K item" and p0: "p_left p0 < N"
    and sh: "mid \<in> {id, skip_newlines}" "post \<in> {id, skip_newlines}" "sep \<noteq> TK_EOF"
    and q: "reach p0 p" and n: "p_left p < n"
    and k: "\<And>c cs q'. \<lbrakk>reach p0 q'; p_src q' = p_src p0; p_i p0 \<le> p_i q'; p_heap p0 \<le> p_heap q'; p_heap p \<le> p_heap q';
           list_all (\<lambda>c. wf_in (p_src p0) c \<and> K c) (c # cs);
           within (p_heap p) (p_heap q') (concat (map ids (c # cs)))\<rbrakk>
         \<Longrightarrow> good p0 Q (k (kai_node_pushes parent (c # cs)) q')"
  shows "good p0 Q (pbind (sep_loop sep item mid post n parent p) k)"
  using reach_le(1) [OF q] by (intro bind_sep_level [OF lv sh q left_reach [OF q p0] n] k) simp_all

lemma pbind_assoc [simp]: "pbind (pbind m f) k = pbind m (\<lambda>x p. pbind (f x p) k)"
  by (auto simp: pbind_def split: prod.splits option.splits)

lemma pbind_if [simp]: "pbind (if b then x else y) k = (if b then pbind x k else pbind y k)"
  by simp

lemma kinds [simp]:
  "expr_kind N_INT" "expr_kind N_REAL" "expr_kind N_CHAR" "expr_kind N_STRING" "expr_kind N_BOOL"
  "expr_kind N_UNIT" "expr_kind N_IDENT" "expr_kind N_PLACEHOLDER" "expr_kind N_CALL"
  "expr_kind N_FIELD" "expr_kind N_INDEX" "expr_kind N_BINOP" "expr_kind N_UNOP" "expr_kind N_IF"
  "expr_kind N_MATCH" "expr_kind N_LAMBDA" "expr_kind N_RECORD_LIT" "expr_kind N_LIST_LIT"
  "expr_kind N_RANGE_LIT" "expr_kind N_PIPE" "expr_kind N_BLOCK"
  "type_kind N_TY_NAME" "type_kind N_TY_LIST" "type_kind N_TY_FN"
  "pat_kind N_PAT_WILD" "pat_kind N_PAT_LIT" "pat_kind N_PAT_BIND" "pat_kind N_PAT_LIST"
  "pat_kind N_PAT_VARIANT" "pat_kind N_PAT_RECORD"
  "stmt_kind N_LET" "stmt_kind N_ASSERT" "stmt_kind N_EXPR_STMT"
  "decl_kind N_FN" "decl_kind N_TYPE_DECL" "decl_kind N_TEST" "decl_kind N_IMPORT"
  "lit_kind N_INT" "lit_kind N_REAL" "lit_kind N_CHAR" "lit_kind N_STRING" "lit_kind N_BOOL"
  by (simp_all add: kind_defs)

lemmas steps = good_if good_error_here good_ret reach_refl reach_intros ahead_intros
  within_last within_first

lemma reach_both: "reach p q \<Longrightarrow> p_i p \<le> p_i q \<and> p_heap p \<le> p_heap q \<and> p_src q = p_src p"
  using reach_le reach_same by blast

lemma within_snoc: "within a b xs \<Longrightarrow> a \<le> b \<Longrightarrow> within a (Suc b) (xs @ [b])"
  by (fastforce simp: within_def list_all_iff)

lemma within_mid:
  "within a b xs \<Longrightarrow> within (Suc b) c ys \<Longrightarrow> a \<le> b \<Longrightarrow> b < c \<Longrightarrow> within a c (b # xs @ ys)"
  by (fastforce simp: within_def list_all_iff)

lemma within_mid2:
  "within a b xs \<Longrightarrow> within b c ys \<Longrightarrow> within (Suc c) d zs \<Longrightarrow> a \<le> b \<Longrightarrow> b \<le> c \<Longrightarrow> c < d
    \<Longrightarrow> within a d (c # xs @ ys @ zs)"
  by (fastforce simp: within_def list_all_iff)

lemma within_mid_two:
  "within a b xs \<Longrightarrow> within (Suc (Suc b)) c ys \<Longrightarrow> a \<le> b \<Longrightarrow> Suc b < c \<Longrightarrow> within a c (b # Suc b # xs @ ys)"
  by (fastforce simp: within_def list_all_iff)

lemmas spans = within_mid_two within_mid within_mid2 within_append within_append_later within_append_later2
lemmas pushed = list_all_iff all_kinds_def

text \<open>What the items of a block add to it: statements, and perhaps the final value.\<close>

definition block_items :: "node \<Rightarrow> pst \<Rightarrow> node \<times> node option \<Rightarrow> pst \<Rightarrow> bool" where
  "block_items b p r q \<longleftrightarrow>
     (\<exists>cs. fst r = kai_node_pushes b cs \<and> list_all (\<lambda>c. wf_in (p_src p) c \<and> stmt_kind (n_kind c)) cs
        \<and> (case snd r of
             None \<Rightarrow> within (p_heap p) (p_heap q) (concat (map ids cs))
           | Some e \<Rightarrow> wf_in (p_src p) e \<and> is_expr e
               \<and> within (p_heap p) (p_heap q) (concat (map ids cs) @ ids e)))"

lemma kai_node_pushes_append: "kai_node_pushes b (cs @ ds) = kai_node_pushes (kai_node_pushes b cs) ds"
  by (induction cs arbitrary: b) simp_all

lemma block_items_trans:
  assumes "block_items b p (b1, None) q" "block_items b1 q' r s"
    "p_heap p \<le> p_heap q" "p_heap q' = p_heap q" "p_heap q \<le> p_heap s" "p_src q' = p_src p"
  shows "block_items b p r s"
proof -
  obtain cs where "b1 = kai_node_pushes b cs" "list_all (\<lambda>c. wf_in (p_src p) c \<and> stmt_kind (n_kind c)) cs"
      "within (p_heap p) (p_heap q) (concat (map ids cs))"
    using assms(1) by (auto simp: block_items_def)
  moreover obtain ds where "fst r = kai_node_pushes b1 ds" "list_all (\<lambda>c. wf_in (p_src p) c \<and> stmt_kind (n_kind c)) ds"
      "case snd r of
         None \<Rightarrow> within (p_heap q) (p_heap s) (concat (map ids ds))
       | Some e \<Rightarrow> wf_in (p_src p) e \<and> is_expr e
           \<and> within (p_heap q) (p_heap s) (concat (map ids ds) @ ids e)"
    using assms(2) unfolding block_items_def assms(4,6) by blast
  ultimately show ?thesis
    unfolding block_items_def using assms(3,5)
    by (intro exI [of _ "cs @ ds"])
      (auto simp: kai_node_pushes_append intro: within_append split: option.splits)
qed

lemma block_items_stmt:
  "wf_in (p_src p) s \<Longrightarrow> stmt_kind (n_kind s) \<Longrightarrow> within (p_heap p) (p_heap q) (ids s)
    \<Longrightarrow> block_items b p (kai_node_push b s, None) q"
  unfolding block_items_def by (intro exI [of _ "[s]"]) simp

lemma block_items_value:
  "wf_in (p_src p) e \<Longrightarrow> is_expr e \<Longrightarrow> within (p_heap p) (p_heap q) (ids e) \<Longrightarrow> block_items b p (b, Some e) q"
  unfolding block_items_def by (intro exI [of _ "[]"]) simp

lemma block_items_none: "block_items b p (b, None) q"
  unfolding block_items_def by (intro exI [of _ "[]"]) simp

text \<open>An expression built around a left operand that was parsed from address \<open>h\<close> on.\<close>

definition grown :: "nat \<Rightarrow> pst \<Rightarrow> node \<Rightarrow> pst \<Rightarrow> bool" where
  "grown h p x q \<longleftrightarrow> p_i p < p_i q \<and> wf_in (p_src p) x \<and> is_expr x \<and> within h (p_heap q) (ids x)"

text \<open>The elements of a list pattern, the last one a \<open>...rest\<close> binding when the flag is set.\<close>

definition list_pattern :: "node \<Rightarrow> pst \<Rightarrow> node \<Rightarrow> pst \<Rightarrow> bool" where
  "list_pattern pl p x q \<longleftrightarrow>
     (\<exists>cs. list_all (\<lambda>c. wf_in (p_src p) c \<and> is_pat c) cs \<and> within (p_heap p) (p_heap q) (concat (map ids cs))
        \<and> (x = kai_node_pushes pl cs
             \<or> x = kai_node_pushes (or_flags pl 1) cs \<and> cs \<noteq> [] \<and> n_kind (last cs) = N_PAT_BIND))"

lemma or_flags_push: "or_flags (kai_node_push n c) b = kai_node_push (or_flags n b) c"
  by (cases n) simp_all

lemma list_pattern_rest:
  "nm \<noteq> [] \<Longrightarrow> p_heap q = p_heap p \<Longrightarrow> list_pattern pl p
     (kai_node_push (or_flags pl (Suc 0)) (Node N_PAT_BIND (p_heap p) l c nm 0 V_none []))
     (q\<lparr>p_heap := Suc (p_heap p)\<rparr>)"
  unfolding list_pattern_def
  by (intro exI [of _ "[Node N_PAT_BIND (p_heap p) l c nm 0 V_none []]"]) (simp add: within_def)

lemma list_pattern_last:
  "wf_in (p_src p) x \<Longrightarrow> is_pat x \<Longrightarrow> within (p_heap p) (p_heap q) (ids x)
    \<Longrightarrow> list_pattern pl p (kai_node_push pl x) (skip_newlines q)"
  unfolding list_pattern_def by (intro exI [of _ "[x]"]) simp

lemma list_pattern_elt:
  assumes "list_pattern (kai_node_push pl x) q y z" "wf_in (p_src p) x" "is_pat x"
    "within (p_heap p) (p_heap q) (ids x)" "p_heap p \<le> p_heap q" "p_heap q \<le> p_heap z" "p_src q = p_src p"
  shows "list_pattern pl p y z"
proof -
  obtain cs where "list_all (\<lambda>c. wf_in (p_src p) c \<and> is_pat c) cs"
      "within (p_heap q) (p_heap z) (concat (map ids cs))"
      "y = kai_node_pushes (kai_node_push pl x) cs
         \<or> y = kai_node_pushes (or_flags (kai_node_push pl x) 1) cs \<and> cs \<noteq> [] \<and> n_kind (last cs) = N_PAT_BIND"
    using assms(1,7) by (auto simp: list_pattern_def)
  then show ?thesis
    unfolding list_pattern_def using assms(2-)
    by (intro exI [of _ "x # cs"]) (auto simp: or_flags_push intro: within_append within_mono)
qed

locale knot_contract =
  fixes kn :: knot and N :: nat
  assumes k_expr_ok: "level N is_expr (k_expr kn)"
    and k_unary_ok: "level N is_expr (k_unary kn)"
    and k_if_ok: "level N (is_k N_IF) (k_if kn)"
    and k_pattern_ok: "level N is_pat (k_pattern kn)"
    and k_type_ok: "level N is_type (k_type kn)"
begin

lemmas bind_knot = bind_ahead [OF k_expr_ok] bind_ahead [OF k_unary_ok] bind_ahead [OF k_if_ok]
  bind_ahead [OF k_pattern_ok] bind_ahead [OF k_type_ok]
lemmas inner_knot = bind_inner [OF k_expr_ok] bind_inner [OF k_unary_ok] bind_inner [OF k_if_ok]
  bind_inner [OF k_pattern_ok] bind_inner [OF k_type_ok]

subsection \<open>Types\<close>

lemma parse_named_type_ok:
  assumes "sane p" "p_left p \<le> N" "peek_kind p = TK_IDENT"
  shows "parses is_type p (parse_named_type kn p)"
  using assms peek_text [of p]
  by (auto simp: parse_named_type_def parse_simps pushed
     intro!: steps bind_knot bind_sep [OF k_type_ok] intro: spans)

lemma parse_fn_type_ok:
  assumes "sane p" "p_left p \<le> N" "peek_kind p = TK_LPAREN"
  shows "parses is_type p (parse_fn_type kn t (bump p))"
  using assms
  by (auto simp: parse_fn_type_def parse_simps pushed
     intro!: steps bind_knot bind_sep [OF k_type_ok] intro: spans)

lemma parse_type_ok: "level (Suc N) is_type (parse_type kn)"
proof (rule levelI)
  fix p assume "sane p" "p_left p \<le> N"
  then show "parses is_type p (parse_type kn p)"
    using parse_named_type_ok [of p] parse_fn_type_ok [of p]
    by (auto simp: parse_type_def parsed_def alloc_Pair Let_def p_at_def
        intro!: steps bind_knot intro: spans)
qed

subsection \<open>Statements\<close>

lemma parse_let_ok: "level N (is_k N_LET) (parse_let kn)"
  unfolding level_def
  by (auto simp: parse_let_def parse_simps intro!: steps inner_knot, (auto intro!: steps intro: spans)?)

lemma parse_assert_ok: "level N (is_k N_ASSERT) (parse_assert kn)"
  unfolding level_def
  by (auto simp: parse_assert_def parse_simps intro!: steps inner_knot, (auto intro: spans)?)

lemma parse_stmt_ok: "level N (\<lambda>x. stmt_kind (n_kind x)) (parse_stmt kn)"
  unfolding level_def
  by (auto simp: parse_stmt_def parsed_def alloc_Pair Let_def p_at_def
      intro!: steps inner_knot tail_inner [OF parse_let_ok] tail_inner [OF parse_assert_ok])

subsection \<open>Blocks\<close>

lemma parse_block_item_ok:
  assumes "sane p" "p_left p < N"
  shows "good p (\<lambda>r q. p_i p < p_i q \<and> block_items b p r q) (parse_block_item kn b p)"
  using assms
  by (auto simp: parse_block_item_def alloc_Pair Let_def p_at_def
      intro!: steps inner_knot bind_inner [OF parse_stmt_ok] block_items_stmt block_items_value)

lemma parse_block_loop_ok:
  "\<lbrakk>sane p; p_left p < N; p_left p < n\<rbrakk> \<Longrightarrow> good p (block_items b p) (parse_block_loop kn n b p)"
proof (induction n arbitrary: b p)
  case (Suc n)
  note s = Suc.prems(1)
  show ?case
  proof (cases "p_at p TK_RBRACE \<or> p_at p TK_EOF")
    case True
    then show ?thesis
      by (simp add: parse_block_loop.simps good_ret reach_refl [OF s] block_items_none)
  next
    case False
    have "good p (block_items b p) (pbind (parse_block_item kn b p) (\<lambda>(b, last_expr) p.
        if last_expr \<noteq> None then ret (b, last_expr) p
        else parse_block_loop kn n b (skip_newlines_and_semis p)))"
    proof (rule good_bind [OF parse_block_item_ok [OF Suc.prems(1,2)] reach_refl [OF s]])
      fix r q assume q: "reach p q" "p_i p < p_i q \<and> block_items b p r q"
      obtain b1 l where r: "r = (b1, l)" by fastforce
      let ?q = "skip_newlines_and_semis q"
      have m: "reach p ?q" "p_i p < p_i ?q" using q by (auto intro: reach_skip_semis ahead_skip_semis)
      have "p_left ?q < n" by (rule left_less [OF m]) (use Suc.prems(3) in simp)
      then have ih: "good ?q (block_items b1 ?q) (parse_block_loop kn n b1 ?q)"
        by (rule Suc.IH [OF reach_sane [OF m(1)] left_reach [OF m(1) Suc.prems(2)]])
      have "good p (block_items b p) (parse_block_loop kn n b1 ?q)" if "l = None"
      proof (rule good_tail [OF ih m(1)])
        fix x q' assume "reach ?q q'" "block_items b1 ?q x q'"
        then show "block_items b p x q'"
          using q(2) reach_le(2) [OF q(1)] reach_le(2) [of ?q q'] reach_same(1) [OF m(1)] unfolding r that
          by (auto intro: block_items_trans)
      qed
      then show "good p (block_items b p) ((case r of (b, last_expr) \<Rightarrow> \<lambda>p.
          if last_expr \<noteq> None then ret (b, last_expr) p
          else parse_block_loop kn n b (skip_newlines_and_semis p)) q)"
        using q unfolding r by (auto intro: good_ret)
    qed
    then show ?thesis using False by (simp add: parse_block_loop.simps)
  qed
qed simp

lemma parse_block_ok: "level (Suc N) (is_k N_BLOCK) (parse_block kn)"
proof (rule levelI)
  fix p assume p: "sane p" "p_left p \<le> N"
  have loop: "good q (block_items b q) (parse_block_loop kn (Suc (p_left q)) b q)"
    if "reach p q" "p_i p < p_i q" for b q
    using left_less [OF that p(2)] reach_sane [OF that(1)] by (intro parse_block_loop_ok) simp_all
  show "parses (is_k N_BLOCK) p (parse_block kn p)"
    using p
    by (auto simp: parse_block_def parse_simps block_items_def pushed
        intro!: steps good_bind [OF loop] split: option.splits,
      (auto dest!: reach_both intro!: within_snoc)?)
qed

subsection \<open>Conditionals and matches\<close>

lemma parse_if_ok: "level (Suc N) (is_k N_IF) (parse_if kn)"
proof (rule levelI)
  fix p assume "sane p" "p_left p \<le> N"
  then show "parses (is_k N_IF) p (parse_if kn p)"
    by (auto simp: parse_if_def parse_simps intro!: steps bind_knot bind_here [OF parse_block_ok],
      (auto intro: spans)?)
qed

lemma parse_arm_ok: "level N (is_k N_ARM) (parse_arm kn)"
  unfolding level_def
  by (auto simp: parse_arm_def parse_simps
      intro!: steps inner_knot bind_inner [OF level_Suc [OF parse_block_ok]],
    (auto intro: spans)?)

lemma parse_match_loop_ok:
  "\<lbrakk>sane p; p_left p < N; p_left p < n\<rbrakk>
    \<Longrightarrow> good p (\<lambda>x q. adds (is_k N_ARM) m p x q) (parse_match_loop kn n m p)"
proof (induction n arbitrary: m p)
  case (Suc n)
  note s = Suc.prems(1)
  show ?case
  proof (cases "p_at p TK_RBRACE \<or> p_at p TK_EOF")
    case True
    then show ?thesis
      by (simp add: parse_match_loop.simps good_ret reach_refl [OF s] adds_none)
  next
    case False
    have "good p (\<lambda>x q. adds (is_k N_ARM) m p x q) (pbind (parse_arm kn p) (\<lambda>arm p.
        parse_match_loop kn n (kai_node_push m arm) (skip_newlines_and_semis p)))"
    proof (rule bind_inner [OF parse_arm_ok Suc.prems(2) reach_refl [OF s]])
      fix x q assume q: "reach p q" "p_i p < p_i q" "p_heap p \<le> p_heap q" "wf_in (p_src p) x" "is_k N_ARM x"
        "within (p_heap p) (p_heap q) (ids x)"
      let ?q = "skip_newlines_and_semis q" and ?m = "kai_node_push m x"
      have b: "reach p ?q" "p_i p < p_i ?q" using q by (auto intro: reach_skip_semis ahead_skip_semis)
      have "p_left ?q < n" by (rule left_less [OF b]) (use Suc.prems(3) in simp)
      then have "good ?q (\<lambda>x q. adds (is_k N_ARM) ?m ?q x q) (parse_match_loop kn n ?m ?q)"
        by (rule Suc.IH [OF reach_sane [OF b(1)] left_reach [OF b(1) Suc.prems(2)]])
      then show "good p (\<lambda>x q. adds (is_k N_ARM) m p x q) (parse_match_loop kn n ?m ?q)"
      proof (rule good_tail [OF _ b(1)])
        fix x' q' assume "reach ?q q'" "adds (is_k N_ARM) ?m ?q x' q'"
        then show "adds (is_k N_ARM) m p x' q'"
          using q reach_le(2) [of ?q q'] reach_same(1) [OF b(1)] by (auto intro: adds_push)
      qed
    qed
    then show ?thesis using False by (simp add: parse_match_loop.simps)
  qed
qed simp

lemma parse_match_ok: "level (Suc N) (is_k N_MATCH) (parse_match kn)"
proof (rule levelI)
  fix p assume p: "sane p" "p_left p \<le> N"
  have loop: "good q (\<lambda>x q'. adds (is_k N_ARM) m q x q') (parse_match_loop kn (Suc (p_left q)) m q)"
    if "reach p q" "p_i p < p_i q" for m q
    using left_less [OF that p(2)] reach_sane [OF that(1)] by (intro parse_match_loop_ok) simp_all
  show "parses (is_k N_MATCH) p (parse_match kn p)"
    using p
    by (auto simp: parse_match_def parse_simps adds_def pushed
        intro!: steps bind_knot good_bind [OF loop],
      (auto dest!: reach_both intro: spans)?)
qed

subsection \<open>Literals, lists and ranges\<close>

lemma parse_string_literal_ok:
  assumes "sane p" "peek_kind p = TK_STRING"
  shows "parses (is_k N_STRING) p (parse_string_literal p)"
  using assms peek_text [of p]
  by (auto simp: parse_string_literal_def parse_simps intro!: steps)

lemma parse_field_init_ok: "level N (is_k N_FIELD_INIT) (parse_field_init kn)"
proof -
  have "parses (is_k N_FIELD_INIT) p (parse_field_init kn p)" if "sane p" "p_left p < N" for p
    using that peek_text [OF sane_skip_newlines, of p]
    by (auto simp: parse_field_init_def parse_simps intro!: steps inner_knot)
  then show ?thesis by (simp add: level_def)
qed

lemma parse_record_lit_ok:
  assumes "sane p" "p_left p < N" "n_name tn \<noteq> []"
  shows "parses (is_k N_RECORD_LIT) p (parse_record_lit kn tn p)"
  using assms
  by (auto simp: parse_record_lit_def parse_simps pushed
      intro!: steps inner_knot bind_sep_inner [OF parse_field_init_ok])

lemma parse_range_tail_ok:
  assumes "reach p0 p" "p_i p0 < p_i p" "p_left p0 \<le> N" "wf_in (p_src p0) first" "is_expr first"
    "within (p_heap p0) (p_heap p) (ids first)"
  shows "parses is_expr p0 (parse_range_tail kn op first p)"
  using assms reach_le(2) [OF assms(1)]
  by (auto simp: parse_range_tail_def parse_simps intro!: steps bind_knot, (auto intro: spans)?)

lemma push_list_elt_Node:
  "push_list_elt (Node k a l c nm fl v ch) e b p =
     (if b then (Node k a l c nm fl v (ch @ [Node N_SPREAD (p_heap p) (n_line e) (n_col e) [] 0 V_none [e]]),
                 p\<lparr>p_heap := Suc (p_heap p)\<rparr>)
      else (Node k a l c nm fl v (ch @ [e]), p))"
  by (simp add: push_list_elt_def alloc_Pair)

abbreviation (input) list_elt :: "node \<Rightarrow> bool" where
  "list_elt x \<equiv> expr_kind (n_kind x) \<or> n_kind x = N_SPREAD"

lemma push_list_elt_adds:
  assumes "reach p q" "wf_in (p_src p) e" "is_expr e" "within (p_heap p) (p_heap q) (ids e)" "p_heap p \<le> p_heap q"
    and r: "push_list_elt lst e b q = (lst', q')"
  obtains x where "lst' = kai_node_push lst x" "wf_in (p_src p) x" "list_elt x"
    "within (p_heap p) (p_heap q') (ids x)" "p_heap p \<le> p_heap q'" "reach p q'" "p_i q' = p_i q"
    "p_left q' = p_left q"
proof (cases b)
  case True
  let ?x = "Node N_SPREAD (p_heap q) (n_line e) (n_col e) [] 0 V_none [e]"
  have "lst' = kai_node_push lst ?x" "q' = q\<lparr>p_heap := Suc (p_heap q)\<rparr>"
    using r True by (simp_all add: push_list_elt_def alloc_Pair)
  then show ?thesis
    using assms by (intro that [of ?x]) (auto intro: reach_heap within_last)
next
  case False
  then show ?thesis using assms by (intro that [of e]) (simp_all add: push_list_elt_def)
qed

lemma parse_list_loop_ok:
  "\<lbrakk>sane p; p_left p \<le> N; p_left p < n\<rbrakk>
    \<Longrightarrow> good p (\<lambda>x q. adds list_elt lst p x q) (parse_list_loop kn n lst p)"
proof (induction n arbitrary: lst p)
  case (Suc n)
  note s = Suc.prems(1)
  have step: "good p (\<lambda>x q. adds list_elt lst p x q)
      (pbind (k_expr kn q) (\<lambda>e q. let (lst, q) = push_list_elt lst e b q in parse_list_loop kn n lst q))"
    if "reach p q" "p_i p < p_i q" "p_heap q = p_heap p" for q b
  proof (rule bind_ahead [OF k_expr_ok Suc.prems(2) that(1,2)])
    fix e q1 assume q1: "reach p q1" "p_i p < p_i q1" "p_heap p \<le> p_heap q1"
      "wf_in (p_src p) e" "is_expr e" "within (p_heap q) (p_heap q1) (ids e)"
    obtain lst' q2 where r: "push_list_elt lst e b q1 = (lst', q2)" by fastforce
    have w: "within (p_heap p) (p_heap q1) (ids e)" using q1(6) that(3) by simp
    obtain x where x: "lst' = kai_node_push lst x" "wf_in (p_src p) x" "list_elt x"
      "within (p_heap p) (p_heap q2) (ids x)" "p_heap p \<le> p_heap q2" "reach p q2" "p_i q2 = p_i q1"
      by (rule push_list_elt_adds [OF q1(1,4,5) w q1(3) r])
    have a: "p_i p < p_i q2" using q1(2) x(7) by simp
    have "p_left q2 < n" by (rule left_less [OF x(6) a]) (use Suc.prems(3) in simp)
    moreover have "p_left q2 \<le> N" using left_less [OF x(6) a Suc.prems(2)] by simp
    ultimately have "good q2 (\<lambda>x q. adds list_elt lst' q2 x q) (parse_list_loop kn n lst' q2)"
      by (intro Suc.IH reach_sane [OF x(6)])
    then have "good p (\<lambda>x q. adds list_elt lst p x q) (parse_list_loop kn n lst' q2)"
    proof (rule good_tail [OF _ x(6)])
      fix y q3 assume "reach q2 q3" "adds list_elt lst' q2 y q3"
      then show "adds list_elt lst p y q3"
        using x reach_le(2) [of q2 q3] reach_same(1) [OF x(6)] by (auto intro: adds_push)
    qed
    then show "good p (\<lambda>x q. adds list_elt lst p x q)
        (let (lst, q) = push_list_elt lst e b q1 in parse_list_loop kn n lst q)"
      by (simp add: r)
  qed
  show ?case
    using s
    by (auto simp: parse_list_loop.simps p_at_def Let_def intro!: steps adds_none step [unfolded Let_def])
qed simp

lemma parse_list_tail_ok:
  assumes "reach p0 p" "p_i p0 < p_i p" "p_left p0 \<le> N" "wf_in (p_src p0) first" "is_expr first"
    "within (p_heap p0) (p_heap p) (ids first)"
  shows "parses is_expr p0 (parse_list_tail kn op first b p)"
proof -
  have loop: "good q (\<lambda>x q'. adds list_elt m q x q') (parse_list_loop kn n m q)"
    if "reach p0 q" "p_left q < n" for m q n
    using reach_sane [OF that(1)] left_reach [OF that(1), of "Suc N"] assms(3) that(2)
    by (intro parse_list_loop_ok) simp_all
  show ?thesis
    using assms reach_le(2) [OF assms(1)]
    by (auto simp: parse_list_tail_def parse_simps push_list_elt_Node adds_def pushed
        intro!: steps good_bind [OF loop], (auto dest!: reach_both intro!: steps intro: spans)?)
qed

lemma parse_list_or_range_ok:
  assumes "sane p" "p_left p \<le> N"
  shows "parses is_expr p (parse_list_or_range kn p)"
  using assms
  by (auto simp: parse_list_or_range_def alloc_Pair Let_def p_at_def
      intro!: steps bind_knot parse_range_tail_ok parse_list_tail_ok, (auto simp: parsed_def intro!: steps)?)

subsection \<open>Lambdas and parentheses\<close>

text \<open>The lookahead never reads past the end-of-file token.\<close>

lemma skip_nl_from_less:
  assumes "j < length toks" "t_kind (last toks) = TK_EOF"
  shows "skip_nl_from toks j < length toks"
proof (rule ccontr)
  let ?w = "takeWhile (\<lambda>t. t_kind t = TK_NEWLINE) (drop j toks)"
  assume "\<not> ?thesis"
  then have "length ?w = length (drop j toks)"
    using assms(1) length_takeWhile_le [of "\<lambda>t. t_kind t = TK_NEWLINE" "drop j toks"]
    by (simp add: skip_nl_from_def)
  then have "?w = drop j toks"
    by (metis append_take_drop_id length_drop takeWhile_eq_take take_all_iff order_refl)
  then have "\<forall>t\<in>set (drop j toks). t_kind t = TK_NEWLINE"
    using set_takeWhileD by metis
  moreover have "last toks \<in> set (drop j toks)"
    using assms(1) last_in_set [of "drop j toks"] by (simp add: last_drop)
  ultimately show False using assms(2) by auto
qed

lemma not_last:
  assumes "t_kind (last toks) = TK_EOF" "i < length toks" "t_kind (toks ! i) \<noteq> TK_EOF"
  shows "Suc i < length toks"
proof (rule ccontr)
  assume "\<not> Suc i < length toks"
  then have "i = length toks - 1" "toks \<noteq> []" using assms(2) by auto
  then show False using assms by (simp add: last_conv_nth)
qed

lemma lambda_scan_defined:
  assumes e: "t_kind (last toks) = TK_EOF"
  shows "j < length toks \<Longrightarrow> lambda_scan toks j \<noteq> None"
proof (induction "length toks - j" arbitrary: j rule: less_induct)
  case less
  show ?case
  proof (cases "t_kind (toks ! j) = TK_IDENT")
    case True
    then have 1: "Suc j < length toks" using not_last [OF e less.prems] by simp
    have 2: "Suc (Suc j) < length toks" if "t_kind (toks ! Suc j) \<noteq> TK_EOF"
      by (rule not_last [OF e 1 that])
    show ?thesis
    proof (cases "t_kind (toks ! Suc j) = TK_COMMA")
      case comma: True
      let ?k = "skip_nl_from toks (Suc (Suc j))"
      have k: "?k < length toks" using 2 comma by (intro skip_nl_from_less e) simp
      moreover have "j < ?k" by (simp add: skip_nl_from_def)
      ultimately have "lambda_scan toks ?k \<noteq> None" by (intro less.hyps) simp_all
      then show ?thesis
        using less.prems True 1 comma by (subst lambda_scan.simps) simp
    next
      case False
      then show ?thesis
        using less.prems True 1 2 by (subst lambda_scan.simps) (auto simp: Let_def)
    qed
  next
    case False
    then show ?thesis using less.prems by (subst lambda_scan.simps) simp
  qed
qed

lemma scan_paren_reach:
  assumes "reach p q" "scan_paren_is_lambda q = (b, q')"
  shows "q' = q"
proof -
  have "t_kind (last (p_toks q)) = TK_EOF" "p_i q < length (p_toks q)"
    using assms(1) by (auto simp: reach_def moves_def sane_def toks_ok_def)
  from lambda_scan_defined [OF this] show ?thesis
    using assms(2) by (auto simp: scan_paren_is_lambda_def split: if_splits option.splits)
qed

lemma parse_lambda_param_ok: "level N (is_k N_IDENT) parse_lambda_param"
proof -
  have "parses (is_k N_IDENT) p (parse_lambda_param p)" if "sane p" for p
    using that peek_text [of p]
    by (auto simp: parse_lambda_param_def parse_simps intro!: steps)
  then show ?thesis by (simp add: level_def)
qed

lemma parse_paren_lambda_ok:
  assumes "sane p" "p_left p < N"
  shows "parses is_expr p (parse_paren_lambda kn t p)"
  using assms
  by (auto simp: parse_paren_lambda_def parse_simps pushed
      intro!: steps inner_knot bind_sep_inner [OF parse_lambda_param_ok], (auto intro: spans)?)

lemma parse_paren_expr_ok:
  assumes p: "sane p" "p_left p \<le> N" "peek_kind p = TK_LPAREN"
  shows "parses is_expr p (parse_paren_expr kn t p)"
proof -
  obtain b q where q: "scan_paren_is_lambda (bump p) = (b, q)" by fastforce
  have r: "reach p (bump p)" "p_i p < p_i (bump p)" using p by (auto intro!: steps)
  have "q = bump p" by (rule scan_paren_reach [OF r(1) q])
  moreover have "parses is_expr p (parse_paren_lambda kn t (bump p))"
    using parse_paren_lambda_ok [OF reach_sane [OF r(1)] left_less [OF r p(2)]] r(1)
    by (rule tail_parses)
  ultimately show ?thesis
    using p q
    by (auto simp: parse_paren_expr_def alloc_Pair Let_def p_at_def intro!: steps bind_knot,
      (auto simp: parsed_def intro!: steps intro: spans)?)
qed

lemma parse_lambda_from_ident_ok:
  assumes "reach p0 p" "p_i p0 < p_i p" "p_left p0 \<le> N" "wf_in (p_src p0) i" "is_k N_IDENT i"
    "within (p_heap p0) (p_heap p) (ids i)"
  shows "parses is_expr p0 (parse_lambda_from_ident kn i p)"
  using assms reach_le(2) [OF assms(1)]
  by (auto simp: parse_lambda_from_ident_def parse_simps intro!: steps bind_knot, (auto intro: spans)?)

subsection \<open>Primary expressions\<close>

lemma parses_weaken: "parses K p r \<Longrightarrow> (\<And>x. K x \<Longrightarrow> K' x) \<Longrightarrow> parses K' p r"
  by (auto simp: good_def parsed_def split: prod.splits option.splits)

lemma good_alloc:
  "reach p q \<Longrightarrow> p_i p < p_i q \<Longrightarrow> wf_in (p_src p) (Node k (p_heap q) l c nm fl v []) \<Longrightarrow> K (Node k (p_heap q) l c nm fl v [])
    \<Longrightarrow> parses K p (ret (Node k (p_heap q) l c nm fl v []) (q\<lparr>p_heap := Suc (p_heap q)\<rparr>))"
  using reach_le(2) [of p q]
  by (auto simp: good_def parsed_def within_def intro: reach_heap)

lemma good_leaf:
  assumes "sane p" "t_kind (peek_tok p) \<noteq> TK_EOF" "wf_in (p_src p) (Node k (p_heap p) l c nm fl v [])"
    "K (Node k (p_heap p) l c nm fl v [])"
  shows "parses K p (ret (Node k (p_heap p) l c nm fl v []) (bump p\<lparr>p_heap := Suc (p_heap p)\<rparr>))"
  using good_alloc [of p "bump p" k l c nm fl v K] reach_bump [OF reach_refl [OF assms(1)]] assms
  by (simp add: peek_kind_def)

lemma literal_node_Pair:
  "literal_node k v t p = (Node k (p_heap p) (t_line t) (t_col t) (tok_text (p_src p) t) 0 v [],
     p\<lparr>p_heap := Suc (p_heap p)\<rparr>)"
  by (simp add: literal_node_def alloc_Pair set_name_from_token_def)

lemma parse_primary_ok: "level (Suc N) is_expr (parse_primary kn)"
proof (rule levelI)
  fix p assume p: "sane p" "p_left p \<le> N"
  have r: "reach p (bump p)" "p_i p < p_i (bump p)" "p_left (bump p) < N" "sane (bump p)"
    if "t_kind (peek_tok p) \<noteq> TK_EOF"
  proof -
    show *: "reach p (bump p)" "p_i p < p_i (bump p)"
      using p that by (auto simp: peek_kind_def intro!: steps)
    show "p_left (bump p) < N" by (rule left_less [OF * p(2)])
    show "sane (bump p)" by (rule reach_sane [OF *(1)])
  qed
  note w = peek_text [OF p(1), unfolded peek_kind_def]
  have str: "parses is_expr p (parse_string_literal p)" if "t_kind (peek_tok p) = TK_STRING"
    by (rule parses_weaken [OF parse_string_literal_ok]) (use p that in \<open>simp_all add: peek_kind_def\<close>)
  have blk: "parses is_expr p (parse_block kn p)"
    by (rule tail_here [OF parse_block_ok p(2)]) (use p in \<open>simp_all add: reach_refl\<close>)
  have iff: "parses is_expr p (parse_if kn p)"
    by (rule tail_here [OF parse_if_ok p(2)]) (use p in \<open>simp_all add: reach_refl\<close>)
  have mtc: "parses is_expr p (parse_match kn p)"
    by (rule tail_here [OF parse_match_ok p(2)]) (use p in \<open>simp_all add: reach_refl\<close>)
  have lst: "parses is_expr p (parse_list_or_range kn p)"
    by (rule parse_list_or_range_ok [OF p])
  have par: "parses is_expr p (parse_paren_expr kn (peek_tok p) p)" if "t_kind (peek_tok p) = TK_LPAREN"
    by (rule parse_paren_expr_ok) (use p that in \<open>simp_all add: peek_kind_def\<close>)
  have lam: "parses is_expr p (parse_lambda_from_ident kn
      (Node N_IDENT (p_heap p) l c (tok_text (p_src p) (peek_tok p)) 0 V_none [])
      (bump p\<lparr>p_heap := Suc (p_heap p)\<rparr>))" if "t_kind (peek_tok p) = TK_IDENT" for l c
    by (rule parse_lambda_from_ident_ok) (use p r w that in \<open>auto intro: reach_heap simp: within_def\<close>)
  have rec: "parses is_expr p (parse_record_lit kn
      (Node N_IDENT (p_heap p) l c (tok_text (p_src p) (peek_tok p)) 0 V_none [])
      (bump p\<lparr>p_heap := Suc (p_heap p)\<rparr>))" if "t_kind (peek_tok p) = TK_IDENT" for l c
    by (rule tail_parses [OF parse_record_lit_ok]) (use p r w that in \<open>auto intro: reach_heap\<close>)
  have r0: "reach p p" using p(1) by (rule reach_refl)
  show "parses is_expr p (parse_primary kn p)"
    unfolding parse_primary_def Let_def
    using r w str blk iff mtc lst par lam rec
    by (simp add: alloc_Pair literal_node_Pair set_name_from_token_def
          good_error_here [OF r0] good_leaf [OF p(1)] p_at_def split: token_kind.split)
qed

subsection \<open>Postfix forms\<close>

lemma parse_call_arg_ok: "level N is_expr (parse_call_arg kn)"
proof -
  have "parses is_expr p (parse_call_arg kn p)" if "sane p" "p_left p < N" for p
    unfolding parse_call_arg_def
    by (rule tail_inner [OF k_expr_ok that(2)]) (use that in \<open>auto intro!: steps\<close>)
  then show ?thesis by (simp add: level_def)
qed

text \<open>The left operand was parsed earlier, from address \<open>h\<close> on.\<close>

lemma parse_call_suffix_ok:
  assumes "sane p" "p_left p < N" "peek_kind p = TK_LPAREN" "wf_in (p_src p) lhs" "is_expr lhs"
    "within h (p_heap p) (ids lhs)" "h \<le> p_heap p"
  shows "good p (grown h p) (parse_call_suffix kn lhs t p)"
  using assms
  by (auto simp: parse_call_suffix_def parse_simps grown_def pushed
      intro!: steps bind_sep_inner [OF parse_call_arg_ok], (auto intro: spans)?)

lemma parse_index_suffix_ok:
  assumes "sane p" "p_left p < N" "peek_kind p = TK_LBRACKET" "wf_in (p_src p) lhs" "is_expr lhs"
    "within h (p_heap p) (ids lhs)" "h \<le> p_heap p"
  shows "good p (grown h p) (parse_index_suffix kn lhs t p)"
  using assms
  by (auto simp: parse_index_suffix_def parse_simps grown_def intro!: steps inner_knot, (auto intro: spans)?)

lemma parse_postfix_loop_ok:
  "\<lbrakk>reach p0 p; p_left p0 \<le> N; p_i p0 < p_i p; wf_in (p_src p0) lhs; is_expr lhs;
     within (p_heap p0) (p_heap p) (ids lhs); p_left p < n\<rbrakk>
    \<Longrightarrow> parses is_expr p0 (parse_postfix_loop kn n lhs p)"
proof (induction n arbitrary: lhs p)
  case (Suc n)
  note a = Suc.prems
  have s: "sane p" "p_left p < N" "p_heap p0 \<le> p_heap p"
    using reach_sane [OF a(1)] left_less [OF a(1,3,2)] reach_le(2) [OF a(1)] by simp_all
  have w: "wf_in (p_src p) lhs" "is_expr lhs" "within (p_heap p0) (p_heap p) (ids lhs)"
    using a(4-6) reach_same(1) [OF a(1)] by simp_all
  have next_step: "parses is_expr p0 (parse_postfix_loop kn n x q)"
    if "reach p q" "grown (p_heap p0) p x q" for x q
  proof -
    have "p_left q < n" by (rule left_less [OF that(1)]) (use that(2) a(7) in \<open>auto simp: grown_def\<close>)
    then show ?thesis
      using that a(2) reach_trans [OF a(1) that(1)] a(3) reach_same(1) [OF a(1)]
      by (intro Suc.IH) (auto simp: grown_def)
  qed
  have suffix: "parses is_expr p0 (pbind m (\<lambda>lhs p. parse_postfix_loop kn n lhs p))"
    if "good p (grown (p_heap p0) p) m" for m
    by (rule good_bind [OF that a(1)]) (rule next_step)
  show ?case
  proof -
    consider (call) "peek_kind p = TK_LPAREN"
      | (field) "peek_kind p = TK_DOT" "peek_kind_n p 1 = TK_IDENT"
      | (index) "peek_kind p = TK_LBRACKET"
      | (stop) "peek_kind p \<noteq> TK_LPAREN" "\<not> (peek_kind p = TK_DOT \<and> peek_kind_n p 1 = TK_IDENT)"
          "peek_kind p \<noteq> TK_LBRACKET"
      by blast
    then show ?thesis
    proof cases
      case call
      then show ?thesis
        using suffix [OF parse_call_suffix_ok [OF s(1,2) call w s(3)]]
        by (simp add: parse_postfix_loop.simps p_at_def)
    next
      case index
      then show ?thesis
        using suffix [OF parse_index_suffix_ok [OF s(1,2) index w s(3)]]
        by (simp add: parse_postfix_loop.simps p_at_def)
    next
      case field
      have b: "peek_kind (bump p) = TK_IDENT" by (rule peek_kind_n_1 [OF field(2)]) simp
      have r: "reach p (bump (bump p))" using field(1) b s(1) by (auto intro!: steps)
      have t: "tok_text (p_src p) (peek_tok (bump p)) \<noteq> []"
        using peek_text [of "bump p"] b field(1) sane_bump [OF s(1)] by simp
      show ?thesis
        using a w t field s reach_heap [OF r, of "Suc (p_heap p)"]
        by (auto simp: parse_postfix_loop.simps alloc_Pair set_name_from_token_Node p_at_def Let_def grown_def
            intro!: next_step within_last)
    next
      case stop
      then show ?thesis
        using a by (auto simp: parse_postfix_loop.simps p_at_def parsed_def intro: good_ret)
    qed
  qed
qed simp

lemma parse_postfix_ok: "level (Suc N) is_expr (parse_postfix kn)"
proof (rule levelI)
  fix p assume p: "sane p" "p_left p \<le> N"
  show "parses is_expr p (parse_postfix kn p)"
    unfolding parse_postfix_def
    by (rule bind_here [OF parse_primary_ok p(2) reach_refl [OF p(1)]])
      (use p in \<open>auto intro!: parse_postfix_loop_ok\<close>)
qed

subsection \<open>The precedence ladder\<close>

lemma parse_unary_ok: "level (Suc N) is_expr (parse_unary kn)"
proof (rule levelI)
  fix p assume p: "sane p" "p_left p \<le> N"
  have post: "parses is_expr p (parse_postfix kn p)"
    by (rule tail_here [OF parse_postfix_ok p(2)]) (use p in \<open>simp_all add: reach_refl\<close>)
  then show "parses is_expr p (parse_unary kn p)"
    using p
    by (auto simp: parse_unary_def alloc_Pair p_at_def Let_def intro!: steps bind_knot,
      (auto simp: parsed_def unop_kind_def peek_kind_def [symmetric] intro!: steps)?)
qed

lemma binop_Pair:
  "binop op l r t p = (Node N_BINOP (p_heap p) (t_line t) (t_col t) [] 0 (V_op op) [l, r],
     p\<lparr>p_heap := Suc (p_heap p)\<rparr>)"
  by (simp add: binop_def alloc_Pair)

lemma left_assoc_ok:
  assumes sub: "level (Suc N) is_expr sub" and ops: "list_all binop_kind ops"
  shows "\<lbrakk>reach p0 p; p_left p0 \<le> N; p_i p0 < p_i p; wf_in (p_src p0) lhs; is_expr lhs;
     within (p_heap p0) (p_heap p) (ids lhs); p_left p < n\<rbrakk>
    \<Longrightarrow> parses is_expr p0 (left_assoc sub ops n lhs p)"
proof (induction n arbitrary: lhs p)
  case (Suc n)
  note a = Suc.prems
  show ?case
  proof (cases "peek_kind p \<in> set ops")
    case False
    then show ?thesis using a by (auto simp: left_assoc.simps parsed_def intro: good_ret)
  next
    case True
    then have k: "binop_kind (peek_kind p)" using ops by (simp add: list_all_iff)
    then have ne: "peek_kind p \<noteq> TK_EOF" by (auto simp: binop_kind_def)
    have r: "reach p0 (skip_newlines (bump p))" using a(1) ne by (auto intro!: steps)
    have "parses is_expr p0 (pbind (sub (skip_newlines (bump p))) (\<lambda>rhs q.
         let (lhs, q) = binop (peek_kind p) lhs rhs (peek_tok p) q in left_assoc sub ops n lhs q))"
    proof (rule bind_here [OF sub a(2) r])
      fix x q assume q: "reach p0 q" "p_i p0 < p_i q" "p_i (skip_newlines (bump p)) < p_i q"
        "p_heap (skip_newlines (bump p)) \<le> p_heap q" "wf_in (p_src p0) x" "is_expr x"
        "within (p_heap (skip_newlines (bump p))) (p_heap q) (ids x)"
      have i: "p_i p < p_i q" using q(3) skip_newlines_fields(5) [of "bump p"] by simp
      have "p_toks q = p_toks p" using q(1) a(1) by (simp add: reach_same)
      moreover have "p_i p < length (p_toks p)" using reach_sane [OF a(1)] by (simp add: sane_def)
      ultimately have l: "p_left q < n" using i a(7) by (simp add: p_left_def)
      show "parses is_expr p0
          (let (lhs, q) = binop (peek_kind p) lhs x (peek_tok p) q in left_assoc sub ops n lhs q)"
        unfolding binop_Pair using a q k l reach_le(2) [OF a(1)]
        by (auto intro!: Suc.IH reach_heap within_last within_append [of "p_heap p0" "p_heap p"])
    qed
    then show ?thesis using True by (simp add: left_assoc.simps peek_kind_def Let_def)
  qed
qed simp

lemma ladder:
  assumes "level (Suc N) is_expr sub" "list_all binop_kind ops"
  shows "level (Suc N) is_expr (\<lambda>p. pbind (sub p) (\<lambda>lhs p. left_assoc sub ops (Suc (p_left p)) lhs p))"
proof (rule levelI)
  fix p assume p: "sane p" "p_left p \<le> N"
  show "parses is_expr p (pbind (sub p) (\<lambda>lhs p. left_assoc sub ops (Suc (p_left p)) lhs p))"
    by (rule bind_here [OF assms(1) p(2) reach_refl [OF p(1)]])
      (use p in \<open>auto intro!: left_assoc_ok [OF assms]\<close>)
qed

lemma parse_mul_ok: "level (Suc N) is_expr (parse_mul kn)"
  using ladder [OF parse_unary_ok, of "[TK_STAR, TK_SLASH, TK_SLASH_SLASH, TK_PERCENT]"]
  by (simp add: parse_mul_def [abs_def] binop_kind_def)

lemma parse_add_ok: "level (Suc N) is_expr (parse_add kn)"
  using ladder [OF parse_mul_ok, of "[TK_PLUS, TK_MINUS]"]
  by (simp add: parse_add_def [abs_def] binop_kind_def)

lemma parse_cmp_ok: "level (Suc N) is_expr (parse_cmp kn)"
proof (rule levelI)
  fix p assume p: "sane p" "p_left p \<le> N"
  then show "parses is_expr p (parse_cmp kn p)"
    unfolding parse_cmp_def
    by (auto simp: binop_Pair is_cmp_def parsed_def Let_def peek_kind_def [symmetric] binop_kind_def
        intro!: steps bind_here [OF parse_add_ok], (auto intro: spans)?)
qed

lemma parse_and_ok: "level (Suc N) is_expr (parse_and kn)"
  using ladder [OF parse_cmp_ok, of "[TK_AND]"]
  by (simp add: parse_and_def [abs_def] binop_kind_def)

lemma parse_or_ok: "level (Suc N) is_expr (parse_or kn)"
  using ladder [OF parse_and_ok, of "[TK_OR]"]
  by (simp add: parse_or_def [abs_def] binop_kind_def)

lemma parse_pipe_loop_ok:
  "\<lbrakk>reach p0 p; p_left p0 \<le> N; p_i p0 < p_i p; wf_in (p_src p0) lhs; is_expr lhs;
     within (p_heap p0) (p_heap p) (ids lhs); p_left p < n\<rbrakk>
    \<Longrightarrow> parses is_expr p0 (parse_pipe_loop kn n lhs p)"
proof (induction n arbitrary: lhs p)
  case (Suc n)
  note a = Suc.prems
  let ?b = "if peek_kind p = TK_NEWLINE \<and> peek_kind_n p 1 = TK_PIPE_APPLY then bump p else p"
  have b: "reach p0 ?b" "p_heap ?b = p_heap p" "p_i p \<le> p_i ?b" "p_i p0 < p_i ?b"
    using a(1,3) by (auto intro!: steps)
  have stop: "parses is_expr p0 (ret lhs ?b)"
    by (rule good_ret [OF b(1)]) (use a b in \<open>simp add: parsed_def\<close>)
  have go: "parses is_expr p0 (pbind (parse_or kn (skip_newlines (bump ?b))) (\<lambda>rhs q.
         parse_pipe_loop kn n (Node N_PIPE (p_heap q) (t_line t) (t_col t) [] 0 V_none [lhs, rhs])
           (q\<lparr>p_heap := Suc (p_heap q)\<rparr>)))"
    if k: "peek_kind ?b = TK_PIPE_APPLY" for t
  proof -
    have r: "reach p0 (skip_newlines (bump ?b))" using b(1) k by (intro reach_skip reach_bump) simp_all
    show ?thesis
    proof (rule bind_here [OF parse_or_ok a(2) r])
      fix x q assume q: "reach p0 q" "p_i p0 < p_i q" "p_i (skip_newlines (bump ?b)) < p_i q"
        "p_heap (skip_newlines (bump ?b)) \<le> p_heap q" "wf_in (p_src p0) x" "is_expr x"
        "within (p_heap (skip_newlines (bump ?b))) (p_heap q) (ids x)"
      have i: "p_i p < p_i q" using q(3) b(3) skip_newlines_fields(5) [of "bump ?b"] by simp
      have "p_toks q = p_toks p" using q(1) a(1) by (simp add: reach_same)
      moreover have "p_i p < length (p_toks p)" using reach_sane [OF a(1)] by (simp add: sane_def)
      ultimately have l: "p_left q < n" using i a(7) by (simp add: p_left_def)
      have h: "p_heap p \<le> p_heap q" "within (p_heap p) (p_heap q) (ids x)"
        using q(4,7) b(2) by simp_all
      show "parses is_expr p0 (parse_pipe_loop kn n
          (Node N_PIPE (p_heap q) (t_line t) (t_col t) [] 0 V_none [lhs, x])
          (q\<lparr>p_heap := Suc (p_heap q)\<rparr>))"
        using a q l h reach_le(2) [OF a(1)]
        by (intro Suc.IH) (auto intro!: reach_heap within_last within_append [of "p_heap p0" "p_heap p"])
    qed
  qed
  show ?case
    unfolding parse_pipe_loop.simps Let_def alloc_Pair p_at_def prod.case kai_node_push.simps append.simps
    by (rule good_if, rule stop, rule go, simp only: not_not)
qed simp

lemma parse_expr_ok: "level (Suc N) is_expr (parse_expr kn)"
proof (rule levelI)
  fix p assume p: "sane p" "p_left p \<le> N"
  show "parses is_expr p (parse_expr kn p)"
    unfolding parse_expr_def parse_pipe_def
    by (rule bind_here [OF parse_or_ok p(2) reach_refl [OF p(1)]])
      (use p in \<open>auto intro!: parse_pipe_loop_ok\<close>)
qed

subsection \<open>Patterns\<close>

lemma parse_pat_field_ok: "level N (is_k N_PAT_FIELD) (parse_pat_field kn)"
proof -
  have "parses (is_k N_PAT_FIELD) p (parse_pat_field kn p)" if "sane p" "p_left p < N" for p
    using that peek_text [OF sane_skip_newlines, of p]
    by (auto simp: parse_pat_field_def parse_simps intro!: steps inner_knot)
  then show ?thesis by (simp add: level_def)
qed

lemma parse_record_pattern_fields_ok:
  assumes "sane p" "p_left p < N"
  shows "good p (\<lambda>x q. p_i p < p_i q \<and> adds (is_k N_PAT_FIELD) pr p x q) (parse_record_pattern_fields kn pr p)"
proof -
  have add: "adds (is_k N_PAT_FIELD) pr p (kai_node_pushes pr (c # cs)) (bump (skip_newlines q))"
    if "list_all (\<lambda>c. wf_in (p_src p) c \<and> is_k N_PAT_FIELD c) (c # cs)"
      "within (p_heap p) (p_heap q) (concat (map ids (c # cs)))" for c cs q
    unfolding adds_def using that by (intro exI [of _ "c # cs"]) simp
  show ?thesis
    using assms add
    by (auto simp: parse_record_pattern_fields_def p_at_def Let_def
        intro!: steps adds_none bind_sep_inner [OF parse_pat_field_ok] simp del: kai_node_pushes.simps)
qed

lemma parse_variant_arg_ok: "level N is_pat (parse_variant_arg kn)"
proof -
  have "parses is_pat p (parse_variant_arg kn p)" if "sane p" "p_left p < N" for p
    unfolding parse_variant_arg_def
    by (rule tail_inner [OF k_pattern_ok that(2)]) (use that in \<open>auto intro!: steps\<close>)
  then show ?thesis by (simp add: level_def)
qed

lemma parse_variant_pattern_args_ok:
  assumes "sane p" "p_left p < N" "peek_kind p = TK_LPAREN"
  shows "good p (\<lambda>x q. p_i p < p_i q \<and> adds is_pat pv p x q) (parse_variant_pattern_args kn pv p)"
proof -
  have add: "adds is_pat pv p (kai_node_pushes pv (c # cs)) (bump (skip_newlines q))"
    if "list_all (\<lambda>c. wf_in (p_src p) c \<and> is_pat c) (c # cs)"
      "within (p_heap p) (p_heap q) (concat (map ids (c # cs)))" for c cs q
    unfolding adds_def using that by (intro exI [of _ "c # cs"]) simp
  show ?thesis
    using assms add
    by (auto simp: parse_variant_pattern_args_def p_at_def Let_def
        intro!: steps adds_none bind_sep_inner [OF parse_variant_arg_ok] simp del: kai_node_pushes.simps)
qed

lemma parse_list_pattern_loop_ok:
  "\<lbrakk>sane p; p_left p < N; p_left p < n\<rbrakk>
    \<Longrightarrow> good p (list_pattern pl p) (parse_list_pattern_loop kn n pl p)"
proof (induction n arbitrary: pl p)
  case (Suc n)
  note s = Suc.prems(1)
  let ?q = "skip_newlines p"
  have q: "reach p ?q" "sane ?q" using s by (auto intro: reach_skip reach_refl sane_skip_newlines)
  have rest: "good p (list_pattern pl p) (pbind (expect TK_IDENT m (bump ?q)) (\<lambda>rn p.
         let (b, p) = alloc N_PAT_BIND (t_line rn) (t_col rn) p;
             b = set_name_from_token b rn p
         in ret (kai_node_push (or_flags pl 1) b) p))" if k: "peek_kind ?q = TK_ELLIPSIS" for m
  proof -
    have r: "reach p (bump ?q)" using q(1) k by (auto intro!: steps)
    show ?thesis
      using r peek_text [OF reach_sane [OF r]]
      by (auto simp: alloc_Pair set_name_from_token_Node Let_def intro!: steps list_pattern_rest)
  qed
  have elts: "good p (list_pattern pl p) (pbind (k_pattern kn ?q) (\<lambda>elt p.
        let pl = kai_node_push pl elt;
            (more, p) = p_match TK_COMMA (skip_newlines p)
        in if \<not> more then ret pl p else parse_list_pattern_loop kn n pl p))"
  proof (rule bind_inner [OF k_pattern_ok Suc.prems(2) q(1)])
    fix x r assume x: "reach p r" "p_i p < p_i r" "p_heap p \<le> p_heap r" "wf_in (p_src p) x" "is_pat x"
      "within (p_heap ?q) (p_heap r) (ids x)"
    let ?r = "skip_newlines r" and ?pl = "kai_node_push pl x"
    have w: "within (p_heap p) (p_heap r) (ids x)" using x(6) by simp
    have more: "good p (list_pattern pl p) (parse_list_pattern_loop kn n ?pl (bump ?r))"
      if k: "peek_kind ?r = TK_COMMA"
    proof -
      have b: "reach p (bump ?r)" "p_i p < p_i (bump ?r)"
        by (rule reach_bump [OF reach_skip [OF x(1)]], simp add: k,
          rule ahead_bump [OF reach_skip [OF x(1)]])
      have "p_left (bump ?r) < n" by (rule left_less [OF b]) (use Suc.prems(3) in simp)
      then have ih: "good (bump ?r) (list_pattern ?pl (bump ?r)) (parse_list_pattern_loop kn n ?pl (bump ?r))"
        by (rule Suc.IH [OF reach_sane [OF b(1)] left_reach [OF b(1) Suc.prems(2)]])
      show ?thesis
      proof (rule good_tail [OF ih b(1)])
        fix y z assume "reach (bump ?r) z" "list_pattern ?pl (bump ?r) y z"
        then show "list_pattern pl p y z"
          using x w reach_le(2) [of "bump ?r" z] reach_same(1) [OF x(1)] by (intro list_pattern_elt [of pl x "bump ?r"]) simp_all
      qed
    qed
    have "good p (list_pattern pl p) (ret ?pl ?r)"
      using x w by (auto intro!: steps list_pattern_last)
    with more show "good p (list_pattern pl p) (let pl = ?pl; (more, p) = p_match TK_COMMA (skip_newlines r)
        in if \<not> more then ret pl p else parse_list_pattern_loop kn n pl p)"
      by (simp add: Let_def)
  qed
  show ?case
    using rest elts by (simp add: parse_list_pattern_loop.simps Let_def)
qed simp

lemma parse_list_pattern_ok:
  assumes p: "sane p" "p_left p \<le> N" "peek_kind p = TK_LBRACKET"
  shows "parses is_pat p (parse_list_pattern kn t p)"
proof -
  have loop: "good q (list_pattern m q) (parse_list_pattern_loop kn n m q)"
    if "reach p q" "p_i p < p_i q" "p_left q < n" for m q n
    using left_less [OF that(1,2) p(2)] reach_sane [OF that(1)] that(3)
    by (intro parse_list_pattern_loop_ok) simp_all
  show ?thesis
    using p
    by (auto simp: parse_list_pattern_def parse_simps list_pattern_def pushed
        intro!: steps good_bind [OF loop], (auto dest!: reach_both intro!: steps intro: spans)?)
qed

lemma parse_lit_pattern_ok:
  assumes p: "sane p" "p_left p \<le> N" and t: "starts_lit_pattern (peek_tok p) p"
  shows "parses is_pat p (parse_lit_pattern kn (peek_tok p) p)"
proof -
  have lit: "parses (\<lambda>x. lit_kind (n_kind x)) p (parse_primary kn p)" if "t_kind (peek_tok p) \<noteq> TK_MINUS"
  proof -
    have "t_kind (peek_tok p) \<in> {TK_INT, TK_REAL, TK_CHAR, TK_STRING, TK_TRUE, TK_FALSE}"
      using t that by (auto simp: starts_lit_pattern_def split: if_splits)
    then show ?thesis
      using p parse_string_literal_ok [of p] peek_text [of p]
      by (auto simp: parse_primary_def literal_node_Pair alloc_Pair Let_def peek_kind_def
          intro!: good_leaf
          intro: parses_weaken [where K = "is_k N_STRING"])
  qed
  show ?thesis
  proof (cases "t_kind (peek_tok p) = TK_MINUS")
    case True
    then have "peek_kind_n p 1 = TK_INT" using t by (simp add: starts_lit_pattern_def)
    then have "peek_kind (bump p) = TK_INT" by (rule peek_kind_n_1) simp
    then show ?thesis
      using p True
      by (auto simp: parse_lit_pattern_def literal_node_Pair parse_simps peek_kind_def intro!: steps)
  next
    case False
    then show ?thesis
      unfolding parse_lit_pattern_def
      by (simp add: alloc_Pair Let_def, intro bind_parses [OF lit [OF False] reach_refl [OF p(1)]])
        (auto simp: parsed_def intro!: steps)
  qed
qed

lemma parse_ident_pattern_ok:
  assumes p: "sane p" "p_left p \<le> N" "peek_kind p = TK_IDENT"
  shows "parses is_pat p (parse_ident_pattern kn p)"
proof -
  have args: "good q (\<lambda>x q'. p_i q < p_i q' \<and> adds is_pat pv q x q') (parse_variant_pattern_args kn pv q)"
    if "reach p q" "p_i p < p_i q" "peek_kind q = TK_LPAREN" for q pv
    using left_less [OF that(1,2) p(2)] reach_sane [OF that(1)] that(3)
    by (intro parse_variant_pattern_args_ok) simp_all
  have flds: "good q (\<lambda>x q'. p_i q < p_i q' \<and> adds (is_k N_PAT_FIELD) pr q x q')
      (parse_record_pattern_fields kn pr q)" if "reach p q" "p_i p < p_i q" for q pr
    using left_less [OF that(1,2) p(2)] reach_sane [OF that(1)]
    by (intro parse_record_pattern_fields_ok) simp_all
  show ?thesis
    using p peek_text [of p]
    by (auto simp: parse_ident_pattern_def parse_simps adds_def pushed
        intro!: steps good_bind [OF flds] good_tail [OF args],
      (auto dest!: reach_both intro!: steps intro: spans)?)
qed

lemma parse_pattern_ok: "level (Suc N) is_pat (parse_pattern kn)"
proof (rule levelI)
  fix p assume p: "sane p" "p_left p \<le> N"
  have flds: "good q (\<lambda>x q'. p_i q < p_i q' \<and> adds (is_k N_PAT_FIELD) pr q x q')
      (parse_record_pattern_fields kn pr q)" if "reach p q" "p_i p < p_i q" for q pr
    using left_less [OF that(1,2) p(2)] reach_sane [OF that(1)]
    by (intro parse_record_pattern_fields_ok) simp_all
  have rec: "parses is_pat p (parse_record_pattern_fields kn
      (Node N_PAT_RECORD (p_heap p) l c [] 0 V_none []) (bump p\<lparr>p_heap := Suc (p_heap p)\<rparr>))"
    if "peek_kind p = TK_LBRACE" for l c
    using p that
    by (auto simp: parse_simps adds_def pushed intro!: steps good_tail [OF flds],
      (auto dest!: reach_both intro!: steps intro: spans)?)
  show "parses is_pat p (parse_pattern kn p)"
    using p parse_list_pattern_ok [OF p] parse_lit_pattern_ok [OF p] parse_ident_pattern_ok [OF p] rec
    by (auto simp: parse_pattern_def alloc_Pair p_at_def Let_def intro!: good_if steps,
      (auto simp: parsed_def intro!: steps)?)
qed

end

section \<open>The knot meets its contract\<close>

lemma level_0: "level 0 K f"
  by (simp add: level_def)

lemma tie_contract: "knot_contract (tie n) n"
proof (induction n)
  case 0
  show ?case by unfold_locales (simp_all add: level_0)
next
  case (Suc n)
  note ok = knot_contract.parse_expr_ok [OF Suc] knot_contract.parse_unary_ok [OF Suc]
    knot_contract.parse_if_ok [OF Suc] knot_contract.parse_pattern_ok [OF Suc]
    knot_contract.parse_type_ok [OF Suc]
  show ?case by unfold_locales (simp_all add: ok Let_def)
qed

interpretation tied: knot_contract "tie n" n for n
  by (rule tie_contract)

end
