(* ===== verification/Kai_Lexer.thy ===== *)
theory Kai_Lexer
  imports Kai_Token
begin

text \<open>
  \<^verbatim>\<open>stage0/lexer.c\<close>: the tokenizer. The state is the source, a cursor with its line and
  column, the tokens pushed so far and the side array of error messages. Every loop of
  the code is a recursive function whose termination measure is the number of bytes left;
  \<open>advances\<close> is the abstract step relation (the cursor moved by consuming bytes) all
  skippers and scanners are shown to follow.
\<close>

record lexer =
  l_src :: string
  l_pos :: nat
  l_line :: nat
  l_col :: nat
  l_toks :: "token list"
  l_errs :: "(nat \<times> string) list"
  l_rtl :: bool

text \<open>
  The last field is not in the C struct: it stands for the order in which the C compiler
  evaluates the arguments of \<open>push_token(l, match(l, c) ? a : b, start, l->pos, ...)\<close>, which
  the language leaves open. With \<open>l_rtl\<close> the argument \<open>l->pos\<close> is read before \<open>match\<close> has
  advanced the cursor.
\<close>

section \<open>Helpers\<close>

definition push_token :: "token_kind \<Rightarrow> nat \<Rightarrow> nat \<Rightarrow> nat \<Rightarrow> nat \<Rightarrow> lexer \<Rightarrow> lexer" where
  "push_token k start fin line col l =
     l\<lparr>l_toks := l_toks l @ [\<lparr>t_kind = k, t_line = line, t_col = col, t_start = start, t_length = fin - start\<rparr>]\<rparr>"

definition kai_strdup :: "string \<Rightarrow> string" where
  "kai_strdup s = takeWhile (\<lambda>c. c \<noteq> NUL) s"

definition push_error :: "string \<Rightarrow> nat \<Rightarrow> nat \<Rightarrow> nat \<Rightarrow> nat \<Rightarrow> lexer \<Rightarrow> lexer" where
  "push_error msg start fin line col l =
     (let idx = length (l_toks l);
          l = push_token TK_ERROR start fin line col l
      in l\<lparr>l_errs := l_errs l @ [(idx, kai_strdup msg)]\<rparr>)"

definition at_end :: "lexer \<Rightarrow> bool" where
  "at_end l \<longleftrightarrow> l_pos l \<ge> length (l_src l)"

definition peek :: "lexer \<Rightarrow> char" where
  "peek l = (if at_end l then NUL else l_src l ! l_pos l)"

definition peek2 :: "lexer \<Rightarrow> char" where
  "peek2 l = (if l_pos l + 1 \<ge> length (l_src l) then NUL else l_src l ! (l_pos l + 1))"

definition peek3 :: "lexer \<Rightarrow> char" where
  "peek3 l = (if l_pos l + 2 \<ge> length (l_src l) then NUL else l_src l ! (l_pos l + 2))"

definition advance :: "lexer \<Rightarrow> lexer" where
  "advance l =
     (if at_end l then l
      else let c = l_src l ! l_pos l in
        l\<lparr>l_pos := Suc (l_pos l),
          l_line := (if c = NL then Suc (l_line l) else l_line l),
          l_col := (if c = NL then 1 else Suc (l_col l))\<rparr>)"

definition lex_match :: "char \<Rightarrow> lexer \<Rightarrow> bool \<times> lexer" where
  "lex_match c l = (if peek l \<noteq> c then (False, l) else (True, advance l))"

text \<open>The bytes left, the measure of every loop below.\<close>

definition l_left :: "lexer \<Rightarrow> nat" where
  "l_left l = length (l_src l) - l_pos l"

section \<open>Consuming bytes\<close>

inductive advances :: "lexer \<Rightarrow> lexer \<Rightarrow> bool" where
  adv_refl: "advances l l"
| adv_step: "\<not> at_end l \<Longrightarrow> advances (advance l) l' \<Longrightarrow> advances l l'"

lemma advances_trans: "advances a b \<Longrightarrow> advances b c \<Longrightarrow> advances a c"
  by (induction rule: advances.induct) (auto intro: advances.intros)

lemma advance_at_end: "at_end l \<Longrightarrow> advance l = l"
  by (simp add: advance_def)

lemma advances_advance: "advances l (advance l)"
  by (cases "at_end l") (auto simp: advance_at_end intro: advances.intros)

lemma advances_advance_trans: "advances (advance l) l' \<Longrightarrow> advances l l'"
  using advances_advance advances_trans by blast

lemma advances_then_advance: "advances l l' \<Longrightarrow> advances l (advance l')"
  using advances_advance advances_trans by blast

lemmas advances_fwd = adv_refl advances_then_advance

text \<open>
  The step-back rules (as destruction rules they turn "the rest of the loop advances from
  here" into "it advances from the start of the iteration"); every skipper adds its own.
\<close>

named_theorems step_back

declare advances_advance_trans [step_back]

lemma advance_fields [simp]:
  "l_src (advance l) = l_src l" "l_toks (advance l) = l_toks l" "l_errs (advance l) = l_errs l"
  "l_rtl (advance l) = l_rtl l"
  by (simp_all add: advance_def Let_def)

lemma advance_pos: "l_pos (advance l) = (if at_end l then l_pos l else Suc (l_pos l))"
  by (simp add: advance_def Let_def)

lemma advances_fields:
  "advances l l' \<Longrightarrow> l_src l' = l_src l \<and> l_toks l' = l_toks l \<and> l_errs l' = l_errs l
     \<and> l_rtl l' = l_rtl l \<and> l_pos l \<le> l_pos l'"
  by (induction rule: advances.induct) (auto simp: advance_pos)

lemma advances_srcD: "advances l l' \<Longrightarrow> l_src l' = l_src l"
  and advances_toksD: "advances l l' \<Longrightarrow> l_toks l' = l_toks l"
  and advances_errsD: "advances l l' \<Longrightarrow> l_errs l' = l_errs l"
  and advances_rtlD: "advances l l' \<Longrightarrow> l_rtl l' = l_rtl l"
  and advances_posD: "advances l l' \<Longrightarrow> l_pos l \<le> l_pos l'"
  by (simp_all add: advances_fields)

lemma advances_left: "advances l l' \<Longrightarrow> l_left l' \<le> l_left l"
  using advances_fields [of l l'] by (simp add: l_left_def diff_le_mono2)

lemma left_advance: "\<not> at_end l \<Longrightarrow> l_left (advance l) < l_left l"
  by (simp add: l_left_def advance_pos at_end_def)

lemma left_advance_le: "l_left (advance l) \<le> l_left l"
  by (rule advances_left [OF advances_advance])

lemma advances_within:
  "advances l l' \<Longrightarrow> l_pos l \<le> length (l_src l) \<Longrightarrow> l_pos l' \<le> length (l_src l)"
  by (induction rule: advances.induct) (auto simp: advance_pos at_end_def)

lemma peek_not_NUL: "peek l \<noteq> NUL \<Longrightarrow> \<not> at_end l"
  by (auto simp: peek_def)

lemma peek_src: "\<not> at_end l \<Longrightarrow> peek l = l_src l ! l_pos l"
  by (simp add: peek_def)

section \<open>Skippers\<close>

text \<open>The loop \<open>while (!at_end(l) && P(peek(l))) advance(l)\<close> the scanners share.\<close>

function advance_while :: "(char \<Rightarrow> bool) \<Rightarrow> lexer \<Rightarrow> lexer" where
  "advance_while P l = (if \<not> at_end l \<and> P (peek l) then advance_while P (advance l) else l)"
  by pat_completeness auto
termination
  by (relation "measure (\<lambda>(P, l). l_left l)") (auto intro: left_advance)

declare advance_while.simps [simp del]

lemma advances_while: "advances l (advance_while P l)"
proof (induction P l rule: advance_while.induct)
  case (1 P l)
  then show ?case
    by (subst advance_while.simps) (auto dest!: step_back intro!: advances_fwd)
qed

lemmas advances_while_back [step_back] = advances_trans [OF advances_while]

definition skip_line_comment :: "lexer \<Rightarrow> lexer" where
  "skip_line_comment l = advance_while (\<lambda>c. c \<noteq> NL) l"

text \<open>A backslash and the byte after it, consumed blindly.\<close>

definition skip_escape :: "lexer \<Rightarrow> lexer" where
  "skip_escape l = (let l = advance l in if \<not> at_end l then advance l else l)"

lemma advances_escape: "advances (advance l) (skip_escape l)"
  by (simp add: skip_escape_def Let_def adv_refl advances_advance)

lemmas advances_escape_back [step_back] =
  advances_trans [OF advances_advance_trans [OF advances_escape]]

text \<open>A string nested in an interpolation: the loop, then its closing quote.\<close>

function skip_string_in_interp_loop :: "lexer \<Rightarrow> lexer" where
  "skip_string_in_interp_loop l =
     (if \<not> at_end l \<and> peek l \<noteq> DQ then
        (if peek l = BSL then
           skip_string_in_interp_loop (skip_escape l)
         else skip_string_in_interp_loop (advance l))
      else l)"
  by pat_completeness auto
termination
  by (relation "measure l_left")
    (auto intro: left_advance le_less_trans [OF advances_left [OF advances_escape] left_advance])

declare skip_string_in_interp_loop.simps [simp del]

definition skip_string_in_interp :: "lexer \<Rightarrow> lexer" where
  "skip_string_in_interp l =
     (let l = skip_string_in_interp_loop l in if \<not> at_end l then advance l else l)"

lemma advances_skip_string_loop: "advances l (skip_string_in_interp_loop l)"
proof (induction l rule: skip_string_in_interp_loop.induct)
  case (1 l)
  then show ?case
    by (subst skip_string_in_interp_loop.simps)
      (auto simp: Let_def dest!: step_back intro!: advances_fwd)
qed

lemma advances_skip_string: "advances l (skip_string_in_interp l)"
  by (simp add: skip_string_in_interp_def Let_def advances_skip_string_loop advances_then_advance)

lemmas advances_skip_string_back [step_back] = advances_trans [OF advances_skip_string]

text \<open>An interpolation block; the brace depth and the state after the loop.\<close>

function lex_interp_loop :: "nat \<Rightarrow> lexer \<Rightarrow> nat \<times> lexer" where
  "lex_interp_loop depth l =
     (if \<not> at_end l \<and> depth > 0 then
        (let d = peek l in
         if d = CHR ''{'' then lex_interp_loop (depth + 1) (advance l)
         else if d = CHR ''}'' then lex_interp_loop (depth - 1) (advance l)
         else if d = DQ then lex_interp_loop depth (skip_string_in_interp (advance l))
         else lex_interp_loop depth (advance l))
      else (depth, l))"
  by pat_completeness auto
termination
  by (relation "measure (\<lambda>(d, l). l_left l)")
    (auto intro: left_advance le_less_trans [OF advances_left [OF advances_skip_string] left_advance])

declare lex_interp_loop.simps [simp del]

definition lex_interp_block :: "lexer \<Rightarrow> bool \<times> lexer" where
  "lex_interp_block l = (let (depth, l) = lex_interp_loop 1 l in (depth = 0, l))"

lemma advances_interp_loop: "advances l (snd (lex_interp_loop depth l))"
proof (induction depth l rule: lex_interp_loop.induct)
  case (1 depth l)
  then show ?case
    by (subst lex_interp_loop.simps)
      (auto simp: Let_def dest!: step_back intro!: advances_fwd)
qed

lemma advances_interp_block: "advances l (snd (lex_interp_block l))"
  using advances_interp_loop [of l 1] by (simp add: lex_interp_block_def split_beta Let_def)

lemmas advances_interp_block_back [step_back] = advances_trans [OF advances_interp_block]

text \<open>A string inside an attribute.\<close>

function skip_attr_string_loop :: "bool \<Rightarrow> lexer \<Rightarrow> lexer" where
  "skip_attr_string_loop triple l =
     (if \<not> at_end l then
        (let c = peek l in
         if c = BSL then
           skip_attr_string_loop triple (skip_escape l)
         else if c = CHR ''#'' \<and> peek2 l = CHR ''{'' then
           skip_attr_string_loop triple (snd (lex_interp_block (advance (advance l))))
         else if triple then
           (if c = DQ \<and> peek2 l = DQ \<and> peek3 l = DQ then advance (advance (advance l))
            else skip_attr_string_loop triple (advance l))
         else if c = DQ then advance l
         else if c = NL then l
         else skip_attr_string_loop triple (advance l))
      else l)"
  by pat_completeness auto
termination
  by (relation "measure (\<lambda>(t, l). l_left l)")
    (auto intro: left_advance le_less_trans [OF left_advance_le left_advance]
      le_less_trans [OF advances_left [OF advances_escape] left_advance]
      le_less_trans [OF advances_left [OF advances_interp_block]])

declare skip_attr_string_loop.simps [simp del]

definition skip_attr_string :: "lexer \<Rightarrow> lexer" where
  "skip_attr_string l =
     (let l = advance l;
          triple = (peek l = DQ \<and> peek2 l = DQ);
          l = (if triple then advance (advance l) else l)
      in skip_attr_string_loop triple l)"

lemma advances_attr_string_loop: "advances l (skip_attr_string_loop t l)"
proof (induction t l rule: skip_attr_string_loop.induct)
  case (1 t l)
  then show ?case
    by (subst skip_attr_string_loop.simps)
      (auto simp: Let_def dest!: step_back intro!: advances_fwd)
qed

lemma advances_attr_string: "advances (advance l) (skip_attr_string l)"
  unfolding skip_attr_string_def Let_def
  by (rule advances_trans [OF _ advances_attr_string_loop])
    (simp add: adv_refl advances_advance advances_then_advance)

lemmas advances_attr_string_back [step_back] =
  advances_trans [OF advances_advance_trans [OF advances_attr_string]]

text \<open>An attribute \<open>#[...]\<close>: the balanced bracket group, strings stepped over.\<close>

function skip_attribute_loop :: "nat \<Rightarrow> lexer \<Rightarrow> lexer" where
  "skip_attribute_loop depth l =
     (if \<not> at_end l \<and> depth > 0 then
        (let c = peek l in
         if c = CHR ''['' then skip_attribute_loop (depth + 1) (advance l)
         else if c = CHR '']'' then skip_attribute_loop (depth - 1) (advance l)
         else if c = DQ then skip_attribute_loop depth (skip_attr_string l)
         else skip_attribute_loop depth (advance l))
      else l)"
  by pat_completeness auto
termination
  by (relation "measure (\<lambda>(d, l). l_left l)")
    (auto intro: left_advance le_less_trans [OF advances_left [OF advances_attr_string] left_advance])

declare skip_attribute_loop.simps [simp del]

definition skip_attribute :: "lexer \<Rightarrow> lexer" where
  "skip_attribute l = skip_attribute_loop 1 l"

lemma advances_attribute_loop: "advances l (skip_attribute_loop d l)"
proof (induction d l rule: skip_attribute_loop.induct)
  case (1 d l)
  then show ?case
    by (subst skip_attribute_loop.simps)
      (auto simp: Let_def dest!: step_back intro!: advances_fwd)
qed

lemma advances_attribute: "advances l (skip_attribute l)"
  by (simp add: skip_attribute_def advances_attribute_loop)

lemmas advances_attribute_back [step_back] = advances_trans [OF advances_attribute]

lemma advances_line_comment: "advances l (skip_line_comment l)"
  by (simp add: skip_line_comment_def advances_while)

lemmas advances_line_comment_back [step_back] = advances_trans [OF advances_line_comment]

function skip_whitespace_and_comments :: "lexer \<Rightarrow> lexer" where
  "skip_whitespace_and_comments l =
     (if at_end l then l
      else let c = peek l in
        if c = CHR '' '' \<or> c = CHR 0x09 \<or> c = CHR 0x0D then
          skip_whitespace_and_comments (advance l)
        else if c = CHR ''#'' then
          (if peek2 l = CHR ''['' then
             skip_whitespace_and_comments (skip_attribute (advance (advance l)))
           else skip_whitespace_and_comments (skip_line_comment (advance l)))
        else l)"
  by pat_completeness auto
termination
  by (relation "measure l_left")
    (auto intro: left_advance le_less_trans [OF left_advance_le left_advance]
      le_less_trans [OF advances_left [OF advances_line_comment] left_advance]
      le_less_trans [OF advances_left [OF advances_attribute]])

declare skip_whitespace_and_comments.simps [simp del]

lemma advances_whitespace: "advances l (skip_whitespace_and_comments l)"
proof (induction l rule: skip_whitespace_and_comments.induct)
  case (1 l)
  then show ?case
    by (subst skip_whitespace_and_comments.simps)
      (auto simp: Let_def dest!: step_back intro!: advances_fwd)
qed

section \<open>Literal scanners\<close>

definition is_ident_start :: "char \<Rightarrow> bool" where
  "is_ident_start c \<longleftrightarrow> c_isalpha c \<or> c = CHR ''_''"

definition is_ident_cont :: "char \<Rightarrow> bool" where
  "is_ident_cont c \<longleftrightarrow> c_isalnum c \<or> c = CHR ''_''"

definition is_digit_or_sep :: "char \<Rightarrow> bool" where
  "is_digit_or_sep c \<longleftrightarrow> c_isdigit c \<or> c = CHR ''_''"

definition keyword_or_ident :: "string \<Rightarrow> token_kind" where
  "keyword_or_ident s = (case map_of KEYWORDS s of Some k \<Rightarrow> k | None \<Rightarrow> TK_IDENT)"

definition lex_ident_or_keyword :: "lexer \<Rightarrow> lexer" where
  "lex_ident_or_keyword l =
     (let start = l_pos l; sl = l_line l; sc = l_col l;
          l = advance_while is_ident_cont l;
          fin = l_pos l; len = fin - start
      in if len = 1 \<and> l_src l ! start = CHR ''_'' then push_token TK_UNDERSCORE start fin sl sc l
         else push_token (keyword_or_ident (slice (l_src l) start fin)) start fin sl sc l)"

text \<open>Numbers: the integer part, the optional fraction, the optional exponent.\<close>

definition lex_number_fraction :: "lexer \<Rightarrow> bool \<times> lexer" where
  "lex_number_fraction l =
     (if peek l = CHR ''.'' \<and> c_isdigit (peek2 l) then
        (True, advance_while is_digit_or_sep (advance l))
      else (False, l))"

definition lex_number :: "lexer \<Rightarrow> lexer" where
  "lex_number l =
     (let start = l_pos l; sl = l_line l; sc = l_col l;
          l = advance_while is_digit_or_sep l;
          (is_real, l) = lex_number_fraction l
      in if peek l = CHR ''e'' \<or> peek l = CHR ''E'' then
           (let l = advance l;
                l = (if peek l = CHR ''+'' \<or> peek l = CHR ''-'' then advance l else l)
            in if \<not> c_isdigit (peek l) then
                 push_error ''malformed number: expected digits after exponent''
                   start (l_pos l) sl sc l
               else
                 (let l = advance_while is_digit_or_sep l
                  in push_token TK_REAL start (l_pos l) sl sc l))
         else push_token (if is_real then TK_REAL else TK_INT) start (l_pos l) sl sc l)"

text \<open>The loop of \<open>lex_string\<close>; it pushes the token itself.\<close>

function lex_string_loop :: "bool \<Rightarrow> nat \<Rightarrow> nat \<Rightarrow> nat \<Rightarrow> lexer \<Rightarrow> lexer" where
  "lex_string_loop triple start sl sc l =
     (if \<not> at_end l then
        (let c = peek l in
         if c = BSL then lex_string_loop triple start sl sc (skip_escape l)
         else if c = CHR ''#'' \<and> peek2 l = CHR ''{'' then
           (let r = lex_interp_block (advance (advance l)) in
            if \<not> fst r then
              push_error ''unterminated interpolation in string'' start (l_pos (snd r)) sl sc (snd r)
            else lex_string_loop triple start sl sc (snd r))
         else if triple then
           (if c = DQ \<and> peek2 l = DQ \<and> peek3 l = DQ then
              (let l = advance (advance (advance l))
               in push_token TK_STRING start (l_pos l) sl sc l)
            else lex_string_loop triple start sl sc (advance l))
         else if c = NL then
           push_error ''unterminated string (newline in single-line string)'' start (l_pos l) sl sc l
         else if c = DQ then
           (let l = advance l in push_token TK_STRING start (l_pos l) sl sc l)
         else lex_string_loop triple start sl sc (advance l))
      else push_error ''unterminated string'' start (l_pos l) sl sc l)"
  by pat_completeness auto
termination
  by (relation "measure (\<lambda>(t, st, sl, sc, l). l_left l)")
    (auto intro: left_advance
      le_less_trans [OF advances_left [OF advances_escape] left_advance]
      le_less_trans [OF advances_left [OF advances_interp_block]]
      le_less_trans [OF left_advance_le left_advance])

declare lex_string_loop.simps [simp del]

definition lex_string :: "lexer \<Rightarrow> lexer" where
  "lex_string l =
     (let start = l_pos l; sl = l_line l; sc = l_col l;
          l = advance l;
          triple = (peek l = DQ \<and> peek2 l = DQ);
          l = (if triple then advance (advance l) else l)
      in lex_string_loop triple start sl sc l)"

definition is_utf8_cont :: "char \<Rightarrow> bool" where
  "is_utf8_cont c \<longleftrightarrow> ord_char c AND 0xC0 = 0x80"

text \<open>The body of a character literal; \<open>None\<close> for the early returns at the end of input.\<close>

definition lex_char_body :: "lexer \<Rightarrow> bool \<times> lexer" where
  "lex_char_body l =
     (if at_end l then (False, l)
      else if peek l = BSL then
        (let l = advance l in
         if at_end l then (False, l)
         else if peek l = CHR ''u'' \<and> peek2 l = CHR ''{'' then
           (let l = advance (advance l);
                l = advance_while (\<lambda>c. c \<noteq> CHR ''}'') l
            in (True, if \<not> at_end l then advance l else l))
         else (True, advance l))
      else (True, advance_while (\<lambda>c. c \<noteq> SQ \<and> is_utf8_cont c) (advance l)))"

definition lex_char :: "lexer \<Rightarrow> lexer" where
  "lex_char l =
     (let start = l_pos l; sl = l_line l; sc = l_col l;
          (ok, l) = lex_char_body (advance l)
      in if \<not> ok \<or> peek l \<noteq> SQ then
           push_error ''unterminated char literal'' start (l_pos l) sl sc l
         else (let l = advance l in push_token TK_CHAR start (l_pos l) sl sc l))"

section \<open>Operators and punctuation\<close>

definition single_char_token :: "char \<Rightarrow> token_kind" where
  "single_char_token c =
     (if c = CHR ''('' then TK_LPAREN else if c = CHR '')'' then TK_RPAREN
      else if c = CHR ''['' then TK_LBRACKET else if c = CHR '']'' then TK_RBRACKET
      else if c = CHR ''{'' then TK_LBRACE else if c = CHR ''}'' then TK_RBRACE
      else if c = CHR '','' then TK_COMMA else if c = CHR '':'' then TK_COLON
      else if c = CHR '';'' then TK_SEMI else if c = CHR ''+'' then TK_PLUS
      else if c = CHR ''*'' then TK_STAR else if c = CHR ''%'' then TK_PERCENT
      else TK_ERROR)"

definition lex_dot :: "nat \<Rightarrow> nat \<Rightarrow> nat \<Rightarrow> lexer \<Rightarrow> lexer" where
  "lex_dot start sl sc l =
     (if peek l = CHR ''.'' \<and> peek2 l = CHR ''.'' then
        (let l = advance (advance l) in push_token TK_ELLIPSIS start (l_pos l) sl sc l)
      else if peek l = CHR ''.'' then
        (let l = advance l in push_token TK_DOTDOT start (l_pos l) sl sc l)
      else push_token TK_DOT start (l_pos l) sl sc l)"

text \<open>\<open>push_token(l, match(l, c) ? yes : no, ...)\<close>\<close>

definition lex_two :: "char \<Rightarrow> token_kind \<Rightarrow> token_kind \<Rightarrow> nat \<Rightarrow> nat \<Rightarrow> nat \<Rightarrow> lexer \<Rightarrow> lexer" where
  "lex_two c yes no start sl sc l =
     (let early = l_pos l;
          (hit, l) = lex_match c l
      in push_token (if hit then yes else no) start (if l_rtl l then early else l_pos l) sl sc l)"

definition hex_digit :: "nat \<Rightarrow> char" where
  "hex_digit n = ''0123456789abcdef'' ! (n mod 16)"

definition unexpected_message :: "char \<Rightarrow> string" where
  "unexpected_message c =
     ''unexpected character '' @ [SQ, c, SQ] @ '' (0x''
       @ [hex_digit (ord_char c div 16), hex_digit (ord_char c)] @ '')''"

definition lex_operator :: "char \<Rightarrow> nat \<Rightarrow> nat \<Rightarrow> nat \<Rightarrow> lexer \<Rightarrow> lexer" where
  "lex_operator c start sl sc l =
     (let single = single_char_token c in
      if single \<noteq> TK_ERROR then push_token single start (l_pos l) sl sc l
      else if c = CHR ''-'' then lex_two (CHR ''>'') TK_ARROW TK_MINUS start sl sc l
      else if c = CHR ''/'' then lex_two (CHR ''/'') TK_SLASH_SLASH TK_SLASH start sl sc l
      else if c = CHR ''<'' then lex_two (CHR ''='') TK_LE TK_LT start sl sc l
      else if c = CHR ''>'' then lex_two (CHR ''='') TK_GE TK_GT start sl sc l
      else if c = CHR ''!'' then lex_two (CHR ''='') TK_NEQ TK_BANG start sl sc l
      else if c = CHR ''|'' then lex_two (CHR ''>'') TK_PIPE_APPLY TK_PIPE start sl sc l
      else if c = CHR ''='' then
        (let (eqeq, l) = lex_match (CHR ''='') l in
         if eqeq then push_token TK_EQEQ start (l_pos l) sl sc l
         else
           (let (arrow, l) = lex_match (CHR ''>'') l in
            if arrow then push_token TK_FAT_ARROW start (l_pos l) sl sc l
            else push_token TK_EQ start (l_pos l) sl sc l))
      else if c = CHR ''.'' then lex_dot start sl sc l
      else push_error (unexpected_message c) start (l_pos l) sl sc l)"

section \<open>The main loop\<close>

text \<open>One iteration of \<open>kai_lex\<close> past the whitespace; \<open>l\<close> is not at the end.\<close>

definition lex_one :: "lexer \<Rightarrow> lexer" where
  "lex_one l =
     (let start = l_pos l; sl = l_line l; sc = l_col l; c = peek l in
      if c = NL then
        (let l = advance l in push_token TK_NEWLINE start (l_pos l) sl sc l)
      else if is_ident_start c then lex_ident_or_keyword l
      else if c_isdigit c then lex_number l
      else if c = DQ then lex_string l
      else if c = SQ then lex_char l
      else lex_operator c start sl sc (advance l))"

end
