(* ===== verification/Kai_Lex.thy ===== *)
theory Kai_Lex
  imports Kai_Lexer
begin

text \<open>
  The main loop of \<^verbatim>\<open>stage0/lexer.c\<close> (\<open>kai_lex\<close>) and what it promises: every iteration
  emits exactly one token (\<open>one_token\<close>), whose text is a lexeme of its kind; the token
  spans are ordered, disjoint and inside the source; each token's line and column are
  those of its first byte.
\<close>

section \<open>Lexemes\<close>

definition ident_text :: "string \<Rightarrow> bool" where
  "ident_text s \<longleftrightarrow> s \<noteq> [] \<and> is_ident_start (hd s) \<and> list_all is_ident_cont s"

definition number_char :: "char \<Rightarrow> bool" where
  "number_char c \<longleftrightarrow> is_digit_or_sep c \<or> c \<in> set ''.eE+-''"

text \<open>What the text of a token of each kind looks like.\<close>

definition lexeme :: "token_kind \<Rightarrow> string \<Rightarrow> bool" where
  "lexeme k s \<longleftrightarrow>
     (case k of
        TK_EOF \<Rightarrow> s = []
      | TK_NEWLINE \<Rightarrow> s = [NL]
      | TK_IDENT \<Rightarrow> ident_text s \<and> map_of KEYWORDS s = None \<and> s \<noteq> ''_''
      | TK_INT \<Rightarrow> s \<noteq> [] \<and> c_isdigit (hd s) \<and> list_all is_digit_or_sep s
      | TK_REAL \<Rightarrow> s \<noteq> [] \<and> c_isdigit (hd s) \<and> list_all number_char s \<and> is_digit_or_sep (last s)
      | TK_CHAR \<Rightarrow> 3 \<le> length s \<and> hd s = SQ \<and> last s = SQ
      | TK_STRING \<Rightarrow> 2 \<le> length s \<and> hd s = DQ \<and> last s = DQ
      | TK_ERROR \<Rightarrow> s \<noteq> []
      | _ \<Rightarrow> s = tk_name k)"

text \<open>
  The operators whose length \<^verbatim>\<open>lexer.c\<close> takes in the call that also decides their kind,
  \<open>push_token(l, match(l, ...) ? ... : ..., start, l->pos, ...)\<close>: evaluated from the right, the
  end is read before the second byte is consumed, and the token covers the first byte only.
\<close>

definition match_op :: "token_kind \<Rightarrow> bool" where
  "match_op k \<longleftrightarrow> k \<in> {TK_ARROW, TK_SLASH_SLASH, TK_LE, TK_GE, TK_NEQ, TK_PIPE_APPLY}"

definition spelled :: "bool \<Rightarrow> token_kind \<Rightarrow> string \<Rightarrow> bool" where
  "spelled rtl k s \<longleftrightarrow> (if rtl \<and> match_op k then s = take 1 (tk_name k) else lexeme k s)"

lemma spelled_lexeme: "\<not> match_op k \<or> \<not> rtl \<Longrightarrow> lexeme k s \<Longrightarrow> spelled rtl k s"
  by (auto simp: spelled_def)

lemma lexeme_keyword: "keyword_kind k \<Longrightarrow> lexeme k s \<longleftrightarrow> s = tk_name k"
  by (cases k) (auto simp: lexeme_def keyword_kind_def less_eq_token_kind_def)

lemma keyword_or_ident_lexeme:
  assumes "ident_text s" "s \<noteq> ''_''"
  shows "lexeme (keyword_or_ident s) s"
proof (cases "map_of KEYWORDS s")
  case None
  then show ?thesis using assms by (simp add: keyword_or_ident_def lexeme_def)
next
  case (Some k)
  then have "(s, k) \<in> set KEYWORDS" by (rule map_of_SomeD)
  then show ?thesis
    using Some by (simp add: keyword_or_ident_def KEYWORDS_names lexeme_keyword)
qed

lemma keyword_or_ident_kinds:
  "keyword_or_ident s = TK_IDENT \<or> keyword_kind (keyword_or_ident s)"
  using map_of_SomeD [of KEYWORDS s]
  by (auto simp: keyword_or_ident_def KEYWORDS_names split: option.splits)

lemma match_op_keyword: "\<not> match_op (keyword_or_ident s)"
  using keyword_or_ident_kinds [of s] by (auto simp: match_op_def keyword_kind_def less_eq_token_kind_def)

section \<open>One iteration emits one token\<close>

definition one_token :: "lexer \<Rightarrow> lexer \<Rightarrow> bool" where
  "one_token l l' \<longleftrightarrow>
     (\<exists>m k n msg. advances l m \<and> k \<noteq> TK_EOF \<and> 0 < n \<and> l_pos l + n \<le> l_pos m
        \<and> spelled (l_rtl l) k (slice (l_src l) (l_pos l) (l_pos l + n)) \<and> (\<not> l_rtl l \<longrightarrow> l_pos l + n = l_pos m)
        \<and> l' = m\<lparr>l_toks := l_toks l @ [\<lparr>t_kind = k, t_line = l_line l, t_col = l_col l,
                                       t_start = l_pos l, t_length = n\<rparr>],
                  l_errs := l_errs l @ (if k = TK_ERROR then [(length (l_toks l), msg)] else [])\<rparr>)"

lemma one_token_push:
  assumes "advances l m" "l_pos l < l_pos m" "k \<noteq> TK_EOF" "k \<noteq> TK_ERROR"
    and "lexeme k (slice (l_src l) (l_pos l) (l_pos m))" "\<not> match_op k \<or> \<not> l_rtl l"
  shows "one_token l (push_token k (l_pos l) (l_pos m) (l_line l) (l_col l) m)"
  unfolding one_token_def push_token_def
  using assms advances_fields [OF assms(1)] spelled_lexeme [OF assms(6,5)]
  by (intro exI [of _ m] exI [of _ k] exI [of _ "l_pos m - l_pos l"]) auto

lemma one_token_error:
  assumes "advances l m" "l_pos l < l_pos m" "l_pos l < length (l_src l)"
  shows "one_token l (push_error msg (l_pos l) (l_pos m) (l_line l) (l_col l) m)"
proof -
  have "slice (l_src l) (l_pos l) (l_pos m) \<noteq> []"
    using assms by (simp add: slice_def)
  then show ?thesis
    unfolding one_token_def push_error_def push_token_def Let_def
    using assms advances_fields [OF assms(1)]
    by (intro exI [of _ m] exI [of _ TK_ERROR] exI [of _ "l_pos m - l_pos l"]
          exI [of _ "kai_strdup msg"]) (auto simp: spelled_def match_op_def lexeme_def)
qed

lemma advance_while_spec:
  "list_all P (slice (l_src l) (l_pos l) (l_pos (advance_while P l)))
     \<and> (at_end (advance_while P l) \<or> \<not> P (peek (advance_while P l)))"
proof (induction P l rule: advance_while.induct)
  case (1 P l)
  show ?case
  proof (cases "\<not> at_end l \<and> P (peek l)")
    case True
    let ?r = "advance_while P (advance l)"
    from True have r: "advance_while P l = ?r"
      by (simp add: advance_while.simps [of P l])
    from True have pos: "l_pos (advance l) = Suc (l_pos l)" and in_src: "l_pos l < length (l_src l)"
      by (simp_all add: advance_pos at_end_def)
    have adv: "advances (advance l) ?r" by (rule advances_while)
    have "l_pos l < l_pos ?r" using advances_posD [OF adv] pos by simp
    moreover have "l_pos ?r \<le> length (l_src l)"
      using advances_within [OF adv] pos in_src by simp
    ultimately have "slice (l_src l) (l_pos l) (l_pos ?r)
        = l_src l ! l_pos l # slice (l_src l) (Suc (l_pos l)) (l_pos ?r)"
      by (rule slice_Cons)
    then show ?thesis using "1.IH" [OF True] True r pos by (auto simp: peek_src)
  next
    case False
    then have "advance_while P l = l" by (subst advance_while.simps) auto
    then show ?thesis using False by auto
  qed
qed

lemmas advance_while_text = advance_while_spec [THEN conjunct1]
  and advance_while_stop = advance_while_spec [THEN conjunct2]

lemma advance_while_progress:
  "\<not> at_end l \<Longrightarrow> P (peek l) \<Longrightarrow> l_pos l < l_pos (advance_while P l)"
  using advances_posD [OF advances_while [of "advance l" P]]
  by (simp add: advance_while.simps [of P l] advance_pos)

text \<open>A stretch of bytes that all satisfy \<open>P\<close>, consumed from \<open>l\<close> to \<open>m\<close>.\<close>

definition run_of :: "(char \<Rightarrow> bool) \<Rightarrow> lexer \<Rightarrow> lexer \<Rightarrow> bool" where
  "run_of P l m \<longleftrightarrow> advances l m \<and> list_all P (slice (l_src l) (l_pos l) (l_pos m))"

lemma run_of_refl: "run_of P l l"
  by (simp add: run_of_def adv_refl)

lemma run_of_trans:
  assumes "run_of P l m" "run_of P m n"
  shows "run_of P l n"
proof -
  have lm: "advances l m" and mn: "advances m n" using assms by (simp_all add: run_of_def)
  have "slice (l_src l) (l_pos l) (l_pos n)
      = slice (l_src l) (l_pos l) (l_pos m) @ slice (l_src l) (l_pos m) (l_pos n)"
    using advances_posD [OF lm] advances_posD [OF mn] by (simp add: slice_append_slice)
  then show ?thesis
    using assms advances_trans [OF lm mn] advances_srcD [OF lm] by (simp add: run_of_def)
qed

lemma run_of_advance: "\<not> at_end l \<Longrightarrow> P (peek l) \<Longrightarrow> run_of P l (advance l)"
  by (simp add: run_of_def advances_advance advance_pos slice_Cons peek_src at_end_def)

lemma run_of_advance': "peek l \<noteq> NUL \<Longrightarrow> P (peek l) \<Longrightarrow> run_of P l (advance l)"
  by (simp add: run_of_advance peek_not_NUL)

lemma run_of_while:
  assumes "\<And>c. Q c \<Longrightarrow> P c"
  shows "run_of P l (advance_while Q l)"
  using advance_while_text [of Q l] assms
  by (auto simp: run_of_def advances_while list_all_iff)

lemma run_of_mono: "run_of P l m \<Longrightarrow> (\<And>c. P c \<Longrightarrow> Q c) \<Longrightarrow> run_of Q l m"
  by (auto simp: run_of_def list_all_iff)

lemma run_of_last:
  assumes "run_of P m n" "advances l m" "l_pos m < l_pos n" "l_pos m < length (l_src m)"
  shows "P (last (slice (l_src l) (l_pos l) (l_pos n)))"
proof -
  let ?t = "slice (l_src l) (l_pos m) (l_pos n)"
  have src: "l_src m = l_src l" by (rule advances_srcD [OF assms(2)])
  have "slice (l_src l) (l_pos l) (l_pos n) = slice (l_src l) (l_pos l) (l_pos m) @ ?t"
    using advances_posD [OF assms(2)] assms(3) by (simp add: slice_append_slice)
  moreover have "?t \<noteq> []" using assms(3,4) src by (simp add: slice_def)
  moreover have "list_all P ?t" using assms(1) src by (simp add: run_of_def)
  ultimately show ?thesis by (simp add: list_all_iff)
qed

lemma text_hd:
  assumes "advances l m" "l_pos l < l_pos m" "\<not> at_end l"
  shows "slice (l_src l) (l_pos l) (l_pos m) \<noteq> []"
    and "hd (slice (l_src l) (l_pos l) (l_pos m)) = peek l"
proof -
  have "l_pos m \<le> length (l_src l)"
    using advances_within [OF assms(1)] assms(3) by (simp add: at_end_def)
  then have *: "slice (l_src l) (l_pos l) (l_pos m) = peek l # slice (l_src l) (Suc (l_pos l)) (l_pos m)"
    using assms(2,3) by (simp add: slice_Cons peek_src)
  then show "slice (l_src l) (l_pos l) (l_pos m) \<noteq> []"
    and "hd (slice (l_src l) (l_pos l) (l_pos m)) = peek l" by simp_all
qed

text \<open>The token that ends with the byte under the cursor of \<open>m\<close>.\<close>

lemma text_last:
  assumes "advances l m" "\<not> at_end m"
  shows "last (slice (l_src l) (l_pos l) (l_pos (advance m))) = peek m"
  using assms advances_srcD [OF assms(1)] advances_posD [OF assms(1)]
  by (simp add: advance_pos last_slice peek_src at_end_def)

lemma text_length:
  "advances l m \<Longrightarrow> l_pos l \<le> length (l_src l)
     \<Longrightarrow> length (slice (l_src l) (l_pos l) (l_pos m)) = l_pos m - l_pos l"
  using advances_within [of l m] by simp

section \<open>The scanners\<close>

lemma start_is_cont: "is_ident_start c \<Longrightarrow> is_ident_cont c"
  by (auto simp: is_ident_start_def is_ident_cont_def c_isalnum_def)

lemma lex_ident_one_token:
  assumes "\<not> at_end l" "is_ident_start (peek l)"
  shows "one_token l (lex_ident_or_keyword l)"
proof -
  let ?m = "advance_while is_ident_cont l"
  let ?t = "slice (l_src l) (l_pos l) (l_pos ?m)"
  have adv: "advances l ?m" by (rule advances_while)
  have pos: "l_pos l < l_pos ?m"
    using assms start_is_cont by (simp add: advance_while_progress)
  have id: "ident_text ?t"
    using text_hd [OF adv pos assms(1)] assms(2) advance_while_text [of is_ident_cont l]
    by (simp add: ident_text_def)
  have src: "l_src ?m = l_src l" by (rule advances_srcD [OF adv])
  have wild: "?t = ''_'' \<longleftrightarrow> l_pos ?m - l_pos l = 1 \<and> l_src l ! l_pos l = CHR ''_''"
    using text_hd [OF adv pos assms(1)] text_length [OF adv] assms(1)
    by (cases ?t) (auto simp: peek_src at_end_def)
  show ?thesis
  proof (cases "?t = ''_''")
    case True
    then have "lex_ident_or_keyword l
        = push_token TK_UNDERSCORE (l_pos l) (l_pos ?m) (l_line l) (l_col l) ?m"
      using wild src by (simp add: lex_ident_or_keyword_def Let_def)
    then show ?thesis using adv pos True by (simp add: one_token_push lexeme_def match_op_def)
  next
    case False
    then have "lex_ident_or_keyword l
        = push_token (keyword_or_ident ?t) (l_pos l) (l_pos ?m) (l_line l) (l_col l) ?m"
      using wild src by (auto simp: lex_ident_or_keyword_def Let_def)
    moreover have "keyword_or_ident ?t \<noteq> TK_EOF" "keyword_or_ident ?t \<noteq> TK_ERROR"
      using keyword_or_ident_kinds [of ?t] by (auto simp: keyword_kind_def less_eq_token_kind_def)
    ultimately show ?thesis
      using adv pos keyword_or_ident_lexeme [OF id False] match_op_keyword by (simp add: one_token_push)
  qed
qed

lemma digit_is_number: "c_isdigit c \<Longrightarrow> is_digit_or_sep c"
  and sep_is_number: "is_digit_or_sep c \<Longrightarrow> number_char c"
  by (simp_all add: is_digit_or_sep_def number_char_def)

text \<open>
  After the fraction: either it was absent, or the text ends with a non-empty stretch of
  digits and separators, which starts at some \<open>q\<close>.
\<close>

definition ends_in_digits :: "lexer \<Rightarrow> lexer \<Rightarrow> bool" where
  "ends_in_digits l m \<longleftrightarrow>
     (\<exists>q. advances l q \<and> run_of is_digit_or_sep q m \<and> l_pos q < l_pos m \<and> l_pos q < length (l_src q))"

lemma ends_in_digits_last:
  "ends_in_digits l m \<Longrightarrow> is_digit_or_sep (last (slice (l_src l) (l_pos l) (l_pos m)))"
  unfolding ends_in_digits_def using run_of_last by blast

lemma ends_in_digits_while:
  assumes "advances l q" "c_isdigit (peek q)"
  shows "ends_in_digits l (advance_while is_digit_or_sep q)"
proof -
  have "peek q \<noteq> NUL" using assms(2) by (auto simp: c_isdigit_def)
  then have "\<not> at_end q" by (rule peek_not_NUL)
  then show ?thesis
    unfolding ends_in_digits_def using assms digit_is_number
    by (intro exI [of _ q] conjI run_of_while advance_while_progress) (simp_all add: at_end_def)
qed

lemma peek_advance:
  "\<not> at_end l \<Longrightarrow> peek (advance l) = peek2 l"
  by (simp add: peek_def peek2_def at_end_def advance_pos)

lemma lex_fraction_run:
  assumes l: "run_of is_digit_or_sep l0 l" and r: "lex_number_fraction l = (r, m)"
  shows "run_of number_char l0 m \<and> (\<not> r \<longrightarrow> m = l) \<and> (r \<longrightarrow> ends_in_digits l0 m)"
proof (cases "peek l = CHR ''.'' \<and> c_isdigit (peek2 l)")
  case False
  then have "r = False" "m = l" using r by (auto simp: lex_number_fraction_def)
  then show ?thesis using run_of_mono [OF l sep_is_number] by simp
next
  case True
  let ?q = "advance l"
  from True r have rm: "r = True" "m = advance_while is_digit_or_sep ?q"
    by (simp_all add: lex_number_fraction_def)
  have ne: "\<not> at_end l" using True by (intro peek_not_NUL) simp
  have q: "run_of number_char l ?q"
    by (rule run_of_advance [OF ne]) (simp add: True number_char_def)
  have m: "run_of number_char ?q m"
    unfolding rm by (rule run_of_while [OF sep_is_number])
  have "run_of number_char l0 m"
    by (rule run_of_trans [OF run_of_mono [OF l sep_is_number] run_of_trans [OF q m]])
  moreover have "ends_in_digits l0 m"
    unfolding rm using l True
    by (intro ends_in_digits_while)
      (simp_all add: run_of_def advances_then_advance peek_advance [OF ne])
  ultimately show ?thesis using rm by simp
qed

lemma lex_number_one_token:
  assumes ne: "\<not> at_end l" and digit: "c_isdigit (peek l)"
  shows "one_token l (lex_number l)"
proof -
  let ?i = "advance_while is_digit_or_sep l"
  obtain r m where rm: "lex_number_fraction ?i = (r, m)" by fastforce
  have i: "run_of is_digit_or_sep l ?i" by (rule run_of_while)
  have m: "run_of number_char l m" "\<not> r \<Longrightarrow> m = ?i" "r \<Longrightarrow> ends_in_digits l m"
    using lex_fraction_run [OF i rm] by simp_all
  have adv: "advances l m" using m(1) by (simp add: run_of_def)
  have "l_pos l < l_pos ?i" using ne digit digit_is_number by (simp add: advance_while_progress)
  moreover have "advances ?i m"
    using rm by (auto simp: lex_number_fraction_def adv_refl split: if_splits
        intro: advances_advance_trans [OF advances_while])
  ultimately have pos: "l_pos l < l_pos m" using advances_posD by fastforce
  have in_src: "l_pos l < length (l_src l)" using ne by (simp add: at_end_def)
  show ?thesis
  proof (cases "peek m = CHR ''e'' \<or> peek m = CHR ''E''")
    case False
    then have eq: "lex_number l
        = push_token (if r then TK_REAL else TK_INT) (l_pos l) (l_pos m) (l_line l) (l_col l) m"
      using rm by (simp add: lex_number_def Let_def)
    have "lexeme (if r then TK_REAL else TK_INT) (slice (l_src l) (l_pos l) (l_pos m))"
    proof (cases r)
      case True
      then show ?thesis
        using text_hd [OF adv pos ne] m digit ends_in_digits_last by (simp add: lexeme_def run_of_def)
    next
      case False
      then have "run_of is_digit_or_sep l m" using i m(2) by simp
      then show ?thesis
        using text_hd [OF adv pos ne] False digit by (simp add: lexeme_def run_of_def)
    qed
    then show ?thesis unfolding eq by (intro one_token_push adv pos) (auto simp: match_op_def)
  next
    case True
    let ?e = "advance m"
    let ?s = "if peek ?e = CHR ''+'' \<or> peek ?e = CHR ''-'' then advance ?e else ?e"
    let ?d = "advance_while is_digit_or_sep ?s"
    have me: "run_of number_char m ?e"
      by (rule run_of_advance') (use True in \<open>auto simp: number_char_def\<close>)
    have es: "run_of number_char ?e ?s"
      by (auto simp: run_of_refl number_char_def intro: run_of_advance')
    have ls: "run_of number_char l ?s"
      by (rule run_of_trans [OF m(1) run_of_trans [OF me es]])
    have ld: "run_of number_char l ?d"
      by (rule run_of_trans [OF ls run_of_while [OF sep_is_number]])
    have advs: "advances l ?s" "advances l ?d" "advances m ?s" "advances m ?d"
      using ls ld run_of_trans [OF me es] run_of_trans [OF me run_of_trans [OF es run_of_while [OF sep_is_number]]]
      by (simp_all add: run_of_def)
    have poss: "l_pos l < l_pos ?s" "l_pos l < l_pos ?d"
      using pos advances_posD [OF advs(3)] advances_posD [OF advs(4)] by linarith+
    show ?thesis
    proof (cases "c_isdigit (peek ?s)")
      case bad: False
      have eq: "lex_number l = push_error ''malformed number: expected digits after exponent''
          (l_pos l) (l_pos ?s) (l_line l) (l_col l) ?s"
        using rm True bad by (auto simp: lex_number_def Let_def)
      show ?thesis unfolding eq by (rule one_token_error [OF advs(1) poss(1) in_src])
    next
      case good: True
      have eq: "lex_number l = push_token TK_REAL (l_pos l) (l_pos ?d) (l_line l) (l_col l) ?d"
        using rm True good by (auto simp: lex_number_def Let_def)
      have "ends_in_digits l ?d" by (rule ends_in_digits_while [OF advs(1) good])
      then have "lexeme TK_REAL (slice (l_src l) (l_pos l) (l_pos ?d))"
        using text_hd [OF advs(2) poss(2) ne] ld digit ends_in_digits_last
        by (simp add: lexeme_def run_of_def)
      then show ?thesis unfolding eq by (intro one_token_push advs poss) (auto simp: match_op_def)
    qed
  qed
qed

lemma peek_advance2:
  "peek3 l \<noteq> NUL \<Longrightarrow> \<not> at_end (advance (advance l)) \<and> peek (advance (advance l)) = peek3 l"
  by (auto simp: peek_def peek3_def at_end_def advance_pos split: if_splits)

lemma lex_string_loop_one_token:
  assumes "advances s l" "l_pos s < l_pos l" "\<not> at_end s" "peek s = DQ"
  shows "one_token s (lex_string_loop triple (l_pos s) (l_line s) (l_col s) l)"
  using assms
proof (induction triple "l_pos s" "l_line s" "l_col s" l rule: lex_string_loop.induct)
  case (1 triple l)
  note prems = "1.prems"
  let ?go = "lex_string_loop triple (l_pos s) (l_line s) (l_col s)"
  have in_src: "l_pos s < length (l_src s)" using prems by (simp add: at_end_def)
  have step: "advances s m" "l_pos s < l_pos m" if "advances l m" for m
    using advances_trans [OF prems(1) that] prems(2) advances_posD [OF that] by simp_all
  have close: "one_token s (push_token TK_STRING (l_pos s) (l_pos (advance m)) (l_line s) (l_col s) (advance m))"
    if m: "advances l m" "\<not> at_end m" "peek m = DQ" for m
  proof -
    have sm: "advances s m" "l_pos s < l_pos m" and sa: "advances s (advance m)" "l_pos s < l_pos (advance m)"
      using step [OF m(1)] step [OF advances_then_advance [OF m(1)]] by simp_all
    show ?thesis
      using text_hd [OF sa prems(3)] text_last [OF sm(1) m(2)] text_length [OF sa(1)] sm(2) in_src m prems(4)
      by (intro one_token_push sa) (simp_all add: lexeme_def match_op_def advance_pos)
  qed
  have err: "one_token s (push_error msg (l_pos s) (l_pos m) (l_line s) (l_col s) m)"
    if m: "advances l m" for m msg
    by (rule one_token_error [OF step [OF m] in_src])
  let ?r = "lex_interp_block (advance (advance l))"
  have adv_r: "advances l (snd ?r)"
    by (rule advances_advance_trans [OF advances_advance_trans [OF advances_interp_block]])
  have adv_esc: "advances l (skip_escape l)"
    by (rule advances_advance_trans [OF advances_escape])
  show ?case
  proof (cases "at_end l")
    case True
    then have "?go l = push_error ''unterminated string'' (l_pos s) (l_pos l) (l_line s) (l_col s) l"
      by (subst lex_string_loop.simps) simp
    then show ?thesis using err [OF adv_refl] by simp
  next
    case ne: False
    note unfold = lex_string_loop.simps [of triple "l_pos s" "l_line s" "l_col s" l]
    consider (esc) "peek l = BSL"
      | (interp) "peek l = CHR ''#''" "peek2 l = CHR ''{''"
      | (close3) "triple" "peek l = DQ" "peek2 l = DQ" "peek3 l = DQ"
      | (nl) "\<not> triple" "peek l = NL"
      | (close1) "\<not> triple" "peek l = DQ"
      | (body) "peek l \<noteq> BSL" "\<not> (peek l = CHR ''#'' \<and> peek2 l = CHR ''{'')"
          "if triple then \<not> (peek l = DQ \<and> peek2 l = DQ \<and> peek3 l = DQ) else peek l \<noteq> NL \<and> peek l \<noteq> DQ"
      by (cases triple) auto
    then show ?thesis
    proof cases
      case esc
      then have "?go l = ?go (skip_escape l)" using ne by (subst unfold) simp
      then show ?thesis
        using "1.hyps"(1) [OF ne refl esc step [OF adv_esc] prems(3,4)] by simp
    next
      case interp
      show ?thesis
      proof (cases "fst ?r")
        case True
        then have "?go l = ?go (snd ?r)" using ne interp by (subst unfold) (simp add: Let_def)
        then show ?thesis
          using "1.hyps"(2) [OF ne refl _ _ refl _ step [OF adv_r] prems(3,4)] interp True by simp
      next
        case False
        then have "?go l = push_error ''unterminated interpolation in string''
            (l_pos s) (l_pos (snd ?r)) (l_line s) (l_col s) (snd ?r)"
          using ne interp by (subst unfold) (simp add: Let_def)
        then show ?thesis using err [OF adv_r] by simp
      qed
    next
      case close3
      then have "?go l = (let m = advance (advance (advance l))
          in push_token TK_STRING (l_pos s) (l_pos m) (l_line s) (l_col s) m)"
        using ne by (subst unfold) (simp add: Let_def)
      moreover have "\<not> at_end (advance (advance l))" "peek (advance (advance l)) = DQ"
        using close3 peek_advance2 [of l] by simp_all
      ultimately show ?thesis
        using close [of "advance (advance l)"] by (simp add: Let_def advances_fwd advances_advance)
    next
      case nl
      then have "?go l = push_error ''unterminated string (newline in single-line string)''
          (l_pos s) (l_pos l) (l_line s) (l_col s) l"
        using ne by (subst unfold) simp
      then show ?thesis using err [OF adv_refl] by simp
    next
      case close1
      then have "?go l = push_token TK_STRING (l_pos s) (l_pos (advance l)) (l_line s) (l_col s) (advance l)"
        using ne by (subst unfold) (simp add: Let_def)
      then show ?thesis using close [OF adv_refl ne close1(2)] by simp
    next
      case body
      then have "?go l = ?go (advance l)"
        using ne by (subst unfold) (auto simp: Let_def split: if_splits)
      moreover have "one_token s (?go (advance l))"
        using "1.hyps"(3,4) [OF ne refl body(1,2)] step [OF advances_advance] prems(3,4) body(3)
        by (cases triple) auto
      ultimately show ?thesis by simp
    qed
  qed
qed

lemma lex_string_one_token:
  assumes "\<not> at_end l" "peek l = DQ"
  shows "one_token l (lex_string l)"
  unfolding lex_string_def Let_def using assms
  by (intro lex_string_loop_one_token)
    (auto simp: advance_pos intro!: advances_fwd)

lemma advances_then_while: "advances l m \<Longrightarrow> advances l (advance_while P m)"
  by (rule advances_trans [OF _ advances_while])

lemma lex_char_body_advances: "lex_char_body l = (ok, m) \<Longrightarrow> advances l m"
  by (auto simp: lex_char_body_def Let_def split: if_splits dest!: step_back
      intro!: advances_fwd advances_then_while)

lemma lex_char_body_progress: "lex_char_body l = (True, m) \<Longrightarrow> l_pos l < l_pos m"
proof -
  assume r: "lex_char_body l = (True, m)"
  then have ne: "\<not> at_end l" by (auto simp: lex_char_body_def)
  have "advances (advance l) m"
    using r by (auto simp: lex_char_body_def Let_def split: if_splits dest!: step_back
        intro!: advances_fwd advances_then_while)
  then show ?thesis using advances_posD [of "advance l" m] ne by (simp add: advance_pos)
qed

lemma lex_char_one_token:
  assumes ne: "\<not> at_end l" and q: "peek l = SQ"
  shows "one_token l (lex_char l)"
proof -
  obtain ok m where b: "lex_char_body (advance l) = (ok, m)" by fastforce
  have am: "advances (advance l) m" by (rule lex_char_body_advances [OF b])
  have lm: "advances l m" by (rule advances_advance_trans [OF am])
  have pos: "l_pos l < l_pos m" using advances_posD [OF am] ne by (simp add: advance_pos)
  have in_src: "l_pos l < length (l_src l)" using ne by (simp add: at_end_def)
  show ?thesis
  proof (cases "\<not> ok \<or> peek m \<noteq> SQ")
    case True
    then have "lex_char l = push_error ''unterminated char literal''
        (l_pos l) (l_pos m) (l_line l) (l_col l) m"
      using b by (simp add: lex_char_def Let_def)
    then show ?thesis using one_token_error [OF lm pos in_src] by simp
  next
    case False
    then have eq: "lex_char l = push_token TK_CHAR (l_pos l) (l_pos (advance m)) (l_line l) (l_col l) (advance m)"
      using b by (simp add: lex_char_def Let_def)
    have me: "\<not> at_end m" using False by (intro peek_not_NUL) simp
    have adv: "advances l (advance m)" by (rule advances_then_advance [OF lm])
    have posa: "l_pos l < l_pos (advance m)" using pos me by (simp add: advance_pos)
    have "l_pos (advance l) < l_pos m" using lex_char_body_progress [of "advance l" m] b False by simp
    then have "lexeme TK_CHAR (slice (l_src l) (l_pos l) (l_pos (advance m)))"
      using text_hd [OF adv posa ne] text_last [OF lm me] text_length [OF adv] q in_src me ne False
      by (simp add: lexeme_def advance_pos)
    then show ?thesis unfolding eq by (intro one_token_push adv posa) (auto simp: match_op_def)
  qed
qed

text \<open>Operators: \<open>s\<close> is the state before the operator's first byte \<open>c\<close>.\<close>

lemma text_one:
  "\<not> at_end s \<Longrightarrow> slice (l_src s) (l_pos s) (l_pos (advance s)) = [peek s]"
  by (simp add: advance_pos slice_Cons at_end_def peek_src)

lemma text_snoc:
  assumes "advances s m" "\<not> at_end m"
  shows "slice (l_src s) (l_pos s) (l_pos (advance m))
       = slice (l_src s) (l_pos s) (l_pos m) @ [peek m]"
  using assms advances_posD [OF assms(1)] advances_srcD [OF assms(1)]
  by (simp add: advance_pos slice_Suc_right at_end_def peek_src)

lemma push_advanced:
  assumes "advances s m" "l_pos s < l_pos m" "lexeme k (slice (l_src s) (l_pos s) (l_pos m))"
    and "k \<noteq> TK_EOF" "k \<noteq> TK_ERROR" "\<not> match_op k \<or> \<not> l_rtl s"
  shows "one_token s (push_token k (l_pos s) (l_pos m) (l_line s) (l_col s) m)"
  by (rule one_token_push [OF assms(1,2,4,5,3,6)])

lemma lex_two_one_token:
  assumes ne: "\<not> at_end s" and c: "c \<noteq> NUL"
    and yes: "lexeme yes [peek s, c]" "yes \<noteq> TK_EOF" "yes \<noteq> TK_ERROR" "match_op yes" "tk_name yes = [peek s, c]"
    and no: "lexeme no [peek s]" "no \<noteq> TK_EOF" "no \<noteq> TK_ERROR" "\<not> match_op no"
  shows "one_token s (lex_two c yes no (l_pos s) (l_line s) (l_col s) (advance s))"
proof (cases "peek (advance s) = c")
  case False
  then have "lex_two c yes no (l_pos s) (l_line s) (l_col s) (advance s)
      = push_token no (l_pos s) (l_pos (advance s)) (l_line s) (l_col s) (advance s)"
    by (simp add: lex_two_def lex_match_def)
  then show ?thesis
    using push_advanced [OF advances_advance _ _ no(2,3), of s] no(1,4) ne text_one [OF ne]
    by (simp add: advance_pos)
next
  case True
  have ne': "\<not> at_end (advance s)" using True c by (intro peek_not_NUL) simp
  let ?m = "advance (advance s)"
  have adv: "advances s ?m" by (intro advances_fwd)
  have text2: "slice (l_src s) (l_pos s) (l_pos ?m) = [peek s, c]"
    using text_snoc [OF advances_advance ne'] text_one [OF ne] True by simp
  have pos: "l_pos ?m = Suc (Suc (l_pos s))" "l_pos (advance s) = Suc (l_pos s)"
    using ne ne' by (simp_all add: advance_pos)
  have eq: "lex_two c yes no (l_pos s) (l_line s) (l_col s) (advance s)
      = push_token yes (l_pos s) (if l_rtl s then l_pos (advance s) else l_pos ?m) (l_line s) (l_col s) ?m"
    using True by (simp add: lex_two_def lex_match_def)
  show ?thesis
  proof (cases "l_rtl s")
    case False
    then show ?thesis
      using eq push_advanced [OF adv _ _ yes(2,3)] pos text2 yes(1) by simp
  next
    case rtl: True
    have text1: "slice (l_src s) (l_pos s) (l_pos s + 1) = [peek s]"
      using text_one [OF ne] pos(2) by simp
    show ?thesis
      unfolding one_token_def eq push_token_def
      using rtl adv pos yes(2-5) text1 advances_fields [OF adv]
      by (intro exI [of _ ?m] exI [of _ yes] exI [of _ "1::nat"]) (auto simp: spelled_def)
  qed
qed

lemma lexeme_single: "single_char_token c \<noteq> TK_ERROR \<Longrightarrow> lexeme (single_char_token c) [c]"
  by (auto simp: single_char_token_def lexeme_def)

lemma single_char_token_not_EOF: "single_char_token c \<noteq> TK_EOF"
  by (simp add: single_char_token_def)

lemma match_op_single: "\<not> match_op (single_char_token c)"
  by (simp add: single_char_token_def match_op_def)

lemma lex_dot_one_token:
  assumes ne: "\<not> at_end s" and dot: "peek s = CHR ''.''"
  shows "one_token s (lex_dot (l_pos s) (l_line s) (l_col s) (advance s))"
proof -
  let ?a = "advance s" let ?b = "advance ?a" let ?c = "advance ?b"
  have adv: "advances s ?a" "advances s ?b" "advances s ?c" by (intro advances_fwd)+
  have t1: "slice (l_src s) (l_pos s) (l_pos ?a) = [peek s]" by (rule text_one [OF ne])
  have pos: "l_pos s < l_pos ?a" using ne by (simp add: advance_pos)
  consider (three) "peek ?a = CHR ''.''" "peek2 ?a = CHR ''.''"
    | (two) "peek ?a = CHR ''.''" "peek2 ?a \<noteq> CHR ''.''"
    | (one) "peek ?a \<noteq> CHR ''.''" by blast
  then show ?thesis
  proof cases
    case three
    have na: "\<not> at_end ?a" using three by (intro peek_not_NUL) simp
    have pb: "peek ?b = CHR ''.''" using peek_advance [OF na] three by simp
    then have nb: "\<not> at_end ?b" by (intro peek_not_NUL) simp
    have "slice (l_src s) (l_pos s) (l_pos ?c) = ''...''"
      using text_snoc [OF adv(2) nb] text_snoc [OF adv(1) na] t1 three pb dot by simp
    moreover have "l_pos s < l_pos ?c" using pos advances_posD [of ?a ?c] by (simp add: advance_pos)
    ultimately show ?thesis
      using three push_advanced [OF adv(3), of TK_ELLIPSIS] by (simp add: lex_dot_def Let_def lexeme_def match_op_def)
  next
    case two
    have na: "\<not> at_end ?a" using two by (intro peek_not_NUL) simp
    have "slice (l_src s) (l_pos s) (l_pos ?b) = ''..''"
      using text_snoc [OF adv(1) na] t1 two dot by simp
    moreover have "l_pos s < l_pos ?b" using pos by (simp add: advance_pos)
    ultimately show ?thesis
      using two push_advanced [OF adv(2), of TK_DOTDOT] by (simp add: lex_dot_def Let_def lexeme_def match_op_def)
  next
    case one
    then show ?thesis
      using push_advanced [OF adv(1) pos, of TK_DOT] t1 dot by (simp add: lex_dot_def lexeme_def match_op_def)
  qed
qed

lemma lex_operator_one_token:
  assumes ne: "\<not> at_end s"
  shows "one_token s (lex_operator (peek s) (l_pos s) (l_line s) (l_col s) (advance s))"
proof -
  let ?c = "peek s" and ?a = "advance s"
  let ?op = "lex_operator ?c (l_pos s) (l_line s) (l_col s) ?a"
  let ?two = "\<lambda>d yes no. lex_two d yes no (l_pos s) (l_line s) (l_col s) ?a"
  have adv: "advances s ?a" by (rule advances_advance)
  have pos: "l_pos s < l_pos ?a" using ne by (simp add: advance_pos)
  have t1: "slice (l_src s) (l_pos s) (l_pos ?a) = [?c]" by (rule text_one [OF ne])
  have in_src: "l_pos s < length (l_src s)" using ne by (simp add: at_end_def)
  show ?thesis
  proof (cases "single_char_token ?c = TK_ERROR")
    case False
    then have "?op = push_token (single_char_token ?c) (l_pos s) (l_pos ?a) (l_line s) (l_col s) ?a"
      by (simp add: lex_operator_def)
    then show ?thesis
      using push_advanced [OF adv pos, of "single_char_token ?c"] lexeme_single [OF False]
        single_char_token_not_EOF match_op_single False t1 by simp
  next
    case multi: True
    note unfold = lex_operator_def single_char_token_def lexeme_def match_op_def Let_def
    consider (minus) "?c = CHR ''-''"
      | (slash) "?c = CHR ''/''"
      | (lt) "?c = CHR ''<''"
      | (gt) "?c = CHR ''>''"
      | (bang) "?c = CHR ''!''"
      | (bar) "?c = CHR ''|''"
      | (eq) "?c = CHR ''=''" | (dot) "?c = CHR ''.''"
      | (bad) "?c \<notin> set ''-/<>!|=.''"
      by auto
    then show ?thesis
    proof cases
      case minus
      then show ?thesis
        using lex_two_one_token [OF ne, of "CHR ''>''" TK_ARROW TK_MINUS] by (simp add: unfold)
    next
      case slash
      then show ?thesis
        using lex_two_one_token [OF ne, of "CHR ''/''" TK_SLASH_SLASH TK_SLASH] by (simp add: unfold)
    next
      case lt
      then show ?thesis
        using lex_two_one_token [OF ne, of "CHR ''=''" TK_LE TK_LT] by (simp add: unfold)
    next
      case gt
      then show ?thesis
        using lex_two_one_token [OF ne, of "CHR ''=''" TK_GE TK_GT] by (simp add: unfold)
    next
      case bang
      then show ?thesis
        using lex_two_one_token [OF ne, of "CHR ''=''" TK_NEQ TK_BANG] by (simp add: unfold)
    next
      case bar
      then show ?thesis
        using lex_two_one_token [OF ne, of "CHR ''>''" TK_PIPE_APPLY TK_PIPE] by (simp add: unfold)
    next
      case dot
      then have "?op = lex_dot (l_pos s) (l_line s) (l_col s) ?a"
        by (simp add: lex_operator_def single_char_token_def)
      then show ?thesis using lex_dot_one_token [OF ne dot] by simp
    next
      case bad
      then have "?op = push_error (unexpected_message ?c) (l_pos s) (l_pos ?a) (l_line s) (l_col s) ?a"
        using multi by (simp add: lex_operator_def)
      then show ?thesis using one_token_error [OF adv pos in_src] by simp
    next
      case eq
      let ?b = "advance ?a"
      have advb: "advances s ?b" by (rule advances_then_advance [OF adv])
      have posb: "l_pos s < l_pos ?b" using pos by (simp add: advance_pos)
      consider (eqeq) "peek ?a = CHR ''=''" | (fat) "peek ?a = CHR ''>''"
        | (none) "peek ?a \<noteq> CHR ''=''" "peek ?a \<noteq> CHR ''>''" by blast
      then show ?thesis
      proof cases
        case eqeq
        then have "\<not> at_end ?a" by (intro peek_not_NUL) simp
        then have "slice (l_src s) (l_pos s) (l_pos ?b) = ''==''"
          using text_snoc [OF adv] t1 eq eqeq by simp
        then show ?thesis
          using eq eqeq push_advanced [OF advb posb, of TK_EQEQ]
          by (simp add: lex_operator_def single_char_token_def lex_match_def Let_def lexeme_def match_op_def)
      next
        case fat
        then have "\<not> at_end ?a" by (intro peek_not_NUL) simp
        then have "slice (l_src s) (l_pos s) (l_pos ?b) = ''=>''"
          using text_snoc [OF adv] t1 eq fat by simp
        then show ?thesis
          using eq fat push_advanced [OF advb posb, of TK_FAT_ARROW]
          by (simp add: lex_operator_def single_char_token_def lex_match_def Let_def lexeme_def match_op_def)
      next
        case none
        then show ?thesis
          using eq push_advanced [OF adv pos, of TK_EQ] t1
          by (simp add: lex_operator_def single_char_token_def lex_match_def Let_def lexeme_def match_op_def)
      qed
    qed
  qed
qed

theorem lex_one_one_token:
  assumes ne: "\<not> at_end l"
  shows "one_token l (lex_one l)"
proof -
  consider (nl) "peek l = NL"
    | (ident) "peek l \<noteq> NL" "is_ident_start (peek l)"
    | (digit) "peek l \<noteq> NL" "\<not> is_ident_start (peek l)" "c_isdigit (peek l)"
    | (dq) "peek l = DQ" | (sq) "peek l = SQ"
    | (op) "peek l \<noteq> NL" "\<not> is_ident_start (peek l)" "\<not> c_isdigit (peek l)" "peek l \<noteq> DQ" "peek l \<noteq> SQ"
    by blast
  then show ?thesis
  proof cases
    case nl
    then show ?thesis
      using push_advanced [OF advances_advance, of l TK_NEWLINE] text_one [OF ne] ne
      by (simp add: lex_one_def Let_def advance_pos lexeme_def match_op_def)
  next
    case ident
    then show ?thesis using lex_ident_one_token [OF ne] by (simp add: lex_one_def)
  next
    case digit
    then show ?thesis using lex_number_one_token [OF ne] by (simp add: lex_one_def)
  next
    case dq
    then show ?thesis
      using lex_string_one_token [OF ne]
      by (simp add: lex_one_def is_ident_start_def c_isdigit_def ctype_defs)
  next
    case sq
    then show ?thesis
      using lex_char_one_token [OF ne]
      by (simp add: lex_one_def is_ident_start_def c_isdigit_def ctype_defs)
  next
    case op
    then show ?thesis using lex_operator_one_token [OF ne] by (simp add: lex_one_def)
  qed
qed

section \<open>The main loop\<close>

lemma one_token_left: "one_token l l' \<Longrightarrow> \<not> at_end l \<Longrightarrow> l_left l' < l_left l"
  by (auto simp: one_token_def l_left_def at_end_def dest: advances_fields)

function kai_lex_loop :: "lexer \<Rightarrow> lexer" where
  "kai_lex_loop l =
     (if at_end l then l
      else let l = skip_whitespace_and_comments l in
        if at_end l then l else kai_lex_loop (lex_one l))"
  by pat_completeness auto
termination
  by (relation "measure l_left")
    (auto intro: less_le_trans [OF one_token_left [OF lex_one_one_token]
        advances_left [OF advances_whitespace]])

declare kai_lex_loop.simps [simp del]

definition lex_init :: "bool \<Rightarrow> string \<Rightarrow> lexer" where
  "lex_init rtl src = \<lparr>l_src = src, l_pos = 0, l_line = 1, l_col = 1, l_toks = [], l_errs = [], l_rtl = rtl\<rparr>"

definition kai_lex_state :: "bool \<Rightarrow> string \<Rightarrow> lexer" where
  "kai_lex_state rtl src =
     (let l = kai_lex_loop (lex_init rtl src)
      in push_token TK_EOF (l_pos l) (l_pos l) (l_line l) (l_col l) l)"

definition kai_lex :: "bool \<Rightarrow> string \<Rightarrow> token list" where
  "kai_lex rtl src = l_toks (kai_lex_state rtl src)"

section \<open>The invariant of the main loop\<close>

definition pos_ok :: "lexer \<Rightarrow> bool" where
  "pos_ok l \<longleftrightarrow> l_pos l \<le> length (l_src l) \<and> l_line l = line_of (l_src l) (l_pos l)
     \<and> l_col l = col_of (l_src l) (l_pos l)"

lemma pos_ok_advance: "pos_ok l \<Longrightarrow> pos_ok (advance l)"
  by (auto simp: pos_ok_def advance_def at_end_def line_of_Suc col_of_Suc Let_def)

lemma pos_ok_advances: "advances l l' \<Longrightarrow> pos_ok l \<Longrightarrow> pos_ok l'"
  by (induction rule: advances.induct) (auto intro: pos_ok_advance)

definition in_tok :: "token \<Rightarrow> nat \<Rightarrow> bool" where
  "in_tok t i \<longleftrightarrow> t_start t \<le> i \<and> i < tok_end t"

text \<open>A token found in the source: non-empty, inside it, and at the position it claims.\<close>

definition tok_ok :: "string \<Rightarrow> token \<Rightarrow> bool" where
  "tok_ok src t \<longleftrightarrow> t_kind t \<noteq> TK_EOF \<and> 0 < t_length t \<and> tok_end t \<le> length src
     \<and> t_line t = line_of src (t_start t) \<and> t_col t = col_of src (t_start t)"

definition is_blank :: "char \<Rightarrow> bool" where
  "is_blank c \<longleftrightarrow> c = CHR '' '' \<or> c = CHR 0x09 \<or> c = CHR 0x0D"

text \<open>
  The bytes no token covers: blanks, and whatever follows a \<open>#\<close> that opened a comment or an
  attribute, with no token in between.
\<close>

definition gap_byte :: "string \<Rightarrow> token list \<Rightarrow> nat \<Rightarrow> bool" where
  "gap_byte src ts i \<longleftrightarrow> is_blank (src ! i) \<or>
     (\<exists>j\<le>i. src ! j = CHR ''#'' \<and> (\<forall>t\<in>set ts. tok_end t \<le> j \<or> i < t_start t))"

definition lex_inv :: "lexer \<Rightarrow> bool" where
  "lex_inv l \<longleftrightarrow> pos_ok l
     \<and> sorted_wrt (\<lambda>a b. tok_end a \<le> t_start b) (l_toks l)
     \<and> (\<forall>t\<in>set (l_toks l). tok_ok (l_src l) t \<and> tok_end t \<le> l_pos l
          \<and> spelled (l_rtl l) (t_kind t) (tok_text (l_src l) t))
     \<and> map fst (l_errs l) = filter (\<lambda>i. t_kind (l_toks l ! i) = TK_ERROR) [0..<length (l_toks l)]
     \<and> (\<not> l_rtl l \<longrightarrow>
          (\<forall>i<l_pos l. (\<exists>t\<in>set (l_toks l). in_tok t i) \<or> gap_byte (l_src l) (l_toks l) i))"

text \<open>What the whitespace skipper passes over.\<close>

lemma whitespace_skips:
  "l_pos l \<le> i \<Longrightarrow> i < l_pos (skip_whitespace_and_comments l)
     \<Longrightarrow> is_blank (l_src l ! i) \<or> (\<exists>j\<ge>l_pos l. j \<le> i \<and> l_src l ! j = CHR ''#'')"
proof (induction l rule: skip_whitespace_and_comments.induct)
  case (1 l)
  note unfold = skip_whitespace_and_comments.simps [of l]
  consider (stop) "at_end l \<or> \<not> is_blank (peek l) \<and> peek l \<noteq> CHR ''#''"
    | (blank) "\<not> at_end l" "is_blank (peek l)"
    | (hash) "\<not> at_end l" "peek l = CHR ''#''"
    by blast
  then show ?case
  proof cases
    case stop
    then have "skip_whitespace_and_comments l = l"
      by (subst unfold) (auto simp: is_blank_def Let_def)
    then show ?thesis using "1.prems" by simp
  next
    case hash
    then show ?thesis using "1.prems" by (auto simp: peek_src)
  next
    case blank
    then have eq: "skip_whitespace_and_comments l = skip_whitespace_and_comments (advance l)"
      by (subst unfold) (simp add: is_blank_def Let_def)
    show ?thesis
    proof (cases "i = l_pos l")
      case True
      then show ?thesis using blank by (simp add: peek_src)
    next
      case False
      then have "l_pos (advance l) \<le> i" using "1.prems" blank by (simp add: advance_pos)
      then show ?thesis
        using "1.IH"(1) [OF blank(1) refl] blank "1.prems" eq by (auto simp: is_blank_def advance_pos)
    qed
  qed
qed

lemma lex_inv_whitespace:
  assumes "lex_inv l"
  shows "lex_inv (skip_whitespace_and_comments l)"
proof -
  let ?m = "skip_whitespace_and_comments l"
  have adv: "advances l ?m" by (rule advances_whitespace)
  note f = advances_fields [OF adv]
  have "gap_byte (l_src l) (l_toks l) i" if "l_pos l \<le> i" "i < l_pos ?m" for i
  proof -
    have "tok_end t \<le> j" if "t \<in> set (l_toks l)" "l_pos l \<le> j" for t j
      using assms that by (fastforce simp: lex_inv_def)
    then show ?thesis using whitespace_skips [OF that] by (auto simp: gap_byte_def)
  qed
  then have "(\<exists>t\<in>set (l_toks l). in_tok t i) \<or> gap_byte (l_src l) (l_toks l) i"
    if "\<not> l_rtl l" "i < l_pos ?m" for i
    using assms that by (cases "i < l_pos l") (auto simp: lex_inv_def)
  then show ?thesis
    using assms f pos_ok_advances [OF adv]
    unfolding lex_inv_def by (auto intro: order_trans)
qed

lemma one_token_inv:
  assumes inv: "lex_inv l" and one: "one_token l l'"
  shows "lex_inv l' \<and> l_src l' = l_src l \<and> l_rtl l' = l_rtl l"
proof -
  obtain m k n msg where m: "advances l m" "k \<noteq> TK_EOF" "0 < n" "l_pos l + n \<le> l_pos m"
    and sp: "spelled (l_rtl l) k (slice (l_src l) (l_pos l) (l_pos l + n))"
    and ltr: "\<not> l_rtl l \<Longrightarrow> l_pos l + n = l_pos m"
    and l': "l' = m\<lparr>l_toks := l_toks l @ [\<lparr>t_kind = k, t_line = l_line l, t_col = l_col l,
                                       t_start = l_pos l, t_length = n\<rparr>],
                  l_errs := l_errs l @ (if k = TK_ERROR then [(length (l_toks l), msg)] else [])\<rparr>"
    using one unfolding one_token_def by blast
  define t where "t = \<lparr>t_kind = k, t_line = l_line l, t_col = l_col l, t_start = l_pos l, t_length = n\<rparr>"
  note f = advances_fields [OF m(1)]
  have pos: "pos_ok l" "pos_ok m" using inv pos_ok_advances [OF m(1)] by (auto simp: lex_inv_def)
  have toks: "\<forall>u\<in>set (l_toks l). tok_ok (l_src l) u \<and> tok_end u \<le> l_pos l
       \<and> spelled (l_rtl l) (t_kind u) (tok_text (l_src l) u)"
    and srt: "sorted_wrt (\<lambda>a b. tok_end a \<le> t_start b) (l_toks l)"
    and errs: "map fst (l_errs l) = filter (\<lambda>i. t_kind (l_toks l ! i) = TK_ERROR) [0..<length (l_toks l)]"
    and cov: "\<not> l_rtl l \<longrightarrow> (\<forall>i<l_pos l. (\<exists>t\<in>set (l_toks l). in_tok t i) \<or> gap_byte (l_src l) (l_toks l) i)"
    using inv by (simp_all add: lex_inv_def)
  have t: "t_start t = l_pos l" "tok_end t = l_pos l + n" "t_kind t = k"
    by (simp_all add: t_def tok_end_def)
  have tok: "tok_ok (l_src l) t \<and> tok_end t \<le> l_pos m \<and> spelled (l_rtl l) k (tok_text (l_src l) t)"
    using m pos f sp t by (auto simp: tok_ok_def pos_ok_def tok_text_def t_def)
  have src: "l_src l' = l_src l" "l_rtl l' = l_rtl l" "l_pos l' = l_pos m" "l_toks l' = l_toks l @ [t]"
    and pos': "pos_ok l'"
    using f pos(2) by (simp_all add: l' t_def pos_ok_def)
  have "map fst (l_errs l') = filter (\<lambda>i. t_kind (l_toks l' ! i) = TK_ERROR) [0..<length (l_toks l')]"
    using errs by (auto simp: l' nth_append intro!: filter_cong)
  moreover have "(\<exists>u\<in>set (l_toks l'). in_tok u i) \<or> gap_byte (l_src l) (l_toks l') i"
    if "\<not> l_rtl l" "i < l_pos m" for i
  proof (cases "i < l_pos l")
    case True
    then show ?thesis using cov that(1) t(1) src(4) by (fastforce simp: gap_byte_def)
  next
    case False
    then have "in_tok t i" using that ltr t by (simp add: in_tok_def)
    then show ?thesis using src(4) by simp
  qed
  moreover have "sorted_wrt (\<lambda>a b. tok_end a \<le> t_start b) (l_toks l')"
    using srt toks t(1) src(4) by (simp add: sorted_wrt_append)
  ultimately show ?thesis
    using src pos' toks tok f t(3) unfolding lex_inv_def by (auto intro: order_trans)
qed

lemma kai_lex_loop_inv:
  "lex_inv l \<Longrightarrow> lex_inv (kai_lex_loop l) \<and> l_src (kai_lex_loop l) = l_src l
     \<and> l_rtl (kai_lex_loop l) = l_rtl l \<and> at_end (kai_lex_loop l)"
proof (induction l rule: kai_lex_loop.induct)
  case (1 l)
  let ?m = "skip_whitespace_and_comments l"
  note f = advances_fields [OF advances_whitespace, of l]
  have inv: "lex_inv ?m" by (rule lex_inv_whitespace [OF "1.prems"])
  consider (e) "at_end l" | (e2) "\<not> at_end l" "at_end ?m" | (go) "\<not> at_end l" "\<not> at_end ?m" by blast
  then show ?case
  proof cases
    case e
    then show ?thesis using "1.prems" by (simp add: kai_lex_loop.simps [of l])
  next
    case e2
    then show ?thesis using inv f by (simp add: kai_lex_loop.simps [of l])
  next
    case go
    have "lex_inv (lex_one ?m) \<and> l_src (lex_one ?m) = l_src ?m \<and> l_rtl (lex_one ?m) = l_rtl ?m"
      by (rule one_token_inv [OF inv lex_one_one_token [OF go(2)]])
    then show ?thesis
      using "1.IH" [OF go(1) refl go(2)] go f by (simp add: kai_lex_loop.simps [of l])
  qed
qed

section \<open>What the token array promises\<close>

lemma lex_inv_init: "lex_inv (lex_init rtl src)"
  by (simp add: lex_inv_def lex_init_def pos_ok_def)

text \<open>The token array is the loop's tokens and the end-of-file token.\<close>

lemma kai_lex_loop_result:
  obtains l where "lex_inv l" "l_src l = src" "l_rtl l = rtl" "l_pos l = length src"
    "kai_lex rtl src = l_toks l @ [\<lparr>t_kind = TK_EOF, t_line = l_line l, t_col = l_col l,
        t_start = length src, t_length = 0\<rparr>]"
    "l_errs (kai_lex_state rtl src) = l_errs l"
proof -
  let ?l = "kai_lex_loop (lex_init rtl src)"
  have l: "lex_inv ?l" "l_src ?l = src" "l_rtl ?l = rtl" "at_end ?l"
    using kai_lex_loop_inv [OF lex_inv_init, of rtl src] by (simp_all add: lex_init_def)
  then have "l_pos ?l = length src" by (simp add: lex_inv_def pos_ok_def at_end_def)
  with l show ?thesis
    by (intro that [of ?l]) (simp_all add: kai_lex_def kai_lex_state_def push_token_def Let_def)
qed

lemma kai_lex_shape:
  obtains ts eof where "kai_lex rtl src = ts @ [eof]" "t_kind eof = TK_EOF"
    "t_start eof = length src" "t_length eof = 0"
    "list_all (tok_ok src) ts" "sorted_wrt (\<lambda>a b. tok_end a \<le> t_start b) ts"
    "t_line eof = line_of src (length src)" "t_col eof = col_of src (length src)"
proof -
  obtain l where l: "lex_inv l" "l_src l = src" "l_pos l = length src"
    and k: "kai_lex rtl src = l_toks l @ [\<lparr>t_kind = TK_EOF, t_line = l_line l, t_col = l_col l,
        t_start = length src, t_length = 0\<rparr>]"
    by (rule kai_lex_loop_result)
  from l k show ?thesis
    by (intro that [of "l_toks l" "last (kai_lex rtl src)"])
      (simp_all add: lex_inv_def pos_ok_def list_all_iff)
qed

text \<open>
  C19: For every source and either argument order, the token array is non-empty tokens inside
  the source, in order and not overlapping, each at the line and column of its first byte,
  followed by exactly one end-of-file token at the end of the source.
\<close>

theorem kai_lex_spans:
  "\<exists>ts eof. kai_lex rtl src = ts @ [eof]
     \<and> t_kind eof = TK_EOF \<and> t_start eof = length src \<and> t_length eof = 0
     \<and> t_line eof = line_of src (length src) \<and> t_col eof = col_of src (length src)
     \<and> list_all (tok_ok src) ts
     \<and> sorted_wrt (\<lambda>a b. tok_end a \<le> t_start b) ts"
  by (rule kai_lex_shape [of rtl src]) blast

text \<open>
  C36: The text of every token is a lexeme of the token's kind: a keyword or punctuation token covers
  exactly the spelling \<open>tk_name\<close> prints, an identifier is never a keyword, a string or character
  literal keeps both its quotes. The order in which the C compiler evaluates the arguments of
  \<open>push_token\<close> shows in one place: from right to left, the tokens of the six operators
  \<open>match_op\<close> cover only their first byte.
\<close>

theorem kai_lex_lexemes: "list_all (\<lambda>t. spelled rtl (t_kind t) (tok_text src t)) (kai_lex rtl src)"
proof -
  obtain l where l: "lex_inv l" "l_src l = src" "l_rtl l = rtl"
    and k: "kai_lex rtl src = l_toks l @ [\<lparr>t_kind = TK_EOF, t_line = l_line l, t_col = l_col l,
        t_start = length src, t_length = 0\<rparr>]"
    by (rule kai_lex_loop_result)
  have "spelled rtl TK_EOF []" by (simp add: spelled_def match_op_def lexeme_def)
  then show ?thesis
    using l unfolding k by (simp add: lex_inv_def list_all_iff tok_text_def tok_end_def)
qed

text \<open>
  No byte of the source is lost: each one is covered by a token, is a blank, or follows
  the \<open>#\<close> of a comment or attribute with no token in between.
\<close>

theorem kai_lex_no_loss:
  "list_all (\<lambda>i. list_ex (\<lambda>t. in_tok t i) (kai_lex False src) \<or> gap_byte src (kai_lex False src) i)
     [0..<length src]"
proof -
  obtain l where l: "lex_inv l" "l_src l = src" "l_rtl l = False" "l_pos l = length src"
    and k: "kai_lex False src = l_toks l @ [\<lparr>t_kind = TK_EOF, t_line = l_line l, t_col = l_col l,
        t_start = length src, t_length = 0\<rparr>]"
    by (rule kai_lex_loop_result)
  from l have "\<forall>i<length src. (\<exists>t\<in>set (l_toks l). in_tok t i) \<or> gap_byte src (l_toks l) i"
    by (simp add: lex_inv_def)
  then show ?thesis unfolding k by (auto simp: gap_byte_def list_all_iff list_ex_iff)
qed

text \<open>
  The side array of messages is in step with the tokens: its indices are, in order, the
  positions of the \<open>TK_ERROR\<close> tokens.
\<close>

theorem kai_lex_errors_indexed:
  "map fst (l_errs (kai_lex_state rtl src))
     = filter (\<lambda>i. t_kind (kai_lex rtl src ! i) = TK_ERROR) [0..<length (kai_lex rtl src)]"
proof -
  obtain l where l: "lex_inv l"
    and k: "kai_lex rtl src = l_toks l @ [\<lparr>t_kind = TK_EOF, t_line = l_line l, t_col = l_col l,
        t_start = length src, t_length = 0\<rparr>]"
    and e: "l_errs (kai_lex_state rtl src) = l_errs l"
    by (rule kai_lex_loop_result)
  from l have "map fst (l_errs l) = filter (\<lambda>i. t_kind (l_toks l ! i) = TK_ERROR) [0..<length (l_toks l)]"
    by (simp add: lex_inv_def)
  then show ?thesis unfolding k e by (auto simp: nth_append intro!: filter_cong)
qed

end
