(* ===== verification/Kai_Parser.thy ===== *)
theory Kai_Parser
  imports Kai_Parser_Contract Kai_Lex
begin

text \<open>
  The declarations of \<^verbatim>\<open>stage0/parser.c\<close> and its two entry points, \<open>kai_parse\<close> and
  \<open>kai_parse_expr_standalone\<close> (which the emitter calls on string interpolations). The last
  section states what the parser promises on the tokens of any source.
\<close>

section \<open>Functions\<close>

definition parse_param :: "knot \<Rightarrow> pst \<Rightarrow> node pres" where
  "parse_param kn p =
     pbind (expect TK_IDENT ''expected parameter name'' (skip_newlines p)) (\<lambda>pn p.
     pbind (expect TK_COLON ''expected `:` after parameter name'' p) (\<lambda>_ p.
     pbind (k_type kn p) (\<lambda>ptype p.
     let (param, p) = alloc N_PARAM (t_line pn) (t_col pn) p;
         param = set_name_from_token param pn p
     in ret (kai_node_push param ptype) p)))"

definition parse_fn_params :: "knot \<Rightarrow> node \<Rightarrow> pst \<Rightarrow> node pres" where
  "parse_fn_params kn fn p =
     (let p = skip_newlines p in
      pbind (if \<not> p_at p TK_RPAREN
             then sep_loop TK_COMMA (parse_param kn) skip_newlines id (Suc (p_left p)) fn p
             else ret fn p) (\<lambda>fn p.
      pbind (expect TK_RPAREN ''expected `)` or `,` after parameter'' p) (\<lambda>_ p.
      ret fn p)))"

definition parse_fn_ret_and_body :: "knot \<Rightarrow> node \<Rightarrow> nat \<Rightarrow> nat \<Rightarrow> pst \<Rightarrow> node pres" where
  "parse_fn_ret_and_body kn fn line col p =
     (let (m, p) = p_match TK_COLON p in
      pbind
        (if m then pbind (k_type kn p) (\<lambda>ret_ty p. ret (set_child fn 0 ret_ty) p)
         else
           (let (ret_ty, p) = alloc N_TY_NAME line col p;
                ret_ty = set_name ret_ty ''Unit'';
                fn = or_flags fn 4
            in ret (set_child fn 0 ret_ty) p)) (\<lambda>fn p.
      let (m, p) = p_match TK_EQ (skip_newlines p) in
      if m then
        (let fn = or_flags fn 2 in
         pbind (k_expr kn (skip_newlines p)) (\<lambda>body p. ret (set_child fn 1 body) p))
      else if p_at p TK_LBRACE then
        pbind (parse_block kn p) (\<lambda>body p. ret (set_child fn 1 body) p)
      else fail (error_here ''expected `=` or `{` for function body'' p)))"

definition parse_fn :: "knot \<Rightarrow> bool \<Rightarrow> nat \<Rightarrow> nat \<Rightarrow> pst \<Rightarrow> node pres" where
  "parse_fn kn is_pub line col p =
     (let (fn, p) = alloc N_FN line col p;
          fn = or_flags fn (if is_pub then 1 else 0)
      in pbind (expect TK_IDENT ''expected function name after `fn`'' p) (\<lambda>name p.
         let fn = set_name_from_token fn name p in
         pbind (expect TK_LPAREN ''expected `(` after function name'' p) (\<lambda>_ p.
         let fn = kai_node_push (kai_node_push fn NULL) NULL in
         pbind (parse_fn_params kn fn p) (\<lambda>fn p.
         parse_fn_ret_and_body kn fn line col p))))"

section \<open>Type declarations\<close>

definition parse_type_param :: "pst \<Rightarrow> node pres" where
  "parse_type_param p =
     pbind (expect TK_IDENT ''expected type parameter name'' p) (\<lambda>tp p.
     let (i, p) = alloc N_IDENT (t_line tp) (t_col tp) p
     in ret (set_name_from_token i tp p) p)"

definition parse_type_params :: "node \<Rightarrow> pst \<Rightarrow> node pres" where
  "parse_type_params td p =
     (let p = skip_newlines p in
      pbind (sep_loop TK_COMMA parse_type_param skip_newlines skip_newlines (Suc (p_left p)) td p) (\<lambda>td p.
      pbind (expect TK_RBRACKET ''expected `]` after type parameters'' p) (\<lambda>_ p.
      ret td (skip_newlines p))))"

definition parse_field_decl :: "knot \<Rightarrow> pst \<Rightarrow> node pres" where
  "parse_field_decl kn p =
     pbind (expect TK_IDENT ''expected field name'' (skip_newlines p)) (\<lambda>fn p.
     pbind (expect TK_COLON ''expected `:` after field name'' p) (\<lambda>_ p.
     pbind (k_type kn p) (\<lambda>ftype p.
     let (fd, p) = alloc N_FIELD_DECL (t_line fn) (t_col fn) p;
         fd = set_name_from_token fd fn p
     in ret (kai_node_push fd ftype) p)))"

definition parse_record_type_body :: "knot \<Rightarrow> nat \<Rightarrow> nat \<Rightarrow> pst \<Rightarrow> node pres" where
  "parse_record_type_body kn line col p =
     (let (body, p) = alloc N_TY_RECORD line col p;
          p = skip_newlines p
      in pbind (if \<not> p_at p TK_RBRACE
                then sep_loop TK_COMMA (parse_field_decl kn) skip_newlines id (Suc (p_left p)) body p
                else ret body p) (\<lambda>body p.
         pbind (expect TK_RBRACE ''expected `}` at end of record type'' (skip_newlines p)) (\<lambda>_ p.
         ret body p)))"

text \<open>The scan for a \<open>|\<close> at bracket depth 0; the depth is a signed integer in the C code.\<close>

function sum_scan :: "token list \<Rightarrow> nat \<Rightarrow> int \<Rightarrow> bool" where
  "sum_scan toks j depth =
     (if j \<ge> length toks then False
      else
        (let k = t_kind (toks ! j) in
         if k = TK_EOF then False
         else if k = TK_LPAREN \<or> k = TK_LBRACKET \<or> k = TK_LBRACE then sum_scan toks (Suc j) (depth + 1)
         else if k = TK_RPAREN \<or> k = TK_RBRACKET \<or> k = TK_RBRACE then sum_scan toks (Suc j) (depth - 1)
         else if depth = 0 \<and> k = TK_PIPE then True
         else if depth = 0 \<and> k = TK_NEWLINE then
           (let m = skip_nl_from toks (Suc j) in m < length toks \<and> t_kind (toks ! m) = TK_PIPE)
         else sum_scan toks (Suc j) depth))"
  by pat_completeness auto
termination
  by (relation "measure (\<lambda>(toks, j, depth). length toks - j)") auto

declare sum_scan.simps [simp del]

definition looks_like_sum_ahead :: "pst \<Rightarrow> bool" where
  "looks_like_sum_ahead p =
     (if \<not> is_uppercase_ident (peek_tok p) (p_src p) then False
      else if p_i p + 1 < length (p_toks p) \<and> t_kind (p_toks p ! (p_i p + 1)) = TK_LPAREN then True
      else sum_scan (p_toks p) (p_i p) 0)"

definition parse_variant :: "knot \<Rightarrow> pst \<Rightarrow> node pres" where
  "parse_variant kn p =
     pbind (expect TK_IDENT ''expected variant constructor name'' p) (\<lambda>cn p.
     if \<not> is_uppercase_ident cn (p_src p)
     then fail (error_at cn ''variant constructor must start with uppercase'' p)
     else
       (let (var, p) = alloc N_VARIANT (t_line cn) (t_col cn) p;
            var = set_name_from_token var cn p;
            (m, p) = p_match TK_LPAREN p
        in if m then
             (let p = skip_newlines p in
              pbind (if \<not> p_at p TK_RPAREN
                     then sep_loop TK_COMMA (k_type kn) skip_newlines skip_newlines (Suc (p_left p)) var p
                     else ret var p) (\<lambda>var p.
              pbind (expect TK_RPAREN ''expected `)` after variant fields'' p) (\<lambda>_ p.
              ret var p)))
           else ret var p))"

definition parse_sum_variant :: "knot \<Rightarrow> pst \<Rightarrow> node pres" where
  "parse_sum_variant kn p = parse_variant kn (skip_newlines p)"

definition parse_sum_type_body :: "knot \<Rightarrow> nat \<Rightarrow> nat \<Rightarrow> pst \<Rightarrow> node pres" where
  "parse_sum_type_body kn line col p =
     (let (body, p) = alloc N_TY_SUM line col p;
          p = skip_newlines p
      in sep_loop TK_PIPE (parse_sum_variant kn) skip_newlines skip_newlines (Suc (p_left p)) body p)"

definition parse_type_body :: "knot \<Rightarrow> nat \<Rightarrow> nat \<Rightarrow> pst \<Rightarrow> node pres" where
  "parse_type_body kn line col p =
     (if p_at p TK_LBRACE then parse_record_type_body kn line col (bump p)
      else if looks_like_sum_ahead (skip_newlines p)
      then parse_sum_type_body kn line col (skip_newlines p)
      else
        pbind (k_type kn p) (\<lambda>aliased p.
        let (body, p) = alloc N_TY_ALIAS line col p
        in ret (kai_node_push body aliased) p))"

definition parse_type_decl :: "knot \<Rightarrow> bool \<Rightarrow> nat \<Rightarrow> nat \<Rightarrow> pst \<Rightarrow> node pres" where
  "parse_type_decl kn is_pub line col p =
     (let (td, p) = alloc N_TYPE_DECL line col p;
          td = or_flags td (if is_pub then 1 else 0)
      in pbind (expect TK_IDENT ''expected type name after `type`'' p) (\<lambda>name p.
         if \<not> is_uppercase_ident name (p_src p)
         then fail (error_at name ''type name must start with an uppercase letter'' p)
         else
           (let td = set_name_from_token td name p;
                td = kai_node_push td NULL;
                (m, p) = p_match TK_LBRACKET (skip_newlines p)
            in pbind (if m then parse_type_params td p else ret td p) (\<lambda>td p.
               pbind (expect TK_EQ ''expected `=` in type declaration'' p) (\<lambda>_ p.
               pbind (parse_type_body kn line col (skip_newlines p)) (\<lambda>body p.
               ret (set_child td 0 body) p))))))"

section \<open>Tests and imports\<close>

definition parse_test :: "knot \<Rightarrow> nat \<Rightarrow> nat \<Rightarrow> pst \<Rightarrow> node pres" where
  "parse_test kn line col p =
     (let (t, p) = alloc N_TEST line col p in
      pbind (expect TK_STRING ''expected description string after `test`'' p) (\<lambda>desc p.
      let t = set_name_from_token t desc p;
          p = skip_newlines p
      in if \<not> p_at p TK_LBRACE then fail (error_here ''expected `{` for test body'' p)
         else pbind (parse_block kn p) (\<lambda>body p. ret (kai_node_push t body) p)))"

text \<open>The dotted path: the offset of its end.\<close>

function import_path :: "nat \<Rightarrow> pst \<Rightarrow> nat \<times> pst" where
  "import_path e p =
     (if p_at p TK_DOT \<and> peek_kind_n p 1 = TK_IDENT
      then (let p = bump p in import_path (tok_end (peek_tok p)) (bump p))
      else (e, p))"
  by pat_completeness auto
termination
proof (relation "measure (\<lambda>(e, p). p_left p)")
  fix e p q assume a: "p_at p TK_DOT \<and> peek_kind_n p 1 = TK_IDENT" "q = bump p"
  then have "p_left (bump p) < p_left p" by (intro peek_kind_left) (simp add: p_at_def)
  then show "((tok_end (peek_tok q), bump q), e, p) \<in> measure (\<lambda>(e, p). p_left p)"
    by (simp add: a(2) p_left_def)
qed simp

declare import_path.simps [simp del]

definition parse_import_name :: "pst \<Rightarrow> node pres" where
  "parse_import_name p =
     pbind (expect TK_IDENT ''expected imported name'' p) (\<lambda>s p.
     let (n, p) = alloc N_IDENT (t_line s) (t_col s) p
     in ret (set_name_from_token n s p) p)"

definition parse_import :: "nat \<Rightarrow> nat \<Rightarrow> pst \<Rightarrow> node pres" where
  "parse_import line col p =
     (let (imp, p) = alloc N_IMPORT line col p in
      pbind (expect TK_IDENT ''expected module name after `import`'' p) (\<lambda>first p.
      let (e, p) = import_path (tok_end first) p;
          imp = set_name imp (slice (p_src p) (t_start first) e);
          (m, p) = p_match TK_AS p
      in if m then
           pbind (expect TK_IDENT ''expected alias name after `as`'' p) (\<lambda>alias p.
           let imp = or_flags imp 1;
               (a, p) = alloc N_IDENT (t_line alias) (t_col alias) p;
               a = set_name_from_token a alias p
           in ret (kai_node_push imp a) p)
         else
           (let (m, p) = p_match TK_DOT p in
            if m then
              pbind (expect TK_LBRACE ''expected `{` after `.`'' p) (\<lambda>_ p.
              let p = skip_newlines p in
              pbind (sep_loop TK_COMMA parse_import_name skip_newlines skip_newlines (Suc (p_left p)) imp p) (\<lambda>imp p.
              pbind (expect TK_RBRACE ''expected `}` to close import selection'' p) (\<lambda>_ p.
              ret imp p)))
            else ret imp p)))"

section \<open>Programs\<close>

definition parse_decl :: "knot \<Rightarrow> pst \<Rightarrow> node pres" where
  "parse_decl kn p =
     (let t = peek_tok p;
          (is_pub, p) = p_match TK_PUB p;
          k = peek_kind p
      in if k = TK_FN then parse_fn kn is_pub (t_line t) (t_col t) (bump p)
         else if k = TK_TYPE then parse_type_decl kn is_pub (t_line t) (t_col t) (bump p)
         else if k = TK_TEST then
           (if is_pub then fail (error_here ''`pub` not allowed on `test`'' p)
            else parse_test kn (t_line t) (t_col t) (bump p))
         else if k = TK_IMPORT then
           (if is_pub then fail (error_here ''`pub` not allowed on `import`'' p)
            else parse_import (t_line t) (t_col t) (bump p))
         else fail (error_here ''expected top-level declaration (fn, type, test, or import)'' p))"

function sync :: "pst \<Rightarrow> pst" where
  "sync p = (if \<not> p_at p TK_EOF \<and> \<not> p_at p TK_NEWLINE then sync (bump p) else p)"
  by pat_completeness auto
termination
  by (relation "measure p_left") (auto simp: p_at_def intro: peek_kind_left)

declare sync.simps [simp del]

primrec parse_decls :: "knot \<Rightarrow> nat \<Rightarrow> node \<Rightarrow> pst \<Rightarrow> node pres" where
  "parse_decls kn 0 prog p = out_of_fuel p"
| "parse_decls kn (Suc n) prog p =
     (if p_at p TK_EOF then ret prog p
      else
        (case parse_decl kn p of
           (None, p) \<Rightarrow> parse_decls kn n prog (skip_newlines_and_semis (sync p))
         | (Some d, p) \<Rightarrow> parse_decls kn n (kai_node_push prog d) (skip_newlines_and_semis p)))"

definition start :: "string \<Rightarrow> token list \<Rightarrow> nat \<Rightarrow> pst" where
  "start src toks heap = \<lparr>p_src = src, p_toks = toks, p_i = 0, p_err = False, p_log = [],
     p_heap = heap, p_ub = False, p_spent = False\<rparr>"

text \<open>The result and the final state, whose log the caller has printed.\<close>

definition kai_parse :: "string \<Rightarrow> token list \<Rightarrow> nat \<Rightarrow> node pres" where
  "kai_parse src toks heap =
     (let (prog, p) = alloc N_PROGRAM 1 1 (start src toks heap);
          p = skip_newlines_and_semis p
      in pbind (parse_decls (tie (Suc (length toks))) (Suc (p_left p)) prog p) (\<lambda>prog p.
         if p_err p then fail p else ret prog p))"

definition kai_parse_expr_standalone :: "string \<Rightarrow> token list \<Rightarrow> nat \<Rightarrow> node pres" where
  "kai_parse_expr_standalone src toks heap =
     pbind (parse_expr (tie (Suc (length toks))) (skip_newlines (start src toks heap))) (\<lambda>e p.
     if p_err p then fail p else ret e p)"

section \<open>The contract of the declarations\<close>

lemma bump_heap: "bump (p\<lparr>p_heap := h\<rparr>) = bump p\<lparr>p_heap := h\<rparr>"
  by (simp add: bump_def)

text \<open>The path's end does not move back behind a token already read.\<close>

lemma import_path_ok:
  "\<lbrakk>sane p; j < p_i p; tok_end (p_toks p ! j) \<le> e\<rbrakk> \<Longrightarrow>
     reach p (snd (import_path e p)) \<and> p_heap (snd (import_path e p)) = p_heap p
     \<and> tok_end (p_toks p ! j) \<le> fst (import_path e p)"
proof (induction e p rule: import_path.induct)
  case (1 e p)
  show ?case
  proof (cases "p_at p TK_DOT \<and> peek_kind_n p 1 = TK_IDENT")
    case True
    let ?q = "bump p"
    have k: "peek_kind ?q = TK_IDENT" by (rule peek_kind_n_1) (use True in simp_all)
    have q: "reach p ?q" using "1.prems"(1) True by (auto simp: p_at_def intro!: steps)
    have r: "reach p (bump ?q)" using q k by (auto intro!: steps)
    have i: "p_i ?q < length (p_toks p)" using reach_sane [OF q] by (simp add: sane_def)
    have "sorted_wrt (\<lambda>a b. tok_end a \<le> t_start b) (p_toks p)"
      using "1.prems"(1) by (simp add: sane_def toks_ok_def)
    then have "tok_end (p_toks p ! j) \<le> t_start (p_toks p ! p_i ?q)"
      using "1.prems"(2) i by (simp add: sorted_wrt_iff_nth_less)
    then have le: "tok_end (p_toks p ! j) \<le> tok_end (peek_tok ?q)"
      using i by (simp add: peek_tok_def tok_at_def tok_end_def)
    have ih: "reach (bump ?q) (snd (import_path (tok_end (peek_tok ?q)) (bump ?q)))
        \<and> p_heap (snd (import_path (tok_end (peek_tok ?q)) (bump ?q))) = p_heap (bump ?q)
        \<and> tok_end (p_toks (bump ?q) ! j) \<le> fst (import_path (tok_end (peek_tok ?q)) (bump ?q))"
      by (rule "1.IH" [OF True refl reach_sane [OF r]]) (use "1.prems"(2) le in simp_all)
    then show ?thesis
      using True r by (subst (1 2 3) import_path.simps) (auto simp: Let_def intro: reach_trans)
  next
    case False
    then have "import_path e p = (e, p)" by (simp only: import_path.simps [of e p] if_False)
    then show ?thesis using "1.prems" by (simp add: reach_refl)
  qed
qed

text \<open>The body of a type declaration: at least as far as it was entered.\<close>

definition type_body :: "pst \<Rightarrow> node \<Rightarrow> pst \<Rightarrow> bool" where
  "type_body p x q \<longleftrightarrow> wf_in (p_src p) x \<and> n_kind x \<in> {N_TY_RECORD, N_TY_SUM, N_TY_ALIAS}
     \<and> within (p_heap p) (p_heap q) (ids x)"

lemma bind_ret: "pbind m ret = m"
  by (cases m; cases "fst m") simp_all

lemma good_ahead:
  assumes "good q Q m" "p_i p < p_i q"
  shows "good q (\<lambda>x r. p_i p < p_i r \<and> p_heap q \<le> p_heap r \<and> p_src r = p_src q \<and> Q x r) m"
proof -
  obtain r s where m: "m = (r, s)" by fastforce
  show ?thesis
    using assms unfolding m by (cases r) (auto simp: good_def dest: reach_both)
qed

lemma skip_semis_kind:
  "peek_kind (skip_newlines_and_semis p) \<noteq> TK_NEWLINE" "peek_kind (skip_newlines_and_semis p) \<noteq> TK_SEMI"
  by (induction p rule: skip_newlines_and_semis.induct; simp add: skip_newlines_and_semis.simps)+

lemma sync_ok:
  "sane p \<Longrightarrow> reach p (sync p) \<and> (peek_kind p \<noteq> TK_EOF \<and> peek_kind p \<noteq> TK_NEWLINE \<longrightarrow> p_i p < p_i (sync p))"
proof (induction p rule: sync.induct)
  case (1 p)
  show ?case
  proof (cases "\<not> p_at p TK_EOF \<and> \<not> p_at p TK_NEWLINE")
    case True
    then have b: "reach p (bump p)" using "1.prems" by (auto simp: p_at_def intro!: steps)
    have "reach (bump p) (sync (bump p))" using "1.IH" [OF True reach_sane [OF b]] by blast
    then show ?thesis
      using True reach_trans [OF b] reach_le(1) by (fastforce simp: sync.simps [of p])
  next
    case False
    then have "sync p = p" by (simp only: sync.simps [of p] if_False)
    then show ?thesis using False "1.prems" by (auto simp: p_at_def reach_refl)
  qed
qed

context knot_contract begin

lemma parse_param_ok: "level N (is_k N_PARAM) (parse_param kn)"
proof -
  have "parses (is_k N_PARAM) p (parse_param kn p)" if "sane p" "p_left p < N" for p
    using that peek_text [OF sane_skip_newlines, of p]
    by (auto simp: parse_param_def parse_simps intro!: steps inner_knot)
  then show ?thesis by (simp add: level_def)
qed

lemma parse_fn_params_ok:
  assumes "sane p" "p_left p < N"
  shows "good p (\<lambda>x q. p_i p < p_i q \<and> adds (is_k N_PARAM) fn p x q) (parse_fn_params kn fn p)"
proof -
  have add: "adds (is_k N_PARAM) fn p (kai_node_pushes fn (c # cs)) (bump q)"
    if "list_all (\<lambda>c. wf_in (p_src p) c \<and> is_k N_PARAM c) (c # cs)"
      "within (p_heap p) (p_heap q) (concat (map ids (c # cs)))" for c cs q
    unfolding adds_def using that by (intro exI [of _ "c # cs"]) simp
  show ?thesis
    using assms add
    by (auto simp: parse_fn_params_def p_at_def Let_def
        intro!: steps adds_none bind_sep_inner [OF parse_param_ok] simp del: kai_node_pushes.simps)
qed

text \<open>The return type, then the body, are written over the placeholders.\<close>

lemma fn_ret_ok:
  assumes "sane p" "p_left p < N" "fl \<in> {0, 1}"
  shows "good p (\<lambda>x q. \<exists>r fl'. x = Node N_FN i l c nm fl' V_none (r # NULL # ps) \<and> fl' \<in> {0, 1, 4, 5}
         \<and> wf_in (p_src p) r \<and> is_type r \<and> within (p_heap p) (p_heap q) (ids r))
    (let (m, p) = p_match TK_COLON p in
      if m then pbind (k_type kn p) (\<lambda>ret_ty p. ret (set_child (Node N_FN i l c nm fl V_none (NULL # NULL # ps)) 0 ret_ty) p)
         else
           (let (ret_ty, p) = alloc N_TY_NAME l c p;
                ret_ty = set_name ret_ty ''Unit'';
                fn = or_flags (Node N_FN i l c nm fl V_none (NULL # NULL # ps)) 4
            in ret (set_child fn 0 ret_ty) p))"
  using assms by (auto simp: alloc_Pair Let_def intro!: steps inner_knot)

lemma fn_body_ok:
  assumes "sane p" "p_left p < N" "fl \<in> {0, 1, 4, 5}"
  shows "good p (\<lambda>x q. p_i p < p_i q \<and> (\<exists>b fl'. x = Node N_FN i l c nm fl' V_none (r # b # ps)
         \<and> (\<not> bit2 fl' \<longrightarrow> n_kind b = N_BLOCK)
         \<and> wf_in (p_src p) b \<and> is_expr b \<and> within (p_heap p) (p_heap q) (ids b)))
    (let fn = Node N_FN i l c nm fl V_none (r # NULL # ps); (m, p) = p_match TK_EQ (skip_newlines p) in
      if m then
        (let fn = or_flags fn 2 in
         pbind (k_expr kn (skip_newlines p)) (\<lambda>body p. ret (set_child fn 1 body) p))
      else if p_at p TK_LBRACE then
        pbind (parse_block kn p) (\<lambda>body p. ret (set_child fn 1 body) p)
      else fail (error_here ''expected `=` or `{` for function body'' p))"
  using assms
  by (auto simp: p_at_def Let_def intro!: steps inner_knot bind_inner [OF level_Suc [OF parse_block_ok]])

lemma within_fn:
  "within b c r \<Longrightarrow> within c d bd \<Longrightarrow> within a b ps \<Longrightarrow> i < a \<Longrightarrow> a \<le> b \<Longrightarrow> b \<le> c \<Longrightarrow> c \<le> d
    \<Longrightarrow> within i d (i # r @ bd @ ps)"
  by (fastforce simp: within_def list_all_iff)

lemma parse_fn_ret_and_body_ok:
  assumes p: "sane p" "p_left p < N" and nm: "nm \<noteq> []" and fl: "fl \<in> {0, 1}"
    and i: "i < h" "h \<le> p_heap p"
    and ps: "list_all (\<lambda>c. wf_in (p_src p) c \<and> is_k N_PARAM c) ps" "within h (p_heap p) (concat (map ids ps))"
  shows "good p (\<lambda>x q. p_i p < p_i q \<and> wf_in (p_src p) x \<and> is_k N_FN x \<and> within i (p_heap q) (ids x))
    (parse_fn_ret_and_body kn (Node N_FN i l c nm fl V_none (NULL # NULL # ps)) l c p)"
proof -
  have eq: "parse_fn_ret_and_body kn (Node N_FN i l c nm fl V_none (NULL # NULL # ps)) l c p =
      pbind (let (m, p) = p_match TK_COLON p in
      if m then pbind (k_type kn p) (\<lambda>ret_ty p. ret (set_child (Node N_FN i l c nm fl V_none (NULL # NULL # ps)) 0 ret_ty) p)
         else
           (let (ret_ty, p) = alloc N_TY_NAME l c p;
                ret_ty = set_name ret_ty ''Unit'';
                fn = or_flags (Node N_FN i l c nm fl V_none (NULL # NULL # ps)) 4
            in ret (set_child fn 0 ret_ty) p)) (\<lambda>fn p.
      let fn = fn; (m, p) = p_match TK_EQ (skip_newlines p) in
      if m then
        (let fn = or_flags fn 2 in
         pbind (k_expr kn (skip_newlines p)) (\<lambda>body p. ret (set_child fn 1 body) p))
      else if p_at p TK_LBRACE then
        pbind (parse_block kn p) (\<lambda>body p. ret (set_child fn 1 body) p)
      else fail (error_here ''expected `=` or `{` for function body'' p))"
    by (simp add: parse_fn_ret_and_body_def Let_def)
  show ?thesis
    unfolding eq
  proof (rule good_bind [OF fn_ret_ok [OF p fl] reach_refl [OF p(1)]])
    fix x q assume q: "reach p q" and "\<exists>r fl'. x = Node N_FN i l c nm fl' V_none (r # NULL # ps) \<and> fl' \<in> {0, 1, 4, 5}
         \<and> wf_in (p_src p) r \<and> is_type r \<and> within (p_heap p) (p_heap q) (ids r)"
    then obtain r fl' where x: "x = Node N_FN i l c nm fl' V_none (r # NULL # ps)"
      and fl': "fl' \<in> {0, 1, 4, 5}" and r: "wf_in (p_src p) r" "is_type r" "within (p_heap p) (p_heap q) (ids r)"
      by blast
    show "good p (\<lambda>x q. p_i p < p_i q \<and> wf_in (p_src p) x \<and> is_k N_FN x \<and> within i (p_heap q) (ids x))
      (let fn = x; (m, p) = p_match TK_EQ (skip_newlines q) in
      if m then
        (let fn = or_flags fn 2 in
         pbind (k_expr kn (skip_newlines p)) (\<lambda>body p. ret (set_child fn 1 body) p))
      else if p_at p TK_LBRACE then
        pbind (parse_block kn p) (\<lambda>body p. ret (set_child fn 1 body) p)
      else fail (error_here ''expected `=` or `{` for function body'' p))"
      unfolding x
    proof (rule good_tail [OF fn_body_ok [OF reach_sane [OF q] left_reach [OF q p(2)] fl'] q])
      fix y s assume s: "reach q s" and "p_i q < p_i s \<and> (\<exists>b fl'. y = Node N_FN i l c nm fl' V_none (r # b # ps)
         \<and> (\<not> bit2 fl' \<longrightarrow> n_kind b = N_BLOCK)
         \<and> wf_in (p_src q) b \<and> is_expr b \<and> within (p_heap q) (p_heap s) (ids b))"
      then obtain b fl' where y: "y = Node N_FN i l c nm fl' V_none (r # b # ps)" "\<not> bit2 fl' \<longrightarrow> n_kind b = N_BLOCK"
        "p_i q < p_i s" and b: "wf_in (p_src p) b" "is_expr b" "within (p_heap q) (p_heap s) (ids b)"
        unfolding reach_same(1) [OF q] by blast
      have "within i (p_heap s) (i # ids r @ ids b @ concat (map ids ps))"
        by (rule within_fn [OF r(3) b(3) ps(2) i reach_le(2) [OF q] reach_le(2) [OF s]])
      then show "p_i p < p_i s \<and> wf_in (p_src p) y \<and> is_k N_FN y \<and> within i (p_heap s) (ids y)"
        using y r b nm ps(1) reach_le(1) [OF q] by (auto simp: pushed)
    qed
  qed
qed

lemma parse_fn_ok: "level N (is_k N_FN) (parse_fn kn b line col)"
proof -
  have "parses (is_k N_FN) p (parse_fn kn b line col p)" if p: "sane p" "p_left p < N" for p
  proof -
    let ?p = "p\<lparr>p_heap := Suc (p_heap p)\<rparr>" and ?fl = "if b then 1 else 0 :: nat"
    let ?nm = "tok_text (p_src p) (peek_tok p)"
    let ?q = "bump (bump p\<lparr>p_heap := Suc (p_heap p)\<rparr>)"
    have body: "parses (is_k N_FN) p (pbind (parse_fn_params kn
        (Node N_FN (p_heap p) line col ?nm ?fl V_none [NULL, NULL]) ?q) (\<lambda>fn p.
        parse_fn_ret_and_body kn fn line col p))"
      if k: "peek_kind p = TK_IDENT" "peek_kind (bump p) = TK_LPAREN"
    proof -
      have q: "reach p ?q" using p k by (auto intro!: steps)
      have nm: "?nm \<noteq> []" using peek_text [OF p(1)] k by simp
      show ?thesis
      proof (rule good_bind [OF parse_fn_params_ok [OF reach_sane [OF q] left_reach [OF q p(2)]] q])
        fix x r assume r: "reach ?q r" "reach p r"
          and "p_i ?q < p_i r \<and> adds (is_k N_PARAM) (Node N_FN (p_heap p) line col ?nm ?fl V_none [NULL, NULL]) ?q x r"
        then obtain ps where x: "x = Node N_FN (p_heap p) line col ?nm ?fl V_none (NULL # NULL # ps)"
          and ps: "list_all (\<lambda>c. wf_in (p_src p) c \<and> is_k N_PARAM c) ps"
            "within (Suc (p_heap p)) (p_heap r) (concat (map ids ps))"
          using reach_same(1) [OF q] by (auto simp: adds_def)
        have sr: "p_src r = p_src p" using reach_same(1) [OF r(2)] .
        have h: "Suc (p_heap p) \<le> p_heap r" using reach_le(2) [OF r(1)] by simp
        have "good r (\<lambda>x q. p_i r < p_i q \<and> wf_in (p_src p) x \<and> is_k N_FN x \<and> within (p_heap p) (p_heap q) (ids x))
            (parse_fn_ret_and_body kn x line col r)"
          unfolding x
          using parse_fn_ret_and_body_ok [OF reach_sane [OF r(2)] left_reach [OF r(2) p(2)] nm _ _ h _ ps(2)]
            ps(1) unfolding sr by simp
        then show "parses (is_k N_FN) p (parse_fn_ret_and_body kn x line col r)"
          by (rule good_tail [OF _ r(2)]) (use reach_le(1) [OF r(2)] in \<open>auto simp: parsed_def\<close>)
      qed
    qed
    then show ?thesis
      using p by (auto simp: parse_fn_def bump_heap alloc_Pair set_name_from_token_Node Let_def intro!: steps)
  qed
  then show ?thesis by (simp add: level_def)
qed

lemma parse_type_param_ok: "level N (is_k N_IDENT) parse_type_param"
proof -
  have "parses (is_k N_IDENT) p (parse_type_param p)" if "sane p" for p
    using that peek_text [of p] by (auto simp: parse_type_param_def parse_simps intro!: steps)
  then show ?thesis by (simp add: level_def)
qed

lemma parse_import_name_ok: "level N (is_k N_IDENT) parse_import_name"
proof -
  have "parses (is_k N_IDENT) p (parse_import_name p)" if "sane p" for p
    using that peek_text [of p] by (auto simp: parse_import_name_def parse_simps intro!: steps)
  then show ?thesis by (simp add: level_def)
qed

lemma parse_field_decl_ok: "level N (is_k N_FIELD_DECL) (parse_field_decl kn)"
proof -
  have "parses (is_k N_FIELD_DECL) p (parse_field_decl kn p)" if "sane p" "p_left p < N" for p
    using that peek_text [OF sane_skip_newlines, of p]
    by (auto simp: parse_field_decl_def parse_simps intro!: steps inner_knot)
  then show ?thesis by (simp add: level_def)
qed

lemma parse_variant_ok: "level N (is_k N_VARIANT) (parse_variant kn)"
proof -
  have "parses (is_k N_VARIANT) p (parse_variant kn p)" if "sane p" "p_left p < N" for p
    using that peek_text [of p] peek_tok_in [of p]
    by (auto simp: parse_variant_def parse_simps pushed
        intro!: steps good_error_at bind_sep_inner [OF k_type_ok])
  then show ?thesis by (simp add: level_def)
qed

lemma parse_sum_variant_ok: "level N (is_k N_VARIANT) (parse_sum_variant kn)"
proof -
  have "parses (is_k N_VARIANT) p (parse_sum_variant kn p)" if "sane p" "p_left p < N" for p
    unfolding parse_sum_variant_def
    by (rule tail_inner [OF parse_variant_ok that(2)]) (use that in \<open>auto intro!: steps\<close>)
  then show ?thesis by (simp add: level_def)
qed

lemma parse_type_body_ok:
  assumes p: "sane p" "p_left p < N"
  shows "good p (type_body p) (parse_type_body kn line col p)"
proof -
  have rec: "good p (type_body p) (parse_record_type_body kn line col (bump p))"
    if "peek_kind p = TK_LBRACE"
    using p that
    by (auto simp: parse_record_type_body_def alloc_Pair Let_def p_at_def type_body_def pushed
        intro!: steps bind_sep_inner [OF parse_field_decl_ok])
  have "good p (type_body p) (pbind (parse_sum_type_body kn line col (skip_newlines p)) ret)"
    unfolding parse_sum_type_body_def alloc_Pair Let_def prod.case
    using p
    by (intro bind_sep_inner [OF parse_sum_variant_ok])
      (auto simp: type_body_def pushed intro!: steps)
  then have sum: "good p (type_body p) (parse_sum_type_body kn line col (skip_newlines p))"
    by (simp only: bind_ret)
  show ?thesis
    using p rec sum
    by (auto simp: parse_type_body_def alloc_Pair Let_def p_at_def
        intro!: good_if steps inner_knot, (auto simp: type_body_def intro!: steps)?)
qed

lemma parse_type_params_ok:
  assumes "sane p" "p_left p < N"
  shows "good p (\<lambda>x q. adds (is_k N_IDENT) td p x q) (parse_type_params td p)"
proof -
  have add: "adds (is_k N_IDENT) td p (kai_node_pushes td (c # cs)) (skip_newlines (bump q))"
    if "list_all (\<lambda>c. wf_in (p_src p) c \<and> is_k N_IDENT c) (c # cs)"
      "within (p_heap p) (p_heap q) (concat (map ids (c # cs)))" for c cs q
    unfolding adds_def using that by (intro exI [of _ "c # cs"]) simp
  show ?thesis
    using assms add
    by (auto simp: parse_type_params_def Let_def
        intro!: steps bind_sep_inner [OF parse_type_param_ok] simp del: kai_node_pushes.simps)
qed

lemma parse_type_decl_ok: "level N (is_k N_TYPE_DECL) (parse_type_decl kn b line col)"
proof -
  have "parses (is_k N_TYPE_DECL) p (parse_type_decl kn b line col p)" if p: "sane p" "p_left p < N" for p
  proof -
    have params: "good q (\<lambda>x r. adds (is_k N_IDENT) td q x r) (parse_type_params td q)"
      if "reach p q" for td q
      by (rule parse_type_params_ok [OF reach_sane [OF that] left_reach [OF that p(2)]])
    have body: "good q (type_body q) (parse_type_body kn l c q)" if "reach p q" for l c q
      by (rule parse_type_body_ok [OF reach_sane [OF that] left_reach [OF that p(2)]])
    note params = good_ahead [where p = p, OF params] and body = good_ahead [where p = p, OF body]
    show ?thesis
      using p peek_text [of p] peek_tok_in [of p]
      by (auto simp: parse_type_decl_def alloc_Pair set_name_from_token_Node Let_def adds_def
          intro!: steps good_error_at good_bind [OF params] good_bind [OF body],
        (auto simp: parsed_def type_body_def pushed intro!: steps intro: spans)?)
  qed
  then show ?thesis by (simp add: level_def)
qed

lemma parse_test_ok: "level N (is_k N_TEST) (parse_test kn line col)"
proof -
  have "parses (is_k N_TEST) p (parse_test kn line col p)" if "sane p" "p_left p < N" for p
    using that peek_text [of p]
    by (auto simp: parse_test_def parse_simps intro!: steps bind_inner [OF level_Suc [OF parse_block_ok]])
  then show ?thesis by (simp add: level_def)
qed

lemma parse_import_ok: "level N (is_k N_IMPORT) (parse_import line col)"
proof -
  have "parses (is_k N_IMPORT) p (parse_import line col p)" if p: "sane p" "p_left p < N" for p
  proof (cases "peek_kind p = TK_IDENT")
    case False
    then show ?thesis
      using p by (auto simp: parse_import_def alloc_Pair Let_def intro!: steps)
  next
    case True
    let ?q = "bump (p\<lparr>p_heap := Suc (p_heap p)\<rparr>)"
    have q: "reach p ?q" using p True by (auto intro!: steps)
    have i: "p_i p < length (p_toks p)" using p(1) by (simp add: sane_def)
    have t: "p_toks ?q ! p_i p = peek_tok p" using i by (simp add: peek_tok_def tok_at_def)
    obtain e r where er: "import_path (tok_end (peek_tok p)) ?q = (e, r)" by fastforce
    have r0: "reach ?q r" "p_heap r = p_heap ?q" "tok_end (peek_tok p) \<le> e"
      using import_path_ok [OF reach_sane [OF q], of "p_i p" "tok_end (peek_tok p)"] t er by simp_all
    have r: "reach p r" by (rule reach_trans [OF q r0(1)])
    have h: "p_heap r = Suc (p_heap p)" and a: "p_i p < p_i r"
      using r0(2) reach_le(1) [OF r0(1)] by simp_all
    have "tok_text (p_src p) (peek_tok p) \<noteq> []" using peek_text [OF p(1)] True by simp
    then have nm: "slice (p_src p) (t_start (peek_tok p)) e \<noteq> []"
      using r0(3) by (auto simp: tok_text_def tok_end_def slice_def)
    show ?thesis
      using p True er r h a nm reach_same(1) [OF r] peek_text [OF reach_sane [OF reach_bump [OF r]]]
      by (auto simp: parse_import_def alloc_Pair set_name_from_token_Node Let_def
          intro!: steps bind_sep_inner [OF parse_import_name_ok],
        (auto simp: parsed_def pushed intro!: steps)?)
  qed
  then show ?thesis by (simp add: level_def)
qed

lemma parse_decl_ok: "level N (\<lambda>x. decl_kind (n_kind x)) (parse_decl kn)"
proof -
  have "parses (\<lambda>x. decl_kind (n_kind x)) p (parse_decl kn p)" if "sane p" "p_left p < N" for p
    using that
    by (auto simp: parse_decl_def Let_def
        intro!: good_if good_error_here reach_refl reach_bump_kind tail_inner [OF parse_fn_ok]
          tail_inner [OF parse_type_decl_ok] tail_inner [OF parse_test_ok] tail_inner [OF parse_import_ok])
  then show ?thesis by (simp add: level_def)
qed

text \<open>The declaration loop always returns the program node; a failed declaration is skipped.\<close>

lemma parse_decls_ok:
  "\<lbrakk>sane p; p_left p < N; p_left p < n; peek_kind p \<noteq> TK_NEWLINE\<rbrakk>
    \<Longrightarrow> \<exists>x q. parse_decls kn n prog p = (Some x, q) \<and> moves p q \<and> (p_err p \<longrightarrow> p_err q)
         \<and> adds (\<lambda>c. decl_kind (n_kind c)) prog p x q \<and> peek_kind q = TK_EOF"
proof (induction n arbitrary: prog p)
  case (Suc n)
  note a = Suc.prems
  show ?case
  proof (cases "peek_kind p = TK_EOF")
    case True
    then show ?thesis using a(1) by (simp add: p_at_def moves_refl adds_none)
  next
    case False
    obtain d q where dq: "parse_decl kn p = (d, q)" by fastforce
    have g: "parses (\<lambda>x. decl_kind (n_kind x)) p (d, q)"
      using parse_decl_ok a(1,2) dq by (metis level_def)
    show ?thesis
    proof (cases d)
      case (Some x)
      let ?q = "skip_newlines_and_semis q"
      have q: "reach p ?q" "p_i p < p_i ?q" "p_heap ?q = p_heap q" and h: "p_heap p \<le> p_heap q"
        and x: "wf_in (p_src p) x" "decl_kind (n_kind x)" "within (p_heap p) (p_heap q) (ids x)"
        using g Some by (auto simp: good_def parsed_def dest: reach_le intro: reach_skip_semis ahead_skip_semis)
      have l: "p_left ?q < n" by (rule left_less [OF q(1,2)]) (use a(3) in simp)
      obtain y r where r: "parse_decls kn n (kai_node_push prog x) ?q = (Some y, r)" "moves ?q r"
          "p_err ?q \<longrightarrow> p_err r" "adds (\<lambda>c. decl_kind (n_kind c)) (kai_node_push prog x) ?q y r"
          "peek_kind r = TK_EOF"
        using Suc.IH [OF reach_sane [OF q(1)] left_reach [OF q(1) a(2)] l skip_semis_kind(1)] by blast
      have "adds (\<lambda>c. decl_kind (n_kind c)) prog p y r"
        by (rule adds_push [OF r(4)]) (use x h q(3) r(2) reach_same(1) [OF q(1)] in \<open>simp_all add: moves_def\<close>)
      then show ?thesis
        using r q(1) dq Some False by (auto simp: p_at_def reach_def intro: moves_trans)
    next
      case None
      let ?q = "skip_newlines_and_semis (sync q)"
      have m: "moves p q" "p_err q" using g None by (simp_all add: good_def)
      then have s: "sane q" by (simp add: moves_def)
      have q: "reach q ?q" using sync_ok [OF s] by (simp add: reach_skip_semis)
      have i: "p_i p < p_i ?q"
      proof (cases "p_i q = p_i p")
        case True
        then have "peek_kind q = peek_kind p"
          using m(1) by (simp add: moves_def peek_kind_def peek_tok_def tok_at_def)
        then have "p_i q < p_i (sync q)" using sync_ok [OF s] False a(4) by simp
        then show ?thesis using True ahead_skip_semis [of p "sync q"] by simp
      next
        case False
        then show ?thesis using m(1) reach_le(1) [OF q] by (simp add: moves_def)
      qed
      have mq: "moves p ?q" using m(1) q by (auto simp: reach_def intro: moves_trans)
      have l: "p_left ?q < n" "p_left ?q < N"
        using mq i a(2,3) by (auto simp: moves_def sane_def p_left_def)
      obtain y r where r: "parse_decls kn n prog ?q = (Some y, r)" "moves ?q r"
          "p_err ?q \<longrightarrow> p_err r" "adds (\<lambda>c. decl_kind (n_kind c)) prog ?q y r" "peek_kind r = TK_EOF"
        using Suc.IH [OF reach_sane [OF q] l(2,1) skip_semis_kind(1)] by blast
      have "adds (\<lambda>c. decl_kind (n_kind c)) prog p y r"
        using r(4) mq r(2) by (auto simp: adds_def moves_def intro: within_mono)
      then show ?thesis
        using r mq m(2) q dq None False by (auto simp: p_at_def reach_def intro: moves_trans)
    qed
  qed
qed simp

end

section \<open>What the parser promises\<close>

declare tie.simps [simp del] parse_decls.simps [simp del]

lemma kai_lex_toks_ok: "toks_ok src (kai_lex rtl src)"
proof -
  obtain ts eof where k: "kai_lex rtl src = ts @ [eof]" and e: "t_kind eof = TK_EOF"
      "t_start eof = length src" "t_length eof = 0"
    and ts: "list_all (tok_ok src) ts" "sorted_wrt (\<lambda>a b. tok_end a \<le> t_start b) ts"
    by (rule kai_lex_shape)
  have tx: "tok_text src t \<noteq> []" and le: "tok_end t \<le> length src" if "t \<in> set ts" for t
    using ts(1) that by (auto simp: list_all_iff tok_ok_def tok_text_def tok_end_def slice_def)
  show ?thesis
    unfolding toks_ok_def k using e ts(2) tx le
    by (auto simp: list_all_iff sorted_wrt_append)
qed

lemma sane_start: "toks_ok src toks \<Longrightarrow> sane (start src toks h)"
  by (simp add: sane_def start_def log_ok_def toks_ok_def)

lemma p_left_start: "p_left (start src toks h) = length toks"
  by (simp add: p_left_def start_def)

text \<open>How a run ends: nothing wrong happened on the way, and a null result is exactly one
  diagnostic, at a token of the source.\<close>

definition ends_well :: "string \<Rightarrow> token list \<Rightarrow> bool \<Rightarrow> pst \<Rightarrow> bool" where
  "ends_well src toks failed q \<longleftrightarrow> \<not> p_ub q \<and> \<not> p_spent q
     \<and> (if failed then \<exists>t\<in>set toks. \<exists>msg. p_log q = [diag_of src t msg] else p_log q = [])"

lemma sane_ends_well:
  "sane q \<Longrightarrow> p_src q = src \<Longrightarrow> p_toks q = toks \<Longrightarrow> ends_well src toks (p_err q) q"
  by (auto simp: sane_def log_ok_def ends_well_def)

lemma kai_parse_result:
  assumes "toks_ok src toks"
  obtains r q where "kai_parse src toks h = (r, q)" "ends_well src toks (r = None) q" "peek_kind q = TK_EOF"
    "r \<noteq> None \<Longrightarrow> wf_in src (the r) \<and> n_kind (the r) = N_PROGRAM \<and> within h (p_heap q) (ids (the r))"
proof -
  let ?N = "Suc (length toks)" and ?s = "start src toks h"
  let ?p = "skip_newlines_and_semis (?s\<lparr>p_heap := Suc h\<rparr>)"
  let ?prog = "Node N_PROGRAM h 1 1 [] 0 V_none []"
  have s: "sane ?s" by (rule sane_start [OF assms])
  have h: "p_heap ?s = h" "p_src ?s = src" "p_toks ?s = toks" by (simp_all add: start_def)
  have p: "reach ?s ?p" using s h(1) by (auto intro!: steps)
  have l: "p_left ?p < ?N" by (rule left_reach [OF p]) (simp add: p_left_start)
  obtain x q where xq: "parse_decls (tie ?N) (Suc (p_left ?p)) ?prog ?p = (Some x, q)" "moves ?p q"
      "adds (\<lambda>c. decl_kind (n_kind c)) ?prog ?p x q" "peek_kind q = TK_EOF"
    using tied.parse_decls_ok [OF reach_sane [OF p] l lessI skip_semis_kind(1), of ?prog] by blast
  have kp: "kai_parse src toks h = (if p_err q then (None, q) else (Some x, q))"
    using xq(1) h(1) by (simp add: kai_parse_def alloc_Pair Let_def)
  have q: "ends_well src toks (p_err q) q"
    using xq(2) h by (intro sane_ends_well) (simp_all add: moves_def)
  have x: "wf_in src x \<and> n_kind x = N_PROGRAM \<and> within h (p_heap q) (ids x)"
    using xq(2,3) h by (auto simp: adds_def pushed moves_def intro!: within_first)
  show ?thesis
    by (rule that [of "if p_err q then None else Some x" q]) (use kp q x xq(4) in auto)
qed

text \<open>
  C2: Parsing never goes wrong: on the tokens of any source the recursion of \<open>kai_parse\<close> needs
  no more nested calls than there are tokens, the cursor never leaves the token array (its
  lookaheads included), the whole input is consumed, and the null result is returned exactly
  when one diagnostic has been printed, at a token of the source.
\<close>

theorem kai_parse_safe:
  "(case kai_parse src (kai_lex rtl src) h of (r, q) \<Rightarrow>
     ends_well src (kai_lex rtl src) (r = None) q \<and> peek_kind q = TK_EOF)"
proof -
  obtain r q where "kai_parse src (kai_lex rtl src) h = (r, q)"
      "ends_well src (kai_lex rtl src) (r = None) q" "peek_kind q = TK_EOF"
    by (rule kai_parse_result [OF kai_lex_toks_ok])
  then show ?thesis by simp
qed

text \<open>
  C1: The tree \<open>kai_parse\<close> returns has the layout the header file documents at every node (the
  number and the kinds of the children, the flags that describe them, the names), it contains
  no null child, no string literal is longer than the source, and no two of its nodes have the
  same address.
\<close>

theorem kai_parse_wf:
  "(case kai_parse src (kai_lex rtl src) h of
      (Some n, q) \<Rightarrow> wf_in src n \<and> n_kind n = N_PROGRAM \<and> within h (p_heap q) (ids n)
    | (None, q) \<Rightarrow> p_log q \<noteq> [])"
proof -
  obtain r q where "kai_parse src (kai_lex rtl src) h = (r, q)"
      "ends_well src (kai_lex rtl src) (r = None) q" "peek_kind q = TK_EOF"
      "r \<noteq> None \<Longrightarrow> wf_in src (the r) \<and> n_kind (the r) = N_PROGRAM \<and> within h (p_heap q) (ids (the r))"
    by (rule kai_parse_result [OF kai_lex_toks_ok, of src rtl h]) blast
  then show ?thesis by (auto simp: ends_well_def split: option.splits)
qed

lemma kai_parse_expr_result:
  obtains r q where "kai_parse_expr_standalone src (kai_lex rtl src) h = (r, q)"
    "ends_well src (kai_lex rtl src) (r = None) q"
    "r \<noteq> None \<Longrightarrow> wf_in src (the r) \<and> expr_kind (n_kind (the r)) \<and> within h (p_heap q) (ids (the r))"
proof -
  let ?toks = "kai_lex rtl src" and ?s = "start src (kai_lex rtl src) h"
  let ?N = "Suc (length ?toks)" and ?p = "skip_newlines (start src (kai_lex rtl src) h)"
  have s: "sane ?s" by (rule sane_start [OF kai_lex_toks_ok])
  have f: "p_heap ?s = h" "p_src ?s = src" "p_toks ?s = ?toks" "\<not> p_err ?s" by (simp_all add: start_def)
  have p: "reach ?s ?p" using s by (auto intro!: steps)
  have l: "p_left ?p < Suc ?N" by (rule left_reach [OF p]) (simp add: p_left_start)
  obtain r q where rq: "parse_expr (tie ?N) ?p = (r, q)" by fastforce
  have "parses is_expr ?p (r, q)"
    using tied.parse_expr_ok [of ?N] reach_sane [OF p] l rq by (metis level_def)
  then have "case r of None \<Rightarrow> moves ?p q \<and> p_err q | Some n \<Rightarrow> reach ?p q \<and> parsed is_expr ?p n q"
    by (cases r) (simp_all add: good_def)
  then have "\<exists>r q. kai_parse_expr_standalone src ?toks h = (r, q) \<and> ends_well src ?toks (r = None) q
      \<and> (r \<noteq> None \<longrightarrow> wf_in src (the r) \<and> expr_kind (n_kind (the r)) \<and> within h (p_heap q) (ids (the r)))"
    using rq f sane_ends_well [of q src ?toks]
    by (cases r) (auto simp: kai_parse_expr_standalone_def reach_def moves_def parsed_def)
  then show ?thesis using that by blast
qed

text \<open>
  The same for the expression parser the emitter runs on string interpolations.
\<close>

theorem kai_parse_expr_safe:
  "(case kai_parse_expr_standalone src (kai_lex rtl src) h of
      (Some n, q) \<Rightarrow> ends_well src (kai_lex rtl src) False q \<and> wf_in src n \<and> expr_kind (n_kind n)
        \<and> within h (p_heap q) (ids n)
    | (None, q) \<Rightarrow> ends_well src (kai_lex rtl src) True q)"
proof -
  obtain r q where "kai_parse_expr_standalone src (kai_lex rtl src) h = (r, q)"
    "ends_well src (kai_lex rtl src) (r = None) q"
    "r \<noteq> None \<Longrightarrow> wf_in src (the r) \<and> expr_kind (n_kind (the r)) \<and> within h (p_heap q) (ids (the r))"
    by (rule kai_parse_expr_result) blast
  then show ?thesis by (cases r) simp_all
qed

end
