(* ===== verification/Kai_Check.thy ===== *)
theory Kai_Check
  imports Kai_Parser "HOL-Library.Multiset"
begin

text \<open>
  \<^verbatim>\<open>stage0/check.c\<close>: the name resolver. The scope stack is a list of lists of names, the
  innermost scope first; \<open>c_ub\<close> records what C leaves undefined (a child index out of range,
  a scope operation without a scope). \<open>unresolved\<close> is the specification: the identifiers a
  program uses outside the scope of any binding, computed from the set of visible names
  without a stack.
\<close>

section \<open>State\<close>

record chk =
  c_scope :: "string list list"
  c_err :: bool
  c_log :: "(nat \<times> nat \<times> string \<times> string) list"
  c_ub :: bool

definition scope_push :: "chk \<Rightarrow> chk" where
  "scope_push c = c\<lparr>c_scope := [] # c_scope c\<rparr>"

definition scope_pop :: "chk \<Rightarrow> chk" where
  "scope_pop c = (case c_scope c of [] \<Rightarrow> c\<lparr>c_ub := True\<rparr> | s # ss \<Rightarrow> c\<lparr>c_scope := ss\<rparr>)"

definition scope_add :: "string \<Rightarrow> chk \<Rightarrow> chk" where
  "scope_add name c =
     (case c_scope c of
        [] \<Rightarrow> c\<lparr>c_ub := True\<rparr>
      | s # ss \<Rightarrow> c\<lparr>c_scope := (s @ [name]) # ss\<rparr>)"

definition scope_has :: "string \<Rightarrow> chk \<Rightarrow> bool" where
  "scope_has name c = list_ex (list_ex (\<lambda>e. e = name)) (c_scope c)"

definition CHECK_PRELUDE :: "string list" where
  "CHECK_PRELUDE = [
     ''print'', ''eprint'', ''read_file'', ''write_file'', ''read_line'', ''read_bytes'', ''args'',
     ''exit'', ''panic'',
     ''int_to_string'', ''real_to_string'', ''string_to_int'', ''string_to_real'',
     ''int_to_real'', ''real_to_int'',
     ''string_length'', ''string_concat'', ''string_concat_all'', ''string_join'',
     ''string_split'', ''string_contains'', ''char_at'',
     ''string_slice'', ''char_to_int'', ''int_to_char'', ''int_to_byte_string'',
     ''string_byte_at_int'', ''string_cp_at'', ''string_cp_len'',
     ''list_length'', ''list_append'', ''list_reverse'',
     ''map'', ''filter'', ''reduce'', ''each'',
     ''array_make'', ''array_length'', ''array_get'', ''array_set'', ''array_grow'',
     ''Some'', ''None'', ''Ok'', ''Err'']"

definition add_prelude :: "chk \<Rightarrow> chk" where
  "add_prelude c = fold scope_add CHECK_PRELUDE c"

definition check_error_at :: "nat \<Rightarrow> nat \<Rightarrow> string \<Rightarrow> string \<Rightarrow> chk \<Rightarrow> chk" where
  "check_error_at line col msg name c = c\<lparr>c_err := True, c_log := c_log c @ [(line, col, msg, name)]\<rparr>"

section \<open>Patterns\<close>

fun bind_pattern :: "node \<Rightarrow> chk \<Rightarrow> chk" where
  "bind_pattern NULL c = c"
| "bind_pattern (Node k a l cl nm fl v ch) c =
     (case k of
        N_PAT_WILD \<Rightarrow> c
      | N_PAT_LIT \<Rightarrow> c
      | N_PAT_BIND \<Rightarrow> scope_add nm c
      | N_PAT_LIST \<Rightarrow> fold bind_pattern ch c
      | N_PAT_VARIANT \<Rightarrow> fold bind_pattern ch c
      | N_PAT_RECORD \<Rightarrow> fold bind_pattern ch c
      | N_PAT_FIELD \<Rightarrow> (case ch of [] \<Rightarrow> c | p # _ \<Rightarrow> bind_pattern p c)
      | _ \<Rightarrow> c)"

section \<open>Expressions\<close>

text \<open>The parameters of a function (\<open>N_PARAM\<close>) or of a lambda (\<open>N_IDENT\<close>).\<close>

definition add_names :: "node_kind \<Rightarrow> node list \<Rightarrow> chk \<Rightarrow> chk" where
  "add_names k ps c =
     fold (\<lambda>p c. if p \<noteq> NULL \<and> n_kind p = k then scope_add (n_name p) c else c) ps c"

definition check_ident :: "node \<Rightarrow> chk \<Rightarrow> chk" where
  "check_ident n c =
     (if \<not> scope_has (n_name n) c
      then check_error_at (n_line n) (n_col n) ''undefined name'' (n_name n) c
      else c)"

function (sequential) check_node :: "node \<Rightarrow> chk \<Rightarrow> chk"
  and check_children :: "node list \<Rightarrow> chk \<Rightarrow> chk" where
  "check_node NULL c = c"
| "check_node (Node k a l cl nm fl v ch) c =
     (case k of
        N_FN \<Rightarrow>
          (let c = scope_push c;
               c = add_names N_PARAM (drop 2 ch) c;
               c = (if 1 < length ch then check_node (ch ! 1) c else c\<lparr>c_ub := True\<rparr>)
           in scope_pop c)
      | N_TEST \<Rightarrow>
          (let c = scope_push c;
               c = (if length ch \<ge> 1 then check_node (ch ! 0) c else c)
           in scope_pop c)
      | N_LET \<Rightarrow>
          (let c = (if length ch \<ge> 3 then check_node (ch ! 2) c else c)
           in if length ch \<ge> 1 then bind_pattern (ch ! 0) c else c)
      | N_IDENT \<Rightarrow> check_ident (Node k a l cl nm fl v ch) c
      | N_LAMBDA \<Rightarrow>
          (let c = scope_push c;
               c = add_names N_IDENT (drop 1 ch) c;
               c = (if length ch \<ge> 1 then check_node (ch ! 0) c else c)
           in scope_pop c)
      | N_BLOCK \<Rightarrow> scope_pop (check_children ch (scope_push c))
      | N_ARM \<Rightarrow>
          (let c = scope_push c;
               c = (if 0 < length ch then bind_pattern (ch ! 0) c else c\<lparr>c_ub := True\<rparr>);
               c = (if fl AND 1 \<noteq> 0 then
                      (let c = (if length ch \<ge> 2 then check_node (ch ! 1) c else c)
                       in if length ch \<ge> 3 then check_node (ch ! 2) c else c)
                    else (if length ch \<ge> 2 then check_node (ch ! 1) c else c))
           in scope_pop c)
      | N_PROGRAM \<Rightarrow> check_children ch c
      | N_ASSERT \<Rightarrow> check_children ch c | N_EXPR_STMT \<Rightarrow> check_children ch c
      | N_FIELD \<Rightarrow> check_children ch c | N_RECORD_LIT \<Rightarrow> check_children ch c
      | N_FIELD_INIT \<Rightarrow> check_children ch c | N_MATCH \<Rightarrow> check_children ch c
      | N_CALL \<Rightarrow> check_children ch c | N_BINOP \<Rightarrow> check_children ch c
      | N_UNOP \<Rightarrow> check_children ch c | N_IF \<Rightarrow> check_children ch c
      | N_LIST_LIT \<Rightarrow> check_children ch c | N_RANGE_LIT \<Rightarrow> check_children ch c
      | N_SPREAD \<Rightarrow> check_children ch c | N_PIPE \<Rightarrow> check_children ch c
      | N_INDEX \<Rightarrow> check_children ch c
      | _ \<Rightarrow> c)"
| "check_children [] c = c"
| "check_children (x # xs) c = check_children xs (check_node x c)"
  by pat_completeness auto
termination
  by (relation "measure (case_sum (\<lambda>(n, c). size n) (\<lambda>(xs, c). size_list size xs))")
    (auto simp: less_Suc_eq_le intro: nth_size_le)

section \<open>Declarations\<close>

definition register_type_decl :: "node \<Rightarrow> chk \<Rightarrow> chk" where
  "register_type_decl d c =
     (let c = scope_add (n_name d) c in
      if length (n_children d) < 1 then c
      else
        (let body = n_children d ! 0 in
         if body = NULL \<or> n_kind body \<noteq> N_TY_SUM then c
         else add_names N_VARIANT (n_children body) c))"

text \<open>The text after the last dot of a module path.\<close>

definition last_segment :: "string \<Rightarrow> string" where
  "last_segment p =
     (let start = foldl (\<lambda>start j. if p ! j = CHR ''.'' then j + 1 else start) 0 [0..<length p]
      in drop start p)"

definition register_import :: "node \<Rightarrow> chk \<Rightarrow> chk" where
  "register_import d c =
     (if n_flags d AND 1 \<noteq> 0 then
        (case n_children d of
           [] \<Rightarrow> c
         | a # _ \<Rightarrow> if a \<noteq> NULL \<and> n_kind a = N_IDENT then scope_add (n_name a) c else c)
      else if n_children d \<noteq> [] then add_names N_IDENT (n_children d) c
      else scope_add (last_segment (n_name d)) c)"

definition register_decl :: "node \<Rightarrow> chk \<Rightarrow> chk" where
  "register_decl d c =
     (if d = NULL then c
      else if n_kind d = N_FN then scope_add (n_name d) c
      else if n_kind d = N_TYPE_DECL then register_type_decl d c
      else if n_kind d = N_IMPORT then register_import d c
      else c)"

definition register_top_level :: "node \<Rightarrow> chk \<Rightarrow> chk" where
  "register_top_level prog c = fold register_decl (n_children prog) c"

definition chk_init :: chk where
  "chk_init = \<lparr>c_scope = [], c_err = False, c_log = [], c_ub = False\<rparr>"

definition kai_check_state :: "node \<Rightarrow> chk" where
  "kai_check_state program =
     (let c = scope_push chk_init;
          c = add_prelude c;
          c = register_top_level program c;
          c = check_children (n_children program) c
      in scope_pop c)"

definition kai_check :: "node \<Rightarrow> nat" where
  "kai_check program = (if c_err (kai_check_state program) then 1 else 0)"

section \<open>Specification: identifiers outside every binding\<close>

fun pat_names :: "node \<Rightarrow> string list" where
  "pat_names NULL = []"
| "pat_names (Node k a l c nm fl v ch) =
     (if k = N_PAT_BIND then [nm]
      else if k \<in> {N_PAT_LIST, N_PAT_VARIANT, N_PAT_RECORD, N_PAT_FIELD} then concat (map pat_names ch)
      else [])"

text \<open>The names a statement makes visible to the statements after it.\<close>

definition let_names :: "node \<Rightarrow> string list" where
  "let_names n =
     (if n \<noteq> NULL \<and> n_kind n = N_LET \<and> n_children n \<noteq> [] then pat_names (hd (n_children n)) else [])"

fun in_sequence :: "(string set \<Rightarrow> node \<Rightarrow> 'a list) \<Rightarrow> string set \<Rightarrow> node list \<Rightarrow> 'a list" where
  "in_sequence f vis [] = []"
| "in_sequence f vis (s # ss) = f vis s @ in_sequence f (vis \<union> set (let_names s)) ss"

lemma in_sequence_cong [fundef_cong]:
  "xs = ys \<Longrightarrow> vis = vis' \<Longrightarrow> (\<And>x v. x \<in> set ys \<Longrightarrow> f v x = g v x) \<Longrightarrow> in_sequence f vis xs = in_sequence g vis' ys"
  by (induction ys arbitrary: xs vis vis') auto

fun unresolved :: "string set \<Rightarrow> node \<Rightarrow> (nat \<times> nat \<times> string) list" where
  "unresolved vis NULL = []"
| "unresolved vis (Node k a l c nm fl v ch) =
     (if k = N_IDENT then (if nm \<in> vis then [] else [(l, c, nm)])
      else if k = N_FN then
        (case ch of r # body # ps \<Rightarrow> unresolved (vis \<union> n_name ` set ps) body | _ \<Rightarrow> [])
      else if k = N_LAMBDA then
        (case ch of body # ps \<Rightarrow> unresolved (vis \<union> n_name ` set ps) body | _ \<Rightarrow> [])
      else if k = N_ARM then
        (case ch of p # rest \<Rightarrow> concat (map (unresolved (vis \<union> set (pat_names p))) rest) | _ \<Rightarrow> [])
      else if k = N_LET then (case ch of [p, t, e] \<Rightarrow> unresolved vis e | _ \<Rightarrow> [])
      else if k = N_BLOCK then in_sequence unresolved vis ch
      else if expr_kind k \<or> k \<in> {N_PROGRAM, N_TEST, N_ASSERT, N_EXPR_STMT, N_FIELD_INIT, N_SPREAD}
      then concat (map (unresolved vis) ch)
      else [])"

text \<open>The names a declaration makes visible in the whole program.\<close>

definition after_last_dot :: "string \<Rightarrow> string" where
  "after_last_dot p = rev (takeWhile (\<lambda>c. c \<noteq> CHR ''.'') (rev p))"

definition decl_names :: "node \<Rightarrow> string list" where
  "decl_names d =
     (if n_kind d = N_FN then [n_name d]
      else if n_kind d = N_TYPE_DECL then
        n_name d # (let body = hd (n_children d) in
                    if n_kind body = N_TY_SUM then map n_name (n_children body) else [])
      else if n_kind d = N_IMPORT then
        (if n_children d = [] then [after_last_dot (n_name d)] else map n_name (n_children d))
      else [])"

definition global_names :: "node \<Rightarrow> string set" where
  "global_names prog = set CHECK_PRELUDE \<union> \<Union> (set ` decl_names ` set (n_children prog))"

definition undefined_names :: "node \<Rightarrow> (nat \<times> nat \<times> string) list" where
  "undefined_names prog = concat (map (unresolved (global_names prog)) (n_children prog))"

section \<open>The stack machine computes the specification\<close>

definition vis :: "chk \<Rightarrow> string set" where
  "vis c = set (concat (c_scope c))"

definition mk_error :: "nat \<times> nat \<times> string \<Rightarrow> nat \<times> nat \<times> string \<times> string" where
  "mk_error = (\<lambda>(l, cl, nm). (l, cl, ''undefined name'', nm))"

text \<open>\<open>c\<close> after reporting \<open>us\<close> and adding \<open>ns\<close> to the innermost scope.\<close>

definition grow_chk :: "chk \<Rightarrow> (nat \<times> nat \<times> string) list \<Rightarrow> string list \<Rightarrow> chk" where
  "grow_chk c us ns = c\<lparr>c_log := c_log c @ map mk_error us, c_err := (c_err c \<or> us \<noteq> []),
     c_scope := (hd (c_scope c) @ ns) # tl (c_scope c)\<rparr>"

lemma grow_chk_scope [simp]: "c_scope (grow_chk c us ns) \<noteq> []"
  by (simp add: grow_chk_def)

lemma grow_chk_grow_chk [simp]: "grow_chk (grow_chk c us ns) us' ns' = grow_chk c (us @ us') (ns @ ns')"
  by (auto simp: grow_chk_def)

lemma grow_chk_id [simp]: "c_scope c \<noteq> [] \<Longrightarrow> grow_chk c [] [] = c"
  by (simp add: grow_chk_def)

lemma grow_chk_same:
  "c_scope c \<noteq> [] \<Longrightarrow> c = grow_chk c [] []"
  by simp

lemma vis_grow_chk [simp]: "c_scope c \<noteq> [] \<Longrightarrow> vis (grow_chk c us ns) = vis c \<union> set ns"
  by (cases "c_scope c") (auto simp: vis_def grow_chk_def)

lemma vis_scope_push [simp]: "vis (scope_push c) = vis c"
  by (simp add: vis_def scope_push_def)

lemma scope_push_scope [simp]: "c_scope (scope_push c) \<noteq> []"
  by (simp add: scope_push_def)

lemma scope_pop_push [simp]:
  "c_scope c \<noteq> [] \<Longrightarrow> scope_pop (grow_chk (scope_push c) us ns) = grow_chk c us []"
  by (cases c) (auto simp: scope_pop_def grow_chk_def scope_push_def)

lemma scope_add_grow: "c_scope c \<noteq> [] \<Longrightarrow> scope_add nm c = grow_chk c [] [nm]"
  by (auto simp: scope_add_def grow_chk_def split: list.splits)

lemma scope_has_vis: "scope_has nm c \<longleftrightarrow> nm \<in> vis c"
  by (auto simp: scope_has_def vis_def list_ex_iff)

lemma add_names_grow:
  "\<lbrakk>c_scope c \<noteq> []; \<forall>p\<in>set ps. p \<noteq> NULL \<and> n_kind p = k\<rbrakk> \<Longrightarrow> add_names k ps c = grow_chk c [] (map n_name ps)"
proof (induction ps arbitrary: c)
  case (Cons p ps)
  then show ?case by (simp add: add_names_def scope_add_grow)
qed (simp add: add_names_def)

lemma fold_bind:
  assumes "\<And>x c. x \<in> set xs \<Longrightarrow> c_scope c \<noteq> [] \<Longrightarrow> bind_pattern x c = grow_chk c [] (pat_names x)"
  shows "c_scope c \<noteq> [] \<Longrightarrow> fold bind_pattern xs c = grow_chk c [] (concat (map pat_names xs))"
  using assms by (induction xs arbitrary: c) simp_all

lemma bind_pattern_grow:
  "\<lbrakk>wf_node p; c_scope c \<noteq> []\<rbrakk> \<Longrightarrow> bind_pattern p c = grow_chk c [] (pat_names p)"
proof (induction p arbitrary: c)
  case (Node k a l cl nm fl v ch)
  have f: "fold bind_pattern ch c = grow_chk c [] (concat (map pat_names ch))"
    using Node by (intro fold_bind) auto
  show ?case
    using Node f by (cases k) (auto simp: scope_add_grow split: list.splits)
qed simp

lemma check_children_grow:
  assumes "\<And>x c. x \<in> set xs \<Longrightarrow> c_scope c \<noteq> [] \<Longrightarrow> check_node x c = grow_chk c (unresolved (vis c) x) (let_names x)"
  shows "c_scope c \<noteq> [] \<Longrightarrow> check_children xs c
    = grow_chk c (in_sequence unresolved (vis c) xs) (concat (map let_names xs))"
  using assms by (induction xs arbitrary: c) simp_all

lemma in_sequence_no_lets:
  "\<forall>x\<in>set xs. let_names x = [] \<Longrightarrow> in_sequence f v xs = concat (map (f v) xs)"
  by (induction xs) simp_all

lemma let_names_other: "n_kind x \<noteq> N_LET \<Longrightarrow> let_names x = []"
  by (simp add: let_names_def)

lemma let_names_expr: "expr_kind (n_kind x) \<Longrightarrow> let_names x = []"
  by (rule let_names_other) (auto simp: expr_kind_def)

lemma check_node_grow:
  "\<lbrakk>wf_node n; c_scope c \<noteq> []\<rbrakk> \<Longrightarrow> check_node n c = grow_chk c (unresolved (vis c) n) (let_names n)"
proof (induction n arbitrary: c)
  case (Node k a l cl nm fl v ch)
  have ih: "check_node x d = grow_chk d (unresolved (vis d) x) (let_names x)"
    if "x \<in> set ch" "c_scope d \<noteq> []" for x d
    using Node that by auto
  have kids: "check_children ch d
      = grow_chk d (in_sequence unresolved (vis d) ch) (concat (map let_names ch))"
    if "c_scope d \<noteq> []" for d
    using ih that by (intro check_children_grow) auto
  have wf: "layout k nm fl v ch" "\<forall>x\<in>set ch. wf_node x" using Node.prems(1) by simp_all
  have plain: "check_children ch c = grow_chk c (concat (map (unresolved (vis c)) ch)) []"
    if "k \<noteq> N_BLOCK"
  proof -
    have "\<forall>x\<in>set ch. let_names x = []"
      using layout_no_let [OF wf(1) that] by (simp add: let_names_other)
    moreover from this have "concat (map let_names ch) = []" by simp
    ultimately show ?thesis using kids [OF Node.prems(2)] by (simp only: in_sequence_no_lets)
  qed
  show ?case
  proof (cases k)
    case N_BLOCK
    then show ?thesis using kids [of "scope_push c"] Node.prems(2) by (simp add: let_names_def)
  next
    case N_FN
    then obtain r b ps where ch: "ch = r # b # ps" and ps: "\<forall>p\<in>set ps. p \<noteq> NULL \<and> n_kind p = N_PARAM"
      and b: "let_names b = []"
      using wf by (auto simp: all_kinds_def list_all_iff let_names_expr split: list.splits)
    show ?thesis
      using N_FN Node.prems(2) ih [of b] b ps unfolding ch
      by (simp add: add_names_grow let_names_def Un_commute)
  next
    case N_LAMBDA
    then obtain b ps where ch: "ch = b # ps" and ps: "\<forall>p\<in>set ps. p \<noteq> NULL \<and> n_kind p = N_IDENT"
      and b: "let_names b = []"
      using wf by (auto simp: all_kinds_def list_all_iff let_names_expr split: list.splits)
    show ?thesis
      using N_LAMBDA Node.prems(2) ih [of b] b ps unfolding ch
      by (simp add: add_names_grow let_names_def)
  next
    case N_LET
    then obtain p t e where ch: "ch = [p, t, e]" and e: "let_names e = []" and p: "wf_node p"
      using wf by (auto simp: let_names_expr split: list.splits)
    show ?thesis
      using N_LET Node.prems(2) ih [of e] e p unfolding ch
      by (simp add: bind_pattern_grow let_names_def numeral_2_eq_2)
  next
    case N_ARM
    then obtain p r where ch: "ch = p # r" and p: "wf_node p"
      and r: "length r = (if bit1 fl then 2 else 1)" "\<forall>x\<in>set r. let_names x = []"
      using wf by (auto simp: all_kinds_def list_all_iff let_names_expr split: list.splits)
    show ?thesis
    proof (cases "bit1 fl")
      case True
      then obtain g b where "r = [g, b]" using r(1) by (auto simp: numeral_2_eq_2 length_Suc_conv)
      then show ?thesis
        using N_ARM Node.prems(2) ih [of g] ih [of b] p r True unfolding ch
        by (simp add: bind_pattern_grow let_names_def numeral_2_eq_2)
    next
      case False
      then obtain b where "r = [b]" using r(1) by (auto simp: length_Suc_conv)
      then show ?thesis
        using N_ARM Node.prems(2) ih [of b] p r False unfolding ch
        by (simp add: bind_pattern_grow let_names_def)
    qed
  next
    case N_IDENT
    then show ?thesis
      using Node.prems(2)
      by (simp add: check_ident_def scope_has_vis check_error_at_def grow_chk_def mk_error_def let_names_def)
  next
    case N_TEST
    then obtain b where ch: "ch = [b]" and b: "let_names b = []"
      using wf by (auto simp: length_Suc_conv let_names_other)
    show ?thesis
      using N_TEST Node.prems(2) ih [of b] b unfolding ch by (simp add: let_names_def)
  qed (use Node.prems(2) plain wf(1) in \<open>simp_all add: let_names_def expr_kind_def\<close>)
qed simp

section \<open>The global scope\<close>

text \<open>The loop of \<open>register_import\<close> finds the position after the last dot.\<close>

lemma after_last_dot_snoc:
  "after_last_dot (p @ [x]) = (if x = CHR ''.'' then [] else after_last_dot p @ [x])"
  by (simp add: after_last_dot_def)

lemma last_dot_loop:
  "n \<le> length p \<Longrightarrow>
   (let i = foldl (\<lambda>start j. if p ! j = CHR ''.'' then j + 1 else start) 0 [0..<n]
    in i \<le> n \<and> drop i (take n p) = after_last_dot (take n p))"
proof (induction n)
  case (Suc n)
  then show ?case
    by (auto simp: Let_def take_Suc_conv_app_nth after_last_dot_snoc)
qed (simp add: after_last_dot_def)

lemma last_segment: "last_segment p = after_last_dot p"
  using last_dot_loop [of "length p" p] by (simp add: last_segment_def Let_def)

lemma register_decl_grow:
  assumes "wf_node d" "c_scope c \<noteq> []"
  shows "register_decl d c = grow_chk c [] (decl_names d)"
proof (cases d)
  case (Node k a l cl nm fl v ch)
  have ch: "layout k nm fl v ch" using assms(1) Node by simp
  show ?thesis
  proof (cases k)
    case N_TYPE_DECL
    then obtain b ps where b: "ch = b # ps" "wf_node b" using ch assms(1) Node by (auto split: list.splits)
    have "\<forall>x\<in>set (n_children b). x \<noteq> NULL \<and> n_kind x = N_VARIANT" if "n_kind b = N_TY_SUM"
      using b(2) that by (cases b) (auto simp: all_kinds_def list_all_iff)
    then show ?thesis
      using N_TYPE_DECL Node b assms(2)
      by (simp add: register_decl_def register_type_decl_def decl_names_def scope_add_grow add_names_grow)
  next
    case N_IMPORT
    have "\<forall>x\<in>set ch. x \<noteq> NULL \<and> n_kind x = N_IDENT"
      using ch N_IMPORT assms(1) Node by (auto simp: all_kinds_def list_all_iff)
    then show ?thesis
      using N_IMPORT Node assms(2) ch
      by (auto simp: register_decl_def register_import_def decl_names_def scope_add_grow add_names_grow
          last_segment length_Suc_conv split: list.splits)
  qed (use Node assms(2) in \<open>simp_all add: register_decl_def decl_names_def scope_add_grow\<close>)
qed (use assms in simp)

lemma register_top_level_grow:
  assumes "wf_node p" "c_scope c \<noteq> []"
  shows "register_top_level p c = grow_chk c [] (concat (map decl_names (n_children p)))"
proof -
  have "fold register_decl ds c = grow_chk c [] (concat (map decl_names ds))"
    if "\<forall>d\<in>set ds. wf_node d" "c_scope c \<noteq> []" for ds c
    using that by (induction ds arbitrary: c) (simp_all add: register_decl_grow)
  then show ?thesis using assms by (cases p) (simp_all add: register_top_level_def)
qed

lemma add_prelude_grow: "c_scope c \<noteq> [] \<Longrightarrow> add_prelude c = grow_chk c [] CHECK_PRELUDE"
proof -
  have "fold scope_add ns c = grow_chk c [] ns" if "c_scope c \<noteq> []" for ns c
    using that by (induction ns arbitrary: c) (simp_all add: scope_add_grow)
  then show "c_scope c \<noteq> [] \<Longrightarrow> ?thesis" by (simp add: add_prelude_def)
qed

lemma kai_check_state_wf:
  assumes "wf_node p" "n_kind p = N_PROGRAM"
  shows "kai_check_state p = chk_init\<lparr>c_err := undefined_names p \<noteq> [],
      c_log := map mk_error (undefined_names p)\<rparr>"
proof (cases p)
  case (Node k a l cl nm fl v ch)
  have wf: "layout N_PROGRAM nm fl v ch" "\<forall>x\<in>set ch. wf_node x" using assms Node by auto
  let ?ns = "CHECK_PRELUDE @ concat (map decl_names ch)"
  let ?c = "grow_chk (scope_push chk_init) [] ?ns"
  have c: "register_top_level p (add_prelude (scope_push chk_init)) = ?c"
    using assms Node by (simp add: add_prelude_grow register_top_level_grow)
  have v: "vis ?c = global_names p"
    using Node by (simp add: vis_def chk_init_def global_names_def grow_chk_def scope_push_def image_image)
  have lets: "\<forall>x\<in>set ch. let_names x = []"
    using layout_no_let [OF wf(1)] by (simp add: let_names_other)
  have "check_children ch ?c = grow_chk ?c (in_sequence unresolved (vis ?c) ch) (concat (map let_names ch))"
    using wf(2) by (intro check_children_grow) (simp_all add: check_node_grow)
  moreover have "concat (map let_names ch) = []" using lets by simp
  ultimately have "check_children ch ?c = grow_chk ?c (undefined_names p) []"
    using Node lets v by (simp add: in_sequence_no_lets undefined_names_def)
  then show ?thesis
    using c Node
    by (simp add: kai_check_state_def Let_def)
      (simp add: grow_chk_def scope_push_def scope_pop_def chk_init_def)
qed (use assms in simp)

text \<open>
  C7: On every tree the parser returns the checker reports exactly the identifiers that stand outside
  the scope of every binding, in the order of the tree and with their positions; it returns 1
  if and only if there is one, leaves the scope stack as it found it, and never reads a child
  that is not there.
\<close>

theorem kai_check_reports_unresolved:
  "(case kai_parse src (kai_lex rtl src) h of
      (Some n, q) \<Rightarrow>
        kai_check_state n = \<lparr>c_scope = [], c_err = (undefined_names n \<noteq> []),
            c_log = map mk_error (undefined_names n), c_ub = False\<rparr>
        \<and> kai_check n = (if undefined_names n = [] then 0 else 1)
    | (None, q) \<Rightarrow> p_log q \<noteq> [])"
proof -
  obtain r q where "kai_parse src (kai_lex rtl src) h = (r, q)" "ends_well src (kai_lex rtl src) (r = None) q"
      "r \<noteq> None \<Longrightarrow> wf_node (the r) \<and> n_kind (the r) = N_PROGRAM"
    by (rule kai_parse_result [OF kai_lex_toks_ok, of src rtl h]) (blast intro: wf_in_wf_node)
  then show ?thesis
    by (auto simp: ends_well_def kai_check_def kai_check_state_wf chk_init_def split: option.splits)
qed

text \<open>
  C22: The order of the top-level declarations does not matter: a program and any permutation
  of its declarations get the same reports (as a multiset) and the same exit status, so a
  function may call one declared after it.
\<close>

theorem kai_check_declaration_order:
  assumes "wf_node (Node N_PROGRAM a l c nm fl v ds)" and "mset ds' = mset ds"
  shows "mset (c_log (kai_check_state (Node N_PROGRAM a l c nm fl v ds')))
        = mset (c_log (kai_check_state (Node N_PROGRAM a l c nm fl v ds)))
      \<and> kai_check (Node N_PROGRAM a l c nm fl v ds') = kai_check (Node N_PROGRAM a l c nm fl v ds)"
proof -
  let ?P = "Node N_PROGRAM a l c nm fl v"
  have s: "set ds' = set ds" using assms(2) by (rule mset_eq_setD)
  have "wf_node (?P ds')" using assms(1) s by (simp add: all_kinds_def list_all_iff)
  note st = kai_check_state_wf [OF assms(1)] kai_check_state_wf [OF this]
  let ?f = "unresolved (global_names (?P ds))"
  have m: "mset (concat (map ?f xs)) = \<Sum>\<^sub># (image_mset (\<lambda>d. mset (?f d)) (mset xs))" for xs
    by (induction xs) simp_all
  have g: "global_names (?P ds') = global_names (?P ds)" using s by (simp add: global_names_def)
  have u: "mset (undefined_names (?P ds')) = mset (undefined_names (?P ds))"
    using m [of ds] m [of ds'] assms(2) by (simp add: undefined_names_def g)
  then have "undefined_names (?P ds') = [] \<longleftrightarrow> undefined_names (?P ds) = []"
    by (metis mset_zero_iff_right mset_zero_iff)
  with u st show ?thesis by (simp add: kai_check_def)
qed

text \<open>Two functions, the first calling the second, the second using an undefined name.\<close>

definition sample_decls :: "node list" where
  "sample_decls =
     [Node N_FN 1 1 1 ''f'' 0 V_none
        [Node N_TY_NAME 2 1 8 ''Int'' 0 V_none [],
         Node N_BLOCK 3 1 14 [] 1 V_none
           [Node N_CALL 4 1 16 [] 0 V_none [Node N_IDENT 5 1 16 ''g'' 0 V_none []]]],
      Node N_FN 6 2 1 ''g'' 0 V_none
        [Node N_TY_NAME 7 2 8 ''Int'' 0 V_none [],
         Node N_BLOCK 8 2 14 [] 1 V_none [Node N_IDENT 9 2 16 ''x'' 0 V_none []]]]"

theorem kai_check_declaration_order_witness:
  "kai_check (Node N_PROGRAM 0 1 1 [] 0 V_none (rev sample_decls)) = 1
   \<and> kai_check (Node N_PROGRAM 0 1 1 [] 0 V_none sample_decls) = 1
   \<and> c_log (kai_check_state (Node N_PROGRAM 0 1 1 [] 0 V_none sample_decls))
      = [(2, 16, ''undefined name'', ''x'')]"
proof -
  let ?P = "Node N_PROGRAM 0 1 1 [] 0 V_none"
  have wf: "wf_node (?P sample_decls)" by (simp add: sample_decls_def kind_defs)
  have "kai_check (?P (rev sample_decls)) = kai_check (?P sample_decls)"
    using kai_check_declaration_order [OF wf, of "rev sample_decls"] by simp
  moreover have "undefined_names (?P sample_decls) = [(2, 16, ''x'')]"
    by (simp add: undefined_names_def global_names_def sample_decls_def CHECK_PRELUDE_def
        decl_names_def let_names_def expr_kind_def)
  ultimately show ?thesis
    using kai_check_state_wf [OF wf] by (simp add: kai_check_def mk_error_def)
qed

end
