(* ===== verification/Kai_Format.thy ===== *)
theory Kai_Format
  imports Kai_Decode
begin

text \<open>
  What the emitter uses of \<^verbatim>\<open>fprintf\<close> and \<^verbatim>\<open>snprintf\<close>: the conversions \<open>%d\<close> and \<open>%zu\<close> of
  counts, \<open>%lld\<close> of a 64-bit integer, \<open>%08X\<close> of a code point, \<open>%.*s\<close>, and the truncation of
  \<open>snprintf\<close> to its buffer. \<open>%.17g\<close> stays a parameter of the emitter.
\<close>

definition dec_digit :: "nat \<Rightarrow> char" where
  "dec_digit d = char_of (48 + d)"

fun fmt_nat :: "nat \<Rightarrow> string" where
  "fmt_nat n = (if n < 10 then [dec_digit n] else fmt_nat (n div 10) @ [dec_digit (n mod 10)])"

declare fmt_nat.simps [simp del]

definition fmt_lld :: "i64 \<Rightarrow> string" where
  "fmt_lld w = (if sint w < 0 then CHR ''-'' # fmt_nat (nat (- sint w)) else fmt_nat (nat (sint w)))"

definition hex_digit :: "nat \<Rightarrow> char" where
  "hex_digit d = (if d < 10 then char_of (48 + d) else char_of (55 + d))"

definition fmt_08X :: "u32 \<Rightarrow> string" where
  "fmt_08X w = map (\<lambda>i. hex_digit (unat (drop_bit (28 - 4 * i) w AND 15))) [0..<8]"

text \<open>\<open>%.*s\<close> stops at a NUL byte.\<close>

definition fmt_s :: "string \<Rightarrow> string" where
  "fmt_s s = takeWhile (\<lambda>c. c \<noteq> NUL) s"

text \<open>\<open>char buf[512]; snprintf(buf, sizeof(buf), ...)\<close>\<close>

definition buf512 :: "string \<Rightarrow> string" where
  "buf512 s = take 511 s"

section \<open>Reading the digits back\<close>

lemma dec_digit:
  "d < 10 \<Longrightarrow> c_isdigit (dec_digit d) \<and> ord_char (dec_digit d) = 48 + d"
  by (simp add: dec_digit_def c_isdigit_def)

lemma fmt_nat_digits: "list_all c_isdigit (fmt_nat n) \<and> fmt_nat n \<noteq> []"
proof (induction n rule: fmt_nat.induct)
  case (1 n)
  then show ?case by (subst fmt_nat.simps) (auto simp: fmt_nat.simps [of n] dec_digit)
qed

lemma digits_value_snoc: "digits_value (s @ [c]) = (if c_isdigit c then digits_value s * 10 + (ord_char c - 48) else digits_value s)"
  by (simp add: digits_value_def)

lemma digits_value_fmt_nat: "digits_value (fmt_nat n) = n"
proof (induction n rule: fmt_nat.induct)
  case (1 n)
  show ?case
  proof (cases "n < 10")
    case True
    then show ?thesis by (simp add: fmt_nat.simps [of n] digits_value_def dec_digit)
  next
    case False
    then have "digits_value (fmt_nat (n div 10)) = n div 10" by (rule 1)
    then show ?thesis using False by (simp add: fmt_nat.simps [of n] digits_value_snoc dec_digit)
  qed
qed

text \<open>
  Every 64-bit integer survives being printed into the C text as \<open>%lld\<close> and read back by
  the decoder of integer literals, the least one included.
\<close>

theorem decode_int_fmt_lld: "decode_int (fmt_lld w) = w"
proof -
  have d: "decode_int (fmt_nat n) = of_nat n" for n
    using decode_int_digits [of "fmt_nat n"] fmt_nat_digits [of n] digits_value_fmt_nat [of n]
    by (simp add: list_all_iff)
  have m: "decode_int (CHR ''-'' # fmt_nat n) = - of_nat n" for n
  proof -
    have "decode_int_loop 0 (fmt_nat n) = of_nat n"
      using decode_int_loop_value [of "fmt_nat n" 0] fmt_nat_digits [of n] digits_value_fmt_nat [of n]
      by (simp add: list_all_iff digits_value_def)
    then show ?thesis by (simp add: decode_int_def)
  qed
  show ?thesis
  proof (cases "sint w < 0")
    case True
    then have "decode_int (fmt_lld w) = - of_nat (nat (- sint w))" by (simp add: fmt_lld_def m)
    also have "of_nat (nat (- sint w)) = (of_int (- sint w) :: i64)" using True by (metis int_nat_eq less_imp_le neg_0_le_iff_le of_int_of_nat_eq)
    finally show ?thesis by simp
  next
    case False
    then have "decode_int (fmt_lld w) = of_nat (nat (sint w))" by (simp add: fmt_lld_def d)
    also have "(of_nat (nat (sint w)) :: i64) = of_int (sint w)" using False by (metis int_nat_eq not_less of_int_of_nat_eq)
    finally show ?thesis by simp
  qed
qed

end
