(* ===== verification/Kai_Emit_State.thy ===== *)
theory Kai_Emit_State
  imports Kai_Parser Kai_Format
begin

text \<open>
  The state of the emitter of \<^verbatim>\<open>stage0/emit.c\<close> and its tables: output, diagnostics, the local
  scope with its marks, the use counters, the prelude, functions and variants, and the records
  of lambdas.

  A \<open>Node *\<close> that only serves as an identity is the address of the node. The heap is the
  parser's address counter; \<open>e_reuse\<close> says whether the allocator hands out the addresses of a
  freed interpolation again (C leaves it open), \<open>e_rtl\<close> is the argument order of the lexer's
  operator calls, and \<open>e_g17\<close> prints a real literal as \<open>%.17g\<close> does. \<open>e_ub\<close> records undefined
  behaviour and \<open>e_spent\<close> that a bound of the model was hit.
\<close>

section \<open>State\<close>

record sym_entry =
  s_name :: string
  s_arity :: nat
  s_tag :: nat

record lam_info =
  l_id :: nat
  l_lam :: node
  l_caps :: "string list"
  l_freed :: bool

record local_use =
  u_decl :: nat
  u_name :: string
  u_total :: nat
  u_lambda :: nat

record emitter =
  e_out :: string
  e_err :: bool
  e_log :: "(nat \<times> nat \<times> string) list"
  e_test :: bool
  e_desc :: "string option"
  e_fns :: "sym_entry list"
  e_variants :: "sym_entry list"
  e_lams :: "lam_info list"
  e_locals :: "(string \<times> nat option) list"
  e_marks :: "nat list"
  e_uses :: "local_use list"
  e_curfn :: node
  e_heap :: nat
  e_reuse :: bool
  e_rtl :: bool
  e_g17 :: "string \<Rightarrow> string"
  e_ub :: bool
  e_spent :: bool

type_synonym act = "emitter \<Rightarrow> emitter"

text \<open>A sequence of calls that write to the output, and a list of them between separators.\<close>

definition seq :: "act list \<Rightarrow> act" where
  "seq fs e = fold (\<lambda>f e. f e) fs e"

fun sep :: "act \<Rightarrow> act list \<Rightarrow> act list" where
  "sep s [] = []"
| "sep s [f] = [f]"
| "sep s (f # g # fs) = f # s # sep s (g # fs)"

definition puts :: "string \<Rightarrow> act" where
  "puts s e = e\<lparr>e_out := e_out e @ s\<rparr>"

abbreviation commas :: "act list \<Rightarrow> act" where "commas fs \<equiv> seq (sep (puts '', '') fs)"

section \<open>Local scope\<close>

definition ls_push_mark :: act where
  "ls_push_mark e = e\<lparr>e_marks := e_marks e @ [length (e_locals e)]\<rparr>"

definition ls_pop_mark :: act where
  "ls_pop_mark e =
     (if e_marks e = [] then e
      else e\<lparr>e_locals := take (last (e_marks e)) (e_locals e), e_marks := butlast (e_marks e)\<rparr>)"

definition ls_add :: "string \<Rightarrow> nat option \<Rightarrow> act" where
  "ls_add name d e = e\<lparr>e_locals := e_locals e @ [(name, d)]\<rparr>"

definition ls_has :: "emitter \<Rightarrow> string \<Rightarrow> bool" where
  "ls_has e name = list_ex (\<lambda>(n, d). n = name) (rev (e_locals e))"

definition ls_resolve :: "emitter \<Rightarrow> string \<Rightarrow> nat option" where
  "ls_resolve e name =
     (case List.find (\<lambda>(n, d). n = name) (rev (e_locals e)) of Some (n, d) \<Rightarrow> d | None \<Rightarrow> None)"

section \<open>Use counters\<close>

definition lu_clear :: act where
  "lu_clear e = e\<lparr>e_uses := []\<rparr>"

definition lu_add :: "nat \<Rightarrow> string \<Rightarrow> act" where
  "lu_add d name e =
     e\<lparr>e_uses := e_uses e @ [\<lparr>u_decl = d, u_name = name, u_total = 0, u_lambda = 0\<rparr>]\<rparr>"

definition lu_lookup :: "emitter \<Rightarrow> nat option \<Rightarrow> local_use option" where
  "lu_lookup e d = (case d of None \<Rightarrow> None | Some a \<Rightarrow> List.find (\<lambda>u. u_decl u = a) (e_uses e))"

text \<open>The update of the entry \<open>lu_lookup\<close> points to.\<close>

fun lu_bump :: "nat \<Rightarrow> bool \<Rightarrow> local_use list \<Rightarrow> local_use list" where
  "lu_bump a in_lambda [] = []"
| "lu_bump a in_lambda (u # us) =
     (if u_decl u = a
      then u\<lparr>u_total := Suc (u_total u),
             u_lambda := (if in_lambda then Suc (u_lambda u) else u_lambda u)\<rparr> # us
      else u # lu_bump a in_lambda us)"

fun pat_add_locals :: "node \<Rightarrow> act" where
  "pat_add_locals NULL e = e"
| "pat_add_locals (Node k a l c nm fl v ch) e =
     (case k of
        N_PAT_WILD \<Rightarrow> e
      | N_PAT_LIT \<Rightarrow> e
      | N_PAT_BIND \<Rightarrow> ls_add nm (Some a) e
      | N_PAT_LIST \<Rightarrow> fold pat_add_locals ch e
      | N_PAT_VARIANT \<Rightarrow> fold pat_add_locals ch e
      | N_PAT_RECORD \<Rightarrow> fold pat_add_locals ch e
      | N_PAT_FIELD \<Rightarrow> (case ch of [] \<Rightarrow> e | p # _ \<Rightarrow> pat_add_locals p e)
      | _ \<Rightarrow> e)"

fun pat_register_uses :: "node \<Rightarrow> act" where
  "pat_register_uses NULL e = e"
| "pat_register_uses (Node k a l c nm fl v ch) e =
     (case k of
        N_PAT_WILD \<Rightarrow> e
      | N_PAT_LIT \<Rightarrow> e
      | N_PAT_BIND \<Rightarrow> lu_add a nm e
      | N_PAT_LIST \<Rightarrow> fold pat_register_uses ch e
      | N_PAT_VARIANT \<Rightarrow> fold pat_register_uses ch e
      | N_PAT_RECORD \<Rightarrow> fold pat_register_uses ch e
      | N_PAT_FIELD \<Rightarrow> (case ch of [] \<Rightarrow> e | p # _ \<Rightarrow> pat_register_uses p e)
      | _ \<Rightarrow> e)"

section \<open>Diagnostics\<close>

definition bug :: "node \<Rightarrow> string \<Rightarrow> act" where
  "bug n what e =
     (let (line, col) = (if n = NULL then (0, 0) else (n_line n, n_col n))
      in e\<lparr>e_err := True, e_log := e_log e @ [(line, col, what)]\<rparr>)"

section \<open>Tables\<close>

definition KAI_USER_VARIANT_TAG_BASE :: nat where
  "KAI_USER_VARIANT_TAG_BASE = 12"

definition PRELUDE :: "(string \<times> string \<times> nat) list" where
  "PRELUDE = [
     (''print'', ''kai_core_print'', 1),
     (''eprint'', ''kai_core_eprint'', 1),
     (''write_stdout'', ''kai_core_write_stdout'', 1),
     (''panic'', ''kai_core_panic'', 1),
     (''exit'', ''kai_core_exit'', 1),
     (''int_to_string'', ''kai_core_int_to_string'', 1),
     (''real_to_string'', ''kai_core_real_to_string'', 1),
     (''int_to_real'', ''kai_core_int_to_real'', 1),
     (''real_to_int'', ''kai_core_real_to_int'', 1),
     (''real_sqrt'', ''kai_core_real_sqrt'', 1),
     (''real_cbrt'', ''kai_core_real_cbrt'', 1),
     (''real_exp'', ''kai_core_real_exp'', 1),
     (''real_log'', ''kai_core_real_log'', 1),
     (''real_log2'', ''kai_core_real_log2'', 1),
     (''real_log10'', ''kai_core_real_log10'', 1),
     (''real_sin'', ''kai_core_real_sin'', 1),
     (''real_cos'', ''kai_core_real_cos'', 1),
     (''real_tan'', ''kai_core_real_tan'', 1),
     (''real_asin'', ''kai_core_real_asin'', 1),
     (''real_acos'', ''kai_core_real_acos'', 1),
     (''real_atan'', ''kai_core_real_atan'', 1),
     (''real_sinh'', ''kai_core_real_sinh'', 1),
     (''real_cosh'', ''kai_core_real_cosh'', 1),
     (''real_tanh'', ''kai_core_real_tanh'', 1),
     (''real_signum'', ''kai_core_real_signum'', 1),
     (''real_is_nan'', ''kai_core_real_is_nan'', 1),
     (''real_is_inf'', ''kai_core_real_is_inf'', 1),
     (''real_pow'', ''kai_core_real_pow'', 2),
     (''real_atan2'', ''kai_core_real_atan2'', 2),
     (''string_length'', ''kai_core_string_length'', 1),
     (''string_concat'', ''kai_core_string_concat'', 2),
     (''string_concat_all'', ''kai_core_string_concat_all'', 1),
     (''string_join'', ''kai_core_string_join'', 2),
     (''list_length'', ''kai_core_list_length'', 1),
     (''list_append'', ''kai_core_list_append'', 2),
     (''list_reverse'', ''kai_core_list_reverse'', 1),
     (''map'', ''kai_core_map'', 2),
     (''flat_map'', ''kai_core_flat_map'', 2),
     (''filter'', ''kai_core_filter'', 2),
     (''reduce'', ''kai_core_reduce'', 3),
     (''each'', ''kai_core_each'', 2),
     (''args'', ''kai_core_args'', 0),
     (''read_file'', ''kai_core_read_file'', 1),
     (''write_file'', ''kai_core_write_file'', 2),
     (''read_line'', ''kai_core_read_line'', 0),
     (''read_bytes'', ''kai_core_read_bytes'', 1),
     (''string_to_int'', ''kai_core_string_to_int'', 1),
     (''string_to_real'', ''kai_core_string_to_real'', 1),
     (''char_at'', ''kai_core_char_at'', 2),
     (''string_split'', ''kai_core_string_split'', 2),
     (''string_contains'', ''kai_core_string_contains'', 2),
     (''string_slice'', ''kai_core_string_slice'', 3),
     (''char_to_int'', ''kai_core_char_to_int'', 1),
     (''int_to_char'', ''kai_core_int_to_char'', 1),
     (''int_to_byte_string'', ''kai_core_int_to_byte_string'', 1),
     (''string_byte_at_int'', ''kai_core_string_byte_at_int'', 2),
     (''string_cp_at'', ''kai_core_string_cp_at'', 2),
     (''string_cp_len'', ''kai_core_string_cp_len'', 2),
     (''array_make'', ''kai_core_array_make'', 2),
     (''array_length'', ''kai_core_array_length'', 1),
     (''array_get'', ''kai_core_array_get'', 2),
     (''array_set'', ''kai_core_array_set'', 3),
     (''array_grow'', ''kai_core_array_grow'', 3)]"

definition find_prelude :: "string \<Rightarrow> (string \<times> nat) option" where
  "find_prelude name = map_of PRELUDE name"

definition reg_entry :: "string \<Rightarrow> nat \<Rightarrow> nat \<Rightarrow> sym_entry list \<Rightarrow> sym_entry list" where
  "reg_entry name arity tag arr = arr @ [\<lparr>s_name = name, s_arity = arity, s_tag = tag\<rparr>]"

definition find_entry :: "sym_entry list \<Rightarrow> string \<Rightarrow> sym_entry option" where
  "find_entry arr name = List.find (\<lambda>s. s_name s = name) arr"

definition find_user_fn :: "emitter \<Rightarrow> string \<Rightarrow> nat option" where
  "find_user_fn e name = map_option s_arity (find_entry (e_fns e) name)"

definition find_variant :: "emitter \<Rightarrow> string \<Rightarrow> (nat \<times> nat) option" where
  "find_variant e name = map_option (\<lambda>s. (s_arity s, s_tag s)) (find_entry (e_variants e) name)"

definition is_global_name :: "emitter \<Rightarrow> string \<Rightarrow> bool" where
  "is_global_name e name =
     (find_prelude name \<noteq> None \<or> find_user_fn e name \<noteq> None \<or> find_variant e name \<noteq> None)"

text \<open>The constructors the runtime reserves tags for, with their arities.\<close>

definition builtin_variants :: "(string \<times> nat \<times> nat) list" where
  "builtin_variants = [
     (''Some'', 1, 0), (''None'', 0, 1), (''Ok'', 1, 2), (''Err'', 1, 3),
     (''SigInt'', 0, 4), (''SigTerm'', 0, 5), (''SigHup'', 0, 6), (''SigUsr1'', 0, 7),
     (''SigUsr2'', 0, 8), (''Exited'', 1, 9), (''Signaled'', 1, 10), (''SigWinch'', 0, 11)]"

section \<open>Emission of identifiers\<close>

definition emit_ident_callee :: "string \<Rightarrow> emitter \<Rightarrow> bool \<times> emitter" where
  "emit_ident_callee name e =
     (if ls_has e name then (False, e)
      else
        (case find_prelude name of
           Some (mapped, arity) \<Rightarrow> (True, puts mapped e)
         | None \<Rightarrow>
             if find_user_fn e name \<noteq> None then (True, puts (''kai_'' @ fmt_s name) e)
             else (False, puts (''kai_'' @ fmt_s name) e)))"

definition single_use :: "local_use option \<Rightarrow> bool" where
  "single_use u = (case u of None \<Rightarrow> False | Some u \<Rightarrow> u_total u = 1 \<and> u_lambda u = 0)"

definition emit_ident_value :: "string \<Rightarrow> act" where
  "emit_ident_value name e =
     (if ls_has e name then
        (if single_use (lu_lookup e (ls_resolve e name)) then puts (''kai_'' @ fmt_s name) e
         else puts (''kai_internal_dup(kai_'' @ fmt_s name @ '')'') e)
      else
        (case find_variant e name of
           Some (arity, vtag) \<Rightarrow>
             puts (''kai_variant_u('' @ fmt_nat vtag @ '', '' @ [DQ] @ fmt_s name @ [DQ] @ '', 0, 0, NULL)'') e
         | None \<Rightarrow>
             (case find_prelude name of
                Some (mapped, arity) \<Rightarrow>
                  puts (''kai_closure(&_'' @ mapped @ ''_thunk, '' @ fmt_nat arity @ '', 0, NULL)'') e
              | None \<Rightarrow>
                  (case find_user_fn e name of
                     Some arity \<Rightarrow>
                       puts (''kai_closure(&_kai_'' @ fmt_s name @ ''_thunk, '' @ fmt_nat arity @ '', 0, NULL)'') e
                   | None \<Rightarrow> puts (''kai_'' @ fmt_s name) e))))"

end
