(* ===== verification/Kai_Emit_Scope.thy ===== *)
theory Kai_Emit_Scope
  imports Kai_Emit_State
begin

text \<open>
  The passes of \<^verbatim>\<open>stage0/emit.c\<close> that run before code is written: the scan of string
  interpolations, the use counter, the capture analysis and the registration of lambdas.

  The C functions recurse on the children of a node and, through a string, on the tree its
  interpolation parses to. A pass is written over two callees: \<open>rec\<close> for children and \<open>sub\<close>
  for interpolations; \<open>knot_at\<close> ties them, with one level of fuel per nesting of strings and,
  inside a tree, as many nested calls as the tree has nodes.
\<close>

section \<open>Recursion through interpolations\<close>

primrec deep :: "((node \<Rightarrow> 'b) \<Rightarrow> (node \<Rightarrow> 'b) \<Rightarrow> node \<Rightarrow> 'b) \<Rightarrow> 'b \<Rightarrow> (node \<Rightarrow> 'b) \<Rightarrow> nat \<Rightarrow> node \<Rightarrow> 'b" where
  "deep body spent sub 0 n = spent"
| "deep body spent sub (Suc k) n = body sub (deep body spent sub k) n"

primrec knot_at :: "((node \<Rightarrow> 'b) \<Rightarrow> (node \<Rightarrow> 'b) \<Rightarrow> node \<Rightarrow> 'b) \<Rightarrow> 'b \<Rightarrow> nat \<Rightarrow> node \<Rightarrow> 'b" where
  "knot_at body spent 0 n = spent"
| "knot_at body spent (Suc d) n = deep body spent (knot_at body spent d) (Suc (size n)) n"

text \<open>The length of the longest string literal in a tree bounds the nesting of interpolations.\<close>

fun string_bound :: "node \<Rightarrow> nat" where
  "string_bound NULL = 0"
| "string_bound (Node k a l c nm fl v ch) =
     fold max (map string_bound ch) (if k = N_STRING then length nm else 0)"

definition set_spent :: act where
  "set_spent e = e\<lparr>e_spent := True\<rparr>"

definition set_ub :: act where
  "set_ub e = e\<lparr>e_ub := True\<rparr>"

section \<open>Interpolations\<close>

function scan_interp_expr :: "string \<Rightarrow> nat \<Rightarrow> nat \<Rightarrow> nat \<Rightarrow> nat" where
  "scan_interp_expr src end depth i =
     (if i < end \<and> depth > 0 then
        (if byte_at src i = CHR ''{'' then scan_interp_expr src end (depth + 1) (Suc i)
         else if byte_at src i = CHR ''}'' then
           (if depth - 1 = 0 then i else scan_interp_expr src end (depth - 1) (Suc i))
         else scan_interp_expr src end depth (Suc i))
      else i)"
  by pat_completeness auto
termination
  by (relation "measure (\<lambda>(src, end, depth, i). end - i)") auto

declare scan_interp_expr.simps [simp del]

lemma scan_interp_expr_ge: "i \<le> scan_interp_expr src end depth i"
proof (induction src "end" depth i rule: scan_interp_expr.induct)
  case (1 src "end" depth i)
  show ?case
    using 1 by (subst scan_interp_expr.simps) (auto intro: Suc_leD)
qed

lemma scan_interp_expr_le: "i \<le> end \<Longrightarrow> scan_interp_expr src end depth i \<le> end"
proof (induction src "end" depth i rule: scan_interp_expr.induct)
  case (1 src "end" depth i)
  then show ?case
    by (subst scan_interp_expr.simps) auto
qed

text \<open>\<open>f\<close> on the text of every interpolation between \<open>i\<close> and \<open>end\<close>, in order.\<close>

function interp_loop :: "(string \<Rightarrow> act) \<Rightarrow> string \<Rightarrow> nat \<Rightarrow> nat \<Rightarrow> act" where
  "interp_loop f src end i e =
     (if i < end then
        (if byte_at src i = CHR ''#'' \<and> i + 1 < end \<and> byte_at src (i + 1) = CHR ''{'' then
           (let expr_start = i + 2;
                i = scan_interp_expr src end 1 expr_start;
                e = f (slice src expr_start i) e
            in interp_loop f src end (if i < end then i + 1 else i) e)
         else interp_loop f src end (Suc i) e)
      else e)"
  by pat_completeness auto
termination
proof (relation "measure (\<lambda>(f, src, end, i, e). end - i)", goal_cases)
  case (2 f src "end" i e x xa xb)
  then show ?case using scan_interp_expr_ge [of "i + 2" src "end" 1] by auto
qed auto

declare interp_loop.simps [simp del]

text \<open>
  \<open>start\<close> and \<open>end\<close> of the text between the quotes; \<open>None\<close> when the subtraction of unsigned
  integers wraps.
\<close>

definition str_span :: "node \<Rightarrow> (nat \<times> nat) option" where
  "str_span s =
     (let w = (if n_flags s AND 1 \<noteq> 0 then 3 else 1) in
      if length (n_name s) < w then None else Some (w, length (n_name s) - w))"

text \<open>\<open>kai_lex\<close> and \<open>kai_parse_expr_standalone\<close> on the text of an interpolation.\<close>

definition interp_tree :: "string \<Rightarrow> emitter \<Rightarrow> node option \<times> emitter" where
  "interp_tree text e =
     (let (r, q) = kai_parse_expr_standalone text (kai_lex (e_rtl e) text) (e_heap e)
      in (r, e\<lparr>e_heap := p_heap q, e_ub := e_ub e \<or> p_ub q, e_spent := e_spent e \<or> p_spent q\<rparr>))"

text \<open>
  \<open>kai_free_node\<close> of a tree whose nodes were allocated from address \<open>h\<close> on: the lambdas
  registered since \<open>n\<close> dangle, and the addresses may be handed out again.
\<close>

definition kai_free_node :: "nat \<Rightarrow> nat \<Rightarrow> act" where
  "kai_free_node h n e =
     e\<lparr>e_heap := (if e_reuse e then h else e_heap e),
       e_lams := take n (e_lams e) @ map (\<lambda>i. i\<lparr>l_freed := True\<rparr>) (drop n (e_lams e))\<rparr>"

definition with_interp :: "(node \<Rightarrow> act) \<Rightarrow> string \<Rightarrow> act" where
  "with_interp f text e0 =
     (case interp_tree text e0 of
        (None, e) \<Rightarrow> e
      | (Some en, e) \<Rightarrow> kai_free_node (e_heap e0) (length (e_lams e0)) (f en e))"

definition in_string :: "(node \<Rightarrow> act) \<Rightarrow> node \<Rightarrow> act" where
  "in_string f s e =
     (if length (n_name s) < 2 then e
      else
        (case str_span s of
           None \<Rightarrow> set_ub e
         | Some (first, end) \<Rightarrow> interp_loop (with_interp f) (n_name s) end first e))"

section \<open>Use counter\<close>

definition count_ident_use :: "node \<Rightarrow> bool \<Rightarrow> act" where
  "count_ident_use n in_lambda e =
     (case lu_lookup e (ls_resolve e (n_name n)) of
        None \<Rightarrow> e
      | Some u \<Rightarrow> e\<lparr>e_uses := lu_bump (u_decl u) in_lambda (e_uses e)\<rparr>)"

text \<open>Parameters of a lambda: names without a declaration.\<close>

definition add_lambda_params :: "node list \<Rightarrow> act" where
  "add_lambda_params ps e =
     fold (\<lambda>p e. if p \<noteq> NULL \<and> n_kind p = N_IDENT then ls_add (n_name p) None e else e) ps e"

definition count_uses_in_lambda :: "(node \<Rightarrow> bool \<Rightarrow> act) \<Rightarrow> node \<Rightarrow> act" where
  "count_uses_in_lambda rec n e =
     (let ch = n_children n;
          e = ls_push_mark e;
          e = add_lambda_params (drop 1 ch) e;
          e = (if length ch \<ge> 1 then rec (ch ! 0) True e else e)
      in ls_pop_mark e)"

definition count_uses_in_let :: "(node \<Rightarrow> bool \<Rightarrow> act) \<Rightarrow> node \<Rightarrow> bool \<Rightarrow> act" where
  "count_uses_in_let rec n in_lambda e =
     (let ch = n_children n;
          e = (if length ch \<ge> 3 then rec (ch ! 2) in_lambda e else e)
      in if length ch \<ge> 1 then
           (let pat = ch ! 0;
                e = (if \<not> in_lambda then pat_register_uses pat e else e)
            in pat_add_locals pat e)
         else e)"

text \<open>
  The pattern, the guard and the body of a match arm: \<open>children[0]\<close>, \<open>children[1]\<close> when the
  flag is set, and \<open>children[2]\<close> or \<open>children[1]\<close>, read without a test of their number.
\<close>

definition arm_parts :: "node \<Rightarrow> (node \<times> node \<times> node) option" where
  "arm_parts n =
     (let has_guard = n_flags n AND 1 \<noteq> 0; ch = n_children n in
      if length ch \<le> (if has_guard then 2 else 1) then None
      else Some (ch ! 0, (if has_guard then ch ! 1 else NULL), ch ! (if has_guard then 2 else 1)))"

definition count_uses_in_arm :: "(node \<Rightarrow> bool \<Rightarrow> act) \<Rightarrow> node \<Rightarrow> bool \<Rightarrow> act" where
  "count_uses_in_arm rec n in_lambda e =
     (case arm_parts n of
        None \<Rightarrow> set_ub e
      | Some (pat, guard, body) \<Rightarrow>
          (let e = ls_push_mark e;
               e = (if \<not> in_lambda then pat_register_uses pat e else e);
               e = pat_add_locals pat e;
               e = (if guard \<noteq> NULL then rec guard in_lambda e else e);
               e = (if body \<noteq> NULL then rec body in_lambda e else e)
           in ls_pop_mark e))"

definition count_local_uses_in_string :: "(node \<Rightarrow> bool \<Rightarrow> act) \<Rightarrow> node \<Rightarrow> bool \<Rightarrow> act" where
  "count_local_uses_in_string sub s in_lambda e = in_string (\<lambda>en. sub en in_lambda) s e"

definition count_local_uses :: "(node \<Rightarrow> bool \<Rightarrow> act) \<Rightarrow> (node \<Rightarrow> bool \<Rightarrow> act) \<Rightarrow> node \<Rightarrow> bool \<Rightarrow> act" where
  "count_local_uses sub rec n in_lambda e =
     (if n = NULL then e
      else
        (case n_kind n of
           N_IDENT \<Rightarrow> count_ident_use n in_lambda e
         | N_STRING \<Rightarrow> count_local_uses_in_string sub n in_lambda e
         | N_LAMBDA \<Rightarrow> count_uses_in_lambda rec n e
         | N_LET \<Rightarrow> count_uses_in_let rec n in_lambda e
         | N_ARM \<Rightarrow> count_uses_in_arm rec n in_lambda e
         | N_BLOCK \<Rightarrow> ls_pop_mark (fold (\<lambda>c. rec c in_lambda) (n_children n) (ls_push_mark e))
         | _ \<Rightarrow> fold (\<lambda>c. rec c in_lambda) (n_children n) e))"

definition count_uses :: "node \<Rightarrow> bool \<Rightarrow> act" where
  "count_uses n = knot_at count_local_uses (\<lambda>b. set_spent) (Suc (string_bound n)) n"

section \<open>Capture analysis\<close>

definition is_lambda_param :: "node \<Rightarrow> string \<Rightarrow> bool" where
  "is_lambda_param lam name =
     list_ex (\<lambda>p. p \<noteq> NULL \<and> n_kind p = N_IDENT \<and> n_name p = name) (drop 1 (n_children lam))"

text \<open>\<open>info\<close> points into \<open>e->lams\<close>: here, the index.\<close>

definition add_capture :: "nat \<Rightarrow> string \<Rightarrow> act" where
  "add_capture i name e =
     (let info = e_lams e ! i in
      if i \<ge> length (e_lams e) then set_ub e
      else if list_ex (\<lambda>c. c = name) (l_caps info) then e
      else e\<lparr>e_lams := (e_lams e)[i := info\<lparr>l_caps := l_caps info @ [name]\<rparr>]\<rparr>)"

definition collect_ident_free_var :: "node \<Rightarrow> nat \<Rightarrow> node \<Rightarrow> act" where
  "collect_ident_free_var lam i n e =
     (if \<not> is_lambda_param lam (n_name n) \<and> \<not> is_global_name e (n_name n) \<and> \<not> ls_has e (n_name n)
      then add_capture i (n_name n) e
      else e)"

definition collect_arm_free_vars :: "(node \<Rightarrow> act) \<Rightarrow> node \<Rightarrow> act" where
  "collect_arm_free_vars rec n e =
     (case arm_parts n of
        None \<Rightarrow> set_ub e
      | Some (pat, guard, body) \<Rightarrow>
          (let e = ls_push_mark e;
               e = pat_add_locals pat e;
               e = (if guard \<noteq> NULL then rec guard e else e);
               e = (if body \<noteq> NULL then rec body e else e)
           in ls_pop_mark e))"

definition collect_free_vars_in_string :: "(node \<Rightarrow> act) \<Rightarrow> node \<Rightarrow> act" where
  "collect_free_vars_in_string sub s e = in_string sub s e"

definition collect_free_vars :: "node \<Rightarrow> nat \<Rightarrow> (node \<Rightarrow> act) \<Rightarrow> (node \<Rightarrow> act) \<Rightarrow> node \<Rightarrow> act" where
  "collect_free_vars lam i sub rec n e =
     (if n = NULL then e
      else
        (let ch = n_children n in
         case n_kind n of
           N_LAMBDA \<Rightarrow> e
         | N_IDENT \<Rightarrow> collect_ident_free_var lam i n e
         | N_STRING \<Rightarrow> collect_free_vars_in_string sub n e
         | N_FIELD \<Rightarrow> (if length ch \<ge> 1 then rec (ch ! 0) e else e)
         | N_ARM \<Rightarrow> collect_arm_free_vars rec n e
         | N_LET \<Rightarrow>
             (let e = (if length ch \<ge> 3 then rec (ch ! 2) e else e)
              in if length ch \<ge> 1 then pat_add_locals (ch ! 0) e else e)
         | N_BLOCK \<Rightarrow> ls_pop_mark (fold rec ch (ls_push_mark e))
         | _ \<Rightarrow> fold rec ch e))"

definition free_vars_of :: "node \<Rightarrow> nat \<Rightarrow> node \<Rightarrow> act" where
  "free_vars_of lam i n = knot_at (collect_free_vars lam i) set_spent (Suc (string_bound n)) n"

definition register_lambda :: "node \<Rightarrow> act" where
  "register_lambda lam e =
     (let i = length (e_lams e);
          e = e\<lparr>e_lams := e_lams e @ [\<lparr>l_id = i, l_lam = lam, l_caps = [], l_freed = False\<rparr>]\<rparr>;
          ch = n_children lam
      in if length ch \<ge> 1 then ls_pop_mark (free_vars_of lam i (ch ! 0) (ls_push_mark e)) else e)"

fun collect_lambdas :: "node \<Rightarrow> act" where
  "collect_lambdas NULL e = e"
| "collect_lambdas (Node k a l c nm fl v ch) e =
     (if k = N_LAMBDA then
        (let e = register_lambda (Node k a l c nm fl v ch) e
         in case ch of [] \<Rightarrow> e | body # _ \<Rightarrow> collect_lambdas body e)
      else fold collect_lambdas ch e)"

definition find_lam_info :: "emitter \<Rightarrow> node \<Rightarrow> lam_info option" where
  "find_lam_info e lam = List.find (\<lambda>i. n_id (l_lam i) = n_id lam) (e_lams e)"

end
