(* ===== verification/Kai_Tco.thy ===== *)
theory Kai_Tco
  imports Kai_Ast
begin

text \<open>
  The self-tail-call pass of \<^verbatim>\<open>stage0/emit.c\<close>: \<open>tco_walk_tail\<close> looks for a call of the
  enclosing function in tail position, \<open>tco_mark\<close> sets a flag on each of them in place. The
  stack of shadowing names is a list; the code's \<open>s->n = mark\<close> is the caller's list. A pass
  over the children is written over its callee \<open>rec\<close>; the congruence rules below tell the
  function package that it is only called on parts of the node.
\<close>

section \<open>Shadowing names\<close>

type_synonym shadows = "string list"

definition tcs_push :: "string \<Rightarrow> shadows \<Rightarrow> shadows" where
  "tcs_push name s = s @ [name]"

definition tcs_has :: "shadows \<Rightarrow> string \<Rightarrow> bool" where
  "tcs_has s name = list_ex (\<lambda>n. n = name) s"

fun tco_collect_pat_binds :: "node \<Rightarrow> shadows \<Rightarrow> shadows" where
  "tco_collect_pat_binds NULL s = s"
| "tco_collect_pat_binds (Node k a l c nm fl v ch) s =
     (case k of
        N_PAT_BIND \<Rightarrow> tcs_push nm s
      | N_PAT_LIST \<Rightarrow> fold tco_collect_pat_binds ch s
      | N_PAT_VARIANT \<Rightarrow> fold tco_collect_pat_binds ch s
      | N_PAT_RECORD \<Rightarrow> fold tco_collect_pat_binds ch s
      | N_PAT_FIELD \<Rightarrow>
          (let shorthand = fl AND 1 \<noteq> 0 in
           case ch of
             p # _ \<Rightarrow> tco_collect_pat_binds p s
           | [] \<Rightarrow> (if shorthand then tcs_push nm s else s))
      | _ \<Rightarrow> s)"

text \<open>The test of a call: by name, arity and shadowing.\<close>

definition tco_is_self_call :: "string \<Rightarrow> nat \<Rightarrow> shadows \<Rightarrow> node list \<Rightarrow> bool" where
  "tco_is_self_call name arity s ch =
     (case ch of
        [] \<Rightarrow> False
      | callee # args \<Rightarrow>
          callee \<noteq> NULL \<and> n_kind callee = N_IDENT \<and> n_name callee = name
          \<and> \<not> tcs_has s name \<and> length args = arity)"

text \<open>The shadows at the value of a block: the names its \<open>let\<close> statements bind.\<close>

definition tco_block_shadows :: "shadows \<Rightarrow> node list \<Rightarrow> shadows" where
  "tco_block_shadows s ch =
     fold (\<lambda>st s. if st \<noteq> NULL \<and> n_kind st = N_LET
                  then (case n_children st of [] \<Rightarrow> s | pat # _ \<Rightarrow> tco_collect_pat_binds pat s)
                  else s) (butlast ch) s"

definition is_arm :: "node \<Rightarrow> bool" where
  "is_arm arm \<longleftrightarrow> arm \<noteq> NULL \<and> n_kind arm = N_ARM \<and> n_children arm \<noteq> []"

definition tco_arm_shadows :: "shadows \<Rightarrow> node \<Rightarrow> shadows" where
  "tco_arm_shadows s arm = tco_collect_pat_binds (hd (n_children arm)) s"

section \<open>Is there a tail call?\<close>

definition tco_walk_block_tail :: "(shadows \<Rightarrow> node \<Rightarrow> bool) \<Rightarrow> shadows \<Rightarrow> nat \<Rightarrow> node list \<Rightarrow> bool" where
  "tco_walk_block_tail rec s fl ch =
     (let has_value = fl AND 1 \<noteq> 0 in
      if \<not> has_value \<or> ch = [] then False
      else rec (tco_block_shadows s ch) (last ch))"

definition tco_walk_match_arms :: "(shadows \<Rightarrow> node \<Rightarrow> bool) \<Rightarrow> shadows \<Rightarrow> node list \<Rightarrow> bool" where
  "tco_walk_match_arms rec s ch =
     list_ex (\<lambda>arm. is_arm arm \<and> rec (tco_arm_shadows s arm) (last (n_children arm))) (drop 1 ch)"

lemma tco_walk_block_tail_cong [fundef_cong]:
  "\<lbrakk>s = s'; fl = fl'; ch = ch'; \<And>x t. x \<in> set ch' \<Longrightarrow> rec t x = rec' t x\<rbrakk>
    \<Longrightarrow> tco_walk_block_tail rec s fl ch = tco_walk_block_tail rec' s' fl' ch'"
  by (simp add: tco_walk_block_tail_def Let_def)

lemma is_arm_last: "is_arm arm \<Longrightarrow> last (n_children arm) \<in> set (n_children arm)"
  by (simp add: is_arm_def)

lemma tco_walk_match_arms_cong [fundef_cong]:
  assumes "s = s'" "ch = ch'"
    "\<And>arm x t. arm \<in> set ch' \<Longrightarrow> is_arm arm \<Longrightarrow> x \<in> set (n_children arm) \<Longrightarrow> rec t x = rec' t x"
  shows "tco_walk_match_arms rec s ch = tco_walk_match_arms rec' s' ch'"
proof -
  have "rec (tco_arm_shadows s' arm) (last (n_children arm)) = rec' (tco_arm_shadows s' arm) (last (n_children arm))"
    if "arm \<in> set ch'" "is_arm arm" for arm
    by (rule assms(3) [OF that is_arm_last [OF that(2)]])
  then show ?thesis
    unfolding tco_walk_match_arms_def assms(1,2) by (intro list_ex_cong) (auto dest: in_set_dropD)
qed

lemma size_arm_child [termination_simp]:
  assumes "arm \<in> set ch" "is_arm arm" "x \<in> set (n_children arm)"
  shows "size x < Suc (size_list size ch)"
proof -
  have "size x < size arm"
    using assms(2,3) by (cases arm) (auto simp: is_arm_def less_Suc_eq_le size_list_estimation' trans_le_add2)
  moreover have "size arm \<le> size_list size ch" using assms(1) by (simp add: size_list_estimation')
  ultimately show ?thesis by simp
qed

function (sequential) tco_walk_tail :: "string \<Rightarrow> nat \<Rightarrow> shadows \<Rightarrow> node \<Rightarrow> bool" where
  "tco_walk_tail name arity s NULL = False"
| "tco_walk_tail name arity s (Node k a l c nm fl v ch) =
     (case k of
        N_CALL \<Rightarrow> tco_is_self_call name arity s ch
      | N_IF \<Rightarrow>
          (if length ch < 2 then False
           else
             (let has_else = fl AND 1 \<noteq> 0 in
              if tco_walk_tail name arity s (ch ! 1) then True
              else if has_else \<and> length ch \<ge> 3 then tco_walk_tail name arity s (ch ! 2) else False))
      | N_MATCH \<Rightarrow> tco_walk_match_arms (tco_walk_tail name arity) s ch
      | N_BLOCK \<Rightarrow> tco_walk_block_tail (tco_walk_tail name arity) s fl ch
      | _ \<Rightarrow> False)"
  by pat_completeness auto
termination
  by (relation "measure (\<lambda>(name, arity, s, n). size n)")
    (auto simp: less_Suc_eq_le intro: nth_size_le size_list_estimation' less_imp_le [OF size_arm_child] simp del: One_nat_def dest: size_arm_child)

section \<open>Marking\<close>

definition tco_mark_block_tail :: "(shadows \<Rightarrow> node \<Rightarrow> node) \<Rightarrow> shadows \<Rightarrow> nat \<Rightarrow> node list \<Rightarrow> node list" where
  "tco_mark_block_tail rec s fl ch =
     (let has_value = fl AND 1 \<noteq> 0 in
      if \<not> has_value \<or> ch = [] then ch
      else ch[length ch - 1 := rec (tco_block_shadows s ch) (last ch)])"

definition tco_mark_match_arms :: "(shadows \<Rightarrow> node \<Rightarrow> node) \<Rightarrow> shadows \<Rightarrow> node list \<Rightarrow> node list" where
  "tco_mark_match_arms rec s ch =
     take 1 ch @ map (\<lambda>arm. if is_arm arm
        then set_child arm (length (n_children arm) - 1) (rec (tco_arm_shadows s arm) (last (n_children arm)))
        else arm) (drop 1 ch)"

lemma tco_mark_block_tail_cong [fundef_cong]:
  "\<lbrakk>s = s'; fl = fl'; ch = ch'; \<And>x t. x \<in> set ch' \<Longrightarrow> rec t x = rec' t x\<rbrakk>
    \<Longrightarrow> tco_mark_block_tail rec s fl ch = tco_mark_block_tail rec' s' fl' ch'"
  by (simp add: tco_mark_block_tail_def Let_def)

lemma tco_mark_match_arms_cong [fundef_cong]:
  assumes "s = s'" "ch = ch'"
    "\<And>arm x t. arm \<in> set ch' \<Longrightarrow> is_arm arm \<Longrightarrow> x \<in> set (n_children arm) \<Longrightarrow> rec t x = rec' t x"
  shows "tco_mark_match_arms rec s ch = tco_mark_match_arms rec' s' ch'"
proof -
  have "rec (tco_arm_shadows s' arm) (last (n_children arm)) = rec' (tco_arm_shadows s' arm) (last (n_children arm))"
    if "arm \<in> set ch'" "is_arm arm" for arm
    by (rule assms(3) [OF that is_arm_last [OF that(2)]])
  then show ?thesis
    unfolding tco_mark_match_arms_def assms(1,2) by (auto dest: in_set_dropD)
qed

text \<open>\<open>TCO_TAIL_CALL\<close> is the flag 0x1 of a call.\<close>

function (sequential) tco_mark :: "string \<Rightarrow> nat \<Rightarrow> shadows \<Rightarrow> node \<Rightarrow> node" where
  "tco_mark name arity s NULL = NULL"
| "tco_mark name arity s (Node k a l c nm fl v ch) =
     (case k of
        N_CALL \<Rightarrow> (if tco_is_self_call name arity s ch then Node k a l c nm (fl OR 1) v ch
                   else Node k a l c nm fl v ch)
      | N_IF \<Rightarrow>
          (if length ch < 2 then Node k a l c nm fl v ch
           else
             (let has_else = fl AND 1 \<noteq> 0;
                  t = tco_mark name arity s (ch ! 1)
              in if has_else \<and> length ch \<ge> 3
                 then Node k a l c nm fl v (ch[1 := t, 2 := tco_mark name arity s (ch ! 2)])
                 else Node k a l c nm fl v (ch[1 := t])))
      | N_MATCH \<Rightarrow> Node k a l c nm fl v (tco_mark_match_arms (tco_mark name arity) s ch)
      | N_BLOCK \<Rightarrow> Node k a l c nm fl v (tco_mark_block_tail (tco_mark name arity) s fl ch)
      | _ \<Rightarrow> Node k a l c nm fl v ch)"
  by pat_completeness auto
termination
  by (relation "measure (\<lambda>(name, arity, s, n). size n)")
    (auto simp: less_Suc_eq_le intro: nth_size_le size_list_estimation' less_imp_le [OF size_arm_child] simp del: One_nat_def dest: size_arm_child)

end
