(* ===== verification/Kai_Emit_Expr.thy ===== *)
theory Kai_Emit_Expr
  imports Kai_Emit_Scope Kai_Tco
begin

text \<open>
  The expression and statement emitters of \<^verbatim>\<open>stage0/emit.c\<close>. Each takes the emitter of
  sub-expressions \<open>rec\<close> (and \<open>sub\<close> for the tree of an interpolation); \<open>emit_expr\<close> is the
  dispatch, and \<open>emit_tree\<close> ties it. A child the code reads without looking at the number of
  children is read with \<open>with_child\<close>, which records a read that is out of range.
\<close>

definition with_child :: "node \<Rightarrow> nat \<Rightarrow> (node \<Rightarrow> act) \<Rightarrow> act" where
  "with_child n i f e =
     (if n \<noteq> NULL \<and> i < length (n_children n) then f (n_children n ! i) e else set_ub e)"

lemma with_child_cong [fundef_cong]:
  "\<lbrakk>n = n'; i = i'; e = e'; \<And>x e. n' \<noteq> NULL \<Longrightarrow> x \<in> set (n_children n') \<Longrightarrow> f x e = f' x e\<rbrakk>
    \<Longrightarrow> with_child n i f e = with_child n' i' f' e'"
  by (simp add: with_child_def)

text \<open>\<open>\"%.*s\"\<close>\<close>

definition fmt_q :: "string \<Rightarrow> string" where
  "fmt_q s = DQ # fmt_s s @ [DQ]"

section \<open>Operators\<close>

definition binop_fn :: "token_kind \<Rightarrow> string option" where
  "binop_fn op =
     (case op of
        TK_PLUS \<Rightarrow> Some ''kai_op_add''
      | TK_MINUS \<Rightarrow> Some ''kai_op_sub''
      | TK_STAR \<Rightarrow> Some ''kai_op_mul''
      | TK_SLASH \<Rightarrow> Some ''kai_op_div''
      | TK_SLASH_SLASH \<Rightarrow> Some ''kai_op_idiv''
      | TK_PERCENT \<Rightarrow> Some ''kai_op_mod''
      | TK_LT \<Rightarrow> Some ''kai_op_lt''
      | TK_GT \<Rightarrow> Some ''kai_op_gt''
      | TK_LE \<Rightarrow> Some ''kai_op_le''
      | TK_GE \<Rightarrow> Some ''kai_op_ge''
      | TK_EQEQ \<Rightarrow> Some ''kai_op_eq_v''
      | TK_NEQ \<Rightarrow> Some ''kai_op_ne_v''
      | _ \<Rightarrow> None)"

text \<open>\<open>n->v.op\<close>\<close>

definition with_op :: "node \<Rightarrow> (token_kind \<Rightarrow> act) \<Rightarrow> act" where
  "with_op n f e = (case n_val n of V_op op \<Rightarrow> f op e | _ \<Rightarrow> set_ub e)"

definition emit_binop :: "(node \<Rightarrow> act) \<Rightarrow> node \<Rightarrow> act" where
  "emit_binop rec n =
     with_op n (\<lambda>op.
     with_child n 0 (\<lambda>l. with_child n 1 (\<lambda>r.
       if op = TK_AND then
         seq [puts ''({ KaiValue *_a = '', rec l, puts ''; kai_op_truthy(_a) ? '', rec r,
              puts '' : kai_bool(0); })'']
       else if op = TK_OR then
         seq [puts ''({ KaiValue *_a = '', rec l, puts ''; kai_op_truthy(_a) ? kai_bool(1) : '', rec r,
              puts ''; })'']
       else
         (case binop_fn op of
            None \<Rightarrow> bug n ''unknown binop''
          | Some fn \<Rightarrow> seq [puts (fn @ ''(''), rec l, puts '', '', rec r, puts '')'']))))"

definition emit_unop :: "(node \<Rightarrow> act) \<Rightarrow> node \<Rightarrow> act" where
  "emit_unop rec n =
     with_op n (\<lambda>op.
       case (if op = TK_MINUS then Some ''kai_op_neg''
             else if op = TK_NOT then Some ''kai_op_boolnot'' else None) of
         None \<Rightarrow> bug n ''unknown unop''
       | Some fn \<Rightarrow> seq [puts (fn @ ''(''), with_child n 0 rec, puts '')''])"

section \<open>Conditionals, calls, pipes\<close>

definition emit_if :: "(node \<Rightarrow> act) \<Rightarrow> node \<Rightarrow> act" where
  "emit_if rec n =
     seq [puts ''(kai_op_truthy('', with_child n 0 rec, puts '') ? '',
          with_child n 1 rec,
          puts '' : '',
          (if n_flags n AND 1 \<noteq> 0 then with_child n 2 rec else puts ''kai_unit()''),
          puts '')'']"

definition emit_args_with_prepend :: "(node \<Rightarrow> act) \<Rightarrow> node \<Rightarrow> node \<Rightarrow> act" where
  "emit_args_with_prepend rec call prepended =
     seq [puts ''('',
          commas (map rec ((if prepended \<noteq> NULL then [prepended] else [])
                           @ (if call \<noteq> NULL then drop 1 (n_children call) else []))),
          puts '')'']"

definition emit_slot :: "(node \<Rightarrow> act) \<Rightarrow> node \<Rightarrow> act" where
  "emit_slot rec x = seq [puts ''{.ptr = '', rec x, puts ''}'']"

definition emit_variant_construction :: "(node \<Rightarrow> act) \<Rightarrow> string \<Rightarrow> node \<Rightarrow> act" where
  "emit_variant_construction rec name call e =
     (let args = (if call \<noteq> NULL then drop 1 (n_children call) else []);
          vtag = (case find_variant e name of Some (_, t) \<Rightarrow> t | None \<Rightarrow> 0)
      in seq [puts (''kai_variant_u('' @ fmt_nat vtag @ '', '' @ fmt_q name @ '', '' @ fmt_nat (length args) @ '', 0, ''),
              (if args = [] then puts ''NULL)''
               else seq [puts ''(KaiVarSlot[]){'', commas (map (emit_slot rec) args), puts ''})''])] e)"

text \<open>\<open>goto\<close> the entry of the function being emitted, with its parameters bound anew.\<close>

definition fn_params :: "node \<Rightarrow> node list" where
  "fn_params fn = filter (\<lambda>p. p \<noteq> NULL \<and> n_kind p = N_PARAM) (drop 2 (n_children fn))"

definition emit_tco_goto :: "(node \<Rightarrow> act) \<Rightarrow> node \<Rightarrow> act" where
  "emit_tco_goto rec call e =
     (let fn = e_curfn e; args = drop 1 (n_children call); params = fn_params fn in
      seq [puts ''({ '',
           seq (map (\<lambda>(i, a). seq [puts (''KaiValue *_t'' @ fmt_nat i @ '' = ''), rec a, puts ''; ''])
                  (List.enumerate 0 args)),
           seq (map (\<lambda>p e.
                  if single_use (lu_lookup e (Some (n_id p))) then e
                  else puts (''{ KaiValue *_ = kai_internal_drop(kai_'' @ fmt_s (n_name p) @ ''); (void) _; } '') e)
                  params),
           seq (map (\<lambda>(i, p). puts (''kai_'' @ fmt_s (n_name p) @ '' = _t'' @ fmt_nat i @ ''; ''))
                  (List.enumerate 0 params)),
           puts (''goto _kai_'' @ fmt_s (n_name fn) @ ''_entry; (KaiValue *)0; })'')] e)"

definition emit_apply_args :: "(node \<Rightarrow> act) \<Rightarrow> node list \<Rightarrow> act" where
  "emit_apply_args rec args =
     seq [puts ('', '' @ fmt_nat (length args) @ '', (KaiValue *[]){''), commas (map rec args), puts ''})'']"

definition emit_call :: "(node \<Rightarrow> act) \<Rightarrow> node \<Rightarrow> act" where
  "emit_call rec n e =
     (if n_flags n AND 1 \<noteq> 0 \<and> e_curfn e \<noteq> NULL then emit_tco_goto rec n e
      else
        with_child n 0 (\<lambda>callee e.
          let args = drop 1 (n_children n) in
          if callee \<noteq> NULL \<and> n_kind callee = N_IDENT then
            (if find_variant e (n_name callee) \<noteq> None then emit_variant_construction rec (n_name callee) n e
             else
               (let (handled, e) = emit_ident_callee (n_name callee) e in
                if handled then emit_args_with_prepend rec n NULL e
                else
                  seq [puts ''kai_apply('', emit_ident_value (n_name callee), emit_apply_args rec args] e))
          else seq [puts ''kai_apply('', rec callee, emit_apply_args rec args] e) e)"

definition emit_pipe_into_call :: "(node \<Rightarrow> act) \<Rightarrow> node \<Rightarrow> node \<Rightarrow> act" where
  "emit_pipe_into_call rec lhs rhs =
     with_child rhs 0 (\<lambda>callee e.
       let args = drop 1 (n_children rhs);
           apply = (\<lambda>e. seq [puts ''kai_apply('', rec callee, emit_apply_args rec (lhs # args)] e)
       in if callee \<noteq> NULL \<and> n_kind callee = N_IDENT then
            (case find_variant e (n_name callee) of
               Some (arity, vtag) \<Rightarrow>
                 seq [puts (''kai_variant_u('' @ fmt_nat vtag @ '', '' @ fmt_q (n_name callee) @ '', ''
                            @ fmt_nat (length (n_children rhs)) @ '', 0, (KaiVarSlot[]){''),
                      commas (map (emit_slot rec) (lhs # args)), puts ''})''] e
             | None \<Rightarrow>
                 (let (handled, e) = emit_ident_callee (n_name callee) e in
                  if handled then emit_args_with_prepend rec rhs lhs e else apply e))
          else apply e)"

definition emit_pipe :: "(node \<Rightarrow> act) \<Rightarrow> node \<Rightarrow> act" where
  "emit_pipe rec n =
     with_child n 0 (\<lambda>lhs. with_child n 1 (\<lambda>rhs e.
       if rhs \<noteq> NULL \<and> n_kind rhs = N_CALL then emit_pipe_into_call rec lhs rhs e
       else if rhs \<noteq> NULL \<and> n_kind rhs = N_IDENT then
         (let (handled, e) = emit_ident_callee (n_name rhs) e in
          if handled then seq [puts ''('', rec lhs, puts '')''] e
          else seq [puts ''kai_apply('', rec rhs, puts '', 1, (KaiValue *[]){'', rec lhs, puts ''})''] e)
       else bug n ''|> right side must be a call or function name'' e))"

section \<open>Ranges, lists, records\<close>

definition emit_range :: "(node \<Rightarrow> act) \<Rightarrow> node \<Rightarrow> act" where
  "emit_range rec n =
     (let has_step = n_flags n AND 1 \<noteq> 0 in
      if has_step then
        seq [puts ''kai_range_step('', with_child n 0 rec, puts '', '', with_child n 1 rec, puts '', '',
             with_child n 2 rec, puts '')'']
      else seq [puts ''kai_range('', with_child n 0 rec, puts '', '', with_child n 1 rec, puts '')''])"

fun emit_list_tail :: "(node \<Rightarrow> act) \<Rightarrow> node list \<Rightarrow> act" where
  "emit_list_tail rec [] = puts ''kai_nil()''"
| "emit_list_tail rec (elt # rest) =
     (if elt \<noteq> NULL \<and> n_kind elt = N_SPREAD then
        (if rest = [] then seq [puts ''kai_incref('', with_child elt 0 rec, puts '')'']
         else seq [puts ''kai_core_list_append('', with_child elt 0 rec, puts '', '',
                   emit_list_tail rec rest, puts '')''])
      else seq [puts ''kai_cons('', rec elt, puts '', '', emit_list_tail rec rest, puts '')''])"

definition emit_list :: "(node \<Rightarrow> act) \<Rightarrow> node \<Rightarrow> act" where
  "emit_list rec n = emit_list_tail rec (n_children n)"

definition emit_record_lit :: "(node \<Rightarrow> act) \<Rightarrow> node \<Rightarrow> act" where
  "emit_record_lit rec n =
     seq [puts (''kai_record('' @ fmt_nat (length (n_children n)) @ '', (KaiValue *[]){''),
          commas (map (\<lambda>fi. with_child fi 0 rec) (n_children n)),
          puts ''}, (const char *[]){'',
          commas (map (\<lambda>fi. puts (fmt_q (n_name fi))) (n_children n)),
          puts ''})'']"

definition emit_field_access :: "(node \<Rightarrow> act) \<Rightarrow> node \<Rightarrow> act" where
  "emit_field_access rec n =
     seq [puts ''kai_op_field('', with_child n 0 rec, puts ('', '' @ fmt_q (n_name n) @ '')'')]"

end
