(* ===== verification/Kai_Emit_Stmt.thy ===== *)
theory Kai_Emit_Stmt
  imports Kai_Emit_Expr
begin

text \<open>
  The second half of the emitter of \<^verbatim>\<open>stage0/emit.c\<close>: pattern tests and bindings, \<open>match\<close>,
  string literals with their interpolations, lambdas, statements, and \<open>emit_expr\<close>. The paths
  the pattern emitters build in \<open>char[512]\<close> buffers are cut as \<open>snprintf\<close> cuts them.
\<close>

section \<open>Patterns\<close>

text \<open>The path \<open>cur\<close> after \<open>i\<close> steps along a list, and the paths of its head.\<close>

primrec tail_path :: "string \<Rightarrow> nat \<Rightarrow> string" where
  "tail_path scr 0 = buf512 scr"
| "tail_path scr (Suc i) = buf512 (tail_path scr i @ ''->as.cons.tail'')"

definition head_path :: "string \<Rightarrow> nat \<Rightarrow> string" where
  "head_path scr i = buf512 (tail_path scr i @ ''->as.cons.head'')"

definition slot_path :: "string \<Rightarrow> nat \<Rightarrow> string" where
  "slot_path scr i = buf512 (''kai_var_slots('' @ scr @ '')['' @ fmt_nat i @ ''].ptr'')"

text \<open>The sub-patterns before the rest, \<open>n_fixed\<close> of them.\<close>

definition n_fixed :: "nat \<Rightarrow> node list \<Rightarrow> nat" where
  "n_fixed fl ch = (if fl AND 1 \<noteq> 0 then length ch - 1 else length ch)"

lemma n_fixed_le: "i < n_fixed fl ch \<Longrightarrow> i < length ch"
  by (auto simp: n_fixed_def split: if_splits)

lemma size_nth_fixed [termination_simp]:
  "i < n_fixed fl ch \<Longrightarrow> size (ch ! i) < Suc (size_list size ch)"
  by (simp add: n_fixed_le nth_mem_size)

lemma size_nth_child [termination_simp]:
  assumes "i < length ch" "x \<in> set (n_children (ch ! i))" "ch ! i \<noteq> NULL"
  shows "size x < Suc (size_list size ch)"
proof -
  have "size x < size (ch ! i)"
    using assms(2,3) by (cases "ch ! i") (auto simp: less_Suc_eq_le size_list_estimation' trans_le_add2)
  also have "\<dots> < Suc (size_list size ch)" using assms(1) by (rule nth_mem_size)
  finally show ?thesis .
qed

fun emit_pat_test :: "(node \<Rightarrow> act) \<Rightarrow> node \<Rightarrow> string \<Rightarrow> act" where
  "emit_pat_test rec NULL scr e = set_ub e"
| "emit_pat_test rec (Node k a l c nm fl v ch) scr e =
     (case k of
        N_PAT_WILD \<Rightarrow> puts ''1'' e
      | N_PAT_BIND \<Rightarrow> puts ''1'' e
      | N_PAT_LIT \<Rightarrow>
          seq [puts (''kai_op_eq('' @ scr @ '', ''), with_child (Node k a l c nm fl v ch) 0 rec, puts '')''] e
      | N_PAT_LIST \<Rightarrow>
          (let has_rest = fl AND 1 \<noteq> 0; n = n_fixed fl ch in
           if has_rest \<and> ch = [] then set_ub e
           else if n = 0 \<and> \<not> has_rest then puts (''('' @ scr @ '' && '' @ scr @ ''->tag == KAI_NIL)'') e
           else
             seq [puts ''('',
                  seq (map (\<lambda>i e.
                         let cur = tail_path scr i;
                             e = (if i > 0 then puts '' && '' e else e);
                             e = puts (cur @ '' && '' @ cur @ ''->tag == KAI_CONS && '') e
                         in emit_pat_test rec (ch ! i) (head_path scr i) e) [0..<n]),
                  (if has_rest then id
                   else (let cur = tail_path scr n in
                         seq [(if n > 0 then puts '' && '' else id),
                              puts (cur @ '' && '' @ cur @ ''->tag == KAI_NIL'')])),
                  puts '')''] e)
      | N_PAT_VARIANT \<Rightarrow>
          seq [puts (''('' @ scr @ '' && '' @ scr @ ''->tag == KAI_VARIANT && strcmp(kai_variant_name_of(''
                     @ scr @ ''->variant_tag), '' @ fmt_q nm @ '') == 0''),
               seq (map (\<lambda>i e. emit_pat_test rec (ch ! i) (slot_path scr i) (puts '' && '' e))
                     [0..<length ch]),
               puts '')''] e
      | N_PAT_RECORD \<Rightarrow>
          seq [puts (''('' @ scr @ '' && '' @ scr @ ''->tag == KAI_RECORD''),
               seq (map (\<lambda>i e.
                      let pf = ch ! i;
                          tmp = buf512 (''kai_op_field_borrow('' @ scr @ '', '' @ fmt_q (n_name pf) @ '')'');
                          e = puts '' && ('' e;
                          e = with_child pf 0 (\<lambda>p. emit_pat_test rec p tmp) e
                      in puts '')'' e) [0..<length ch]),
               puts '')''] e
      | _ \<Rightarrow> puts ''0'' (bug (Node k a l c nm fl v ch) (nk_name k) e))"

fun emit_pat_binds :: "node \<Rightarrow> string \<Rightarrow> bool \<Rightarrow> act" where
  "emit_pat_binds NULL scr is_alias e = set_ub e"
| "emit_pat_binds (Node k a l c nm fl v ch) scr is_alias e =
     (case k of
        N_PAT_WILD \<Rightarrow> e
      | N_PAT_LIT \<Rightarrow> e
      | N_PAT_BIND \<Rightarrow>
          (if is_alias then puts (''KaiValue *kai_'' @ fmt_s nm @ '' = kai_incref('' @ scr @ ''); '') e
           else puts (''KaiValue *kai_'' @ fmt_s nm @ '' = '' @ scr @ ''; '') e)
      | N_PAT_LIST \<Rightarrow>
          (let has_rest = fl AND 1 \<noteq> 0; n = n_fixed fl ch in
           if has_rest \<and> ch = [] then set_ub e
           else
             (let e = seq (map (\<lambda>i. emit_pat_binds (ch ! i) (head_path scr i) True) [0..<n]) e
              in if has_rest then emit_pat_binds (ch ! (length ch - 1)) (tail_path scr n) True e else e))
      | N_PAT_VARIANT \<Rightarrow>
          seq (map (\<lambda>i. emit_pat_binds (ch ! i) (slot_path scr i) True) [0..<length ch]) e
      | N_PAT_RECORD \<Rightarrow>
          seq (map (\<lambda>i e.
                 let pf = ch ! i;
                     tmp = buf512 (''kai_op_field('' @ scr @ '', '' @ fmt_q (n_name pf) @ '')'')
                 in with_child pf 0 (\<lambda>p. emit_pat_binds p tmp False) e) [0..<length ch]) e
      | _ \<Rightarrow> e)"

section \<open>Match\<close>

definition emit_arm :: "(node \<Rightarrow> act) \<Rightarrow> node \<Rightarrow> act" where
  "emit_arm rec arm e =
     (case arm_parts arm of
        None \<Rightarrow> set_ub e
      | Some (pat, guard, body) \<Rightarrow>
          seq [puts ''    if ('', emit_pat_test rec pat ''_scr'', puts '') { '',
               ls_push_mark,
               emit_pat_binds pat ''_scr'' True,
               pat_add_locals pat,
               (if n_flags arm AND 1 \<noteq> 0 then
                  seq [puts ''if (kai_op_truthy('', rec guard, puts '')) { _r = '', rec body,
                       puts ''; break; } } '']
                else seq [puts ''_r = '', rec body, puts (''; break; }'' @ [NL])]),
               ls_pop_mark] e)"

definition emit_match :: "(node \<Rightarrow> act) \<Rightarrow> node \<Rightarrow> act" where
  "emit_match rec m =
     seq [puts ''({ KaiValue *_scr = '', with_child m 0 rec,
          puts (''; KaiValue *_r = kai_unit(); do {'' @ [NL]),
          seq (map (emit_arm rec) (drop 1 (n_children m))),
          puts (''    kai_core_panic(kai_str('' @ fmt_q ''non-exhaustive match'' @ ''));'' @ [NL]),
          puts ''} while (0); kai_decref(_scr); _r; })'']"

section \<open>String literals\<close>

datatype part = Part_lit nat nat | Part_expr string

function string_parts :: "string \<Rightarrow> nat \<Rightarrow> nat \<Rightarrow> nat \<Rightarrow> part list" where
  "string_parts src end lit_start i =
     (if i < end then
        (if byte_at src i = CHR ''#'' \<and> i + 1 < end \<and> byte_at src (i + 1) = CHR ''{'' then
           (let lit = (if i > lit_start then [Part_lit lit_start i] else []);
                expr_start = i + 2;
                i = scan_interp_expr src end 1 expr_start;
                next = (if i < end then i + 1 else i)
            in lit @ Part_expr (slice src expr_start i) # string_parts src end next next)
         else string_parts src end lit_start (Suc i))
      else (if lit_start < end then [Part_lit lit_start end] else []))"
  by pat_completeness auto
termination
proof (relation "measure (\<lambda>(src, end, lit_start, i). end - i)", goal_cases)
  case (2 src "end" lit_start i)
  then show ?case using scan_interp_expr_ge [of "i + 2" src "end" 1] by auto
qed auto

declare string_parts.simps [simp del]

definition write_c_string_slice :: "string \<Rightarrow> nat \<Rightarrow> nat \<Rightarrow> act" where
  "write_c_string_slice src first end = puts (DQ # slice src first end @ [DQ])"

definition emit_interp :: "(node \<Rightarrow> act) \<Rightarrow> node \<Rightarrow> string \<Rightarrow> act" where
  "emit_interp sub s text e0 =
     (case interp_tree text e0 of
        (None, e) \<Rightarrow>
          seq [bug s ''failed to parse interpolation'', puts (''kai_str('' @ [DQ, DQ] @ '')'')] e
      | (Some en, e) \<Rightarrow>
          kai_free_node (e_heap e0) (length (e_lams e0))
            (seq [collect_lambdas en, puts ''kai_to_string('', sub en, puts '')''] e))"

definition emit_part :: "(node \<Rightarrow> act) \<Rightarrow> node \<Rightarrow> part \<Rightarrow> act" where
  "emit_part sub s p =
     (case p of
        Part_expr text \<Rightarrow> emit_interp sub s text
      | Part_lit a b \<Rightarrow> seq [puts ''kai_str('', write_c_string_slice (n_name s) a b, puts '')''])"

text \<open>\<open>parts\<close> is an array of 64.\<close>

definition emit_string_expr :: "(node \<Rightarrow> act) \<Rightarrow> node \<Rightarrow> act" where
  "emit_string_expr sub s e =
     (case str_span s of
        None \<Rightarrow> set_ub e
      | Some (first, end) \<Rightarrow>
          (let parts = string_parts (n_name s) end first first in
           if length parts > 64 then set_ub e
           else if parts = [] then puts (''kai_str('' @ [DQ, DQ] @ '')'') e
           else
             seq [seq (replicate (length parts - 1) (puts ''kai_string_concat('')),
                  emit_part sub s (hd parts),
                  seq (map (\<lambda>p. seq [puts '', '', emit_part sub s p, puts '')'']) (tl parts))] e))"

section \<open>Lambdas\<close>

definition emit_lambda_ref :: "node \<Rightarrow> act" where
  "emit_lambda_ref lam e =
     (case find_lam_info e lam of
        None \<Rightarrow> bug lam ''unregistered lambda'' e
      | Some info \<Rightarrow>
          seq [puts (''kai_closure(&_kai_lam_'' @ fmt_nat (l_id info) @ '', ''
                     @ fmt_nat (length (n_children lam) - 1) @ '', '' @ fmt_nat (length (l_caps info)) @ '', ''),
               (if l_caps info = [] then puts ''NULL)''
                else seq [puts ''(KaiValue *[]){'', commas (map (\<lambda>c. puts (''kai_'' @ fmt_s c)) (l_caps info)),
                          puts ''})''])] e)"

section \<open>Statements\<close>

definition emit_let :: "(node \<Rightarrow> act) \<Rightarrow> node \<Rightarrow> act" where
  "emit_let rec n =
     with_child n 0 (\<lambda>pat. with_child n 2 (\<lambda>val.
       if pat \<noteq> NULL \<and> n_kind pat = N_PAT_BIND then
         seq [puts (''KaiValue *kai_'' @ fmt_s (n_name pat) @ '' = ''), rec val, puts '';'',
              ls_add (n_name pat) (Some (n_id pat))]
       else
         seq [puts ''KaiValue *_letv = '', rec val, puts ''; '',
              emit_pat_binds pat ''_letv'' False, pat_add_locals pat]))"

definition emit_test_desc :: act where
  "emit_test_desc e = puts (case e_desc e of Some d \<Rightarrow> fmt_s d | None \<Rightarrow> [DQ, DQ]) e"

definition emit_assert :: "(node \<Rightarrow> act) \<Rightarrow> node \<Rightarrow> act" where
  "emit_assert rec n e =
     (let has_msg = n_flags n AND 1 \<noteq> 0; msg = fmt_q ''assertion failed'' in
      if \<not> e_test e then
        seq [puts ''{ KaiValue *_c = '', with_child n 0 rec,
             puts (''; if (!kai_op_truthy(_c)) { kai_core_panic(kai_str('' @ msg @ '')); } }'')] e
      else
        seq [puts ''{ KaiValue *_c = '', with_child n 0 rec,
             (if has_msg then
                seq [puts ''; if (!kai_op_truthy(_c)) { KaiValue *_m = '', with_child n 1 rec,
                     puts ''; kai_test_fail('', emit_test_desc,
                     puts ('', (_m && _m->tag == KAI_STR) ? _m->as.s.bytes : '' @ msg @ ''); return; } }'')]
              else
                seq [puts ''; if (!kai_op_truthy(_c)) { kai_test_fail('', emit_test_desc,
                     puts ('', '' @ msg @ ''); return; } }'')])] e)"

definition emit_stmt :: "(node \<Rightarrow> act) \<Rightarrow> node \<Rightarrow> act" where
  "emit_stmt rec n e =
     (if n = NULL then e
      else if n_kind n = N_LET then emit_let rec n e
      else if n_kind n = N_ASSERT then emit_assert rec n e
      else if n_kind n = N_EXPR_STMT then
        seq [puts ''{ KaiValue *_ = '', with_child n 0 rec, puts ''; (void) _; }''] e
      else seq [puts ''{ KaiValue *_ = '', rec n, puts ''; (void) _; }''] e)"

definition emit_block :: "(node \<Rightarrow> act) \<Rightarrow> node \<Rightarrow> act" where
  "emit_block rec n =
     (let ch = n_children n; stmts = butlast ch; has_value = n_flags n AND 1 \<noteq> 0;
          value = (if ch = [] then puts ''kai_unit()'' else rec (last ch))
      in if stmts = [] \<and> has_value then value
         else
           seq [puts ''({ '', ls_push_mark,
                seq (map (\<lambda>s. seq [emit_stmt rec s, puts '' '']) stmts),
                (if has_value then seq [value, puts ''; ''] else puts ''kai_unit(); ''),
                ls_pop_mark, puts ''})''])"

section \<open>Expressions\<close>

definition emit_expr :: "(node \<Rightarrow> act) \<Rightarrow> (node \<Rightarrow> act) \<Rightarrow> node \<Rightarrow> act" where
  "emit_expr sub rec n e =
     (if n = NULL then puts ''kai_unit()'' e
      else
        (case n_kind n of
           N_UNIT \<Rightarrow> puts ''kai_unit()'' e
         | N_BOOL \<Rightarrow>
             (case n_val n of
                V_bool b \<Rightarrow> puts (''kai_bool('' @ fmt_nat (if b then 1 else 0) @ '')'') e
              | _ \<Rightarrow> set_ub e)
         | N_INT \<Rightarrow>
             (case n_val n of V_int i \<Rightarrow> puts (''kai_int('' @ fmt_lld i @ ''LL)'') e | _ \<Rightarrow> set_ub e)
         | N_REAL \<Rightarrow>
             (case n_val n of V_real r \<Rightarrow> puts (''kai_real('' @ e_g17 e r @ '')'') e | _ \<Rightarrow> set_ub e)
         | N_CHAR \<Rightarrow>
             (case n_val n of V_char c \<Rightarrow> puts (''kai_char(0x'' @ fmt_08X c @ '')'') e | _ \<Rightarrow> set_ub e)
         | N_STRING \<Rightarrow> emit_string_expr sub n e
         | N_IDENT \<Rightarrow> emit_ident_value (n_name n) e
         | N_CALL \<Rightarrow> emit_call rec n e
         | N_PIPE \<Rightarrow> emit_pipe rec n e
         | N_BINOP \<Rightarrow> emit_binop rec n e
         | N_UNOP \<Rightarrow> emit_unop rec n e
         | N_IF \<Rightarrow> emit_if rec n e
         | N_RANGE_LIT \<Rightarrow> emit_range rec n e
         | N_LIST_LIT \<Rightarrow> emit_list rec n e
         | N_MATCH \<Rightarrow> emit_match rec n e
         | N_RECORD_LIT \<Rightarrow> emit_record_lit rec n e
         | N_FIELD \<Rightarrow> emit_field_access rec n e
         | N_LAMBDA \<Rightarrow> emit_lambda_ref n e
         | N_BLOCK \<Rightarrow> emit_block rec n e
         | N_PLACEHOLDER \<Rightarrow>
             puts ''kai_unit()''
               (bug n (''placeholder `.` '' @ map char_of [226, 128, 148 :: nat]
                       @ '' use explicit `x => expr` in stage 0'') e)
         | _ \<Rightarrow> puts ''kai_unit()'' (bug n (nk_name (n_kind n)) e)))"

definition emit_tree :: "node \<Rightarrow> act" where
  "emit_tree n = knot_at emit_expr set_spent (Suc (string_bound n)) n"

end
