(* ===== verification/Kai_Emit.thy ===== *)
theory Kai_Emit
  imports Kai_Emit_Stmt
begin

text \<open>
  Functions, tests and the whole program: the last part of \<^verbatim>\<open>stage0/emit.c\<close>, ending in
  \<open>kai_emit\<close>. The marks of the tail-call pass are set in the body that is emitted.
\<close>

section \<open>Lambda bodies\<close>

text \<open>The helper of a lambda whose tree was freed with its interpolation reads freed memory: \<open>e_ub\<close>.\<close>

definition emit_lambda_helper_def :: "lam_info \<Rightarrow> act" where
  "emit_lambda_helper_def info e =
     (if l_freed info then set_ub e
      else
        (let lam = l_lam info; params = drop 1 (n_children lam) in
         seq [puts (''static KaiValue *_kai_lam_'' @ fmt_nat (l_id info)
                    @ ''(KaiValue *self, KaiValue **args, int n) {'' @ [NL]),
              puts (''    (void) self; (void) n;'' @ [NL]),
              ls_push_mark,
              seq (map (\<lambda>(i, p). seq [
                     puts (''    KaiValue *kai_'' @ fmt_s (n_name p) @ '' = args['' @ fmt_nat i @ ''];'' @ [NL]),
                     ls_add (n_name p) None]) (List.enumerate 0 params)),
              seq (map (\<lambda>(i, c). seq [
                     puts (''    KaiValue *kai_'' @ fmt_s c @ '' = self->as.clo.captures['' @ fmt_nat i @ ''];'' @ [NL]),
                     ls_add c None]) (List.enumerate 0 (l_caps info))),
              puts ''    return '',
              with_child lam 0 emit_tree,
              puts ('';'' @ [NL] @ ''}'' @ [NL, NL]),
              ls_pop_mark] e))"

text \<open>
  The loop up to \<open>e->n_lams\<close>, which the body of a lambda may raise: what it adds are lambdas
  of interpolations, already freed, whose helpers register no others.
\<close>

definition emit_lambda_helpers :: act where
  "emit_lambda_helpers e =
     (let n = length (e_lams e);
          e = fold (\<lambda>i e. emit_lambda_helper_def (e_lams e ! i) e) [0..<n] e
      in fold (\<lambda>i e. emit_lambda_helper_def (e_lams e ! i) e) [n..<length (e_lams e)] e)"

section \<open>Functions\<close>

definition emit_fn_signature :: "node \<Rightarrow> act" where
  "emit_fn_signature fn =
     seq [puts (''static KaiValue *kai_'' @ fmt_s (n_name fn) @ ''(''),
          commas (map (\<lambda>p. puts (''KaiValue *kai_'' @ fmt_s (n_name p))) (fn_params fn)),
          (if fn_params fn = [] then puts ''void'' else id),
          puts '')'']"

definition set_curfn :: "node \<Rightarrow> act" where
  "set_curfn fn e = e\<lparr>e_curfn := fn\<rparr>"

definition add_fn_params :: "node list \<Rightarrow> act" where
  "add_fn_params ps =
     seq (map (\<lambda>p. seq [ls_add (n_name p) (Some (n_id p)), lu_add (n_id p) (n_name p)]) ps)"

definition emit_fn_body :: "node \<Rightarrow> act" where
  "emit_fn_body fn =
     seq [emit_fn_signature fn,
          with_child fn 1 (\<lambda>body.
            let arity = length (fn_params fn);
                has_tco = tco_walk_tail (n_name fn) arity [] body;
                body = (if has_tco then tco_mark (n_name fn) arity [] body else body)
            in seq [
              (if has_tco
               then puts ('' {'' @ [NL] @ ''    _kai_'' @ fmt_s (n_name fn) @ ''_entry:;'' @ [NL] @ ''    return '')
               else puts ('' {'' @ [NL] @ ''    return '')),
              set_curfn fn, ls_push_mark, lu_clear,
              add_fn_params (fn_params fn),
              count_uses body False,
              emit_tree body,
              ls_pop_mark, set_curfn NULL]),
          puts ('';'' @ [NL] @ ''}'' @ [NL, NL])]"

definition emit_fn_thunk :: "node \<Rightarrow> act" where
  "emit_fn_thunk fn =
     seq [puts (''static KaiValue *_kai_'' @ fmt_s (n_name fn) @ ''_thunk(KaiValue *self, KaiValue **args, int n) {''
                @ [NL] @ ''    (void) self; (void) n;'' @ [NL] @ ''    return kai_'' @ fmt_s (n_name fn) @ ''(''),
          commas (map (\<lambda>i. puts (''args['' @ fmt_nat i @ '']'')) [0..<length (fn_params fn)]),
          puts ('');'' @ [NL] @ ''}'' @ [NL, NL])]"

definition has_main :: "node \<Rightarrow> bool" where
  "has_main prog = list_ex (\<lambda>d. d \<noteq> NULL \<and> n_kind d = N_FN \<and> n_name d = ''main'') (n_children prog)"

definition set_desc :: "string option \<Rightarrow> act" where
  "set_desc d e = e\<lparr>e_desc := d\<rparr>"

definition emit_test_fn :: "nat \<Rightarrow> node \<Rightarrow> act" where
  "emit_test_fn k t =
     seq [set_desc (Some (n_name t)),
          puts (''static void _kai_test_'' @ fmt_nat k @ ''(void) {'' @ [NL]),
          puts (''    kai_test_begin('' @ fmt_s (n_name t) @ '');'' @ [NL]),
          puts ''    KaiValue *_body = '',
          ls_push_mark,
          (if n_children t \<noteq> [] then emit_tree (n_children t ! 0) else puts ''kai_unit()''),
          ls_pop_mark,
          puts ('';'' @ [NL]),
          puts (''    kai_decref(_body);'' @ [NL]),
          puts (''    kai_test_pass();'' @ [NL]),
          puts (''}'' @ [NL, NL]),
          set_desc None]"

section \<open>Registration\<close>

definition register_top_level_fns :: "node \<Rightarrow> act" where
  "register_top_level_fns prog e =
     fold (\<lambda>d e. if d \<noteq> NULL \<and> n_kind d = N_FN
                 then e\<lparr>e_fns := reg_entry (n_name d) (length (fn_params d)) 0 (e_fns e)\<rparr>
                 else e) (n_children prog) e"

definition register_builtin_variants :: act where
  "register_builtin_variants e =
     fold (\<lambda>(n, a, t) e. e\<lparr>e_variants := reg_entry n a t (e_variants e)\<rparr>) builtin_variants e"

definition register_variants_of :: "node list \<Rightarrow> nat \<times> emitter \<Rightarrow> nat \<times> emitter" where
  "register_variants_of vs s =
     fold (\<lambda>v (next_tag, e).
             if v \<noteq> NULL \<and> n_kind v = N_VARIANT
             then (next_tag + 1,
                   e\<lparr>e_variants := reg_entry (n_name v) (length (n_children v)) next_tag (e_variants e)\<rparr>)
             else (next_tag, e)) vs s"

definition register_user_variants :: "node \<Rightarrow> act" where
  "register_user_variants prog e =
     snd (fold (\<lambda>d s.
            if d = NULL \<or> n_kind d \<noteq> N_TYPE_DECL \<or> n_children d = [] then s
            else
              (let body = n_children d ! 0 in
               if body = NULL \<or> n_kind body \<noteq> N_TY_SUM then s
               else register_variants_of (n_children body) s))
          (n_children prog) (KAI_USER_VARIANT_TAG_BASE, e))"

definition collect_all_lambdas :: "node \<Rightarrow> act" where
  "collect_all_lambdas prog =
     seq (map (\<lambda>d. if d = NULL then id
                   else if n_kind d = N_FN then with_child d 1 collect_lambdas
                   else if n_kind d = N_TEST \<and> n_children d \<noteq> [] then collect_lambdas (n_children d ! 0)
                   else id) (n_children prog))"

section \<open>The program\<close>

definition fns_of :: "node \<Rightarrow> node list" where
  "fns_of prog = filter (\<lambda>d. d \<noteq> NULL \<and> n_kind d = N_FN) (n_children prog)"

definition tests_of :: "node \<Rightarrow> node list" where
  "tests_of prog = filter (\<lambda>d. d \<noteq> NULL \<and> n_kind d = N_TEST) (n_children prog)"

definition emit_main :: "node \<Rightarrow> bool \<Rightarrow> act" where
  "emit_main prog test_mode =
     (if test_mode then
        seq [puts (''int main(int argc, char **argv) {'' @ [NL] @ ''    kai_set_args(argc, argv);'' @ [NL]),
             seq (map (\<lambda>i. puts (''    _kai_test_'' @ fmt_nat i @ ''();'' @ [NL])) [0..<length (tests_of prog)]),
             puts (''    return kai_test_summary();'' @ [NL] @ ''}'' @ [NL])]
      else if has_main prog then
        puts (''int main(int argc, char **argv) {'' @ [NL]
              @ ''    kai_set_args(argc, argv);'' @ [NL]
              @ ''    KaiValue *_result = kai_main();'' @ [NL]
              @ ''    int _status = kai_main_exit_status(_result);'' @ [NL]
              @ ''    kai_decref(_result);'' @ [NL]
              @ ''    return _status;'' @ [NL]
              @ ''}'' @ [NL])
      else id)"

definition emit_forward_decls :: "node \<Rightarrow> act" where
  "emit_forward_decls prog =
     seq [seq (map (\<lambda>d. seq [emit_fn_signature d, puts ('';'' @ [NL])]) (fns_of prog)),
          puts [NL],
          seq (map (\<lambda>d. puts (''static KaiValue *_kai_'' @ fmt_s (n_name d)
                              @ ''_thunk(KaiValue *, KaiValue **, int);'' @ [NL])) (fns_of prog)),
          puts [NL],
          (\<lambda>e. seq (map (\<lambda>i. puts (''static KaiValue *_kai_lam_'' @ fmt_nat (l_id i)
                              @ ''(KaiValue *, KaiValue **, int);'' @ [NL])) (e_lams e)) e),
          puts [NL]]"

text \<open>What the caller and the platform fix: \<open>heap\<close> is the next address after the program's tree.\<close>

definition emit_init :: "bool \<Rightarrow> nat \<Rightarrow> bool \<Rightarrow> bool \<Rightarrow> (string \<Rightarrow> string) \<Rightarrow> emitter" where
  "emit_init test_mode heap reuse rtl g17 =
     \<lparr>e_out = [], e_err = False, e_log = [], e_test = test_mode, e_desc = None,
      e_fns = [], e_variants = [], e_lams = [], e_locals = [], e_marks = [], e_uses = [],
      e_curfn = NULL, e_heap = heap, e_reuse = reuse, e_rtl = rtl, e_g17 = g17,
      e_ub = False, e_spent = False\<rparr>"

definition kai_emit_run :: "node \<Rightarrow> emitter \<Rightarrow> emitter" where
  "kai_emit_run program e =
     seq [register_top_level_fns program,
          register_builtin_variants,
          register_user_variants program,
          collect_all_lambdas program,
          puts (''/* generated by kaikai-minimal stage 0 */'' @ [NL]),
          puts (''#include '' @ fmt_q ''runtime.h'' @ [NL, NL]),
          emit_forward_decls program,
          seq (map (\<lambda>d. seq [emit_fn_body d, emit_fn_thunk d]) (fns_of program)),
          emit_lambda_helpers,
          seq (map (\<lambda>(i, t). emit_test_fn i t) (List.enumerate 0 (tests_of program))),
          emit_main program (e_test e)] e"

definition kai_emit :: "node \<Rightarrow> emitter \<Rightarrow> string \<times> nat" where
  "kai_emit program e =
     (let e = kai_emit_run program e in (e_out e, if e_err e then 1 else 0))"

end
