(* ===== verification/Kai_Emit_Pass.thy ===== *)
theory Kai_Emit_Pass
  imports Kai_Emit "HOL-Library.Sublist"
begin

text \<open>
  What the three passes over a tree (use counting, capture analysis, emission) have in common:
  the scope stack comes back as it was, the tables are not touched, and the recursion through
  interpolations ends within the fuel. The locale \<open>emitter_pass\<close> takes the part of the state a
  pass may change as a relation; each pass interprets it.
\<close>

named_theorems stays_intros

section \<open>Fuel\<close>

lemma fold_max_le: "fold max xs a \<le> (c :: nat) \<longleftrightarrow> a \<le> c \<and> (\<forall>x\<in>set xs. x \<le> c)"
  by (induction xs arbitrary: a) auto

lemma string_bound_le:
  "string_bound (Node k a l c nm fl v ch) \<le> m \<longleftrightarrow>
     (k = N_STRING \<longrightarrow> length nm \<le> m) \<and> (\<forall>x\<in>set ch. string_bound x \<le> m)"
  by (simp add: fold_max_le)

declare string_bound.simps(2) [simp del]

lemma string_bound_wf_in: "wf_in src n \<Longrightarrow> string_bound n \<le> length src"
  by (induction n) (auto simp: string_bound_le)

text \<open>The nodes below \<open>n\<close>, as the recursion sees them.\<close>

definition below :: "node \<Rightarrow> node \<Rightarrow> bool" where
  "below m n \<longleftrightarrow> size m < size n \<and> string_bound m \<le> string_bound n"

lemma below_trans: "below l m \<Longrightarrow> below m n \<Longrightarrow> below l n"
  by (auto simp: below_def)

lemma below_child: "n \<noteq> NULL \<Longrightarrow> x \<in> set (n_children n) \<Longrightarrow> below x n"
proof (cases n)
  case (Node k a l c nm fl v ch)
  assume x: "x \<in> set (n_children n)"
  have "string_bound x \<le> string_bound n"
    using string_bound_le [of k a l c nm fl v ch "string_bound n"] x Node by simp
  then show ?thesis
    using x Node by (auto simp: below_def less_Suc_eq_le size_list_estimation' trans_le_add2)
qed simp

lemma string_bound_string: "n \<noteq> NULL \<Longrightarrow> n_kind n = N_STRING \<Longrightarrow> length (n_name n) \<le> string_bound n"
  using string_bound_le [of "n_kind n" "n_id n" "n_line n" "n_col n" "n_name n" "n_flags n" "n_val n"
      "n_children n" "string_bound n"] by (cases n) auto

text \<open>
  Enough fuel: a property every body has whenever its callees have it, holds of the knot on
  trees whose string literals are shorter than the fuel.
\<close>

lemma knot_rule:
  assumes body: "\<And>sub rec n. \<lbrakk>A n; \<And>m. \<lbrakk>A m; below m n\<rbrakk> \<Longrightarrow> Q m (rec m);
      \<And>m. \<lbrakk>A m; string_bound m < string_bound n\<rbrakk> \<Longrightarrow> Q m (sub m)\<rbrakk> \<Longrightarrow> Q n (body sub rec n)"
  shows "A n \<Longrightarrow> string_bound n < d \<Longrightarrow> Q n (knot_at body spent d n)"
proof (induction d arbitrary: n)
  case (Suc d)
  note outer = Suc.IH
  have deep: "Q m (deep body spent (knot_at body spent d) k m)"
    if "A m" "string_bound m < Suc d" "size m < k" for k m
    using that
  proof (induction k arbitrary: m)
    case (Suc k)
    show ?case
      unfolding deep.simps
    proof (rule body)
      fix x assume "A x" "below x m"
      then show "Q x (deep body spent (knot_at body spent d) k x)"
        using Suc.prems by (intro Suc.IH) (simp_all add: below_def)
    next
      fix x assume "A x" "string_bound x < string_bound m"
      then show "Q x (knot_at body spent d x)" using Suc.prems outer by simp
    qed (rule Suc.prems(1))
  qed simp
  show ?case
    unfolding knot_at.simps by (rule deep [OF Suc.prems]) simp
qed simp

section \<open>What every pass keeps\<close>

definition base :: "emitter \<Rightarrow> emitter \<Rightarrow> bool" where
  "base e e' \<longleftrightarrow> e_fns e' = e_fns e \<and> e_variants e' = e_variants e \<and> e_test e' = e_test e
     \<and> e_reuse e' = e_reuse e \<and> e_rtl e' = e_rtl e
     \<and> e_g17 e' = e_g17 e \<and> e_marks e' = e_marks e \<and> e_spent e' = e_spent e
     \<and> (e_ub e \<longrightarrow> e_ub e')"

lemma base_refl [simp]: "base e e"
  by (simp add: base_def)

lemma base_trans: "base e1 e2 \<Longrightarrow> base e2 e3 \<Longrightarrow> base e1 e3"
  by (simp add: base_def)

definition stays :: "(emitter \<Rightarrow> emitter \<Rightarrow> bool) \<Rightarrow> act \<Rightarrow> bool" where
  "stays K f \<longleftrightarrow> (\<forall>e. base e (f e) \<and> K e (f e) \<and> e_locals (f e) = e_locals e)"

definition grows :: "(emitter \<Rightarrow> emitter \<Rightarrow> bool) \<Rightarrow> act \<Rightarrow> bool" where
  "grows K f \<longleftrightarrow> (\<forall>e. base e (f e) \<and> K e (f e) \<and> prefix (e_locals e) (e_locals (f e)))"

lemma stays_grows: "stays K f \<Longrightarrow> grows K f"
  by (simp add: stays_def grows_def)

text \<open>A call whose code depends on the state.\<close>

lemma stays_at: "(\<And>e. \<exists>g. stays K g \<and> f e = g e) \<Longrightarrow> stays K f"
  unfolding stays_def by (intro allI) metis

lemma grows_at: "(\<And>e. \<exists>g. grows K g \<and> f e = g e) \<Longrightarrow> grows K f"
  unfolding grows_def by (intro allI) metis

lemma stays_if [stays_intros]: "(b \<Longrightarrow> stays K f) \<Longrightarrow> (\<not> b \<Longrightarrow> stays K g) \<Longrightarrow> stays K (if b then f else g)"
  by simp

lemma stays_if_state [stays_intros]:
  "(\<And>e. b e \<Longrightarrow> stays K f) \<Longrightarrow> (\<And>e. \<not> b e \<Longrightarrow> stays K g) \<Longrightarrow> stays K (\<lambda>e. if b e then f e else g e)"
  by (rule stays_at) (auto intro: exI [of _ f] exI [of _ g])

lemma seq_Nil [simp]: "seq [] = (\<lambda>e. e)"
  by (simp add: seq_def fun_eq_iff)

lemma seq_Cons: "seq (f # fs) = (\<lambda>e. seq fs (f e))"
  by (simp add: seq_def fun_eq_iff)

lemma seq_append: "seq (fs @ gs) = (\<lambda>e. seq gs (seq fs e))"
  by (simp add: seq_def fun_eq_iff)

lemma set_sep: "set (sep s fs) \<subseteq> insert s (set fs)"
  by (induction s fs rule: sep.induct) auto

locale emitter_pass =
  fixes K :: "emitter \<Rightarrow> emitter \<Rightarrow> bool"
  assumes K_refl: "K e e"
    and K_trans: "K e1 e2 \<Longrightarrow> K e2 e3 \<Longrightarrow> K e1 e3"
    and K_locals: "K e (e\<lparr>e_locals := l\<rparr>)"
    and K_marks: "K e (e\<lparr>e_marks := m\<rparr>)"
    and K_heap: "K e (e\<lparr>e_heap := h\<rparr>)"
    and K_ub: "K e (e\<lparr>e_ub := u\<rparr>)"
    and K_spent: "K e (e\<lparr>e_spent := s\<rparr>)"
    and K_free: "K e e' \<Longrightarrow> K e (kai_free_node h (length (e_lams e)) e')"
begin

lemma stays_id [stays_intros]: "stays K (\<lambda>e. e)" "stays K id"
  by (simp_all add: stays_def K_refl)

lemma stays_comp: "stays K f \<Longrightarrow> stays K g \<Longrightarrow> stays K (\<lambda>e. g (f e))"
  unfolding stays_def using base_trans K_trans by metis

lemma grows_comp: "grows K f \<Longrightarrow> grows K g \<Longrightarrow> grows K (\<lambda>e. g (f e))"
  unfolding grows_def using base_trans K_trans prefix_order.trans by metis

lemma stays_fold [stays_intros]: "(\<And>x. x \<in> set xs \<Longrightarrow> stays K (f x)) \<Longrightarrow> stays K (fold f xs)"
  by (induction xs) (simp_all add: stays_id stays_comp comp_def)

lemma grows_fold: "(\<And>x. x \<in> set xs \<Longrightarrow> grows K (f x)) \<Longrightarrow> grows K (fold f xs)"
  by (induction xs) (simp_all add: stays_id stays_grows grows_comp comp_def)

lemma stays_seq: "(\<And>f. f \<in> set fs \<Longrightarrow> stays K f) \<Longrightarrow> stays K (seq fs)"
  by (induction fs) (simp_all add: stays_id stays_comp seq_Cons)

lemma grows_seq: "(\<And>f. f \<in> set fs \<Longrightarrow> grows K f) \<Longrightarrow> grows K (seq fs)"
  by (induction fs) (simp_all add: stays_id stays_grows grows_comp seq_Cons)

lemma stays_seq_Nil [stays_intros]: "stays K (seq [])"
  by (simp add: stays_id)

lemma stays_seq_Cons [stays_intros]: "stays K f \<Longrightarrow> stays K (seq fs) \<Longrightarrow> stays K (seq (f # fs))"
  by (simp add: seq_Cons stays_comp)

lemma stays_seq_map [stays_intros]: "(\<And>x. x \<in> set xs \<Longrightarrow> stays K (f x)) \<Longrightarrow> stays K (seq (map f xs))"
  by (rule stays_seq) auto

lemma stays_seq_sep [stays_intros]: "(\<And>f. f \<in> set fs \<Longrightarrow> stays K f) \<Longrightarrow> stays K s \<Longrightarrow> stays K (seq (sep s fs))"
  using set_sep [of s fs] by (intro stays_seq) auto

lemma stays_set_ub [stays_intros]: "stays K set_ub"
  by (simp add: stays_def set_ub_def base_def K_ub)

lemma stays_with_child [stays_intros]:
  "(\<lbrakk>n \<noteq> NULL; i < length (n_children n)\<rbrakk> \<Longrightarrow> stays K (f (n_children n ! i))) \<Longrightarrow> stays K (with_child n i f)"
proof (rule stays_at)
  fix e
  assume "\<lbrakk>n \<noteq> NULL; i < length (n_children n)\<rbrakk> \<Longrightarrow> stays K (f (n_children n ! i))"
  then show "\<exists>g. stays K g \<and> with_child n i f e = g e"
    using stays_set_ub by (cases "n \<noteq> NULL \<and> i < length (n_children n)") (auto simp: with_child_def)
qed

lemma grows_ls_add: "grows K (ls_add nm d)"
  by (simp add: grows_def ls_add_def base_def K_locals)

lemma grows_pat_add_locals: "grows K (pat_add_locals p)"
proof (induction p)
  case (Node k a l c nm fl v ch)
  then have "grows K (fold pat_add_locals ch)" by (intro grows_fold)
  moreover have "grows K (\<lambda>e. case ch of [] \<Rightarrow> e | p # _ \<Rightarrow> pat_add_locals p e)"
    using Node by (cases ch) (simp_all add: stays_id stays_grows)
  moreover have "grows K (\<lambda>e. e)" by (simp add: stays_id stays_grows)
  ultimately show ?case
    using grows_ls_add by (cases k) (simp_all add: grows_def)
qed (simp add: stays_id stays_grows)

text \<open>A scope: whatever is added between the mark and its pop is gone.\<close>

lemma stays_scope:
  assumes "grows K f"
  shows "stays K (\<lambda>e. ls_pop_mark (f (ls_push_mark e)))"
proof -
  have "base e (ls_pop_mark (f (ls_push_mark e))) \<and> K e (ls_pop_mark (f (ls_push_mark e)))
      \<and> e_locals (ls_pop_mark (f (ls_push_mark e))) = e_locals e" for e
  proof -
    let ?a = "ls_push_mark e" and ?b = "f (ls_push_mark e)"
    have b: "base ?a ?b" "K ?a ?b" "prefix (e_locals ?a) (e_locals ?b)" using assms by (simp_all add: grows_def)
    have m: "e_marks ?b = e_marks e @ [length (e_locals e)]" "prefix (e_locals e) (e_locals ?b)"
      using b by (simp_all add: base_def ls_push_mark_def)
    have p: "ls_pop_mark ?b = ?b\<lparr>e_locals := e_locals e, e_marks := e_marks e\<rparr>"
      using m by (auto simp: ls_pop_mark_def prefix_def)
    have "K e ?a" by (simp add: ls_push_mark_def K_marks)
    then have "K e (ls_pop_mark ?b)"
      unfolding p using b(2) K_trans K_locals K_marks by metis
    then show ?thesis using b(1) unfolding p by (auto simp: base_def ls_push_mark_def)
  qed
  then show ?thesis by (simp add: stays_def)
qed

lemma stays_seq_scope:
  assumes "\<And>f. f \<in> set pre \<Longrightarrow> stays K f" "\<And>f. f \<in> set mid \<Longrightarrow> grows K f" "\<And>f. f \<in> set post \<Longrightarrow> stays K f"
  shows "stays K (seq (pre @ ls_push_mark # mid @ ls_pop_mark # post))"
proof -
  have "stays K (\<lambda>e. ls_pop_mark (seq mid (ls_push_mark e)))"
    by (rule stays_scope [OF grows_seq]) (rule assms(2))
  then have "stays K (\<lambda>e. seq post (ls_pop_mark (seq mid (ls_push_mark e))))"
    by (rule stays_comp) (rule stays_seq [OF assms(3)])
  then have "stays K (\<lambda>e. seq post (ls_pop_mark (seq mid (ls_push_mark (seq pre e)))))"
    by (rule stays_comp [OF stays_seq [OF assms(1)], rotated])
  then show ?thesis by (simp add: seq_append seq_Cons)
qed

section \<open>Interpolations\<close>

lemma stays_interp_loop:
  assumes f: "\<And>t. length t < length src \<Longrightarrow> stays K (f t)" and "m \<le> length src"
  shows "stays K (interp_loop f src m i)"
proof -
  have "base e (interp_loop f src m i e) \<and> K e (interp_loop f src m i e)
      \<and> e_locals (interp_loop f src m i e) = e_locals e" for e
    using assms
  proof (induction f src m i e rule: interp_loop.induct)
    case (1 f src m i e)
    show ?case
    proof (cases "i < m \<and> byte_at src i = CHR ''#'' \<and> i + 1 < m \<and> byte_at src (i + 1) = CHR ''{''")
      case True
      let ?j = "scan_interp_expr src m 1 (i + 2)" and ?t = "slice src (i + 2) (scan_interp_expr src m 1 (i + 2))"
      have "length ?t \<le> length src - (i + 2)" by simp
      moreover have "length src - (i + 2) < length src" using True 1(4) by linarith
      ultimately have "length ?t < length src" by (rule le_less_trans)
      then have "stays K (f ?t)" by (rule 1(3))
      then have "base e (f ?t e)" "K e (f ?t e)" "e_locals (f ?t e) = e_locals e" by (simp_all add: stays_def)
      moreover note 1(1) [OF _ _ refl refl refl 1(3,4), of]
      ultimately show ?thesis
        using True by (auto simp: interp_loop.simps [of f src m i] Let_def intro: base_trans K_trans)
    next
      case False
      then show ?thesis using 1(2-4) K_refl by (auto simp: interp_loop.simps [of f src m i])
    qed
  qed
  then show ?thesis by (simp add: stays_def)
qed

lemma interp_tree_keeps:
  obtains r e' where "interp_tree t e = (r, e')" "base e e'" "K e e'" "e_locals e' = e_locals e"
    "e_lams e' = e_lams e" "\<And>n. r = Some n \<Longrightarrow> wf_node n \<and> is_expr n \<and> string_bound n \<le> length t"
proof -
  obtain r q where q: "kai_parse_expr_standalone t (kai_lex (e_rtl e) t) (e_heap e) = (r, q)"
    "ends_well t (kai_lex (e_rtl e) t) (r = None) q"
    "r \<noteq> None \<Longrightarrow> wf_in t (the r) \<and> expr_kind (n_kind (the r)) \<and> within (e_heap e) (p_heap q) (ids (the r))"
    by (rule kai_parse_expr_result) blast
  let ?e = "e\<lparr>e_heap := p_heap q, e_ub := e_ub e \<or> p_ub q, e_spent := e_spent e \<or> p_spent q\<rparr>"
  have "interp_tree t e = (r, ?e)" using q(1) by (simp add: interp_tree_def)
  moreover have "base e ?e" using q(2) by (simp add: base_def ends_well_def)
  moreover have "K e ?e" using K_trans K_heap K_ub K_spent by metis
  ultimately show ?thesis using that [of r ?e] q(3) wf_in_wf_node string_bound_wf_in by fastforce
qed

lemma stays_with_interp:
  assumes "\<And>n. \<lbrakk>wf_node n; is_expr n; string_bound n \<le> length t\<rbrakk> \<Longrightarrow> stays K (f n)"
  shows "stays K (with_interp f t)"
proof -
  have "base e (with_interp f t e) \<and> K e (with_interp f t e) \<and> e_locals (with_interp f t e) = e_locals e" for e
  proof -
    obtain r e' where t: "interp_tree t e = (r, e')" "base e e'" "K e e'" "e_locals e' = e_locals e"
      "\<And>n. r = Some n \<Longrightarrow> wf_node n \<and> is_expr n \<and> string_bound n \<le> length t"
      by (rule interp_tree_keeps [of t e]) blast
    show ?thesis
    proof (cases r)
      case (Some n)
      then have "stays K (f n)" using t(5) assms by blast
      then have "base e' (f n e')" "K e' (f n e')" "e_locals (f n e') = e_locals e'" by (simp_all add: stays_def)
      then have b: "base e (f n e')" and k: "K e (f n e')" and l: "e_locals (f n e') = e_locals e"
        using t(2-4) base_trans K_trans by (blast, blast, simp)
      have "with_interp f t e = kai_free_node (e_heap e) (length (e_lams e)) (f n e')"
        using t(1) Some by (simp add: with_interp_def)
      then show ?thesis
        using K_free [OF k, of "e_heap e"] b l by (simp add: kai_free_node_def base_def)
    qed (use t in \<open>simp add: with_interp_def\<close>)
  qed
  then show ?thesis by (simp add: stays_def)
qed

lemma stays_in_string:
  assumes "\<And>n. \<lbrakk>wf_node n; is_expr n; string_bound n < length (n_name s)\<rbrakk> \<Longrightarrow> stays K (f n)"
  shows "stays K (in_string f s)"
proof (rule stays_at)
  fix e
  have l: "stays K (interp_loop (with_interp f) (n_name s) (length (n_name s) - w) i)" for w i
    by (rule stays_interp_loop [OF stays_with_interp]) (use assms in auto)
  have "w' = length (n_name s) - w" if "str_span s = Some (w, w')" for w w'
    using that by (auto simp: str_span_def Let_def split: if_splits)
  then consider "length (n_name s) < 2" | "\<not> length (n_name s) < 2" "str_span s = None"
    | w where "\<not> length (n_name s) < 2" "str_span s = Some (w, length (n_name s) - w)"
    by (cases "str_span s") auto
  then show "\<exists>g. stays K g \<and> in_string f s e = g e"
  proof cases
    case 1 then show ?thesis using stays_id(1) by (intro exI [of _ "\<lambda>e. e"]) (simp add: in_string_def)
  next
    case 2 then show ?thesis using stays_set_ub by (intro exI [of _ set_ub]) (simp add: in_string_def)
  next
    case (3 w) then show ?thesis using l [of w w] by (auto simp: in_string_def)
  qed
qed

end

end
