(* ===== verification/Kai_Emit_Contract.thy ===== *)
theory Kai_Emit_Contract
  imports Kai_Emit_Pass
begin

text \<open>
  Two interpretations of \<open>emitter_pass\<close>: collecting captures and counting uses. Both leave the
  output, the diagnostics and the scope alone on every tree the parser or the tail-call pass
  hands over.
\<close>

section \<open>Nodes of a well-formed tree\<close>

text \<open>Well-formed, but for the flag the tail-call pass sets on calls.\<close>

fun emittable :: "node \<Rightarrow> bool" where
  "emittable NULL = False"
| "emittable (Node k a l c nm fl v ch) =
     (layout k nm (if k = N_CALL then 0 else fl) v ch \<and> (\<forall>x\<in>set ch. emittable x))"

lemma wf_emittable: "wf_node n \<Longrightarrow> emittable n"
  by (induction n) (auto split: if_splits)

lemma emittable_not_NULL [simp]: "emittable n \<Longrightarrow> n \<noteq> NULL"
  by auto

lemma wf_child: "emittable n \<Longrightarrow> x \<in> set (n_children n) \<Longrightarrow> emittable x"
  by (cases n) auto

lemma wf_layout:
  "emittable n \<Longrightarrow> layout (n_kind n) (n_name n) (if n_kind n = N_CALL then 0 else n_flags n) (n_val n) (n_children n)"
  by (cases n) auto

lemma wf_below: "emittable n \<Longrightarrow> x \<in> set (n_children n) \<Longrightarrow> below x n"
  by (simp add: below_child)

lemma wf_not_let: "emittable n \<Longrightarrow> n_kind n \<noteq> N_BLOCK \<Longrightarrow> x \<in> set (n_children n) \<Longrightarrow> n_kind x \<noteq> N_LET"
  using layout_no_let [OF wf_layout] by blast

lemma arm_parts_wf:
  assumes "emittable n" "n_kind n = N_ARM"
  obtains p g b where "arm_parts n = Some (p, g, b)" "p \<in> set (n_children n)" "is_pat p"
    "b \<in> set (n_children n)" "is_expr b"
    "if bit1 (n_flags n) then g \<in> set (n_children n) \<and> is_expr g else g = NULL"
proof -
  obtain p r where ch: "n_children n = p # r" and p: "is_pat p"
    and r: "length r = (if bit1 (n_flags n) then 2 else 1)" "\<forall>x\<in>set r. is_expr x"
    using wf_layout [OF assms(1)] assms(2) by (auto simp: all_kinds_def list_all_iff split: list.splits)
  show ?thesis
  proof (cases "bit1 (n_flags n)")
    case True
    then obtain g b where "r = [g, b]" using r(1) by (auto simp: numeral_2_eq_2 length_Suc_conv)
    then show ?thesis using that [of p g b] True ch p r(2) by (simp add: arm_parts_def Let_def)
  next
    case False
    then obtain b where "r = [b]" using r(1) by (auto simp: length_Suc_conv)
    then show ?thesis using that [of p NULL b] False ch p r(2) by (simp add: arm_parts_def Let_def)
  qed
qed

section \<open>Walks\<close>

text \<open>A walk over a tree leaves the scope as it was, but for the names of a \<open>let\<close>.\<close>

definition walks :: "(emitter \<Rightarrow> emitter \<Rightarrow> bool) \<Rightarrow> node \<Rightarrow> act \<Rightarrow> bool" where
  "walks K n f \<longleftrightarrow> grows K f \<and> (n_kind n \<noteq> N_LET \<longrightarrow> stays K f)"

context emitter_pass
begin

lemma walks_stays: "stays K f \<Longrightarrow> walks K n f"
  by (simp add: walks_def stays_grows)

lemma walks_children:
  assumes "emittable n" "n_kind n \<noteq> N_BLOCK" "\<And>m. emittable m \<Longrightarrow> below m n \<Longrightarrow> walks K m (rec m)"
  shows "stays K (fold rec (n_children n))"
  using assms wf_child wf_below wf_not_let by (intro stays_fold) (simp add: walks_def)

lemma walks_block:
  assumes "emittable n" "\<And>m. emittable m \<Longrightarrow> below m n \<Longrightarrow> walks K m (rec m)"
  shows "stays K (\<lambda>e. ls_pop_mark (fold rec (n_children n) (ls_push_mark e)))"
  using assms wf_child wf_below by (intro stays_scope grows_fold) (simp add: walks_def)

lemma walks_let:
  assumes "emittable n" "n_kind n = N_LET" "\<And>m. emittable m \<Longrightarrow> below m n \<Longrightarrow> walks K m (rec m)" "grows K reg"
  shows "grows K (\<lambda>e. pat_add_locals (n_children n ! 0) (reg (rec (n_children n ! 2) e)))"
    and "length (n_children n) = 3"
proof -
  obtain p t x where ch: "n_children n = [p, t, x]" and x: "is_expr x"
    using wf_layout [OF assms(1)] assms(2) by (auto split: list.splits)
  have "grows K (rec x)" using assms ch wf_child wf_below by (simp add: walks_def)
  note g = grows_comp [OF grows_comp [OF this assms(4)] grows_pat_add_locals [of p]]
  then show "grows K (\<lambda>e. pat_add_locals (n_children n ! 0) (reg (rec (n_children n ! 2) e)))"
    using g by (simp add: ch numeral_2_eq_2)
  show "length (n_children n) = 3" by (simp add: ch)
qed

lemma walks_arm:
  assumes "emittable n" "n_kind n = N_ARM" "\<And>m. emittable m \<Longrightarrow> below m n \<Longrightarrow> walks K m (rec m)" "grows K reg"
    and "arm_parts n = Some (p, g, b)"
  shows "stays K (\<lambda>e. ls_pop_mark
     ((if b \<noteq> NULL then rec b else id) ((if g \<noteq> NULL then rec g else id) (pat_add_locals p (reg (ls_push_mark e))))))"
proof -
  obtain p' g' b' where a: "arm_parts n = Some (p', g', b')" "b' \<in> set (n_children n)" "is_expr b'"
      "if bit1 (n_flags n) then g' \<in> set (n_children n) \<and> is_expr g' else g' = NULL"
    by (rule arm_parts_wf [OF assms(1,2)]) blast
  have w: "stays K (if x \<noteq> NULL then rec x else id)" if "x = NULL \<or> x \<in> set (n_children n) \<and> is_expr x" for x
  proof (cases "x = NULL")
    case False
    then have "walks K x (rec x)" "n_kind x \<noteq> N_LET"
      using that assms(1,3) wf_child wf_below by (auto simp: expr_kind_def)
    then show ?thesis using False by (simp add: walks_def)
  qed (simp add: stays_id)
  have "stays K (if g \<noteq> NULL then rec g else id)" "stays K (if b \<noteq> NULL then rec b else id)"
    using a(2-4) a(1) [unfolded assms(5)] w [of g] w [of b] by (simp_all split: if_splits)
  note s = this [THEN stays_grows]
  show ?thesis
    by (rule stays_scope [OF grows_comp [OF grows_comp [OF grows_comp [OF assms(4) grows_pat_add_locals] s(1)] s(2)]])
qed

end

section \<open>Collecting captures\<close>

text \<open>
  Captured names are listed once; they are neither parameters of the lambda nor global names.
\<close>

definition caps_ok :: "node \<Rightarrow> nat \<Rightarrow> emitter \<Rightarrow> bool" where
  "caps_ok lam i e \<longleftrightarrow> distinct (l_caps (e_lams e ! i))
     \<and> list_all (\<lambda>c. \<not> is_lambda_param lam c \<and> \<not> is_global_name e c) (l_caps (e_lams e ! i))"

lemma caps_ok_update [simp]:
  "caps_ok lam i (e\<lparr>e_locals := l\<rparr>) = caps_ok lam i e" "caps_ok lam i (e\<lparr>e_marks := m\<rparr>) = caps_ok lam i e"
  "caps_ok lam i (e\<lparr>e_heap := h\<rparr>) = caps_ok lam i e" "caps_ok lam i (e\<lparr>e_ub := b\<rparr>) = caps_ok lam i e"
  "caps_ok lam i (e\<lparr>e_spent := b\<rparr>) = caps_ok lam i e"
  by (simp_all add: caps_ok_def is_global_name_def find_user_fn_def find_variant_def)

text \<open>Only the captures of lambda \<open>i\<close> change.\<close>

definition keeps_collect :: "node \<Rightarrow> nat \<Rightarrow> emitter \<Rightarrow> emitter \<Rightarrow> bool" where
  "keeps_collect lam i e e' \<longleftrightarrow> e_fns e' = e_fns e \<and> e_variants e' = e_variants e
     \<and> (i < length (e_lams e) \<longrightarrow> caps_ok lam i e \<longrightarrow> caps_ok lam i e') \<and> e_out e' = e_out e \<and> e_err e' = e_err e \<and> e_log e' = e_log e
     \<and> e_uses e' = e_uses e \<and> length (e_lams e') = length (e_lams e)
     \<and> (\<forall>j<length (e_lams e). j \<noteq> i \<longrightarrow> e_lams e' ! j = e_lams e ! j)
     \<and> map l_lam (e_lams e') = map l_lam (e_lams e) \<and> map l_id (e_lams e') = map l_id (e_lams e)
     \<and> map l_freed (e_lams e') = map l_freed (e_lams e)"

interpretation collect: emitter_pass "keeps_collect lam i" for lam i
proof unfold_locales
  fix h e e' assume k: "keeps_collect lam i e e'"
  then have "kai_free_node h (length (e_lams e)) e' = e'\<lparr>e_heap := if e_reuse e' then h else e_heap e'\<rparr>"
    by (simp add: keeps_collect_def kai_free_node_def)
  then show "keeps_collect lam i e (kai_free_node h (length (e_lams e)) e')"
    using k by (simp add: keeps_collect_def)
qed (auto simp: keeps_collect_def)

definition capture :: "nat \<Rightarrow> string \<Rightarrow> act" where
  "capture i name e = e\<lparr>e_lams := (e_lams e)[i := (e_lams e ! i)\<lparr>l_caps := l_caps (e_lams e ! i) @ [name]\<rparr>]\<rparr>"

lemma is_global_name_capture: "is_global_name (capture i name e) c = is_global_name e c"
  by (simp add: is_global_name_def find_user_fn_def find_variant_def capture_def)

lemma keeps_capture:
  assumes "i < length (e_lams e)" "\<not> is_lambda_param lam name" "\<not> is_global_name e name"
    "name \<notin> set (l_caps (e_lams e ! i))"
  shows "base e (capture i name e)" "e_locals (capture i name e) = e_locals e" "keeps_collect lam i e (capture i name e)"
proof -
  have caps: "l_caps (e_lams (capture i name e) ! i) = l_caps (e_lams e ! i) @ [name]"
    using assms(1) by (simp add: capture_def)
  have "caps_ok lam i e \<longrightarrow> caps_ok lam i (capture i name e)"
    using assms unfolding caps_ok_def caps by (simp add: is_global_name_capture)
  moreover have "map f ((e_lams e)[i := (e_lams e ! i)\<lparr>l_caps := c\<rparr>]) = map f (e_lams e)"
    if "\<And>x. f (x\<lparr>l_caps := c\<rparr>) = f x" for c and f :: "lam_info \<Rightarrow> 'b"
    using assms(1) that by (simp add: map_update list_update_same_conv)
  ultimately show "keeps_collect lam i e (capture i name e)"
    by (simp add: keeps_collect_def) (simp add: capture_def map_update list_update_same_conv assms(1))
qed (simp_all add: capture_def base_def)

lemma stays_add_capture:
  "stays (keeps_collect lam i)
     (\<lambda>e. if \<not> is_lambda_param lam name \<and> \<not> is_global_name e name \<and> \<not> b e then add_capture i name e else e)"
proof (rule stays_at)
  fix e :: emitter
  let ?g = "\<lambda>e. if i < length (e_lams e) \<and> \<not> is_lambda_param lam name \<and> \<not> is_global_name e name
                  \<and> name \<notin> set (l_caps (e_lams e ! i)) then capture i name e else e"
  have "stays (keeps_collect lam i) ?g"
    using keeps_capture [where lam = lam] collect.K_refl by (simp add: stays_def)
  then show "\<exists>g. stays (keeps_collect lam i) g \<and> (if \<not> is_lambda_param lam name \<and> \<not> is_global_name e name \<and> \<not> b e
      then add_capture i name e else e) = g e"
    using collect.stays_set_ub [of lam i] collect.stays_id(1) [of lam i]
    by (auto simp: add_capture_def capture_def [symmetric] Let_def list_ex_iff
        intro: exI [of _ ?g] exI [of _ set_ub] exI [of _ "\<lambda>e. e"])
qed

lemma walks_collect:
  "emittable n \<Longrightarrow> walks (keeps_collect lam i) n (free_vars_of lam i n)"
  unfolding free_vars_of_def
proof (rule knot_rule [where A = emittable and Q = "walks (keeps_collect lam i)"])
  fix sub rec n
  assume n: "emittable n" and rec: "\<And>m. emittable m \<Longrightarrow> below m n \<Longrightarrow> walks (keeps_collect lam i) m (rec m)"
    and sub: "\<And>m. emittable m \<Longrightarrow> string_bound m < string_bound n \<Longrightarrow> walks (keeps_collect lam i) m (sub m)"
  have len1: "Suc 0 \<le> length xs \<longleftrightarrow> xs \<noteq> []" for xs :: "node list" by (cases xs) simp_all
  note kids = collect.walks_children [OF n _ rec] and block = collect.walks_block [OF n rec]
  have n0: "n \<noteq> NULL" using n by simp
  have first: "stays (keeps_collect lam i) (rec (n_children n ! 0))" if "n_children n \<noteq> []" "n_kind n = N_FIELD"
    using that n rec [of "n_children n ! 0"] wf_child wf_below wf_not_let [OF n, of "n_children n ! 0"]
    by (simp add: walks_def)
  have ident: "stays (keeps_collect lam i) (collect_ident_free_var lam i n)"
    unfolding collect_ident_free_var_def [abs_def] by (rule stays_add_capture)
  have string: "stays (keeps_collect lam i) (collect_free_vars_in_string sub n)" if "n_kind n = N_STRING"
    unfolding collect_free_vars_in_string_def [abs_def]
  proof (rule collect.stays_in_string)
    fix m assume m0: "wf_node m" and m: "is_expr m" "string_bound m < length (n_name n)"
    then have "string_bound m < string_bound n" using string_bound_string [OF n0 that] by simp
    then show "stays (keeps_collect lam i) (sub m)"
      using sub [OF wf_emittable [OF m0]] m(1) by (auto simp: walks_def expr_kind_def)
  qed
  have arm: "stays (keeps_collect lam i) (collect_arm_free_vars rec n)" if k: "n_kind n = N_ARM"
  proof -
    obtain p g b where a: "arm_parts n = Some (p, g, b)" by (rule arm_parts_wf [OF n k]) blast
    have "collect_arm_free_vars rec n = (\<lambda>e. ls_pop_mark
     ((if b \<noteq> NULL then rec b else id) ((if g \<noteq> NULL then rec g else id) (pat_add_locals p (id (ls_push_mark e))))))"
      by (simp add: collect_arm_free_vars_def a Let_def fun_eq_iff)
    then show ?thesis
      using collect.walks_arm [OF n k rec _ a, of id] by (simp add: stays_grows collect.stays_id(2))
  qed
  have letc: "grows (keeps_collect lam i) (\<lambda>e. pat_add_locals (n_children n ! 0) (rec (n_children n ! 2) e))
      \<and> length (n_children n) = 3" if "n_kind n = N_LET"
    using collect.walks_let [OF n that rec, of id] by (simp add: stays_grows collect.stays_id(2))
  show "walks (keeps_collect lam i) n (collect_free_vars lam i sub rec n)"
  proof (cases "n_kind n = N_LET")
    case True
    then have "collect_free_vars lam i sub rec n = (\<lambda>e. pat_add_locals (n_children n ! 0) (rec (n_children n ! 2) e))"
      using letc n0 by (simp add: collect_free_vars_def fun_eq_iff Let_def)
    then show ?thesis using letc True by (simp add: walks_def)
  next
    case False
    then have "stays (keeps_collect lam i) (collect_free_vars lam i sub rec n)"
      using n0 kids block first ident string arm collect.stays_id(1) len1
      by (cases "n_kind n"; cases "n_children n = []") (simp_all add: collect_free_vars_def [abs_def] Let_def)
    then show ?thesis by (rule collect.walks_stays)
  qed
qed simp_all

lemma scope_collect:
  assumes "emittable b" "n_kind b \<noteq> N_LET"
  shows "stays (keeps_collect lam i) (\<lambda>e. ls_pop_mark (free_vars_of lam i b (ls_push_mark e)))"
  using walks_collect [OF assms(1)] by (intro collect.stays_scope) (simp add: walks_def)

lemma register_lambda_step:
  assumes "emittable lam" "n_kind lam = N_LAMBDA"
    and e1: "e1 = e\<lparr>e_lams := e_lams e @ [\<lparr>l_id = length (e_lams e), l_lam = lam, l_caps = [], l_freed = False\<rparr>]\<rparr>"
  shows "base e1 (register_lambda lam e)" "keeps_collect lam (length (e_lams e)) e1 (register_lambda lam e)"
    "e_locals (register_lambda lam e) = e_locals e1"
proof -
  obtain b ps where ch: "n_children lam = b # ps" "is_expr b"
    using wf_layout [OF assms(1)] assms(2) by (auto split: list.splits)
  have b: "emittable b" "n_kind b \<noteq> N_LET" using wf_child [OF assms(1)] ch by auto
  have "register_lambda lam e = ls_pop_mark (free_vars_of lam (length (e_lams e)) b (ls_push_mark e1))"
    using ch(1) by (simp add: register_lambda_def Let_def e1)
  then show "base e1 (register_lambda lam e)" "keeps_collect lam (length (e_lams e)) e1 (register_lambda lam e)"
    "e_locals (register_lambda lam e) = e_locals e1"
    using scope_collect [OF b, of lam "length (e_lams e)"] by (simp_all add: stays_def)
qed

lemma register_lambda_result:
  assumes "emittable lam" "n_kind lam = N_LAMBDA"
  shows "\<exists>caps. e_lams (register_lambda lam e)
      = e_lams e @ [\<lparr>l_id = length (e_lams e), l_lam = lam, l_caps = caps, l_freed = False\<rparr>]
    \<and> distinct caps \<and> list_all (\<lambda>c. \<not> is_lambda_param lam c \<and> \<not> is_global_name e c) caps"
proof -
  let ?i = "length (e_lams e)" and ?e' = "register_lambda lam e"
  let ?l = "\<lparr>l_id = ?i, l_lam = lam, l_caps = [], l_freed = False\<rparr>"
  let ?e1 = "e\<lparr>e_lams := e_lams e @ [?l]\<rparr>"
  note s = register_lambda_step [OF assms refl, of e]
  have len: "length (e_lams ?e') = Suc ?i" using s(2) by (simp add: keeps_collect_def)
  have same: "e_lams ?e' ! j = e_lams e ! j" if "j < ?i" for j
    using s(2) that by (simp add: keeps_collect_def nth_append)
  have last: "f (e_lams ?e' ! ?i) = f ?l" if "map f (e_lams ?e') = map f (e_lams ?e1)" for f :: "lam_info \<Rightarrow> 'b"
    using arg_cong [OF that, of "\<lambda>xs. xs ! ?i"] len by (simp add: nth_append)
  have f: "l_id (e_lams ?e' ! ?i) = ?i" "l_lam (e_lams ?e' ! ?i) = lam" "\<not> l_freed (e_lams ?e' ! ?i)"
    using last [of l_id] last [of l_lam] last [of l_freed] s(2) by (simp_all add: keeps_collect_def)
  let ?x = "e_lams ?e' ! ?i"
  have "e_lams ?e' = e_lams e @ [?x]"
    by (rule nth_equalityI) (use len same in \<open>auto simp: nth_append less_Suc_eq\<close>)
  moreover have "?x = \<lparr>l_id = ?i, l_lam = lam, l_caps = l_caps ?x, l_freed = False\<rparr>" using f by (cases ?x) simp
  moreover have "caps_ok lam ?i ?e1" by (simp add: caps_ok_def)
  then have c: "caps_ok lam ?i ?e'" using s(2) by (simp add: keeps_collect_def)
  have "is_global_name ?e' c = is_global_name e c" for c
    using s(2) by (simp add: keeps_collect_def is_global_name_def find_user_fn_def find_variant_def)
  then have "distinct (l_caps ?x) \<and> list_all (\<lambda>c. \<not> is_lambda_param lam c \<and> \<not> is_global_name e c) (l_caps ?x)"
    using c by (simp add: caps_ok_def)
  ultimately show ?thesis by (intro exI [of _ "l_caps ?x"]) simp
qed

text \<open>
  C18: Registering a lambda adds exactly one entry to the table, whose number is its index and
  whose captured names are listed once each; none of them is a parameter of the lambda or a
  global name (prelude, function or constructor).
\<close>

theorem register_lambda_captures:
  assumes "wf_node lam" "n_kind lam = N_LAMBDA"
  shows "\<exists>caps. e_lams (register_lambda lam e)
      = e_lams e @ [\<lparr>l_id = length (e_lams e), l_lam = lam, l_caps = caps, l_freed = False\<rparr>]
    \<and> distinct caps \<and> list_all (\<lambda>c. \<not> is_lambda_param lam c \<and> \<not> is_global_name e c) caps"
  by (rule register_lambda_result [OF wf_emittable [OF assms(1)] assms(2)])

text \<open>The lambda of \<open>x => f(x, y, y)\<close>.\<close>

definition sample_lambda :: node where
  "sample_lambda = (let v = (\<lambda>a c name. Node N_IDENT a 1 c name 0 V_none []) in
     Node N_LAMBDA 1 1 1 [] 0 V_none
       [Node N_CALL 2 1 6 [] 0 V_none [v 3 6 ''f'', v 4 8 ''x'', v 5 11 ''y'', v 6 14 ''y''], v 7 1 ''x''])"

lemma register_lambda_captures_witness:
  "\<exists>caps. e_lams (register_lambda sample_lambda (emit_init False 8 False False id))
      = [\<lparr>l_id = 0, l_lam = sample_lambda, l_caps = caps, l_freed = False\<rparr>]
    \<and> distinct caps \<and> list_all (\<lambda>c. \<not> is_lambda_param sample_lambda c
        \<and> \<not> is_global_name (emit_init False 8 False False id) c) caps"
proof -
  have w: "wf_node sample_lambda" "n_kind sample_lambda = N_LAMBDA"
    by (simp_all add: sample_lambda_def Let_def expr_kind_def)
  have "e_lams (emit_init False 8 False False id) = []" by (simp add: emit_init_def)
  then show ?thesis using register_lambda_captures [OF w, of "emit_init False 8 False False id"] by simp
qed

section \<open>Counting uses\<close>

text \<open>Only the use table changes, and its entries keep their declarations.\<close>

definition keeps_count :: "emitter \<Rightarrow> emitter \<Rightarrow> bool" where
  "keeps_count e e' \<longleftrightarrow> e_out e' = e_out e \<and> e_err e' = e_err e \<and> e_log e' = e_log e
     \<and> e_lams e' = e_lams e \<and> prefix (map u_decl (e_uses e)) (map u_decl (e_uses e'))"

interpretation count: emitter_pass keeps_count
  by unfold_locales (auto simp: keeps_count_def kai_free_node_def intro: prefix_order.trans)

lemma map_decl_lu_bump [simp]: "map u_decl (lu_bump a b us) = map u_decl us"
  by (induction us) simp_all

lemma stays_count_ident: "stays keeps_count (count_ident_use n b)"
  by (auto simp: stays_def count_ident_use_def base_def keeps_count_def split: option.splits)

lemma stays_pat_register_uses: "stays keeps_count (pat_register_uses p)"
proof (induction p)
  case (Node k a l c nm fl v ch)
  then have "stays keeps_count (fold pat_register_uses ch)" by (intro count.stays_fold)
  moreover have "stays keeps_count (\<lambda>e. case ch of [] \<Rightarrow> e | p # _ \<Rightarrow> pat_register_uses p e)"
    using Node by (cases ch) (simp_all add: count.stays_id)
  moreover have "stays keeps_count (lu_add a nm)"
    by (simp add: stays_def lu_add_def base_def keeps_count_def)
  moreover note count.stays_id(1)
  ultimately show ?case by (cases k) (simp_all add: stays_def)
qed (simp add: count.stays_id)

lemma grows_add_lambda_params: "grows keeps_count (add_lambda_params ps)"
proof -
  have "grows keeps_count (\<lambda>e. if p \<noteq> NULL \<and> n_kind p = N_IDENT then ls_add (n_name p) None e else e)" for p
    using count.grows_ls_add [of "n_name p" None] count.stays_id(1) [THEN stays_grows]
    by (cases "p = NULL"; cases "n_kind p = N_IDENT") simp_all
  then show ?thesis unfolding add_lambda_params_def [abs_def] by (intro count.grows_fold)
qed

definition counts :: "node \<Rightarrow> (bool \<Rightarrow> act) \<Rightarrow> bool" where
  "counts n f \<longleftrightarrow> (\<forall>b. walks keeps_count n (f b))"

lemma counts_count_uses: "emittable n \<Longrightarrow> counts n (count_uses n)"
  unfolding count_uses_def [abs_def]
proof (rule knot_rule [where A = emittable and Q = counts])
  fix sub rec n
  assume n: "emittable n" and rec0: "\<And>m. emittable m \<Longrightarrow> below m n \<Longrightarrow> counts m (rec m)"
    and sub: "\<And>m. emittable m \<Longrightarrow> string_bound m < string_bound n \<Longrightarrow> counts m (sub m)"
  have rec: "walks keeps_count m (rec m b)" if "emittable m" "below m n" for m b
    using rec0 [OF that] by (simp add: counts_def)
  have len1: "Suc 0 \<le> length xs \<longleftrightarrow> xs \<noteq> []" for xs :: "node list" by (cases xs) simp_all
  have n0: "n \<noteq> NULL" using n by simp
  have "walks keeps_count n (count_local_uses sub rec n b)" for b
  proof -
    note kids = count.walks_children [OF n _ rec] and block = count.walks_block [OF n rec]
    have string: "stays keeps_count (count_local_uses_in_string sub n b)" if "n_kind n = N_STRING"
      unfolding count_local_uses_in_string_def [abs_def]
    proof (rule count.stays_in_string)
      fix m assume m0: "wf_node m" and m: "is_expr m" "string_bound m < length (n_name n)"
      then have "string_bound m < string_bound n" using string_bound_string [OF n0 that] by simp
      then show "stays keeps_count (sub m b)"
        using sub [OF wf_emittable [OF m0]] m(1) by (auto simp: counts_def walks_def expr_kind_def)
    qed
    have lam: "stays keeps_count (count_uses_in_lambda rec n)" if k: "n_kind n = N_LAMBDA"
    proof -
      obtain x ps where ch: "n_children n = x # ps" using wf_layout [OF n] k by (auto split: list.splits)
      have "stays keeps_count (rec x True)"
        using rec wf_child [OF n, of x] wf_below [OF n, of x] wf_not_let [OF n, of x] k ch
        by (simp add: walks_def)
      then have "grows keeps_count (\<lambda>e. rec x True (add_lambda_params ps e))"
        by (rule count.grows_comp [OF grows_add_lambda_params stays_grows])
      then show ?thesis
        using count.stays_scope by (simp add: count_uses_in_lambda_def [abs_def] ch Let_def)
    qed
    have reg: "grows keeps_count (if \<not> b then pat_register_uses p else id)" for p
      using stays_pat_register_uses count.stays_id(2) by (simp add: stays_grows)
    have arm: "stays keeps_count (count_uses_in_arm rec n b)" if k: "n_kind n = N_ARM"
    proof -
      obtain p g x where a: "arm_parts n = Some (p, g, x)" by (rule arm_parts_wf [OF n k]) blast
      have "count_uses_in_arm rec n b = (\<lambda>e. ls_pop_mark
        ((if x \<noteq> NULL then rec x b else id) ((if g \<noteq> NULL then rec g b else id)
          (pat_add_locals p ((if \<not> b then pat_register_uses p else id) (ls_push_mark e))))))"
        by (simp add: count_uses_in_arm_def a Let_def fun_eq_iff)
      then show ?thesis
        by (simp only: count.walks_arm [where rec = "\<lambda>m. rec m b", OF n k rec reg [of p] a])
    qed
    show ?thesis
    proof (cases "n_kind n = N_LET")
      case True
      note l = count.walks_let [where rec = "\<lambda>m. rec m b", OF n True rec reg [of "n_children n ! 0"]]
      have "count_local_uses sub rec n b = (\<lambda>e. pat_add_locals (n_children n ! 0)
          ((if \<not> b then pat_register_uses (n_children n ! 0) else id) (rec (n_children n ! 2) b e)))"
        using l(2) n0 True by (simp add: count_local_uses_def count_uses_in_let_def fun_eq_iff Let_def)
      then show ?thesis using True by (simp only: walks_def l(1) simp_thms)
    next
      case False
      then have "stays keeps_count (count_local_uses sub rec n b)"
        using n0 kids block stays_count_ident string lam arm
        by (cases "n_kind n") (simp_all add: count_local_uses_def [abs_def] Let_def)
      then show ?thesis by (rule count.walks_stays)
    qed
  qed
  then show "counts n (count_local_uses sub rec n)" by (simp add: counts_def)
qed simp_all

end
