(* ===== verification/Kai_Emit_Writes.thy ===== *)
theory Kai_Emit_Writes
  imports Kai_Emit_Contract
begin

text \<open>
  The writing pass. Emitting code only appends to the output, to the diagnostics and to the
  table of lambdas, and leaves the scope and the use counters as they were; it sets the error
  flag exactly when it reports something. Each \<open>emit_\<close> function has a rule, \<open>emit_expr\<close> is
  their induction.
\<close>

section \<open>What is written stays written\<close>

definition lams_ok :: "lam_info list \<Rightarrow> bool" where
  "lams_ok ls \<longleftrightarrow> list_all (\<lambda>x. emittable x \<and> n_kind x = N_LAMBDA) (map l_lam ls)"

lemma lams_ok_map: "map l_lam ls = map l_lam ls' \<Longrightarrow> lams_ok ls = lams_ok ls'"
  by (simp only: lams_ok_def)

definition keeps_program :: "emitter \<Rightarrow> emitter \<Rightarrow> bool" where
  "keeps_program e e' \<longleftrightarrow> prefix (e_out e) (e_out e') \<and> prefix (e_log e) (e_log e')
     \<and> prefix (e_lams e) (e_lams e') \<and> (lams_ok (e_lams e) \<longrightarrow> lams_ok (e_lams e'))
     \<and> (e_err e' \<longleftrightarrow> e_err e \<or> e_log e' \<noteq> e_log e)"

definition keeps_emit :: "emitter \<Rightarrow> emitter \<Rightarrow> bool" where
  "keeps_emit e e' \<longleftrightarrow> e_uses e' = e_uses e \<and> keeps_program e e'"

lemma keeps_program_trans: "keeps_program e1 e2 \<Longrightarrow> keeps_program e2 e3 \<Longrightarrow> keeps_program e1 e3"
  unfolding keeps_program_def by (metis prefix_order.trans prefix_order.antisym)

lemma keeps_program_free: "keeps_program e e' \<Longrightarrow> keeps_program e (kai_free_node h (length (e_lams e)) e')"
proof -
  have "map l_lam (e_lams (kai_free_node h n e')) = map l_lam (e_lams e')" for n
    by (simp add: kai_free_node_def comp_def) (metis append_take_drop_id map_append)
  note lams_ok_map [OF this]
  then show "keeps_program e e' \<Longrightarrow> keeps_program e (kai_free_node h (length (e_lams e)) e')"
    by (auto simp: keeps_program_def kai_free_node_def prefix_def)
qed

interpretation program: emitter_pass keeps_program
proof unfold_locales
  show "keeps_program e1 e2 \<Longrightarrow> keeps_program e2 e3 \<Longrightarrow> keeps_program e1 e3" for e1 e2 e3
    by (rule keeps_program_trans)
  show "keeps_program e e' \<Longrightarrow> keeps_program e (kai_free_node h (length (e_lams e)) e')" for e e' h
    by (rule keeps_program_free)
qed (simp_all add: keeps_program_def)

interpretation emit: emitter_pass keeps_emit
proof unfold_locales
  show "keeps_emit e1 e2 \<Longrightarrow> keeps_emit e2 e3 \<Longrightarrow> keeps_emit e1 e3" for e1 e2 e3
    using keeps_program_trans by (auto simp: keeps_emit_def)
  show "keeps_emit e e' \<Longrightarrow> keeps_emit e (kai_free_node h (length (e_lams e)) e')" for e e' h
    using keeps_program_free by (auto simp: keeps_emit_def kai_free_node_def)
qed (simp_all add: keeps_emit_def keeps_program_def)

abbreviation writes :: "act \<Rightarrow> bool" where "writes \<equiv> stays keeps_emit"

lemma writes_puts [stays_intros]: "writes (puts s)"
  by (simp add: stays_def base_def keeps_emit_def keeps_program_def puts_def)

lemma writes_bug [stays_intros]: "writes (bug n what)"
  by (simp add: stays_def base_def keeps_emit_def keeps_program_def bug_def)

text \<open>A call whose code depends on the state it starts from, and a choice that does not.\<close>

lemma writes_at: "(\<And>e. writes (F e)) \<Longrightarrow> writes (\<lambda>e. F e e)"
  by (rule stays_at) auto

lemma writes_option [stays_intros]:
  "(\<And>x. y = Some x \<Longrightarrow> writes (g x)) \<Longrightarrow> writes f \<Longrightarrow> writes (case y of None \<Rightarrow> f | Some x \<Rightarrow> g x)"
  by (cases y) simp_all

lemma writes_ident_callee:
  assumes "writes f" "writes g"
  shows "writes (\<lambda>e. let (handled, e) = emit_ident_callee nm e in if handled then f e else g e)"
proof (rule stays_at)
  fix e
  have c: "writes (\<lambda>e. h (puts s e))" if "writes h" for h s
    by (rule emit.stays_comp [OF writes_puts that])
  show "\<exists>h. writes h \<and> (let (handled, e) = emit_ident_callee nm e in if handled then f e else g e) = h e"
    using assms c [OF assms(1)] c [OF assms(2)]
    by (auto simp: emit_ident_callee_def split: option.splits)
qed

lemma writes_ident_value: "writes (emit_ident_value nm)"
proof (rule stays_at)
  fix e
  show "\<exists>h. writes h \<and> emit_ident_value nm e = h e"
    using writes_puts by (auto simp: emit_ident_value_def split: option.splits)
qed

section \<open>Callees\<close>

text \<open>The hypothesis of the induction: the callee writes on the expressions below \<open>n\<close>.\<close>

definition writer :: "(node \<Rightarrow> act) \<Rightarrow> node \<Rightarrow> bool" where
  "writer rec n \<longleftrightarrow> (\<forall>m. emittable m \<and> is_expr m \<and> below m n \<longrightarrow> writes (rec m))"

lemma writer_child: "\<lbrakk>writer rec n; emittable n; x \<in> set (n_children n); is_expr x\<rbrakk> \<Longrightarrow> writes (rec x)"
  using wf_child wf_below by (simp add: writer_def)

lemma writer_below: "\<lbrakk>writer rec n; emittable n; x \<in> set (n_children n)\<rbrakk> \<Longrightarrow> writer rec x"
  using wf_below below_trans by (fastforce simp: writer_def)

lemma layout_exprs:
  assumes "layout k nm fl v ch" "k \<in> {N_CALL, N_FIELD, N_BINOP, N_UNOP, N_IF, N_RANGE_LIT, N_SPREAD, N_PIPE,
    N_FIELD_INIT, N_ASSERT, N_EXPR_STMT}" "x \<in> set ch"
  shows "is_expr x"
proof -
  have i: "expr_kind N_IF" "expr_kind N_BLOCK" by (simp_all add: expr_kind_def)
  show ?thesis
    using assms by (auto simp: all_kinds_def list_all_iff i split: list.splits) (metis i)
qed

lemma writer_expr_child:
  assumes "writer rec n" "emittable n" "x \<in> set (n_children n)"
    "n_kind n \<in> {N_CALL, N_FIELD, N_BINOP, N_UNOP, N_IF, N_RANGE_LIT, N_SPREAD, N_PIPE,
      N_FIELD_INIT, N_ASSERT, N_EXPR_STMT}"
  shows "writes (rec x)"
  by (rule writer_child [OF assms(1-3) layout_exprs [OF wf_layout [OF assms(2)] assms(4,3)]])

lemmas writer_nth = writer_expr_child [OF _ _ nth_mem]

section \<open>Operators, calls and literals\<close>

lemma writes_with_op: "(\<And>op. writes (f op)) \<Longrightarrow> writes (with_op n f)"
  unfolding with_op_def [abs_def] by (cases "n_val n") (auto intro: emit.stays_set_ub)

lemma writes_binop:
  assumes "writer rec n" "emittable n" "n_kind n = N_BINOP"
  shows "writes (emit_binop rec n)"
  unfolding emit_binop_def
  by (intro writes_with_op stays_intros writer_nth [OF assms(1,2)]) (use assms(3) in simp_all)

lemma writes_unop:
  assumes "writer rec n" "emittable n" "n_kind n = N_UNOP"
  shows "writes (emit_unop rec n)"
  unfolding emit_unop_def
  by (intro writes_with_op stays_intros writer_nth [OF assms(1,2)]) (use assms(3) in simp_all)

lemma writes_if:
  assumes "writer rec n" "emittable n" "n_kind n = N_IF"
  shows "writes (emit_if rec n)"
  unfolding emit_if_def
  by (intro stays_intros writer_nth [OF assms(1,2)]) (use assms(3) in simp_all)

lemma writes_range:
  assumes "writer rec n" "emittable n" "n_kind n = N_RANGE_LIT"
  shows "writes (emit_range rec n)"
  unfolding emit_range_def Let_def
  by (intro stays_intros writer_nth [OF assms(1,2)]) (use assms(3) in simp_all)

lemma writes_field_access:
  assumes "writer rec n" "emittable n" "n_kind n = N_FIELD"
  shows "writes (emit_field_access rec n)"
  unfolding emit_field_access_def
  by (intro stays_intros writer_nth [OF assms(1,2)]) (use assms(3) in simp_all)


lemma writes_slot [stays_intros]: "writes (rec x) \<Longrightarrow> writes (emit_slot rec x)"
  unfolding emit_slot_def by (intro stays_intros)

lemma writes_args:
  assumes "\<And>x. x \<in> set (drop 1 (n_children call)) \<Longrightarrow> writes (rec x)" "p \<noteq> NULL \<Longrightarrow> writes (rec p)"
  shows "writes (emit_args_with_prepend rec call p)"
  unfolding emit_args_with_prepend_def
  by (intro stays_intros) (use assms in \<open>auto split: if_splits\<close>)

lemma writes_commas [stays_intros]: "(\<And>x. x \<in> set xs \<Longrightarrow> writes (f x)) \<Longrightarrow> writes (commas (map f xs))"
  by (rule emit.stays_seq_sep [OF _ writes_puts]) auto

lemma writes_apply_args [stays_intros]:
  "(\<And>x. x \<in> set args \<Longrightarrow> writes (rec x)) \<Longrightarrow> writes (emit_apply_args rec args)"
  unfolding emit_apply_args_def by (intro stays_intros)

lemma writes_variant_construction:
  assumes "\<And>x. x \<in> set (drop 1 (n_children call)) \<Longrightarrow> writes (rec x)"
  shows "writes (emit_variant_construction rec nm call)"
proof (rule stays_at)
  fix e
  have "writes (seq [puts h, (if as = [] then puts ''NULL)''
      else seq [puts ''(KaiVarSlot[]){'', commas (map (emit_slot rec) as), puts ''})''])])"
    if "as = (if call \<noteq> NULL then drop 1 (n_children call) else [])" for h as
    using that assms by (intro stays_intros) (auto split: if_splits)
  then show "\<exists>g. writes g \<and> emit_variant_construction rec nm call e = g e"
    unfolding emit_variant_construction_def Let_def by blast
qed

lemma writes_tco_goto:
  assumes "\<And>x. x \<in> set (drop 1 (n_children call)) \<Longrightarrow> writes (rec x)"
  shows "writes (emit_tco_goto rec call)"
proof (rule stays_at)
  fix e
  have "writes (\<lambda>e. if single_use (lu_lookup e (Some (n_id p))) then e
         else puts (''{ KaiValue *_ = kai_internal_drop(kai_'' @ fmt_s (n_name p) @ ''); (void) _; } '') e)" for p
    by (intro stays_intros)
  moreover have "writes (case ia of (i, a) \<Rightarrow> seq [puts (''KaiValue *_t'' @ fmt_nat i @ '' = ''), rec a, puts ''; ''])"
    if "ia \<in> set (List.enumerate 0 (drop 1 (n_children call)))" for ia
  proof (cases ia)
    case (Pair i a)
    then have "writes (rec a)" using that assms by (auto simp: enumerate_eq_zip dest: set_zip_rightD)
    then show ?thesis using Pair by (auto intro: stays_intros)
  qed
  moreover have "writes (case ip of (i, p) \<Rightarrow> puts (''kai_'' @ fmt_s (n_name p) @ '' = _t'' @ fmt_nat i @ ''; ''))" for ip
    by (cases ip) (simp add: writes_puts)
  ultimately have "writes (seq [puts ''({ '',
           seq (map (\<lambda>(i, a). seq [puts (''KaiValue *_t'' @ fmt_nat i @ '' = ''), rec a, puts ''; ''])
                  (List.enumerate 0 (drop 1 (n_children call)))),
           seq (map (\<lambda>p e.
                  if single_use (lu_lookup e (Some (n_id p))) then e
                  else puts (''{ KaiValue *_ = kai_internal_drop(kai_'' @ fmt_s (n_name p) @ ''); (void) _; } '') e)
                  ps),
           seq (map (\<lambda>(i, p). puts (''kai_'' @ fmt_s (n_name p) @ '' = _t'' @ fmt_nat i @ ''; ''))
                  (List.enumerate 0 ps)),
           puts g])" for ps g
    by (intro emit.stays_seq_Cons emit.stays_seq_map emit.stays_seq_Nil writes_puts)
  then show "\<exists>g. writes g \<and> emit_tco_goto rec call e = g e"
    unfolding emit_tco_goto_def Let_def by blast
qed

lemma writes_call:
  assumes "writer rec n" "emittable n" "n_kind n = N_CALL"
  shows "writes (emit_call rec n)"
proof -
  have rec: "writes (rec x)" if "x \<in> set (n_children n)" for x
    using writer_expr_child [OF assms(1,2) that] assms(3) by simp
  then have args: "\<And>x. x \<in> set (drop 1 (n_children n)) \<Longrightarrow> writes (rec x)" by (auto dest: in_set_dropD)
  show ?thesis
    unfolding emit_call_def [abs_def] Let_def [of "drop _ _"]
    by (intro stays_if_state writes_tco_goto emit.stays_with_child writes_variant_construction
        writes_ident_callee writes_args stays_intros writes_ident_value rec nth_mem)
      (auto dest: in_set_dropD)
qed


lemma writes_pipe_into_call:
  assumes "writes (rec lhs)" "\<And>x. x \<in> set (n_children rhs) \<Longrightarrow> writes (rec x)"
  shows "writes (emit_pipe_into_call rec lhs rhs)"
proof -
  have args: "\<And>x. x \<in> set (lhs # drop 1 (n_children rhs)) \<Longrightarrow> writes (rec x)"
    using assms by (auto dest: in_set_dropD)
  have variant: "writes (\<lambda>e. case find_variant e nm of
       Some (arity, vtag) \<Rightarrow>
           seq [puts (h vtag), commas (map (emit_slot rec) (lhs # drop 1 (n_children rhs))), puts ''})''] e
     | None \<Rightarrow> g e)" if "writes g" for nm h g
  proof -
    have "writes (seq [puts s, commas (map (emit_slot rec) (lhs # drop 1 (n_children rhs))), puts ''})''])" for s
      using args by (intro stays_intros)
    then show ?thesis using that by (intro stays_at) (auto split: option.splits)
  qed
  have via: "writes (seq [puts ''kai_apply('', rec c, emit_apply_args rec (lhs # drop 1 (n_children rhs))])"
    if "c \<in> set (n_children rhs)" for c
    using assms(2) [OF that] args by (intro stays_intros)
  show ?thesis
    unfolding emit_pipe_into_call_def Let_def [of "drop _ _"] Let_def [of "\<lambda>e. seq _ e"]
    by (intro emit.stays_with_child stays_if_state variant writes_ident_callee writes_args via nth_mem
        assms) (auto dest: in_set_dropD)
qed

lemma writes_pipe:
  assumes w: "writer rec n" and n: "emittable n" "n_kind n = N_PIPE"
  shows "writes (emit_pipe rec n)"
proof -
  have rec: "writes (rec x)" "\<And>y. \<lbrakk>n_kind x = N_CALL; y \<in> set (n_children x)\<rbrakk> \<Longrightarrow> writes (rec y)"
    if "x \<in> set (n_children n)" for x
    using writer_expr_child [OF w n(1) that] n(2)
      writer_expr_child [OF writer_below [OF w n(1) that] wf_child [OF n(1) that]] by auto
  show ?thesis
    unfolding emit_pipe_def
    by (intro emit.stays_with_child stays_if_state writes_pipe_into_call writes_ident_callee stays_intros)
      (auto intro: rec(1) rec(2) [OF nth_mem])
qed

lemma writes_list_tail:
  assumes "\<And>x. x \<in> set xs \<Longrightarrow> n_kind x \<noteq> N_SPREAD \<Longrightarrow> writes (rec x)"
    "\<And>x y. x \<in> set xs \<Longrightarrow> n_kind x = N_SPREAD \<Longrightarrow> y \<in> set (n_children x) \<Longrightarrow> writes (rec y)"
    "NULL \<notin> set xs"
  shows "writes (emit_list_tail rec xs)"
  using assms
proof (induction xs)
  case (Cons x xs)
  have x: "x \<noteq> NULL" "n_kind x \<noteq> N_SPREAD \<Longrightarrow> writes (rec x)" using Cons.prems by auto
  have "writes (with_child x i rec)" if s: "n_kind x = N_SPREAD" for i
    by (rule emit.stays_with_child, rule Cons.prems(2) [OF _ s nth_mem]) simp_all
  note x = x this
  have "writes (emit_list_tail rec xs)" by (rule Cons.IH) (use Cons.prems in auto)
  then show ?case
    using x by (auto intro!: stays_if_state emit.stays_seq_Cons emit.stays_seq_Nil writes_puts)
qed (simp add: writes_puts)

lemma writes_list:
  assumes w: "writer rec n" and n: "emittable n" "n_kind n = N_LIST_LIT"
  shows "writes (emit_list rec n)"
  unfolding emit_list_def
proof (rule writes_list_tail)
  have l: "is_expr x \<or> n_kind x = N_SPREAD" if "x \<in> set (n_children n)" for x
    using wf_layout [OF n(1)] n(2) that by (auto simp: all_kinds_def list_all_iff)
  show "writes (rec x)" if "x \<in> set (n_children n)" "n_kind x \<noteq> N_SPREAD" for x
    using writer_child [OF w n(1) that(1)] l [OF that(1)] that(2) by simp
  show "writes (rec y)" if "x \<in> set (n_children n)" "n_kind x = N_SPREAD" "y \<in> set (n_children x)" for x y
    using writer_expr_child [OF writer_below [OF w n(1) that(1)] wf_child [OF n(1) that(1)] that(3)] that(2)
    by simp
  show "NULL \<notin> set (n_children n)" using wf_child [OF n(1)] by fastforce
qed

lemma writes_record_lit:
  assumes w: "writer rec n" and n: "emittable n" "n_kind n = N_RECORD_LIT"
  shows "writes (emit_record_lit rec n)"
proof -
  have "writes (with_child x 0 rec)" if x: "x \<in> set (n_children n)" for x
  proof (rule emit.stays_with_child)
    assume l: "0 < length (n_children x)"
    have "n_kind x = N_FIELD_INIT"
      using wf_layout [OF n(1)] n(2) x by (auto simp: all_kinds_def list_all_iff)
    then show "writes (rec (n_children x ! 0))"
      using writer_nth [OF writer_below [OF w n(1) x] wf_child [OF n(1) x] l] by simp
  qed
  then show ?thesis
    unfolding emit_record_lit_def by (intro stays_intros) (auto intro: stays_intros)
qed


section \<open>Patterns and match\<close>

lemma child_size: "x \<in> set ch \<Longrightarrow> size x < size (Node k a l c nm fl v ch)"
  by (simp add: less_Suc_eq_le size_list_estimation')

lemma writes_pat_test:
  "\<lbrakk>emittable p; is_pat p; writer rec p\<rbrakk> \<Longrightarrow> writes (emit_pat_test rec p scr)"
proof (induction p arbitrary: scr rule: measure_induct_rule [of size])
  case (less p)
  obtain k a l c nm fl v ch where p: "p = Node k a l c nm fl v ch" using less.prems by (cases p) auto
  have lay: "layout k nm fl v ch" and k: "pat_kind k" using less.prems p by (auto simp: pat_kind_def)
  have sub: "writes (emit_pat_test rec x t)" if "x \<in> set ch" "is_pat x" for x t
    using less.IH [of x t] that less.prems p child_size wf_child writer_below by fastforce
  have nth: "writes (emit_pat_test rec (ch ! i) t)" if "k = N_PAT_LIST \<or> k = N_PAT_VARIANT" "i < length ch" for i t
    using that lay by (intro sub) (auto simp: all_kinds_def list_all_iff)
  have field: "writes (with_child (ch ! i) 0 (\<lambda>p. emit_pat_test rec p t))"
    if r: "k = N_PAT_RECORD" "i < length ch" for i t
  proof (rule emit.stays_with_child)
    let ?f = "ch ! i"
    assume l: "0 < length (n_children ?f)"
    have f: "?f \<in> set (n_children p)" using r p by simp
    have fk: "n_kind ?f = N_PAT_FIELD" using lay r by (auto simp: all_kinds_def list_all_iff)
    have wf: "emittable ?f" by (rule wf_child [OF less.prems(1) f])
    have "is_pat (n_children ?f ! 0)" using wf_layout [OF wf] fk by (auto split: list.splits)
    moreover have "size (n_children ?f ! 0) < size p"
      using wf_below [OF wf nth_mem [OF l]] wf_below [OF less.prems(1) f] by (simp add: below_def)
    ultimately show "writes (emit_pat_test rec (n_children ?f ! 0) t)"
      using less.IH wf_child [OF wf nth_mem [OF l]] writer_below [OF _ wf nth_mem [OF l]]
        writer_below [OF less.prems(3,1) f] by blast
  qed
  have lit: "writes (with_child p 0 rec)" if "k = N_PAT_LIT"
  proof (rule emit.stays_with_child)
    assume "0 < length (n_children p)"
    then have "n_children p ! 0 \<in> set (n_children p)" "is_expr (n_children p ! 0)"
      using lay that p by (auto simp: all_kinds_def list_all_iff kind_defs)
    then show "writes (rec (n_children p ! 0))" by (rule writer_child [OF less.prems(3,1)])
  qed
  note puts_then = emit.stays_comp [OF writes_puts]
  have eq: "emit_pat_test rec p scr = (\<lambda>e. emit_pat_test rec (Node k a l c nm fl v ch) scr e)" by (simp only: p)
  consider "k = N_PAT_WILD \<or> k = N_PAT_BIND" | "k = N_PAT_LIT" | "k = N_PAT_LIST" | "k = N_PAT_VARIANT" | "k = N_PAT_RECORD"
    using k by (auto simp: pat_kind_def)
  then show ?case
  proof cases
    case 1 then show ?thesis unfolding eq emit_pat_test.simps by (auto intro: writes_puts)
  next
    case 2 then show ?thesis unfolding eq emit_pat_test.simps using lit p by (auto intro!: stays_intros)
  next
    case 3
    have elem: "writes (\<lambda>e. emit_pat_test rec (ch ! i) t (puts u (if i > 0 then puts w e else e)))"
      if "i < n_fixed fl ch" for i t u w
    proof -
      have "writes (\<lambda>e. if i > 0 then puts w e else e)" by (intro stays_if_state writes_puts emit.stays_id)
      note emit.stays_comp [OF this writes_puts]
      then show ?thesis by (rule emit.stays_comp) (rule nth, use that 3 n_fixed_le in simp_all)
    qed
    show ?thesis
      unfolding eq emit_pat_test.simps 3 node_kind.case Let_def
      by (intro stays_if_state stays_intros elem) auto
  next
    case 4
    show ?thesis
      unfolding eq emit_pat_test.simps 4 node_kind.case
      by (intro stays_intros puts_then nth) (use 4 in auto)
  next
    case 5
    show ?thesis
      unfolding eq emit_pat_test.simps 5 node_kind.case Let_def
      by (intro stays_intros puts_then emit.stays_comp [OF field writes_puts]) (use 5 in auto)
  qed
qed


lemma writes_pat_binds: "writes (emit_pat_binds p scr al)"
proof (induction p arbitrary: scr al rule: measure_induct_rule [of size])
  case (less p)
  show ?case
  proof (cases p)
    case NULL
    have "emit_pat_binds NULL scr al = set_ub" by (rule ext) simp
    then show ?thesis by (simp add: NULL emit.stays_set_ub)
  next
    case p: (Node k a l c nm fl v ch)
    have sub: "writes (emit_pat_binds x t b)" if "x \<in> set ch" for x t b
      using less.IH that p child_size by blast
    have field: "writes (with_child x 0 (\<lambda>p. emit_pat_binds p t b))" if "x \<in> set ch" for x t b
    proof (rule emit.stays_with_child)
      assume x: "x \<noteq> NULL" "0 < length (n_children x)"
      then have "size (n_children x ! 0) < size x" using below_child by (simp add: below_def)
      then have "size (n_children x ! 0) < size p" using child_size [OF that] p by fastforce
      then show "writes (emit_pat_binds (n_children x ! 0) t b)" by (rule less.IH)
    qed
    have eq: "emit_pat_binds p scr al = (\<lambda>e. emit_pat_binds (Node k a l c nm fl v ch) scr al e)" by (simp only: p)
    have list: "writes (\<lambda>e. if b then emit_pat_binds (ch ! i) t True (seq fs e) else seq fs e)"
      if "b \<Longrightarrow> i < length ch" "writes (seq fs)" for b i t fs
      using that emit.stays_comp [OF that(2) sub] by (cases b) (simp_all add: emit.stays_seq)
    show ?thesis
      unfolding eq emit_pat_binds.simps Let_def
      by (cases k; simp only: node_kind.case;
          intro stays_if_state stays_intros writes_puts list emit.stays_seq_map sub field)
        (auto dest: n_fixed_le)
  qed
qed


lemma writes_arm:
  assumes w: "writer rec n" and n: "emittable n" "n_kind n = N_ARM"
  shows "writes (emit_arm rec n)"
proof -
  obtain p g b where a: "arm_parts n = Some (p, g, b)" "p \<in> set (n_children n)" "is_pat p"
      "b \<in> set (n_children n)" "is_expr b"
      "if bit1 (n_flags n) then g \<in> set (n_children n) \<and> is_expr g else g = NULL"
    by (rule arm_parts_wf [OF n]) blast
  have body: "writes (rec b)" and guard: "bit1 (n_flags n) \<Longrightarrow> writes (rec g)"
    using writer_child [OF w n(1)] a by (auto split: if_splits)
  have test: "writes (emit_pat_test rec p ''_scr'')"
    by (rule writes_pat_test [OF wf_child [OF n(1) a(2)] a(3) writer_below [OF w n(1) a(2)]])
  let ?body = "if n_flags n AND 1 \<noteq> 0 then
                  seq [puts ''if (kai_op_truthy('', rec g, puts '')) { _r = '', rec b,
                       puts ''; break; } } '']
                else seq [puts ''_r = '', rec b, puts (''; break; }'' @ [NL])]"
  have b: "writes ?body" using body guard by (intro stays_intros)
  have "writes (seq ([puts ''    if ('', emit_pat_test rec p ''_scr'', puts '') { ''] @
      ls_push_mark # [emit_pat_binds p ''_scr'' True, pat_add_locals p, ?body] @ ls_pop_mark # []))"
    using test stays_grows [OF writes_pat_binds] emit.grows_pat_add_locals stays_grows [OF b] writes_puts
    by (intro emit.stays_seq_scope) (auto simp del: One_nat_def)
  then show ?thesis by (simp add: emit_arm_def [abs_def] a(1))
qed

lemma writes_match:
  assumes w: "writer rec n" and n: "emittable n" "n_kind n = N_MATCH"
  shows "writes (emit_match rec n)"
proof -
  obtain x r where ch: "n_children n = x # r" "is_expr x" "\<forall>a\<in>set r. n_kind a = N_ARM"
    using wf_layout [OF n(1)] n(2) by (auto simp: all_kinds_def list_all_iff split: list.splits)
  have "writes (emit_arm rec a)" if "a \<in> set (drop 1 (n_children n))" for a
    using writes_arm [OF writer_below [OF w n(1)] wf_child [OF n(1)]] that ch by simp
  moreover have "writes (rec (n_children n ! 0))"
    using writer_child [OF w n(1), of x] ch by simp
  ultimately show ?thesis unfolding emit_match_def by (intro stays_intros)
qed

section \<open>Strings and lambdas\<close>

lemma string_parts_shorter:
  assumes "m \<le> length src" "Part_expr t \<in> set (string_parts src m l i)"
  shows "length t < length src"
  using assms
proof (induction src m l i rule: string_parts.induct)
  case (1 src m l i)
  have "length (slice src (i + 2) j) < length src" if "i < m" for j
    using that 1(3) by (simp add: slice_def)
  then show ?case
    using 1 by (auto simp: string_parts.simps [of src m l i] Let_def split: if_splits)
qed


lemma writes_register_lambda:
  assumes "emittable lam" "n_kind lam = N_LAMBDA"
  shows "writes (register_lambda lam)"
proof -
  have "base e (register_lambda lam e) \<and> keeps_emit e (register_lambda lam e)
      \<and> e_locals (register_lambda lam e) = e_locals e" for e
    using register_lambda_step [OF assms refl, of e] register_lambda_result [OF assms, of e] assms
    by (auto simp: base_def keeps_collect_def keeps_emit_def keeps_program_def lams_ok_def)
  then show ?thesis by (simp add: stays_def)
qed

lemma writes_collect_lambdas: "emittable n \<Longrightarrow> writes (collect_lambdas n)"
proof (induction n)
  case (Node k a l c nm fl v ch)
  have rec: "writes (collect_lambdas x)" if "x \<in> set ch" for x using Node that by simp
  show ?case
  proof (cases "k = N_LAMBDA")
    case True
    then obtain b ps where ch: "ch = b # ps" using wf_layout [OF Node.prems] by (auto split: list.splits)
    have "collect_lambdas (Node k a l c nm fl v ch) = (\<lambda>e. collect_lambdas b (register_lambda (Node k a l c nm fl v ch) e))"
      by (rule ext) (simp add: True ch)
    then show ?thesis
      using emit.stays_comp [OF writes_register_lambda [OF Node.prems] rec [of b]] True ch by simp
  next
    case False
    then have "collect_lambdas (Node k a l c nm fl v ch) = fold collect_lambdas ch" by (intro ext) simp
    then show ?thesis by (simp only:) (rule emit.stays_fold [OF rec])
  qed
qed simp

lemma writes_interp:
  assumes "\<And>m. \<lbrakk>wf_node m; is_expr m; string_bound m \<le> length t\<rbrakk> \<Longrightarrow> writes (sub m)"
  shows "writes (emit_interp sub s t)"
proof (rule stays_at)
  fix e
  let ?f = "\<lambda>m. seq [collect_lambdas m, puts ''kai_to_string('', sub m, puts '')'']"
  let ?none = "\<lambda>e. seq [bug s ''failed to parse interpolation'', puts (''kai_str('' @ [DQ, DQ] @ '')'')] e"
  have w: "writes (with_interp ?f t)"
    by (intro emit.stays_with_interp stays_intros writes_collect_lambdas wf_emittable assms)
  have "writes ?none" by (intro stays_intros)
  note wn = emit.stays_comp [OF w this]
  show "\<exists>g. writes g \<and> emit_interp sub s t e = g e"
  proof (cases "fst (interp_tree t e)")
    case None
    then have "emit_interp sub s t e = ?none (with_interp ?f t e)"
      by (auto simp: emit_interp_def with_interp_def split: prod.splits)
    then show ?thesis using wn by blast
  next
    case (Some m)
    then have "emit_interp sub s t e = with_interp ?f t e"
      by (auto simp: emit_interp_def with_interp_def split: prod.splits)
    then show ?thesis using w by blast
  qed
qed

lemma writes_string_expr:
  assumes sub: "\<And>m. \<lbrakk>wf_node m; is_expr m; string_bound m < length (n_name s)\<rbrakk> \<Longrightarrow> writes (sub m)"
  shows "writes (emit_string_expr sub s)"
proof (cases "str_span s")
  case None
  then have "emit_string_expr sub s = set_ub" by (intro ext) (simp add: emit_string_expr_def)
  then show ?thesis by (simp add: emit.stays_set_ub)
next
  case (Some w)
  obtain i m where w: "w = (i, m)" "m \<le> length (n_name s)"
    using Some by (cases w) (auto simp: str_span_def Let_def split: if_splits)
  let ?ps = "string_parts (n_name s) m i i"
  have part: "writes (emit_part sub s p)" if "p \<in> set ?ps" for p
  proof (cases p)
    case (Part_lit a b)
    then show ?thesis by (auto simp: emit_part_def write_c_string_slice_def intro!: stays_intros)
  next
    case (Part_expr t)
    then have "length t < length (n_name s)" using string_parts_shorter [OF w(2)] that by blast
    then show ?thesis using Part_expr sub by (auto simp: emit_part_def intro: writes_interp)
  qed
  have hd: "writes (emit_part sub s (hd ?ps))" if "?ps \<noteq> []" using that by (intro part) simp
  show ?thesis
    unfolding emit_string_expr_def [abs_def] Some w(1) option.case prod.case Let_def
    by (intro stays_if_state emit.stays_set_ub writes_puts emit.stays_seq_Cons emit.stays_seq_Nil hd
        emit.stays_seq emit.stays_seq_map part) (auto dest: list.set_sel(2) intro: writes_puts)
qed

lemma writes_lambda_ref: "writes (emit_lambda_ref lam)"
proof (rule stays_at)
  fix e
  show "\<exists>g. writes g \<and> emit_lambda_ref lam e = g e"
  proof (cases "find_lam_info e lam")
    case None then show ?thesis using writes_bug by (auto simp: emit_lambda_ref_def)
  next
    case (Some i)
    have "writes (seq [puts h, (if l_caps i = [] then puts ''NULL)''
                else seq [puts ''(KaiValue *[]){'', commas (map (\<lambda>c. puts (''kai_'' @ fmt_s c)) (l_caps i)),
                          puts ''})''])])" for h
      by (intro stays_intros)
    then show ?thesis using Some unfolding emit_lambda_ref_def by (auto simp only: option.case)
  qed
qed


section \<open>Statements, blocks, expressions\<close>

lemma grows_let:
  assumes w: "writer rec n" and n: "emittable n" "n_kind n = N_LET"
  shows "grows keeps_emit (emit_let rec n)"
proof -
  obtain p t x where ch: "n_children n = [p, t, x]" "is_expr x"
    using wf_layout [OF n(1)] n(2) by (auto split: list.splits)
  have x: "writes (rec x)" using writer_child [OF w n(1)] ch by simp
  have eq: "emit_let rec n = (if p \<noteq> NULL \<and> n_kind p = N_PAT_BIND then
         seq [puts (''KaiValue *kai_'' @ fmt_s (n_name p) @ '' = ''), rec x, puts '';'',
              ls_add (n_name p) (Some (n_id p))]
       else
         seq [puts ''KaiValue *_letv = '', rec x, puts ''; '',
              emit_pat_binds p ''_letv'' False, pat_add_locals p])"
    using n by (intro ext) (simp add: emit_let_def with_child_def ch(1) numeral_2_eq_2)
  note g = stays_grows [OF x] stays_grows [OF writes_puts] stays_grows [OF writes_pat_binds]
      emit.grows_pat_add_locals emit.grows_ls_add
  have "grows keeps_emit (seq [puts s, rec x, puts s', ls_add nm d])" for s s' nm d
    by (rule emit.grows_seq) (auto intro: g)
  moreover have "grows keeps_emit (seq [puts s, rec x, puts s', emit_pat_binds p s'' b, pat_add_locals p])" for s s' s'' b
    by (rule emit.grows_seq) (auto intro: g)
  ultimately show ?thesis unfolding eq if_split [of "grows keeps_emit"] by blast
qed

lemma writes_assert:
  assumes w: "writer rec n" and n: "emittable n" "n_kind n = N_ASSERT"
  shows "writes (emit_assert rec n)"
proof -
  have d: "writes emit_test_desc"
    by (rule stays_at) (auto simp: emit_test_desc_def intro: writes_puts)
  show ?thesis
    unfolding emit_assert_def [abs_def] Let_def
    by (intro stays_if_state stays_intros d writer_nth [OF w n(1)]) (use n(2) in simp_all)
qed

lemma grows_stmt:
  assumes w: "writer rec n" and n: "emittable n" "stmt_kind (n_kind n)"
  shows "grows keeps_emit (emit_stmt rec n)"
proof -
  have n0: "n \<noteq> NULL" using n(1) by simp
  consider "n_kind n = N_LET" | "n_kind n = N_ASSERT" | "n_kind n = N_EXPR_STMT"
    using n(2) by (auto simp: stmt_kind_def)
  then show ?thesis
  proof cases
    case 1
    then have "emit_stmt rec n = emit_let rec n" using n0 by (intro ext) (simp add: emit_stmt_def)
    then show ?thesis using grows_let [OF w n(1) 1] by simp
  next
    case 2
    then have "emit_stmt rec n = emit_assert rec n" using n0 by (intro ext) (simp add: emit_stmt_def)
    then show ?thesis using stays_grows [OF writes_assert [OF w n(1) 2]] by simp
  next
    case 3
    then have "emit_stmt rec n = seq [puts ''{ KaiValue *_ = '', with_child n 0 rec, puts ''; (void) _; }'']"
      using n0 by (intro ext) (simp add: emit_stmt_def)
    moreover have "writes (with_child n 0 rec)"
      using 3 by (intro emit.stays_with_child writer_nth [OF w n(1)]) simp_all
    then have "writes (seq [puts s, with_child n 0 rec, puts s'])" for s s'
      by (simp only: emit.stays_seq_Cons emit.stays_seq_Nil writes_puts)
    note stays_grows [OF this]
    ultimately show ?thesis by (simp only:)
  qed
qed

lemma writes_block:
  assumes w: "writer rec n" and n: "emittable n" "n_kind n = N_BLOCK"
  shows "writes (emit_block rec n)"
proof -
  let ?ch = "n_children n" and ?has = "n_flags n AND 1 \<noteq> 0"
  have lay: "?ch \<noteq> []" "all_kinds stmt_kind (butlast ?ch)" "?has \<Longrightarrow> is_expr (last ?ch)"
    using wf_layout [OF n(1)] n(2) by (auto split: if_splits)
  have stmt: "grows keeps_emit (emit_stmt rec x)" if "x \<in> set (butlast ?ch)" for x
    using that lay(2) in_set_butlastD [OF that]
    by (intro grows_stmt writer_below [OF w n(1)] wf_child [OF n(1)]) (auto simp: all_kinds_def list_all_iff)
  have last: "writes (rec (last ?ch))" if "?has"
    by (rule writer_child [OF w n(1) last_in_set [OF lay(1)] lay(3) [OF that]])
  let ?mid = "[seq (map (\<lambda>s. seq [emit_stmt rec s, puts '' '']) (butlast ?ch)),
     (if ?has then seq [rec (last ?ch), puts ''; ''] else puts ''kai_unit(); '')]"
  have "grows keeps_emit (seq (map (\<lambda>s. seq [emit_stmt rec s, puts '' '']) (butlast ?ch)))"
    using stmt stays_grows [OF writes_puts] by (intro emit.grows_seq) (auto intro!: emit.grows_seq)
  moreover have "writes (if ?has then seq [rec (last ?ch), puts ''; ''] else puts ''kai_unit(); '')"
    using last by (intro stays_intros)
  note stays_grows [OF this]
  ultimately have "writes (seq ([puts ''({ ''] @ ls_push_mark # ?mid @ ls_pop_mark # [puts ''})'']))"
    using writes_puts by (intro emit.stays_seq_scope) auto
  then show ?thesis
    using last lay(1) by (cases "n_flags n AND 1 \<noteq> 0") (simp_all add: emit_block_def Let_def)
qed

lemma writes_expr:
  assumes n: "emittable n" "is_expr n" and w: "writer rec n"
    and sub: "\<And>m. emittable m \<Longrightarrow> is_expr m \<Longrightarrow> string_bound m < string_bound n \<Longrightarrow> writes (sub m)"
  shows "writes (emit_expr sub rec n)"
proof -
  have n0: "n \<noteq> NULL" using n(1) by simp
  have string: "writes (emit_string_expr sub n)" if "n_kind n = N_STRING"
  proof (rule writes_string_expr)
    fix m assume "wf_node m" "is_expr m" "string_bound m < length (n_name n)"
    then show "writes (sub m)"
      using string_bound_string [OF n0 that] by (intro sub wf_emittable) simp_all
  qed
  have val: "writes (\<lambda>e. case n_val n of V_bool b \<Rightarrow> puts (s0 b) e | _ \<Rightarrow> set_ub e)"
      "writes (\<lambda>e. case n_val n of V_int i \<Rightarrow> puts (s1 i) e | _ \<Rightarrow> set_ub e)"
      "writes (\<lambda>e. case n_val n of V_char i \<Rightarrow> puts (s2 i) e | _ \<Rightarrow> set_ub e)"
      "writes (\<lambda>e. case n_val n of V_real i \<Rightarrow> puts (''kai_real('' @ e_g17 e i @ '')'') e | _ \<Rightarrow> set_ub e)"
    for s0 s1 s2
    using writes_puts emit.stays_set_ub writes_at [OF writes_puts] by (cases "n_val n"; simp)+
  have bug: "writes (\<lambda>e. puts s (bug n t e))" for s t
    by (rule emit.stays_comp [OF writes_bug writes_puts])
  note call = writes_call [OF w n(1)] writes_pipe [OF w n(1)] writes_binop [OF w n(1)] writes_unop [OF w n(1)]
    writes_if [OF w n(1)] writes_range [OF w n(1)] writes_list [OF w n(1)] writes_match [OF w n(1)]
    writes_record_lit [OF w n(1)] writes_field_access [OF w n(1)] writes_block [OF w n(1)]
  show ?thesis
    using n0 string call bug val writes_puts writes_ident_value writes_lambda_ref
    by (cases "n_kind n") (simp_all add: emit_expr_def [abs_def])
qed

lemma writes_tree: "emittable n \<Longrightarrow> is_expr n \<Longrightarrow> writes (emit_tree n)"
  unfolding emit_tree_def
proof (rule knot_rule [where A = "\<lambda>n. emittable n \<and> is_expr n" and Q = "\<lambda>n f. writes f"])
  fix sub rec n
  assume n: "emittable n \<and> is_expr n"
    and rec: "\<And>m. emittable m \<and> is_expr m \<Longrightarrow> below m n \<Longrightarrow> writes (rec m)"
    and sub: "\<And>m. emittable m \<and> is_expr m \<Longrightarrow> string_bound m < string_bound n \<Longrightarrow> writes (sub m)"
  show "writes (emit_expr sub rec n)"
    using n rec sub by (intro writes_expr) (auto simp: writer_def)
qed simp_all

end
