(* ===== verification/Kai_Emit_Program.thy ===== *)
theory Kai_Emit_Program
  imports Kai_Emit_Writes
begin

text \<open>
  The whole program: the tail-call pass keeps trees well-formed, functions, tests and helpers
  of lambdas are written in scopes of their own, and \<open>kai_emit\<close> ends on every parsed program,
  with an error exactly when it reported one.
\<close>

section \<open>Marked trees\<close>

lemma n_kind_tco_mark [simp]: "n_kind (tco_mark name ar s n) = n_kind n"
  by (cases n; cases "n_kind n") (simp_all add: Let_def)

lemma tco_mark_NULL [simp]: "tco_mark name ar s n = NULL \<longleftrightarrow> n = NULL"
  by (cases n; cases "n_kind n") (simp_all add: Let_def)

lemma n_name_tco_mark [simp]: "n_name (tco_mark name ar s n) = n_name n"
  by (cases n; cases "n_kind n") (simp_all add: Let_def)

text \<open>The layout of the nodes the pass rebuilds only looks at the kinds of the children.\<close>

lemma map_kind_update: "i < length ch \<Longrightarrow> n_kind x = n_kind (ch ! i) \<Longrightarrow> map n_kind (ch[i := x]) = map n_kind ch"
  by (simp add: map_update list_update_same_conv)

lemma all_kinds_map: "all_kinds P ch \<longleftrightarrow> list_all P (map n_kind ch)"
  by (simp add: all_kinds_def list.pred_map comp_def)

lemma layout_kinds:
  assumes "map n_kind ch = map n_kind ch'" "k \<in> {N_IF, N_MATCH, N_ARM, N_BLOCK}" "layout k nm fl v ch"
  shows "layout k nm fl v ch'"
proof -
  have len: "length ch = length ch'" using assms(1) by (metis length_map)
  have all: "all_kinds P ch = all_kinds P ch'" for P by (simp only: all_kinds_map assms(1))
  have but: "all_kinds P (butlast ch) = all_kinds P (butlast ch')" for P
    by (simp only: all_kinds_map map_butlast assms(1))
  have last: "n_kind (last ch) = n_kind (last ch')" if "ch \<noteq> []"
    using assms(1) that by (metis last_map list.map_disc_iff)
  show ?thesis
  proof (cases "k = N_BLOCK")
    case True
    then show ?thesis using assms(3) len but last by (auto split: if_splits)
  next
    case False
    then have "k = N_IF \<or> k = N_MATCH \<or> k = N_ARM" using assms(2) by simp
    then show ?thesis
      using assms(1,3) len
      by (cases ch; cases ch'; cases "tl ch"; cases "tl ch'") (auto simp: all_kinds_map)
  qed
qed

lemma emittable_update:
  assumes "emittable (Node k a l c nm fl v ch)" "k \<in> {N_IF, N_MATCH, N_ARM, N_BLOCK}"
    "map n_kind ch' = map n_kind ch" "\<forall>x\<in>set ch'. emittable x"
  shows "emittable (Node k a l c nm fl v ch')"
  using assms layout_kinds [OF assms(3) [symmetric] assms(2)] by auto

lemma emittable_set_child:
  assumes "emittable n" "n_kind n \<in> {N_IF, N_MATCH, N_ARM, N_BLOCK}"
    "i < length (n_children n)" "n_kind x = n_kind (n_children n ! i)" "emittable x"
  shows "emittable (set_child n i x)"
proof -
  have all: "\<forall>y\<in>set (n_children n). emittable y" using assms(1) wf_child by blast
  obtain k a l c nm fl v ch where n: "n = Node k a l c nm fl v ch" using assms(1) by (cases n) auto
  have "\<forall>y\<in>set (ch[i := x]). emittable y"
    using all assms(5) set_update_subset_insert [of ch i x] n by auto
  then show ?thesis
    using emittable_update [OF assms(1) [unfolded n]] assms(2-4) map_kind_update n by simp
qed

lemma emittable_tco_mark: "emittable n \<Longrightarrow> emittable (tco_mark name ar s n)"
proof (induction n arbitrary: s rule: measure_induct_rule [of size])
  case (less n)
  obtain k a l c nm fl v ch where n: "n = Node k a l c nm fl v ch" using less.prems by (cases n) auto
  have sub: "emittable (tco_mark name ar t x)" if "x \<in> set ch" for x t
    using less.IH [of x t] child_size [OF that] wf_child [OF less.prems, of x] that n by simp
  have upd: "emittable (Node k a l c nm fl v (ch'[i := tco_mark name ar t (ch ! i)]))"
    if "emittable (Node k a l c nm fl v ch')" "i < length ch'" "ch' ! i = ch ! i" "length ch' = length ch"
      "k \<in> {N_IF, N_MATCH, N_ARM, N_BLOCK}" for i t ch'
    using emittable_set_child [OF that(1), of i "tco_mark name ar t (ch ! i)"] sub [of "ch ! i" t] that by simp
  consider "k = N_CALL" | "k = N_IF" | "k = N_MATCH" | "k = N_BLOCK" | "k \<notin> {N_CALL, N_IF, N_MATCH, N_BLOCK}"
    by blast
  then show ?case
  proof cases
    case 1
    then show ?thesis using less.prems n by (simp add: Let_def)
  next
    case 2
    show ?thesis
    proof (cases "length ch < 2")
      case False
      have one: "emittable (Node k a l c nm fl v (ch[1 := tco_mark name ar s (ch ! 1)]))"
        by (rule upd) (use less.prems False n 2 in simp_all)
      have two: "emittable (Node k a l c nm fl v (ch[1 := tco_mark name ar s (ch ! 1), 2 := tco_mark name ar s (ch ! 2)]))"
        if "length ch \<ge> 3"
        by (rule upd [OF one]) (use that 2 in simp_all)
      show ?thesis
        unfolding n 2 tco_mark.simps node_kind.case Let_def
        by (simp only: False if_False if_split [of emittable]) (use one two 2 in blast)
    qed (use less.prems n 2 in simp)
  next
    case 3
    have arm: "emittable (set_child x (length (n_children x) - 1) (tco_mark name ar t (last (n_children x))))"
      if x: "x \<in> set ch" "is_arm x" for x t
    proof (rule emittable_set_child)
      show wf: "emittable x" using wf_child [OF less.prems] x n by simp
      have "last (n_children x) \<in> set (n_children x)" by (rule is_arm_last [OF x(2)])
      then have "size (last (n_children x)) < size x" "emittable (last (n_children x))"
        using wf_below [OF wf] wf_child [OF wf] by (simp_all add: below_def)
      then show "emittable (tco_mark name ar t (last (n_children x)))"
        using less.IH [of "last (n_children x)" t] child_size [OF x(1), of k a l c nm fl v] n by simp
    qed (use x(2) in \<open>simp_all add: is_arm_def last_conv_nth\<close>)
    have kind: "n_kind (set_child x i y) = n_kind x" for x i y by (cases x) simp_all
    have "emittable (Node k a l c nm fl v (tco_mark_match_arms (tco_mark name ar) s ch))"
    proof (rule emittable_update [OF less.prems [unfolded n]])
      show "map n_kind (tco_mark_match_arms (tco_mark name ar) s ch) = map n_kind ch"
        by (cases ch) (simp_all add: tco_mark_match_arms_def kind)
      show "\<forall>x\<in>set (tco_mark_match_arms (tco_mark name ar) s ch). emittable x"
        using arm wf_child [OF less.prems] n
        by (auto simp: tco_mark_match_arms_def dest: in_set_dropD in_set_takeD)
    qed (use 3 in simp)
    then show ?thesis using n 3 by simp
  next
    case 4
    have ne: "ch \<noteq> []" using less.prems n 4 by simp
    have tail: "emittable (Node k a l c nm fl v (ch[length ch - 1 := tco_mark name ar t (last ch)]))" for t
      unfolding last_conv_nth [OF ne] by (rule upd) (use less.prems n 4 ne in simp_all)
    have "emittable (Node k a l c nm fl v (tco_mark_block_tail (tco_mark name ar) s fl ch))"
    proof (cases "fl AND 1 \<noteq> 0")
      case True
      then have "tco_mark_block_tail (tco_mark name ar) s fl ch
          = ch[length ch - 1 := tco_mark name ar (tco_block_shadows s ch) (last ch)]"
        using ne by (simp add: tco_mark_block_tail_def)
      then show ?thesis by (simp only: tail)
    qed (use less.prems n in \<open>simp add: tco_mark_block_tail_def\<close>)
    then show ?thesis using n 4 by simp
  next
    case 5
    then show ?thesis using less.prems n by (cases k) simp_all
  qed
qed


section \<open>Functions and tests\<close>

abbreviation runs :: "act \<Rightarrow> bool" where "runs \<equiv> stays keeps_program"

lemma stays_mono: "stays K f \<Longrightarrow> (\<And>e e'. K e e' \<Longrightarrow> K' e e') \<Longrightarrow> stays K' f"
  by (simp add: stays_def)

lemma grows_mono: "grows K f \<Longrightarrow> (\<And>e e'. K e e' \<Longrightarrow> K' e e') \<Longrightarrow> grows K' f"
  by (simp add: grows_def)

lemma runs_writes: "writes f \<Longrightarrow> runs f"
  by (rule stays_mono [of keeps_emit]) (simp_all add: keeps_emit_def)

lemma grows_counts: "counts n f \<Longrightarrow> grows keeps_program (f b)"
  by (rule grows_mono [of keeps_count]) (auto simp: counts_def walks_def keeps_count_def keeps_program_def)

lemma runs_puts [stays_intros]: "runs (puts s)"
  by (rule runs_writes [OF writes_puts])

lemma runs_state [stays_intros]: "runs (set_curfn fn)" "runs lu_clear" "runs (lu_add d nm)" "runs (set_desc t)"
  by (simp_all add: stays_def base_def keeps_program_def set_curfn_def lu_clear_def lu_add_def set_desc_def)

lemma runs_commas [stays_intros]: "(\<And>x. x \<in> set xs \<Longrightarrow> runs (f x)) \<Longrightarrow> runs (commas (map f xs))"
  by (rule program.stays_seq_sep [OF _ runs_puts]) auto

lemma runs_fn_signature: "runs (emit_fn_signature fn)"
  unfolding emit_fn_signature_def by (intro stays_intros)

lemma runs_fn_thunk: "runs (emit_fn_thunk fn)"
  unfolding emit_fn_thunk_def by (intro stays_intros)

lemma grows_add_fn_params: "grows keeps_program (add_fn_params ps)"
  unfolding add_fn_params_def
  by (rule program.grows_seq)
    (auto intro!: program.grows_seq program.grows_ls_add stays_grows [OF runs_state(3)])

lemma runs_fn_body:
  assumes "wf_node fn" "n_kind fn = N_FN"
  shows "runs (emit_fn_body fn)"
proof -
  obtain r b ps where ch: "n_children fn = r # b # ps" "is_expr b"
    using assms by (cases fn) (auto split: list.splits)
  have b: "emittable b" using wf_child [OF wf_emittable [OF assms(1)]] ch(1) by simp
  let ?tco = "tco_walk_tail (n_name fn) (length (fn_params fn)) [] b"
  let ?b = "if ?tco then tco_mark (n_name fn) (length (fn_params fn)) [] b else b"
  have m: "emittable ?b" "is_expr ?b" using emittable_tco_mark [OF b] b ch(2) by auto
  let ?h = "if ?tco
               then puts ('' {'' @ [NL] @ ''    _kai_'' @ fmt_s (n_name fn) @ ''_entry:;'' @ [NL] @ ''    return '')
               else puts ('' {'' @ [NL] @ ''    return '')"
  have "runs (seq ([?h, set_curfn fn] @ ls_push_mark #
      [lu_clear, add_fn_params (fn_params fn), count_uses ?b False, emit_tree ?b] @ ls_pop_mark # [set_curfn NULL]))"
  proof (rule program.stays_seq_scope)
    show "grows keeps_program f"
      if "f \<in> set [lu_clear, add_fn_params (fn_params fn), count_uses ?b False, emit_tree ?b]" for f
      using that stays_grows [OF runs_state(2)] grows_add_fn_params grows_counts [OF counts_count_uses [OF m(1)]]
        stays_grows [OF runs_writes [OF writes_tree [OF m]]] by auto
  qed (auto intro: runs_puts runs_state)
  moreover have "fn \<noteq> NULL" using assms(1) by auto
  then have "with_child fn 1 (\<lambda>body.
            let arity = length (fn_params fn);
                has_tco = tco_walk_tail (n_name fn) arity [] body;
                body = (if has_tco then tco_mark (n_name fn) arity [] body else body)
            in seq [
              (if has_tco
               then puts ('' {'' @ [NL] @ ''    _kai_'' @ fmt_s (n_name fn) @ ''_entry:;'' @ [NL] @ ''    return '')
               else puts ('' {'' @ [NL] @ ''    return '')),
              set_curfn fn, ls_push_mark, lu_clear,
              add_fn_params (fn_params fn),
              count_uses body False,
              emit_tree body,
              ls_pop_mark, set_curfn NULL])
     = seq ([?h, set_curfn fn] @ ls_push_mark #
      [lu_clear, add_fn_params (fn_params fn), count_uses ?b False, emit_tree ?b] @ ls_pop_mark # [set_curfn NULL])"
    using ch(1) by (intro ext) (simp add: with_child_def Let_def)
  ultimately show ?thesis
    unfolding emit_fn_body_def by (intro program.stays_seq_Cons program.stays_seq_Nil runs_fn_signature runs_puts) simp
qed

lemma runs_test_fn:
  assumes "wf_node t" "n_kind t = N_TEST"
  shows "runs (emit_test_fn i t)"
proof -
  obtain b where ch: "n_children t = [b]" "n_kind b = N_BLOCK"
    using assms by (cases t) (auto simp: length_Suc_conv)
  have b: "emittable b" "is_expr b"
    using wf_child [OF wf_emittable [OF assms(1)], of b] ch by (auto simp: expr_kind_def)
  let ?pre = "[set_desc (Some (n_name t)),
          puts (''static void _kai_test_'' @ fmt_nat i @ ''(void) {'' @ [NL]),
          puts (''    kai_test_begin('' @ fmt_s (n_name t) @ '');'' @ [NL]),
          puts ''    KaiValue *_body = '']"
  let ?post = "[puts ('';'' @ [NL]),
          puts (''    kai_decref(_body);'' @ [NL]),
          puts (''    kai_test_pass();'' @ [NL]),
          puts (''}'' @ [NL, NL]),
          set_desc None]"
  have "runs (seq (?pre @ ls_push_mark # [emit_tree b] @ ls_pop_mark # ?post))"
    using stays_grows [OF runs_writes [OF writes_tree [OF b]]]
    by (intro program.stays_seq_scope) (auto intro: runs_puts runs_state)
  then show ?thesis by (simp add: emit_test_fn_def ch(1))
qed


section \<open>Lambdas\<close>

definition after :: "emitter \<Rightarrow> emitter \<Rightarrow> bool" where
  "after e e' \<longleftrightarrow> base e e' \<and> keeps_program e e' \<and> e_locals e' = e_locals e"

lemma after_refl [simp]: "after e e"
  by (simp add: after_def program.K_refl)

lemma after_trans: "after e1 e2 \<Longrightarrow> after e2 e3 \<Longrightarrow> after e1 e3"
  unfolding after_def using base_trans keeps_program_trans by metis

lemma runs_after: "runs f \<Longrightarrow> after e (f e)"
  by (simp add: stays_def after_def)

lemma runs_lambda_helper:
  assumes "emittable (l_lam i)" "n_kind (l_lam i) = N_LAMBDA"
  shows "runs (emit_lambda_helper_def i)"
proof -
  let ?lam = "l_lam i"
  obtain b ps where ch: "n_children ?lam = b # ps" "is_expr b"
    using wf_layout [OF assms(1)] assms(2) by (auto split: list.splits)
  have b: "runs (with_child ?lam 0 emit_tree)"
    using ch wf_child [OF assms(1), of b]
    by (intro program.stays_with_child runs_writes writes_tree) simp_all
  have g: "grows keeps_program (seq (map (\<lambda>(k, x). seq [puts (h k x), ls_add (f x) None]) xs))"
    for h f and xs :: "(nat \<times> 'a) list"
    by (rule program.grows_seq)
      (auto intro!: program.grows_seq program.grows_ls_add stays_grows [OF runs_puts])
  let ?pre = "[puts (''static KaiValue *_kai_lam_'' @ fmt_nat (l_id i)
                    @ ''(KaiValue *self, KaiValue **args, int n) {'' @ [NL]),
              puts (''    (void) self; (void) n;'' @ [NL])]"
  let ?mid = "[seq (map (\<lambda>(i, p). seq [
                     puts (''    KaiValue *kai_'' @ fmt_s (n_name p) @ '' = args['' @ fmt_nat i @ ''];'' @ [NL]),
                     ls_add (n_name p) None]) (List.enumerate 0 (drop 1 (n_children ?lam)))),
              seq (map (\<lambda>(i, c). seq [
                     puts (''    KaiValue *kai_'' @ fmt_s c @ '' = self->as.clo.captures['' @ fmt_nat i @ ''];'' @ [NL]),
                     ls_add c None]) (List.enumerate 0 (l_caps i))),
              puts ''    return '',
              with_child ?lam 0 emit_tree,
              puts ('';'' @ [NL] @ ''}'' @ [NL, NL])]"
  have "runs (seq (?pre @ ls_push_mark # ?mid @ ls_pop_mark # []))"
  proof (rule program.stays_seq_scope)
    show "grows keeps_program f" if "f \<in> set ?mid" for f
    proof -
      note gb = stays_grows [OF b] stays_grows [OF runs_puts]
      show ?thesis using that unfolding list.set insert_iff empty_iff by (elim disjE) (simp_all only: g gb)
    qed
  qed (auto intro: runs_puts)
  then show ?thesis
    by (cases "l_freed i") (simp_all add: emit_lambda_helper_def_def [abs_def] Let_def program.stays_set_ub del: One_nat_def)
qed

lemma after_lambda_helpers:
  assumes "lams_ok (e_lams e)"
  shows "after e (emit_lambda_helpers e)"
proof -
  have step: "after e (fold (\<lambda>i e. emit_lambda_helper_def (e_lams e ! i) e) xs e)"
    if "lams_ok (e_lams e)" "\<forall>i\<in>set xs. i < length (e_lams e)" for xs e
    using that
  proof (induction xs arbitrary: e)
    case (Cons i xs)
    let ?e = "emit_lambda_helper_def (e_lams e ! i) e"
    have "emittable (l_lam (e_lams e ! i))" "n_kind (l_lam (e_lams e ! i)) = N_LAMBDA"
      using Cons.prems by (auto simp: lams_ok_def list_all_iff)
    then have a: "after e ?e" by (rule runs_after [OF runs_lambda_helper])
    then have "lams_ok (e_lams ?e)" "length (e_lams e) \<le> length (e_lams ?e)"
      using Cons.prems(1) prefix_length_le by (auto simp: after_def keeps_program_def)
    then have "after ?e (fold (\<lambda>i e. emit_lambda_helper_def (e_lams e ! i) e) xs ?e)"
      using Cons.prems(2) by (intro Cons.IH) auto
    then show ?case using after_trans [OF a] by simp
  qed simp
  let ?n = "length (e_lams e)"
  let ?e = "fold (\<lambda>i e. emit_lambda_helper_def (e_lams e ! i) e) [0..<?n] e"
  have a: "after e ?e" using assms by (intro step) simp_all
  then have "lams_ok (e_lams ?e)" using assms by (simp add: after_def keeps_program_def)
  then have "after ?e (fold (\<lambda>i e. emit_lambda_helper_def (e_lams e ! i) e) [?n..<length (e_lams ?e)] ?e)"
    by (intro step) simp_all
  then show ?thesis using after_trans [OF a] by (simp add: emit_lambda_helpers_def Let_def)
qed

section \<open>The program\<close>

lemma runs_collect_all: "wf_node prog \<Longrightarrow> runs (collect_all_lambdas prog)"
  unfolding collect_all_lambdas_def
proof (rule program.stays_seq_map)
  fix d assume p: "wf_node prog" "d \<in> set (n_children prog)"
  then have d: "wf_node d" using wf_child by (cases prog) auto
  have kid: "runs (collect_lambdas x)" if "x \<in> set (n_children d)" for x
    by (rule runs_writes [OF writes_collect_lambdas [OF wf_child [OF wf_emittable [OF d] that]]])
  then have "runs (with_child d 1 collect_lambdas)" "n_children d \<noteq> [] \<Longrightarrow> runs (collect_lambdas (n_children d ! 0))"
    by (auto intro!: program.stays_with_child)
  then show "runs (if d = NULL then id
                   else if n_kind d = N_FN then with_child d 1 collect_lambdas
                   else if n_kind d = N_TEST \<and> n_children d \<noteq> [] then collect_lambdas (n_children d ! 0)
                   else id)"
    using program.stays_id(2) by simp
qed


text \<open>Registration only fills the tables of names.\<close>

definition tables_of :: "emitter \<Rightarrow> emitter \<Rightarrow> bool" where
  "tables_of e e' \<longleftrightarrow> e' = e\<lparr>e_fns := e_fns e', e_variants := e_variants e'\<rparr>"

lemma tables_of_refl: "tables_of e e"
  by (simp add: tables_of_def)

lemma tables_of_trans: "tables_of e1 e2 \<Longrightarrow> tables_of e2 e3 \<Longrightarrow> tables_of e1 e3"
  unfolding tables_of_def by (cases e1; cases e2; cases e3) simp

lemma tables_of_fold: "(\<And>x e. tables_of e (f x e)) \<Longrightarrow> tables_of e (fold f xs e)"
  by (induction xs arbitrary: e) (auto intro: tables_of_refl tables_of_trans)

lemma tables_of_fns: "tables_of e (register_top_level_fns prog e)"
  unfolding register_top_level_fns_def by (rule tables_of_fold) (simp add: tables_of_def)

lemma tables_of_builtin: "tables_of e (register_builtin_variants e)"
  unfolding register_builtin_variants_def by (rule tables_of_fold) (simp add: tables_of_def split: prod.splits)

lemma tables_of_variants: "tables_of (snd s) (snd (register_variants_of vs s))"
proof (induction vs arbitrary: s)
  case (Cons v vs)
  obtain t e where s: "s = (t, e)" by (cases s)
  have "tables_of e (e\<lparr>e_variants := x\<rparr>)" for x by (simp add: tables_of_def)
  then show ?case
    using tables_of_trans Cons by (fastforce simp: register_variants_of_def s split: prod.splits)
qed (simp add: register_variants_of_def tables_of_refl)

lemma tables_of_user: "tables_of e (register_user_variants prog e)"
proof -
  have "tables_of (snd s) (snd (fold (\<lambda>d s.
            if d = NULL \<or> n_kind d \<noteq> N_TYPE_DECL \<or> n_children d = [] then s
            else
              (let body = n_children d ! 0 in
               if body = NULL \<or> n_kind body \<noteq> N_TY_SUM then s
               else register_variants_of (n_children body) s)) ds s))" for ds s
  proof (induction ds arbitrary: s)
    case (Cons d ds)
    show ?case
      using Cons.IH [of s] tables_of_trans [OF tables_of_variants Cons.IH] by (auto simp: Let_def)
  qed (simp add: tables_of_refl)
  from this [of "(KAI_USER_VARIANT_TAG_BASE, e)"] show ?thesis
    by (simp add: register_user_variants_def)
qed

lemma runs_main: "runs (emit_main prog b)"
  unfolding emit_main_def by (intro stays_intros program.stays_id(2))

lemma runs_forward_decls: "runs (emit_forward_decls prog)"
proof -
  have "runs (\<lambda>e. seq (map (\<lambda>i. puts (h i)) (e_lams e)) e)" for h
    by (rule stays_at) (use program.stays_seq_map [OF runs_puts] in blast)
  then show ?thesis
    unfolding emit_forward_decls_def
    by (intro program.stays_seq_Cons program.stays_seq_Nil program.stays_seq_map runs_fn_signature runs_puts)
qed

lemma kai_emit_run_after:
  assumes "wf_node prog" "e_lams e = []"
  shows "\<exists>e0. tables_of e e0 \<and> after e0 (kai_emit_run prog e)"
proof -
  let ?r = "\<lambda>e. register_user_variants prog (register_builtin_variants (register_top_level_fns prog e))"
  have t: "tables_of e (?r e)"
    by (rule tables_of_trans [OF tables_of_trans [OF tables_of_fns tables_of_builtin] tables_of_user])
  have l: "e_lams (?r e) = []" using assms(2) t by (cases e; cases "?r e") (simp add: tables_of_def)
  have wf: "wf_node d" if "d \<in> set (n_children prog)" for d
    using assms(1) that by (cases prog) auto
  let ?pre = "[collect_all_lambdas prog,
          puts (''/* generated by kaikai-minimal stage 0 */'' @ [NL]),
          puts (''#include '' @ fmt_q ''runtime.h'' @ [NL, NL]),
          emit_forward_decls prog,
          seq (map (\<lambda>d. seq [emit_fn_body d, emit_fn_thunk d]) (fns_of prog))]"
  let ?post = "[seq (map (\<lambda>(i, t). emit_test_fn i t) (List.enumerate 0 (tests_of prog))),
          emit_main prog (e_test e)]"
  have "runs (seq ?pre)"
    using wf runs_fn_body
    by (intro program.stays_seq_Cons program.stays_seq_Nil runs_collect_all assms(1) runs_puts
        runs_forward_decls program.stays_seq_map runs_fn_thunk) (simp add: fns_of_def)
  then have a: "after (?r e) (seq ?pre (?r e))" by (rule runs_after)
  then have "lams_ok (e_lams (seq ?pre (?r e)))"
    using l by (simp add: after_def keeps_program_def lams_ok_def)
  note after_trans [OF a after_lambda_helpers [OF this]]
  moreover have "runs (seq ?post)"
  proof -
    have "runs (case it of (i, t) \<Rightarrow> emit_test_fn i t)" if "it \<in> set (List.enumerate 0 (tests_of prog))" for it
    proof (cases it)
      case (Pair i t)
      then have "t \<in> set (tests_of prog)" using that by (auto simp: enumerate_eq_zip dest: set_zip_rightD)
      then show ?thesis using Pair wf by (simp add: tests_of_def runs_test_fn)
    qed
    then show ?thesis
      by (intro program.stays_seq_Cons program.stays_seq_Nil program.stays_seq_map runs_main)
  qed
  note runs_after [OF this]
  ultimately have "after (?r e) (seq ?post (emit_lambda_helpers (seq ?pre (?r e))))" by (rule after_trans)
  then show ?thesis
    using t by (intro exI [of _ "?r e"]) (simp add: kai_emit_run_def seq_Cons)
qed

lemma kai_emit_wf:
  assumes "wf_node prog"
  shows "(let e0 = emit_init test_mode h reuse rtl g17; e = kai_emit_run prog e0
     in \<not> e_spent e \<and> e_marks e = [] \<and> e_locals e = [] \<and> (e_err e \<longleftrightarrow> e_log e \<noteq> [])
        \<and> kai_emit prog e0 = (e_out e, if e_log e = [] then 0 else 1))"
proof -
  let ?e = "emit_init test_mode h reuse rtl g17"
  have "e_lams ?e = []" by (simp add: emit_init_def)
  then obtain e0 where e0: "tables_of ?e e0" "after e0 (kai_emit_run prog ?e)"
    using kai_emit_run_after [OF assms] by blast
  have "e_spent e0 = e_spent ?e" "e_marks e0 = e_marks ?e" "e_locals e0 = e_locals ?e"
      "e_err e0 = e_err ?e" "e_log e0 = e_log ?e"
    using e0(1) by (cases e0; cases ?e; simp add: tables_of_def)+
  then show ?thesis
    using e0(2) by (simp add: after_def base_def keeps_program_def emit_init_def kai_emit_def Let_def)
qed

text \<open>
  C6: On every program the parser returns, \<open>kai_emit\<close> ends: the recursion over the tree and over
  the trees of its interpolations never runs out of the bounds of the model, whatever the
  allocator and the order of arguments. The scope stack is balanced at the end, and the result
  is an error exactly when at least one diagnostic was written. (The flag \<open>e_ub\<close> may still be set:
  by a string of more than 64 parts, and by a lambda inside an interpolation, as in the code.)
\<close>

theorem kai_emit_total:
  "(case kai_parse src (kai_lex rtl src) h of
      (Some prog, q) \<Rightarrow>
        (let e = kai_emit_run prog (emit_init test_mode (p_heap q) reuse rtl g17)
         in \<not> e_spent e \<and> e_marks e = [] \<and> e_locals e = []
            \<and> kai_emit prog (emit_init test_mode (p_heap q) reuse rtl g17) = (e_out e, if e_log e = [] then 0 else 1))
    | (None, q) \<Rightarrow> p_log q \<noteq> [])"
proof -
  obtain r q where rq: "kai_parse src (kai_lex rtl src) h = (r, q)"
      "ends_well src (kai_lex rtl src) (r = None) q"
      "r \<noteq> None \<Longrightarrow> wf_in src (the r) \<and> n_kind (the r) = N_PROGRAM \<and> within h (p_heap q) (ids (the r))"
    by (rule kai_parse_result [OF kai_lex_toks_ok, of src rtl h]) blast
  show ?thesis
  proof (cases r)
    case None
    then show ?thesis using rq(1,2) by (auto simp: ends_well_def)
  next
    case (Some prog)
    then have "wf_node prog" using rq(3) by (auto intro: wf_in_wf_node)
    from kai_emit_wf [OF this] show ?thesis using rq(1) Some by (simp add: Let_def)
  qed
qed

section \<open>Names and tags\<close>

text \<open>The constructors a program declares, in the order of the text.\<close>

definition variants_of_decl :: "node \<Rightarrow> node list" where
  "variants_of_decl d =
     (if d = NULL \<or> n_kind d \<noteq> N_TYPE_DECL then []
      else
        (case n_children d of
           [] \<Rightarrow> []
         | body # _ \<Rightarrow>
             if body = NULL \<or> n_kind body \<noteq> N_TY_SUM then []
             else filter (\<lambda>v. v \<noteq> NULL \<and> n_kind v = N_VARIANT) (n_children body)))"

definition variants_of :: "node \<Rightarrow> node list" where
  "variants_of prog = concat (map variants_of_decl (n_children prog))"

definition entry_of :: "nat \<times> node \<Rightarrow> sym_entry" where
  "entry_of iv = \<lparr>s_name = n_name (snd iv), s_arity = length (n_children (snd iv)), s_tag = fst iv\<rparr>"

definition add_variants :: "node list \<Rightarrow> nat \<times> emitter \<Rightarrow> nat \<times> emitter" where
  "add_variants vs s = (fst s + length vs,
     (snd s)\<lparr>e_variants := e_variants (snd s) @ map entry_of (List.enumerate (fst s) vs)\<rparr>)"

lemma add_variants_Nil [simp]: "add_variants [] s = s"
  by (cases s) (simp add: add_variants_def)

lemma add_variants_append: "add_variants (xs @ ys) s = add_variants ys (add_variants xs s)"
  by (simp add: add_variants_def enumerate_append_eq)

lemma register_variants_of_eq:
  "register_variants_of vs s = add_variants (filter (\<lambda>v. v \<noteq> NULL \<and> n_kind v = N_VARIANT) vs) s"
proof (induction vs arbitrary: s)
  case (Cons v vs)
  have "register_variants_of (v # vs) s = register_variants_of vs (register_variants_of [v] s)"
    by (simp add: register_variants_of_def)
  moreover have "register_variants_of [v] s = add_variants (filter (\<lambda>v. v \<noteq> NULL \<and> n_kind v = N_VARIANT) [v]) s"
    by (cases s) (simp add: register_variants_of_def add_variants_def entry_of_def reg_entry_def)
  moreover have "add_variants (filter (\<lambda>v. v \<noteq> NULL \<and> n_kind v = N_VARIANT) (v # vs)) s
      = add_variants (filter (\<lambda>v. v \<noteq> NULL \<and> n_kind v = N_VARIANT) vs)
          (add_variants (filter (\<lambda>v. v \<noteq> NULL \<and> n_kind v = N_VARIANT) [v]) s)"
    by (simp flip: add_variants_append)
  ultimately show ?case using Cons by (simp only:)
qed (simp add: register_variants_of_def)

lemma register_user_variants_eq:
  "register_user_variants prog e = snd (add_variants (variants_of prog) (KAI_USER_VARIANT_TAG_BASE, e))"
proof -
  let ?step = "\<lambda>d s. if d = NULL \<or> n_kind d \<noteq> N_TYPE_DECL \<or> n_children d = [] then s
            else
              (let body = n_children d ! 0 in
               if body = NULL \<or> n_kind body \<noteq> N_TY_SUM then s
               else register_variants_of (n_children body) s)"
  have step: "?step d s = add_variants (variants_of_decl d) s" for d s
    by (auto simp: variants_of_decl_def register_variants_of_eq Let_def split: list.splits)
  have "fold ?step ds s = add_variants (concat (map variants_of_decl ds)) s" for ds s
    by (induction ds arbitrary: s) (simp_all only: fold_simps step list.map concat.simps add_variants_append add_variants_Nil)
  then show ?thesis by (simp add: register_user_variants_def variants_of_def)
qed

lemma builtin_entries:
  "e_variants (register_builtin_variants e)
     = e_variants e @ map (\<lambda>(n, a, t). \<lparr>s_name = n, s_arity = a, s_tag = t\<rparr>) builtin_variants"
  by (simp add: register_builtin_variants_def builtin_variants_def reg_entry_def)

text \<open>
  C33: The table of constructors holds the twelve the runtime knows, then those of the program in
  the order of their declarations, each with the number of its fields; its tags are 0, 1, 2, ...
  so that no two constructors share a tag and the tags of the runtime's constructors are the ones
  below \<open>KAI_USER_VARIANT_TAG_BASE\<close>.
\<close>

theorem variant_table:
  "(let vs = e_variants (register_user_variants prog
               (register_builtin_variants (register_top_level_fns prog (emit_init test_mode h reuse rtl g17))))
    in map s_name vs = map fst builtin_variants @ map n_name (variants_of prog)
       \<and> map s_arity vs = map (fst \<circ> snd) builtin_variants @ map (length \<circ> n_children) (variants_of prog)
       \<and> map s_tag vs = [0..<KAI_USER_VARIANT_TAG_BASE + length (variants_of prog)])"
proof -
  let ?e = "register_builtin_variants (register_top_level_fns prog (emit_init test_mode h reuse rtl g17))"
  have e: "e_variants ?e = map (\<lambda>(n, a, t). \<lparr>s_name = n, s_arity = a, s_tag = t\<rparr>) builtin_variants"
  proof -
    have "e_variants (fold (\<lambda>d e. if d \<noteq> NULL \<and> n_kind d = N_FN
                 then e\<lparr>e_fns := reg_entry (n_name d) (length (fn_params d)) 0 (e_fns e)\<rparr> else e) ds e) = e_variants e"
      for ds e by (induction ds arbitrary: e) simp_all
    then have "e_variants (register_top_level_fns prog e) = e_variants e" for e
      by (simp only: register_top_level_fns_def)
    moreover have "e_variants (emit_init test_mode h reuse rtl g17) = []" by (simp add: emit_init_def)
    ultimately show ?thesis by (simp add: builtin_entries)
  qed
  have upt: "[0..<KAI_USER_VARIANT_TAG_BASE + n] = map (snd \<circ> snd) builtin_variants @ [KAI_USER_VARIANT_TAG_BASE..<KAI_USER_VARIANT_TAG_BASE + n]" for n
  proof -
    have "[0..<KAI_USER_VARIANT_TAG_BASE] = map (snd \<circ> snd) builtin_variants"
      by (simp add: builtin_variants_def KAI_USER_VARIANT_TAG_BASE_def upt_rec)
    then show ?thesis using upt_add_eq_append [of 0 KAI_USER_VARIANT_TAG_BASE n] by simp
  qed
  have user: "map s_name (map entry_of (List.enumerate b vs)) = map n_name vs"
      "map s_arity (map entry_of (List.enumerate b vs)) = map (length \<circ> n_children) vs"
      "map s_tag (map entry_of (List.enumerate b vs)) = [b..<b + length vs]" for b vs
    by (induction vs arbitrary: b) (simp_all add: entry_of_def upt_conv_Cons del: upt_Suc)
  have builtin: "map s_name (map f builtin_variants) = map fst builtin_variants"
      "map s_arity (map f builtin_variants) = map (fst \<circ> snd) builtin_variants"
      "map s_tag (map f builtin_variants) = map (snd \<circ> snd) builtin_variants"
    if "f = (\<lambda>(n, a, t). \<lparr>s_name = n, s_arity = a, s_tag = t\<rparr>)" for f
    by (simp_all add: that comp_def case_prod_beta)
  show ?thesis
    unfolding Let_def register_user_variants_eq upt
    by (simp add: add_variants_def e user builtin del: map_map)
qed

end
