(* ===== verification/Kai_Driver.thy ===== *)
theory Kai_Driver
  imports Kai_Check Kai_Emit_Program
begin

text \<open>
  \<^verbatim>\<open>stage0/main.c\<close>: the command line and the sequence lexer, parser, checker, emitter, with the
  two printing functions \<open>kai_lex_dump\<close> and \<open>kai_dump_ast\<close>. The file system is a parameter
  (\<open>fs\<close>), as are the platform's choices: the order of arguments, the reuse of addresses, and how
  \<open>%g\<close> prints a real. What is written to \<open>stderr\<close> is a list of messages.
\<close>

section \<open>Printing\<close>

definition pad_left :: "nat \<Rightarrow> string \<Rightarrow> string" where
  "pad_left w s = replicate (w - length s) (CHR '' '') @ s"

definition pad_right :: "nat \<Rightarrow> string \<Rightarrow> string" where
  "pad_right w s = s @ replicate (w - length s) (CHR '' '')"

definition lex_dump_line :: "string \<Rightarrow> token \<Rightarrow> string" where
  "lex_dump_line src t =
     (if t_kind t = TK_NEWLINE
      then pad_left 4 (fmt_nat (t_line t)) @ '':'' @ pad_right 3 (fmt_nat (t_col t)) @ ''  '' @ tk_name (t_kind t) @ [NL]
      else pad_left 4 (fmt_nat (t_line t)) @ '':'' @ pad_right 3 (fmt_nat (t_col t)) @ ''  ''
           @ pad_right 12 (tk_name (t_kind t)) @ ''  '' @ fmt_q (slice src (t_start t) (t_start t + t_length t)) @ [NL])"

definition kai_lex_dump :: "string \<Rightarrow> token list \<Rightarrow> string" where
  "kai_lex_dump src toks = concat (map (lex_dump_line src) toks)"

definition hex_lower :: "nat \<Rightarrow> char" where
  "hex_lower d = (if d < 10 then char_of (48 + d) else char_of (87 + d))"

fun fmt_x :: "nat \<Rightarrow> string" where
  "fmt_x n = (if n < 16 then [hex_lower n] else fmt_x (n div 16) @ [hex_lower (n mod 16)])"

declare fmt_x.simps [simp del]

text \<open>\<open>%04X\<close>: the eight digits of \<open>%08X\<close> without leading zeros, but at least four.\<close>

definition fmt_04X :: "u32 \<Rightarrow> string" where
  "fmt_04X w = (let d = fmt_08X w; s = dropWhile (\<lambda>c. c = CHR ''0'') d
                in replicate (4 - length s) (CHR ''0'') @ s)"

definition dump_indent :: "nat \<Rightarrow> string" where
  "dump_indent depth = concat (replicate depth ''  '')"

definition dump_value :: "(string \<Rightarrow> string) \<Rightarrow> node \<Rightarrow> string" where
  "dump_value g n =
     (case (n_kind n, n_val n) of
        (N_INT, V_int i) \<Rightarrow> '' = '' @ fmt_lld i
      | (N_REAL, V_real r) \<Rightarrow> '' = '' @ g r
      | (N_CHAR, V_char c) \<Rightarrow> '' = U+'' @ fmt_04X c
      | (N_BOOL, V_bool b) \<Rightarrow> '' = '' @ (if b then ''true'' else ''false'')
      | (N_BINOP, V_op k) \<Rightarrow> '' op='' @ tk_name k
      | (N_UNOP, V_op k) \<Rightarrow> '' op='' @ tk_name k
      | _ \<Rightarrow> [])"

definition has_flags :: "node_kind \<Rightarrow> bool" where
  "has_flags k \<longleftrightarrow> k \<in> set [N_FN, N_TYPE_DECL, N_IMPORT, N_LET, N_ASSERT, N_IF, N_ARM, N_STRING,
     N_RANGE_LIT, N_BLOCK, N_PAT_LIST, N_PAT_FIELD]"

definition dump_line :: "(string \<Rightarrow> string) \<Rightarrow> node \<Rightarrow> nat \<Rightarrow> string" where
  "dump_line g n depth =
     dump_indent depth @ nk_name (n_kind n)
     @ (if length (n_name n) > 0 then '' '' @ fmt_q (n_name n) else [])
     @ dump_value g n
     @ (if has_flags (n_kind n) \<and> n_flags n \<noteq> 0 then '' flags=0x'' @ fmt_x (n_flags n) else [])
     @ '' @'' @ fmt_nat (n_line n) @ '':'' @ fmt_nat (n_col n) @ [NL]"

fun dump_rec :: "(string \<Rightarrow> string) \<Rightarrow> node \<Rightarrow> nat \<Rightarrow> string" where
  "dump_rec g NULL depth = dump_indent depth @ ''(nil)'' @ [NL]"
| "dump_rec g (Node k a l c nm fl v ch) depth =
     dump_line g (Node k a l c nm fl v ch) depth @ concat (map (\<lambda>x. dump_rec g x (depth + 1)) ch)"

definition kai_dump_ast :: "(string \<Rightarrow> string) \<Rightarrow> node \<Rightarrow> string" where
  "kai_dump_ast g n = dump_rec g n 0"

section \<open>The command line\<close>

datatype file_state = Missing | Unreadable | Contents string

datatype message =
    Usage
  | Unknown_flag string
  | Many_inputs
  | Cannot_open string
  | Lex_error nat nat string
  | Parse_error diag
  | Check_error nat nat string string
  | Emit_error nat nat string

record options =
  path :: "string option"
  dump_tokens :: bool
  dump_ast :: bool
  test_mode :: bool

text \<open>The loop over \<open>argv[1..]\<close>: the options, or the exit status and the messages.\<close>

fun parse_args :: "string list \<Rightarrow> options \<Rightarrow> nat \<times> message list + options" where
  "parse_args [] opts = Inr opts"
| "parse_args (a # args) opts =
     (if a = ''--tokens'' then parse_args args (opts\<lparr>dump_tokens := True\<rparr>)
      else if a = ''--ast'' then parse_args args (opts\<lparr>dump_ast := True\<rparr>)
      else if a = ''--test'' then parse_args args (opts\<lparr>test_mode := True\<rparr>)
      else if a = ''-h'' \<or> a = ''--help'' then Inl (0, [Usage])
      else if byte_at a 0 = CHR ''-'' then Inl (2, [Unknown_flag a, Usage])
      else (case path opts of Some _ \<Rightarrow> Inl (2, [Many_inputs]) | None \<Rightarrow> parse_args args (opts\<lparr>path := Some a\<rparr>)))"

definition no_options :: options where
  "no_options = \<lparr>path = None, dump_tokens = False, dump_ast = False, test_mode = False\<rparr>"

section \<open>The driver\<close>

record platform =
  pl_rtl :: bool
  pl_reuse :: bool
  pl_g17 :: "string \<Rightarrow> string"
  pl_g6 :: "string \<Rightarrow> string"

record outcome =
  o_status :: nat
  o_out :: string
  o_log :: "message list"
  o_spent :: bool

definition quit :: "nat \<Rightarrow> string \<Rightarrow> message list \<Rightarrow> outcome" where
  "quit status out log = \<lparr>o_status = status, o_out = out, o_log = log, o_spent = False\<rparr>"

definition lex_errors :: "string \<Rightarrow> token list \<Rightarrow> message list" where
  "lex_errors src toks =
     map (\<lambda>t. Lex_error (t_line t) (t_col t) (fmt_s (slice src (t_start t) (t_start t + t_length t))))
       (filter (\<lambda>t. t_kind t = TK_ERROR) toks)"

text \<open>Everything after the source is read.\<close>

definition compile :: "platform \<Rightarrow> options \<Rightarrow> string \<Rightarrow> outcome" where
  "compile pl opts src =
     (let toks = kai_lex (pl_rtl pl) src;
          errors = lex_errors src toks;
          had_errors = errors \<noteq> []
      in if dump_tokens opts then quit (if had_errors then 1 else 0) (kai_lex_dump src toks) errors
         else if had_errors then quit 1 [] errors
         else
           (case kai_parse src toks 1 of
              (None, q) \<Rightarrow> (quit 1 [] (map Parse_error (p_log q)))\<lparr>o_spent := p_spent q\<rparr>
            | (Some prog, q) \<Rightarrow>
                if dump_ast opts then (quit 0 (kai_dump_ast (pl_g6 pl) prog) [])\<lparr>o_spent := p_spent q\<rparr>
                else
                  (let rc = kai_check prog in
                   if rc \<noteq> 0
                   then (quit rc [] (map (\<lambda>(l, c, m, n). Check_error l c m n) (c_log (kai_check_state prog))))\<lparr>o_spent := p_spent q\<rparr>
                   else
                     (let e0 = emit_init (test_mode opts) (p_heap q) (pl_reuse pl) (pl_rtl pl) (pl_g17 pl);
                          e = kai_emit_run prog e0;
                          (out, rc) = kai_emit prog e0
                      in \<lparr>o_status = rc, o_out = out, o_log = map (\<lambda>(l, c, w). Emit_error l c w) (e_log e),
                          o_spent = p_spent q \<or> e_spent e\<rparr>))))"

definition stage0_main :: "platform \<Rightarrow> (string \<Rightarrow> file_state) \<Rightarrow> string list \<Rightarrow> outcome" where
  "stage0_main pl fs args =
     (case parse_args args no_options of
        Inl (status, log) \<Rightarrow> quit status [] log
      | Inr opts \<Rightarrow>
          (case path opts of
             None \<Rightarrow> quit 2 [] [Usage]
           | Some p \<Rightarrow>
               (case fs p of
                  Missing \<Rightarrow> quit 1 [] [Cannot_open p]
                | Unreadable \<Rightarrow> quit 1 [] []
                | Contents src \<Rightarrow> compile pl opts src)))"


section \<open>What the driver promises\<close>

lemma parsed_program:
  obtains r q where "kai_parse src (kai_lex rtl src) h = (r, q)" "\<not> p_spent q" "r = None \<Longrightarrow> p_log q \<noteq> []"
    "\<And>prog. r = Some prog \<Longrightarrow> wf_node prog \<and> n_kind prog = N_PROGRAM"
proof -
  obtain r q where "kai_parse src (kai_lex rtl src) h = (r, q)"
      "ends_well src (kai_lex rtl src) (r = None) q"
      "r \<noteq> None \<Longrightarrow> wf_in src (the r) \<and> n_kind (the r) = N_PROGRAM \<and> within h (p_heap q) (ids (the r))"
    by (rule kai_parse_result [OF kai_lex_toks_ok, of src rtl h]) blast
  then show ?thesis using that [of r q] by (cases r) (auto simp: ends_well_def intro: wf_in_wf_node)
qed

lemma kai_check_wf:
  assumes "wf_node prog" "n_kind prog = N_PROGRAM"
  shows "kai_check prog = (if undefined_names prog = [] then 0 else 1)"
    "c_log (kai_check_state prog) = map mk_error (undefined_names prog)"
  using kai_check_state_wf [OF assms] by (simp_all add: kai_check_def)

lemma compile_outcome:
  "\<not> o_spent (compile pl opts src) \<and> o_status (compile pl opts src) \<le> 1
    \<and> (o_log (compile pl opts src) = [] \<longrightarrow> o_status (compile pl opts src) = 0)"
proof -
  obtain r q where rq: "kai_parse src (kai_lex (pl_rtl pl) src) 1 = (r, q)" "\<not> p_spent q" "r = None \<Longrightarrow> p_log q \<noteq> []"
    "\<And>prog. r = Some prog \<Longrightarrow> wf_node prog \<and> n_kind prog = N_PROGRAM"
    by (rule parsed_program [of src "pl_rtl pl" 1]) blast
  show ?thesis
  proof (cases r)
    case None
    then show ?thesis using rq by (auto simp: compile_def quit_def Let_def)
  next
    case (Some prog)
    note wf = rq(4) [OF Some]
    note e = kai_emit_wf [OF conjunct1 [OF wf], of "test_mode opts" "p_heap q" "pl_reuse pl" "pl_rtl pl" "pl_g17 pl", unfolded Let_def]
    show ?thesis
      using rq(1,2) Some e kai_check_wf [OF wf [THEN conjunct1] wf [THEN conjunct2]]
      by (auto simp: compile_def quit_def Let_def)
  qed
qed

text \<open>The file to compile: the argument that is no flag, when there is exactly one.\<close>

definition files_named :: "string list \<Rightarrow> string list" where
  "files_named args = filter (\<lambda>a. a \<notin> {''--tokens'', ''--ast'', ''--test''}) args"

lemma parse_args_file:
  "parse_args args opts = Inr opts' \<Longrightarrow> (case path opts of
     None \<Rightarrow> (case path opts' of None \<Rightarrow> files_named args = [] | Some p \<Rightarrow> files_named args = [p])
   | Some p \<Rightarrow> path opts' = Some p \<and> files_named args = [])"
  by (induction args opts rule: parse_args.induct) (auto simp: files_named_def split: if_splits option.splits)

text \<open>
  C35: Every run of the compiler ends with status 0, 1 or 2, and no failure is silent: a run that
  writes nothing to the error stream returns 0, unless the one file named on the command line can be
  opened but not read.
\<close>

theorem stage0_main_reports:
  "(let r = stage0_main pl fs args in
     \<not> o_spent r \<and> o_status r \<le> 2
     \<and> (case o_log r of
          [] \<Rightarrow> o_status r = 0 \<or> o_status r = 1 \<and> (\<exists>p. files_named args = [p] \<and> fs p = Unreadable)
        | _ \<Rightarrow> True))"
proof -
  have args: "parse_args args opts = Inl (st, log) \<Longrightarrow> st \<le> 2 \<and> log \<noteq> []" for opts st log
    by (induction args opts rule: parse_args.induct) (auto split: if_splits option.splits)
  show ?thesis
  proof (cases "parse_args args no_options")
    case (Inl x)
    then show ?thesis using args [of no_options "fst x" "snd x"]
      by (cases x) (auto simp: stage0_main_def quit_def Let_def split: list.splits)
  next
    case (Inr opts)
    show ?thesis
    proof (cases "path opts")
      case (Some p)
      have named: "files_named args = [p]"
        using parse_args_file [OF Inr] Some by (simp add: no_options_def)
      show ?thesis
      proof (cases "fs p")
        case (Contents src)
        then show ?thesis
          using compile_outcome [of pl opts src] Inr Some
          by (cases "o_log (compile pl opts src)") (simp_all add: stage0_main_def Let_def)
      qed (use Inr Some named in \<open>auto simp: stage0_main_def quit_def Let_def\<close>)
    qed (use Inr in \<open>simp add: stage0_main_def quit_def Let_def\<close>)
  qed
qed

text \<open>
  C3: Without a dump flag the exit status is 0 exactly when the four phases all succeed: the token
  stream has no error token, the parser returns a tree, every identifier outside a binding is
  known, and the emitter reports nothing. Only then is the output a whole program; an error of an
  earlier phase leaves the standard output empty. (For the emitter's undefined behaviour, the flag
  \<open>e_ub\<close>, see \<open>kai_emit_total\<close>.)
\<close>

theorem compile_succeeds_iff:
  "(let r = compile pl \<lparr>path = p, dump_tokens = False, dump_ast = False, test_mode = t\<rparr> src;
        toks = kai_lex (pl_rtl pl) src
    in if list_ex (\<lambda>t. t_kind t = TK_ERROR) toks then o_status r = 1 \<and> o_out r = []
       else
         (case kai_parse src toks 1 of
            (None, q) \<Rightarrow> o_status r = 1 \<and> o_out r = []
          | (Some prog, q) \<Rightarrow>
              (let e = kai_emit_run prog (emit_init t (p_heap q) (pl_reuse pl) (pl_rtl pl) (pl_g17 pl))
               in if undefined_names prog \<noteq> [] then o_status r = 1 \<and> o_out r = []
                  else o_status r = (if e_log e = [] then 0 else 1) \<and> o_out r = e_out e)))"
proof -
  obtain r q where rq: "kai_parse src (kai_lex (pl_rtl pl) src) 1 = (r, q)" "\<not> p_spent q" "r = None \<Longrightarrow> p_log q \<noteq> []"
    "\<And>prog. r = Some prog \<Longrightarrow> wf_node prog \<and> n_kind prog = N_PROGRAM"
    by (rule parsed_program [of src "pl_rtl pl" 1]) blast
  have ex: "list_ex (\<lambda>t. t_kind t = TK_ERROR) (kai_lex (pl_rtl pl) src) = (lex_errors src (kai_lex (pl_rtl pl) src) \<noteq> [])"
    by (auto simp: lex_errors_def list_ex_iff filter_empty_conv)
  show ?thesis
  proof (cases r)
    case None
    then show ?thesis unfolding Let_def ex using rq by (auto simp: compile_def quit_def Let_def)
  next
    case (Some prog)
    note wf = rq(4) [OF Some]
    note e = kai_emit_wf [OF conjunct1 [OF wf], of t "p_heap q" "pl_reuse pl" "pl_rtl pl" "pl_g17 pl", unfolded Let_def]
    show ?thesis
      unfolding Let_def ex
      using rq(1,2) Some e kai_check_wf [OF wf [THEN conjunct1] wf [THEN conjunct2]]
      by (auto simp: compile_def quit_def Let_def)
  qed
qed


section \<open>What the checker accepts and the emitter knows\<close>

definition register_names :: "node \<Rightarrow> act" where
  "register_names prog e = register_user_variants prog (register_builtin_variants (register_top_level_fns prog e))"

lemma find_entry_known: "find_entry arr name \<noteq> None \<longleftrightarrow> name \<in> set (map s_name arr)"
  by (auto simp: find_entry_def find_None_iff)

lemma e_fns_registered: "map s_name (e_fns (register_top_level_fns prog e)) = map s_name (e_fns e) @ map n_name (fns_of prog)"
proof -
  have "map s_name (e_fns (fold (\<lambda>d e. if d \<noteq> NULL \<and> n_kind d = N_FN
                 then e\<lparr>e_fns := reg_entry (n_name d) (length (fn_params d)) 0 (e_fns e)\<rparr> else e) ds e))
      = map s_name (e_fns e) @ map n_name (filter (\<lambda>d. d \<noteq> NULL \<and> n_kind d = N_FN) ds)" for ds
    by (induction ds arbitrary: e) (simp_all add: reg_entry_def)
  then show ?thesis by (simp only: register_top_level_fns_def fns_of_def)
qed

lemma registered_names:
  "map s_name (e_fns (register_names prog e)) = map s_name (e_fns e) @ map n_name (fns_of prog)"
  "map s_name (e_variants (register_names prog e))
     = map s_name (e_variants (register_top_level_fns prog e)) @ map fst builtin_variants @ map n_name (variants_of prog)"
proof -
  have b: "e_fns (register_builtin_variants e) = e_fns e" for e
    by (simp add: register_builtin_variants_def builtin_variants_def)
  show "map s_name (e_fns (register_names prog e)) = map s_name (e_fns e) @ map n_name (fns_of prog)"
    using e_fns_registered [of prog e] by (simp add: register_names_def register_user_variants_eq add_variants_def b)
  have user: "map s_name (map entry_of (List.enumerate b vs)) = map n_name vs" for b vs
    by (induction vs arbitrary: b) (simp_all add: entry_of_def)
  show "map s_name (e_variants (register_names prog e))
     = map s_name (e_variants (register_top_level_fns prog e)) @ map fst builtin_variants @ map n_name (variants_of prog)"
    by (simp add: register_names_def register_user_variants_eq add_variants_def builtin_entries user case_prod_beta comp_def
        del: map_map) (simp add: comp_def case_prod_beta)
qed

text \<open>
  C34: Every name the checker accepts without a declaration, every function and every constructor
  of the program is known to the emitter once the program is registered, so an identifier that
  passes the check is never emitted as an unknown name, unless it is a type or an import.
\<close>

theorem checker_names_known:
  "list_all (is_global_name (register_names prog (emit_init t h reuse rtl g17)))
     (CHECK_PRELUDE @ map n_name (fns_of prog) @ map n_name (variants_of prog))"
proof -
  let ?e = "register_names prog (emit_init t h reuse rtl g17)"
  have fn: "find_user_fn ?e x \<noteq> None" if "x \<in> set (map n_name (fns_of prog))" for x
  proof -
    have "x \<in> set (map s_name (e_fns ?e))" using that by (simp only: registered_names set_append Un_iff simp_thms)
    then show ?thesis by (simp only: find_user_fn_def find_entry_known option.map_disc_iff)
  qed
  have var: "find_variant ?e x \<noteq> None" if "x \<in> set (map fst builtin_variants) \<or> x \<in> set (map n_name (variants_of prog))" for x
  proof -
    have "x \<in> set (map s_name (e_variants ?e))" using that by (simp only: registered_names set_append Un_iff simp_thms)
    then show ?thesis by (simp only: find_variant_def find_entry_known option.map_disc_iff)
  qed
  have pre: "list_all (\<lambda>x. find_prelude x \<noteq> None \<or> x \<in> set (map fst builtin_variants)) CHECK_PRELUDE"
    by code_simp
  have "is_global_name ?e x"
    if x: "x \<in> set (CHECK_PRELUDE @ map n_name (fns_of prog) @ map n_name (variants_of prog))" for x
  proof -
    consider "x \<in> set CHECK_PRELUDE" | "x \<in> set (map n_name (fns_of prog))" | "x \<in> set (map n_name (variants_of prog))"
      using x by (auto simp del: set_map)
    then show ?thesis
    proof cases
      case 1
      then have "find_prelude x \<noteq> None \<or> x \<in> set (map fst builtin_variants)" using pre by (simp add: list_all_iff)
      then show ?thesis using var [of x] by (auto simp only: is_global_name_def)
    qed (use fn [of x] var [of x] in \<open>auto simp only: is_global_name_def\<close>)
  qed
  then show ?thesis unfolding list_all_iff by (intro ballI)
qed

text \<open>
  An example of a constructor on the right of a pipe: \<open>emit_pipe\<close> writes its name before it finds
  out that it is no function, then a call of \<open>kai_apply\<close> after it, so that the expression
  \<open>x |> Some\<close> comes out as \<open>kai_Somekai_apply(...)\<close>.
\<close>

lemma emit_pipe_some:
  "e_out (emit_tree
     (Node N_PIPE 1 1 1 [] 0 V_none [Node N_INT 2 1 1 [] 0 (V_int 1) [], Node N_IDENT 3 1 6 ''Some'' 0 V_none []])
     (register_names (Node N_PROGRAM 0 1 1 [] 0 V_none []) (emit_init False 4 False False id)))
   = ''kai_Somekai_apply(kai_variant_u(0, '' @ fmt_q ''Some'' @ '', 0, 0, NULL), 1, (KaiValue *[]){kai_int(1LL)})''"
  by code_simp

end
