(* ===== verification/Kai_Tco_Spec.thy ===== *)
theory Kai_Tco_Spec
  imports Kai_Tco
begin

text \<open>
  What the tail-call pass is meant to do. \<open>pat_binds\<close> says which names a pattern binds,
  \<open>tail_pos\<close> which nodes of a body are in tail position and which names are bound on the way
  there, and \<open>calls\<close> what a call of a function by name and arity is; none of them mentions the
  pass. \<open>tco_walk_tail\<close> decides whether some node in tail position is a call of the function
  itself, and \<open>tco_mark\<close> sets the flag of exactly these calls. The proofs go by
  \<open>walk_pos\<close>, the positions with the stack of shadows the code keeps, and then relate the
  stack to the set of names bound.
\<close>

section \<open>Nodes of a tree\<close>

text \<open>The node at a path of child indices.\<close>

fun node_at :: "node \<Rightarrow> nat list \<Rightarrow> node option" where
  "node_at n [] = Some n"
| "node_at n (i # p) = (if n \<noteq> NULL \<and> i < length (n_children n) then node_at (n_children n ! i) p else None)"

section \<open>The specification\<close>

text \<open>The names a pattern binds.\<close>

inductive pat_binds :: "node \<Rightarrow> string \<Rightarrow> bool" where
  name: "\<lbrakk>n \<noteq> NULL; n_kind n = N_PAT_BIND\<rbrakk> \<Longrightarrow> pat_binds n (n_name n)"
| part: "\<lbrakk>n \<noteq> NULL; n_kind n \<in> {N_PAT_LIST, N_PAT_VARIANT, N_PAT_RECORD}; x \<in> set (n_children n); pat_binds x y\<rbrakk>
    \<Longrightarrow> pat_binds n y"
| field: "\<lbrakk>n \<noteq> NULL; n_kind n = N_PAT_FIELD; n_children n = x # xs; pat_binds x y\<rbrakk> \<Longrightarrow> pat_binds n y"
| shorthand: "\<lbrakk>n \<noteq> NULL; n_kind n = N_PAT_FIELD; n_children n = []; bit1 (n_flags n)\<rbrakk> \<Longrightarrow> pat_binds n (n_name n)"

inductive_simps pat_binds_simps: "pat_binds n y"

text \<open>The names the statements of a block bind: those of the patterns of its \<open>let\<close>s.\<close>

definition let_binds :: "node list \<Rightarrow> string \<Rightarrow> bool" where
  "let_binds stmts y \<longleftrightarrow> (\<exists>st pat xs. st \<in> set stmts \<and> st \<noteq> NULL \<and> n_kind st = N_LET \<and> n_children st = pat # xs \<and> pat_binds pat y)"

text \<open>
  From \<open>n\<close> the path leads to \<open>m\<close> in tail position: a branch of an \<open>if\<close>, the
  body of an arm of a \<open>match\<close>, the value of a block. \<open>B\<close> holds the names bound on the way.
\<close>

inductive tail_pos :: "node \<Rightarrow> nat list \<Rightarrow> string set \<Rightarrow> node \<Rightarrow> bool" where
  here: "tail_pos n [] {} n"
| if_then: "\<lbrakk>n \<noteq> NULL; n_kind n = N_IF; 2 \<le> length (n_children n); tail_pos (n_children n ! 1) p B m\<rbrakk>
    \<Longrightarrow> tail_pos n (1 # p) B m"
| if_else: "\<lbrakk>n \<noteq> NULL; n_kind n = N_IF; bit1 (n_flags n); 3 \<le> length (n_children n); tail_pos (n_children n ! 2) p B m\<rbrakk>
    \<Longrightarrow> tail_pos n (2 # p) B m"
| arm: "\<lbrakk>n \<noteq> NULL; n_kind n = N_MATCH; 0 < i; i < length (n_children n); a = n_children n ! i;
      a \<noteq> NULL; n_kind a = N_ARM; n_children a \<noteq> []; tail_pos (last (n_children a)) p B m\<rbrakk>
    \<Longrightarrow> tail_pos n (i # (length (n_children a) - 1) # p) ({y. pat_binds (hd (n_children a)) y} \<union> B) m"
| block: "\<lbrakk>n \<noteq> NULL; n_kind n = N_BLOCK; bit1 (n_flags n); n_children n \<noteq> []; tail_pos (last (n_children n)) p B m\<rbrakk>
    \<Longrightarrow> tail_pos n ((length (n_children n) - 1) # p) ({y. let_binds (butlast (n_children n)) y} \<union> B) m"

text \<open>A call of the function of this name with this number of arguments.\<close>

definition calls :: "string \<Rightarrow> nat \<Rightarrow> node \<Rightarrow> bool" where
  "calls name arity m \<longleftrightarrow> m \<noteq> NULL \<and> n_kind m = N_CALL
     \<and> (\<exists>callee args. n_children m = callee # args \<and> callee \<noteq> NULL \<and> n_kind callee = N_IDENT
          \<and> n_name callee = name \<and> length args = arity)"

section \<open>The positions the pass visits\<close>

text \<open>From \<open>n\<close> under the names \<open>s\<close>, the path leads to \<open>m\<close> under the names \<open>t\<close>, in tail position.\<close>

inductive walk_pos :: "shadows \<Rightarrow> node \<Rightarrow> nat list \<Rightarrow> shadows \<Rightarrow> node \<Rightarrow> bool" where
  here: "walk_pos s n [] s n"
| if_then: "\<lbrakk>n \<noteq> NULL; n_kind n = N_IF; 2 \<le> length (n_children n); walk_pos s (n_children n ! 1) p t m\<rbrakk>
    \<Longrightarrow> walk_pos s n (1 # p) t m"
| if_else: "\<lbrakk>n \<noteq> NULL; n_kind n = N_IF; bit1 (n_flags n); 3 \<le> length (n_children n); walk_pos s (n_children n ! 2) p t m\<rbrakk>
    \<Longrightarrow> walk_pos s n (2 # p) t m"
| arm: "\<lbrakk>n \<noteq> NULL; n_kind n = N_MATCH; 0 < i; i < length (n_children n); is_arm (n_children n ! i);
      walk_pos (tco_arm_shadows s (n_children n ! i)) (last (n_children (n_children n ! i))) p t m\<rbrakk>
    \<Longrightarrow> walk_pos s n (i # (length (n_children (n_children n ! i)) - 1) # p) t m"
| block: "\<lbrakk>n \<noteq> NULL; n_kind n = N_BLOCK; bit1 (n_flags n); n_children n \<noteq> [];
      walk_pos (tco_block_shadows s (n_children n)) (last (n_children n)) p t m\<rbrakk>
    \<Longrightarrow> walk_pos s n ((length (n_children n) - 1) # p) t m"

inductive_cases walk_pos_NilE [elim!]: "walk_pos s n [] t m"
inductive_cases walk_pos_ConsE: "walk_pos s n (i # p) t m"
inductive_simps walk_pos_Cons: "walk_pos s n (i # p) t m"

definition self_call :: "string \<Rightarrow> nat \<Rightarrow> shadows \<Rightarrow> node \<Rightarrow> bool" where
  "self_call name arity t m \<longleftrightarrow> m \<noteq> NULL \<and> n_kind m = N_CALL \<and> tco_is_self_call name arity t (n_children m)"

lemma walk_pos_at: "walk_pos s n p t m \<Longrightarrow> node_at n p = Some m"
  by (induction rule: walk_pos.induct) (auto simp: is_arm_def last_conv_nth)

lemma tail_walk:
  assumes "walk_pos s n p t m" "self_call name arity t m"
  shows "tco_walk_tail name arity s n"
  using assms
proof (induction rule: walk_pos.induct)
  case (here s n)
  then show ?case by (cases n) (simp_all add: self_call_def)
next
  case (if_then n s p t m)
  then show ?case by (cases n) (simp_all add: Let_def)
next
  case (if_else n s p t m)
  then show ?case by (cases n) (simp_all add: Let_def)
next
  case (arm n i s p t m)
  have "n_children n ! i \<in> set (drop 1 (n_children n))"
    using arm(3,4) nth_mem [of "i - 1" "drop 1 (n_children n)"] by simp
  then show ?case
    using arm by (cases n) (auto simp: tco_walk_match_arms_def list_ex_iff simp del: drop_Suc_Cons)
next
  case (block n s p t m)
  then show ?case by (cases n) (simp_all add: tco_walk_block_tail_def)
qed

lemma size_child: "n \<noteq> NULL \<Longrightarrow> x \<in> set (n_children n) \<Longrightarrow> size x < size n"
  by (cases n) (simp_all add: less_Suc_eq_le size_list_estimation')

lemma walk_tail:
  "tco_walk_tail name arity s n \<Longrightarrow> \<exists>p t m. walk_pos s n p t m \<and> self_call name arity t m"
proof (induction n arbitrary: s rule: measure_induct_rule [of size])
  case (less n)
  obtain k a l c nm fl v ch where n: "n = Node k a l c nm fl v ch" using less.prems by (cases n) auto
  have sub: "\<exists>p t m. walk_pos s' x p t m \<and> self_call name arity t m"
    if "tco_walk_tail name arity s' x" "x \<in> set ch" for x s'
    using less.IH [OF _ that(1)] size_child [of n x] that(2) n by simp
  consider "k = N_CALL" | "k = N_IF" | "k = N_MATCH" | "k = N_BLOCK"
    using less.prems n by (cases k) simp_all
  then show ?case
  proof cases
    case 1
    then have "self_call name arity s n" using less.prems n by (simp add: self_call_def)
    then show ?thesis using walk_pos.here by blast
  next
    case 2
    then have len: "2 \<le> length ch" using less.prems n by (simp split: if_splits)
    from 2 consider "tco_walk_tail name arity s (ch ! 1)"
      | "bit1 fl" "3 \<le> length ch" "tco_walk_tail name arity s (ch ! 2)"
      using less.prems n by (auto simp: Let_def split: if_splits)
    then show ?thesis
    proof cases
      case 1
      show ?thesis using sub [OF 1] len walk_pos.if_then [of n s] n 2 by fastforce
    next
      case e: 2
      show ?thesis using sub [OF e(3)] e walk_pos.if_else [of n s] n 2 by fastforce
    qed
  next
    case 3
    then obtain x where x: "x \<in> set (drop 1 ch)" "is_arm x"
        "tco_walk_tail name arity (tco_arm_shadows s x) (last (n_children x))"
      using less.prems n by (auto simp: tco_walk_match_arms_def list_ex_iff)
    obtain j where j: "j < length ch - 1" "ch ! Suc j = x" using x(1) by (auto simp: in_set_conv_nth)
    have "size (last (n_children x)) < size x"
      using size_child [OF _ is_arm_last [OF x(2)]] x(2) by (simp add: is_arm_def)
    moreover have "size x < size n" using size_child [of n x] in_set_dropD [OF x(1)] n by simp
    ultimately obtain p t m where "walk_pos (tco_arm_shadows s x) (last (n_children x)) p t m" "self_call name arity t m"
      using less.IH [OF _ x(3)] by auto
    then show ?thesis using walk_pos.arm [of n "Suc j" s] j x(2) n 3 by fastforce
  next
    case 4
    then have b: "bit1 fl" "ch \<noteq> []" "tco_walk_tail name arity (tco_block_shadows s ch) (last ch)"
      using less.prems n by (auto simp: tco_walk_block_tail_def split: if_splits)
    show ?thesis using sub [OF b(3)] b walk_pos.block [of n s] n 4 by fastforce
  qed
qed

section \<open>Shadows are the names bound\<close>

lemma fold_collect:
  assumes "\<And>x s. x \<in> set xs \<Longrightarrow> set (f x s) = set s \<union> B x"
  shows "set (fold f xs s) = set s \<union> (\<Union>x \<in> set xs. B x)"
  using assms by (induction xs arbitrary: s) auto

lemma pat_binds_Node:
  "pat_binds (Node k a l c nm fl v ch) y \<longleftrightarrow>
     k = N_PAT_BIND \<and> y = nm
     \<or> k \<in> {N_PAT_LIST, N_PAT_VARIANT, N_PAT_RECORD} \<and> (\<exists>x \<in> set ch. pat_binds x y)
     \<or> k = N_PAT_FIELD \<and> (case ch of x # _ \<Rightarrow> pat_binds x y | [] \<Rightarrow> bit1 fl \<and> y = nm)"
  by (subst pat_binds_simps) (auto split: list.splits)

lemma pat_binds_NULL: "\<not> pat_binds NULL y"
  by (subst pat_binds_simps) simp

lemma collect_binds: "set (tco_collect_pat_binds pat s) = set s \<union> {y. pat_binds pat y}"
proof (induction pat arbitrary: s)
  case (Node k a l c nm fl v ch)
  have f: "set (fold tco_collect_pat_binds ch s) = set s \<union> (\<Union>x \<in> set ch. {y. pat_binds x y})"
    by (rule fold_collect) (rule Node)
  have "\<And>x xs. ch = x # xs \<Longrightarrow> set (tco_collect_pat_binds x s) = set s \<union> {y. pat_binds x y}"
    using Node by simp
  then show ?case
    by (cases k) (auto simp: pat_binds_Node f tcs_push_def split: list.splits)
qed (auto simp: pat_binds_NULL)

lemma arm_shadows_binds: "set (tco_arm_shadows s a) = set s \<union> {y. pat_binds (hd (n_children a)) y}"
  by (simp add: tco_arm_shadows_def collect_binds)

lemma block_shadows_binds: "set (tco_block_shadows s ch) = set s \<union> {y. let_binds (butlast ch) y}"
proof -
  have "set (tco_block_shadows s ch) = set s \<union> (\<Union>st \<in> set (butlast ch). {y. let_binds [st] y})"
    unfolding tco_block_shadows_def
    by (rule fold_collect) (auto simp: let_binds_def collect_binds split: list.splits)
  also have "(\<Union>st \<in> set (butlast ch). {y. let_binds [st] y}) = {y. let_binds (butlast ch) y}"
    by (auto simp: let_binds_def)
  finally show ?thesis .
qed

lemma walk_pos_tail_pos: "walk_pos s n p t m \<Longrightarrow> \<exists>B. tail_pos n p B m \<and> set t = set s \<union> B"
proof (induction rule: walk_pos.induct)
  case here
  then show ?case using tail_pos.here by blast
next
  case if_then
  then show ?case using tail_pos.if_then by blast
next
  case if_else
  then show ?case using tail_pos.if_else by blast
next
  case (arm n i s p t m)
  then obtain B where "tail_pos (last (n_children (n_children n ! i))) p B m"
      "set t = set (tco_arm_shadows s (n_children n ! i)) \<union> B" by blast
  then show ?case
    using arm tail_pos.arm [of n i "n_children n ! i" p B m] unfolding is_arm_def arm_shadows_binds by (metis Un_assoc)
next
  case (block n s p t m)
  then obtain B where "tail_pos (last (n_children n)) p B m" "set t = set (tco_block_shadows s (n_children n)) \<union> B" by blast
  then show ?case
    using block tail_pos.block [of n p B m] unfolding block_shadows_binds by (metis Un_assoc)
qed

lemma tail_pos_walk_pos: "tail_pos n p B m \<Longrightarrow> \<exists>t. walk_pos s n p t m \<and> set t = set s \<union> B"
proof (induction arbitrary: s rule: tail_pos.induct)
  case here
  show ?case by (rule exI [of _ s]) (simp add: walk_pos.here)
next
  case if_then
  then show ?case using walk_pos.if_then by blast
next
  case if_else
  then show ?case using walk_pos.if_else by blast
next
  case (arm n i a p B m)
  then obtain t where "walk_pos (tco_arm_shadows s a) (last (n_children a)) p t m"
      "set t = set (tco_arm_shadows s a) \<union> B" by blast
  then show ?case
    using arm walk_pos.arm [of n i s p t m] unfolding is_arm_def arm_shadows_binds by (metis Un_assoc)
next
  case (block n p B m)
  then obtain t where "walk_pos (tco_block_shadows s (n_children n)) (last (n_children n)) p t m"
      "set t = set (tco_block_shadows s (n_children n)) \<union> B" by blast
  then show ?case
    using block walk_pos.block [of n s p t m] unfolding block_shadows_binds by (metis Un_assoc)
qed

lemma self_call_calls: "self_call name arity t m \<longleftrightarrow> calls name arity m \<and> name \<notin> set t"
  by (auto simp: self_call_def calls_def tco_is_self_call_def tcs_has_def list_ex_iff split: list.splits)

lemma walk_tail_pos:
  "(\<exists>t. walk_pos s n p t m \<and> self_call name arity t m)
    \<longleftrightarrow> (\<exists>B. tail_pos n p B m \<and> calls name arity m \<and> name \<notin> set s \<union> B)"
  unfolding self_call_calls using walk_pos_tail_pos tail_pos_walk_pos by metis

text \<open>
  C8: The pass finds a tail call exactly when some call in tail position names the enclosing
  function, has as many arguments as the function has parameters, and neither a pattern or
  \<open>let\<close> on the way to it nor a shadow it started with binds that name.
\<close>

theorem tco_walk_tail_iff:
  "tco_walk_tail name arity s n \<longleftrightarrow>
    (\<exists>p B m. tail_pos n p B m \<and> calls name arity m \<and> name \<notin> set s \<union> B)"
  using tail_walk walk_tail walk_tail_pos by metis


section \<open>What is marked\<close>

definition same_head :: "node \<Rightarrow> node \<Rightarrow> bool" where
  "same_head m m' \<longleftrightarrow> (m = NULL \<longleftrightarrow> m' = NULL) \<and> n_kind m' = n_kind m \<and> n_id m' = n_id m \<and> n_line m' = n_line m \<and> n_col m' = n_col m
     \<and> n_name m' = n_name m \<and> n_val m' = n_val m \<and> length (n_children m') = length (n_children m)"

lemma same_head_refl [simp]: "same_head m m"
  by (simp add: same_head_def)

text \<open>A node before and after: the same but for the flag, which is set where \<open>P\<close> holds.\<close>

definition flagged :: "(node \<Rightarrow> bool) \<Rightarrow> node option \<Rightarrow> node option \<Rightarrow> bool" where
  "flagged P a b = (case b of
      None \<Rightarrow> a = None
    | Some m' \<Rightarrow> (\<exists>m. a = Some m \<and> same_head m m' \<and> n_flags m' = (if P m then n_flags m OR 1 else n_flags m)))"

lemma flagged_same: "(\<And>m. a = Some m \<Longrightarrow> \<not> P m) \<Longrightarrow> flagged P a a"
  by (cases a) (auto simp: flagged_def)

abbreviation walk_self_call :: "string \<Rightarrow> nat \<Rightarrow> shadows \<Rightarrow> node \<Rightarrow> nat list \<Rightarrow> node \<Rightarrow> bool" where
  "walk_self_call name arity s n p m \<equiv> \<exists>t. walk_pos s n p t m \<and> self_call name arity t m"

lemma same_head_mark: "same_head n (tco_mark name arity s n)"
  by (cases n; cases "n_kind n")
    (auto simp: same_head_def Let_def tco_mark_match_arms_def tco_mark_block_tail_def)

lemma flags_mark:
  "n_flags (tco_mark name arity s n) = (if self_call name arity s n then n_flags n OR 1 else n_flags n)"
  by (cases n; cases "n_kind n") (auto simp: self_call_def Let_def)

text \<open>Tail positions below each kind of node.\<close>

lemma walk_pos_if: "n_kind n = N_IF \<Longrightarrow> walk_pos s n (i # q) t m \<longleftrightarrow> n \<noteq> NULL
    \<and> (i = 1 \<and> 2 \<le> length (n_children n) \<or> i = 2 \<and> bit1 (n_flags n) \<and> 3 \<le> length (n_children n))
    \<and> walk_pos s (n_children n ! i) q t m"
  by (auto simp: walk_pos_Cons)

lemma walk_pos_match: "n_kind n = N_MATCH \<Longrightarrow> walk_pos s n (i # q) t m \<longleftrightarrow> n \<noteq> NULL
    \<and> 0 < i \<and> i < length (n_children n) \<and> is_arm (n_children n ! i)
    \<and> (\<exists>r. q = (length (n_children (n_children n ! i)) - 1) # r
        \<and> walk_pos (tco_arm_shadows s (n_children n ! i)) (last (n_children (n_children n ! i))) r t m)"
  by (auto simp: walk_pos_Cons)

lemma walk_pos_block: "n_kind n = N_BLOCK \<Longrightarrow> walk_pos s n (i # q) t m \<longleftrightarrow> n \<noteq> NULL
    \<and> bit1 (n_flags n) \<and> n_children n \<noteq> [] \<and> i = length (n_children n) - 1
    \<and> walk_pos (tco_block_shadows s (n_children n)) (last (n_children n)) q t m"
  by (auto simp: walk_pos_Cons)

lemma walk_pos_other: "n_kind n \<notin> {N_IF, N_MATCH, N_BLOCK} \<Longrightarrow> \<not> walk_pos s n (i # q) t m"
  by (auto simp: walk_pos_Cons)

text \<open>The children after marking.\<close>

lemma children_mark_if: "\<lbrakk>n \<noteq> NULL; n_kind n = N_IF; i < length (n_children n)\<rbrakk> \<Longrightarrow>
    n_children (tco_mark name arity s n) ! i =
      (if i = 1 \<or> i = 2 \<and> bit1 (n_flags n) then tco_mark name arity s (n_children n ! i) else n_children n ! i)"
  by (cases n) (auto simp: Let_def nth_list_update)

lemma children_mark_match: "\<lbrakk>n \<noteq> NULL; n_kind n = N_MATCH; i < length (n_children n)\<rbrakk> \<Longrightarrow>
    n_children (tco_mark name arity s n) ! i =
      (let x = n_children n ! i in
       if 0 < i \<and> is_arm x
       then set_child x (length (n_children x) - 1) (tco_mark name arity (tco_arm_shadows s x) (last (n_children x)))
       else x)"
  by (cases n; cases "n_children n"; cases i) (auto simp: Let_def tco_mark_match_arms_def)

lemma children_mark_block: "\<lbrakk>n \<noteq> NULL; n_kind n = N_BLOCK; i < length (n_children n)\<rbrakk> \<Longrightarrow>
    n_children (tco_mark name arity s n) ! i =
      (if bit1 (n_flags n) \<and> i = length (n_children n) - 1
       then tco_mark name arity (tco_block_shadows s (n_children n)) (last (n_children n))
       else n_children n ! i)"
  by (cases n) (auto simp: Let_def tco_mark_block_tail_def nth_list_update)

lemma children_mark_other: "n_kind n \<notin> {N_IF, N_MATCH, N_BLOCK} \<Longrightarrow>
    n_children (tco_mark name arity s n) = n_children n"
  by (cases n; cases "n_kind n") (auto simp: Let_def)

lemma flagged_set_child:
  assumes "x \<noteq> NULL" "j < length (n_children x)"
    "\<And>r. q = j # r \<Longrightarrow> flagged P (node_at (n_children x ! j) r) (node_at y r)"
    "\<And>m. \<not> (\<exists>r. q = j # r) \<Longrightarrow> \<not> P m"
  shows "flagged P (node_at x q) (node_at (set_child x j y) q)"
proof (cases q)
  case Nil
  then show ?thesis using assms(4) by (cases x) (auto simp: flagged_def same_head_def)
next
  case (Cons i r)
  then show ?thesis
    using assms by (cases x; cases "i = j") (auto simp: nth_list_update intro: flagged_same split: if_splits)
qed

lemma flagged_mark:
  "flagged (walk_self_call name arity s n p) (node_at n p) (node_at (tco_mark name arity s n) p)"
proof (induction "length p" arbitrary: s n p rule: less_induct)
  case less
  show ?case
  proof (cases p)
    case Nil
    have "walk_self_call name arity s n [] n = self_call name arity s n" using walk_pos.here by auto
    then show ?thesis using same_head_mark [of n name arity s] flags_mark [of name arity s n] Nil
      by (simp add: flagged_def)
  next
    case (Cons i q)
    have IH: "flagged (walk_self_call name arity s' x q) (node_at x q) (node_at (tco_mark name arity s' x) q)" for s' x
      by (rule less) (simp add: Cons)
    have IH2: "flagged (walk_self_call name arity s' x r) (node_at x r) (node_at (tco_mark name arity s' x) r)"
      if "q = j # r" for s' x j r
      by (rule less) (simp add: Cons that)
    show ?thesis
    proof (cases "n = NULL")
      case True
      then show ?thesis using Cons by (simp add: flagged_def)
    next
      case False
      note n0 = False
      let ?ch = "n_children n"
      have len: "length (n_children (tco_mark name arity s n)) = length ?ch"
        using same_head_mark [of n name arity s] n0 by (simp add: same_head_def)
      have m0: "tco_mark name arity s n \<noteq> NULL"
        using same_head_mark [of n name arity s] n0 by (simp add: same_head_def)
      have eq: "node_at n p = (if i < length ?ch then node_at (?ch ! i) q else None)"
          "node_at (tco_mark name arity s n) p =
             (if i < length ?ch then node_at (n_children (tco_mark name arity s n) ! i) q else None)"
        using Cons n0 m0 len by simp_all
      have "flagged (walk_self_call name arity s n p) (node_at (?ch ! i) q)
          (node_at (n_children (tco_mark name arity s n) ! i) q)" if i: "i < length ?ch"
      proof -
        consider "n_kind n = N_IF" | "n_kind n = N_MATCH" | "n_kind n = N_BLOCK" | "n_kind n \<notin> {N_IF, N_MATCH, N_BLOCK}" by blast
        then show ?thesis
        proof cases
          case 1
          then have "walk_self_call name arity s n p m =
              ((i = 1 \<or> i = 2 \<and> bit1 (n_flags n)) \<and> walk_self_call name arity s (?ch ! i) q m)" for m
            using walk_pos_if [of n s i q] i Cons n0 by auto
          then show ?thesis
            using children_mark_if [of n i name arity s] IH [of s "?ch ! i"] i 1 n0
            by (auto intro: flagged_same)
        next
          case 2
          let ?j = "length (n_children (?ch ! i)) - 1" and ?s = "tco_arm_shadows s (?ch ! i)"
          have t: "walk_self_call name arity s n p m = (0 < i \<and> is_arm (?ch ! i)
              \<and> (\<exists>r. q = ?j # r \<and> walk_self_call name arity ?s (last (n_children (?ch ! i))) r m))" for m
            using walk_pos_match [of n s i q] i 2 Cons n0 by auto
          show ?thesis
          proof (cases "0 < i \<and> is_arm (?ch ! i)")
            case True
            have "flagged (walk_self_call name arity s n p) (node_at (?ch ! i) q)
                (node_at (set_child (?ch ! i) ?j (tco_mark name arity ?s (last (n_children (?ch ! i))))) q)"
              using True IH2 by (intro flagged_set_child) (auto simp: t is_arm_def last_conv_nth)
            then show ?thesis using children_mark_match [of n i name arity s] True i 2 n0 by (simp add: Let_def)
          next
            case False
            then have "n_children (tco_mark name arity s n) ! i = ?ch ! i"
              using children_mark_match [of n i name arity s] i 2 n0 by (auto simp: Let_def)
            then show ?thesis using False t by (auto intro: flagged_same)
          qed
        next
          case 3
          have "walk_self_call name arity s n p m = (bit1 (n_flags n) \<and> i = length ?ch - 1
              \<and> walk_self_call name arity (tco_block_shadows s ?ch) (last ?ch) q m)" for m
            using walk_pos_block [of n s i q] i 3 Cons n0 by auto
          moreover have "last ?ch = ?ch ! i" if "i = length ?ch - 1" using i that last_conv_nth [of ?ch] by force
          ultimately show ?thesis
            using children_mark_block [of n i name arity s] IH [of "tco_block_shadows s ?ch" "?ch ! i"] i 3 n0
            by (auto intro: flagged_same)
        next
          case 4
          then show ?thesis
            using children_mark_other [of n name arity s] walk_pos_other [of n s i q] Cons n0
            by (auto intro: flagged_same)
        qed
      qed
      then show ?thesis unfolding eq by (simp add: flagged_def)
    qed
  qed
qed


text \<open>
  C16: Marking keeps the tree: at every path the node has the kind, address, position, name, value
  and number of children it had. Its flags are as before, except that the bit 0x1 is set on the
  calls in tail position that name the function, have as many arguments as it has parameters and
  are below no pattern or \<open>let\<close> that binds its name.
\<close>

theorem tco_mark_flags:
  "(case node_at (tco_mark name arity s n) p of
      None \<Rightarrow> node_at n p = None
    | Some m' \<Rightarrow> (\<exists>m. node_at n p = Some m \<and> same_head m m'
        \<and> n_flags m' = (if \<exists>B. tail_pos n p B m \<and> calls name arity m \<and> name \<notin> set s \<union> B
                        then n_flags m OR 1 else n_flags m)))"
  using flagged_mark [of s n p name arity] unfolding flagged_def walk_tail_pos .

end
