(* ===== verification/Kai_Impl_Table.thy ===== *)
theory Kai_Impl_Table
  imports Main "HOL-Library.Word"
begin

unbundle bit_operations_syntax

text \<open>
  The dispatch table of \<^verbatim>\<open>stage2/runtime/types.h\<close>: an open-addressing hash map from
  (protocol, operation, head tag) to a function, filled once at start-up, and the byte per head
  tag that tells the structural comparison which types implement \<open>Eq\<close>. A function pointer is a
  number, \<open>NULL\<close> is 0; the \<open>int32_t\<close> fields are integers, in range as the generated table has
  them. A probe that never meets a free slot or its key spins for ever: its result is \<open>None\<close>.
\<close>

section \<open>An interface: a table that takes a number of entries\<close>

locale bounded_map =
  fixes room :: "nat \<Rightarrow> 't \<Rightarrow> bool"
    and abs :: "'t \<Rightarrow> 'k \<Rightarrow> 'v option"
    and null :: 'v
    and lookup :: "'t \<Rightarrow> 'k \<Rightarrow> 'v option"
    and insert :: "'k \<Rightarrow> 'v \<Rightarrow> 't \<Rightarrow> 't option"
  assumes lookup: "room n t \<Longrightarrow> lookup t k = Some (case abs t k of None \<Rightarrow> null | Some v \<Rightarrow> v)"
    and insert: "room (Suc n) t \<Longrightarrow> v \<noteq> null
      \<Longrightarrow> \<exists>t'. insert k v t = Some t' \<and> room n t' \<and> abs t' = (abs t)(k \<mapsto> v)"
begin

lemma inserts:
  assumes "room (length xs + n) t" "\<forall>(k, v)\<in>set xs. v \<noteq> null"
  shows "\<exists>t'. fold (\<lambda>(k, v) t. Option.bind t (insert k v)) xs (Some t) = Some t' \<and> room n t'
    \<and> abs t' = abs t ++ map_of (rev xs)"
  using assms
proof (induction xs arbitrary: t)
  case (Cons x xs)
  obtain k v where x: "x = (k, v)" by (cases x)
  obtain t1 where t1: "insert k v t = Some t1" "room (length xs + n) t1" "abs t1 = (abs t)(k \<mapsto> v)"
    using Cons.prems x insert [of "length xs + n" t v k] by auto
  obtain t' where "fold (\<lambda>(k, v) t. Option.bind t (insert k v)) xs (Some t1) = Some t'" "room n t'"
      "abs t' = abs t1 ++ map_of (rev xs)"
    using Cons.IH [OF t1(2)] Cons.prems(2) by auto
  then show ?case
    using t1 x by (simp add: map_add_assoc [symmetric])
qed simp

text \<open>A table filled from a list answers every key with the last entry of the list.\<close>

lemma lookup_inserts:
  assumes "room (length xs) t" "\<forall>(k, v)\<in>set xs. v \<noteq> null" "abs t = Map.empty"
  shows "\<exists>t'. fold (\<lambda>(k, v) t. Option.bind t (insert k v)) xs (Some t) = Some t'
    \<and> (\<forall>k. lookup t' k = Some (case map_of (rev xs) k of None \<Rightarrow> null | Some v \<Rightarrow> v))"
  using inserts [of xs 0 t] assms lookup by fastforce

end

section \<open>The table\<close>

type_synonym key = "int \<times> int \<times> int"

record impl_slot =
  sl_key :: key
  sl_fn :: nat

record impl_table =
  t_slots :: "impl_slot list"
  t_count :: nat

definition KAI_PROTO_EQ :: int where "KAI_PROTO_EQ = 1"
definition KAI_OP_EQ_EQ :: int where "KAI_OP_EQ_EQ = 0"

definition kai_impl_hash :: "key \<Rightarrow> 32 word" where
  "kai_impl_hash k =
     (case k of (proto_id, op_id, head_tag) \<Rightarrow>
        let h = word_of_int proto_id * 2654435761;
            h = h XOR (word_of_int op_id * 2246822519);
            h = h XOR (word_of_int head_tag * 40503)
        in h XOR drop_bit 13 h)"

definition t_cap :: "impl_table \<Rightarrow> nat" where
  "t_cap t = length (t_slots t)"

text \<open>The loop both operations share: the first slot that is free or holds the key.\<close>

fun probe :: "impl_slot list \<Rightarrow> key \<Rightarrow> nat \<Rightarrow> nat \<Rightarrow> nat option" where
  "probe sl k 0 i = None"
| "probe sl k (Suc fuel) i =
     (if sl_fn (sl ! i) = 0 then Some i
      else if sl_key (sl ! i) = k then Some i
      else probe sl k fuel ((i + 1) AND (length sl - 1)))"

definition probe_from_home :: "impl_slot list \<Rightarrow> key \<Rightarrow> nat option" where
  "probe_from_home sl k = probe sl k (length sl) (unat (kai_impl_hash k) AND (length sl - 1))"

text \<open>\<open>Some 0\<close> is a \<open>NULL\<close> result.\<close>

definition kai_lookup_impl :: "impl_table \<Rightarrow> key \<Rightarrow> nat option" where
  "kai_lookup_impl t k =
     (if t_cap t = 0 then Some 0
      else map_option (\<lambda>i. sl_fn (t_slots t ! i)) (probe_from_home (t_slots t) k))"

definition kai_impl_insert :: "key \<Rightarrow> nat \<Rightarrow> impl_table \<Rightarrow> impl_table option" where
  "kai_impl_insert k fn t =
     map_option (\<lambda>i.
       if sl_fn (t_slots t ! i) \<noteq> 0 then t\<lparr>t_slots := (t_slots t)[i := (t_slots t ! i)\<lparr>sl_fn := fn\<rparr>]\<rparr>
       else t\<lparr>t_slots := (t_slots t)[i := \<lparr>sl_key = k, sl_fn = fn\<rparr>], t_count := t_count t + 1\<rparr>)
     (probe_from_home (t_slots t) k)"

function cap_for :: "nat \<Rightarrow> nat \<Rightarrow> nat" where
  "cap_for n cap = (if 0 < cap \<and> cap < n * 2 then cap_for n (cap * 2) else cap)"
  by pat_completeness auto
termination by (relation "measure (\<lambda>(n, cap). n * 2 - cap)") auto

declare cap_for.simps [simp del]

type_synonym impl_entry = "key \<times> nat"

definition eq_len :: "impl_entry list \<Rightarrow> int" where
  "eq_len es = fold (\<lambda>((proto, op, head), fn) n. if proto = KAI_PROTO_EQ \<and> head \<ge> n then head + 1 else n) es 0"

definition eq_heads :: "impl_entry list \<Rightarrow> bool list" where
  "eq_heads es =
     fold (\<lambda>((proto, op, head), fn) hs. if proto = KAI_PROTO_EQ \<and> head \<ge> 0 then hs[nat head := True] else hs) es
       (replicate (nat (if eq_len es > 0 then eq_len es else 1)) False)"

record impls =
  i_table :: impl_table
  i_eq_heads :: "bool list"
  i_eq_heads_len :: int

definition kai_register_impls :: "impl_entry list \<Rightarrow> impls option" where
  "kai_register_impls es =
     (let t0 = \<lparr>t_slots = replicate (cap_for (length es) 16) \<lparr>sl_key = (0, 0, 0), sl_fn = 0\<rparr>, t_count = 0\<rparr>
      in map_option (\<lambda>t. \<lparr>i_table = t, i_eq_heads = eq_heads es, i_eq_heads_len = eq_len es\<rparr>)
           (fold (\<lambda>(k, fn) t. Option.bind t (kai_impl_insert k fn)) es (Some t0)))"

definition kai_eq_impl_of :: "impls \<Rightarrow> int \<Rightarrow> nat option" where
  "kai_eq_impl_of im head_tag =
     (if head_tag \<le> 0 \<or> head_tag \<ge> i_eq_heads_len im \<or> \<not> i_eq_heads im ! nat head_tag then Some 0
      else kai_lookup_impl (i_table im) (KAI_PROTO_EQ, KAI_OP_EQ_EQ, head_tag))"


section \<open>Probing\<close>

definition occupied :: "impl_slot list \<Rightarrow> nat \<Rightarrow> bool" where
  "occupied sl j \<longleftrightarrow> sl_fn (sl ! j) \<noteq> 0"

definition pos :: "impl_slot list \<Rightarrow> key \<Rightarrow> nat \<Rightarrow> nat" where
  "pos sl k d = (unat (kai_impl_hash k) + d) mod length sl"

definition power_sized :: "impl_slot list \<Rightarrow> bool" where
  "power_sized sl \<longleftrightarrow> (\<exists>m. length sl = 2 ^ m)"

lemma and_cap: "power_sized sl \<Longrightarrow> i AND (length sl - 1) = i mod length sl"
proof -
  assume "power_sized sl"
  then obtain m where m: "length sl = 2 ^ m" by (auto simp: power_sized_def)
  have "i AND (2 ^ m - 1) = i mod 2 ^ m"
    by (simp only: mask_eq_exp_minus_1 [symmetric] take_bit_eq_mask [symmetric] take_bit_eq_mod)
  then show ?thesis by (simp only: m)
qed

lemma cap_pos: "power_sized sl \<Longrightarrow> 0 < length sl"
  by (auto simp: power_sized_def)

lemma pos_less: "power_sized sl \<Longrightarrow> pos sl k d < length sl"
  using cap_pos [of sl] by (simp add: pos_def)

lemma pos_Suc: "power_sized sl \<Longrightarrow> (pos sl k d + 1) AND (length sl - 1) = pos sl k (Suc d)"
  by (simp only: and_cap pos_def) (simp add: mod_simps)

lemma pos_onto:
  assumes "power_sized sl" "j < length sl"
  shows "\<exists>d<length sl. pos sl k d = j"
proof -
  let ?n = "length sl" and ?h = "unat (kai_impl_hash k)"
  let ?d = "(j + (?n - ?h mod ?n)) mod ?n"
  have n: "0 < ?n" by (rule cap_pos [OF assms(1)])
  have "(?h + ?d) mod ?n = (?h mod ?n + (j + (?n - ?h mod ?n))) mod ?n" by (simp add: mod_simps)
  also have "?h mod ?n + (j + (?n - ?h mod ?n)) = j + ?n"
    using mod_less_divisor [OF n, of ?h] by linarith
  also have "(j + ?n) mod ?n = j" using assms(2) by simp
  finally show ?thesis using n by (intro exI [of _ ?d]) (simp add: pos_def)
qed

definition stops :: "impl_slot list \<Rightarrow> key \<Rightarrow> nat \<Rightarrow> bool" where
  "stops sl k d \<longleftrightarrow> \<not> occupied sl (pos sl k d) \<or> sl_key (sl ! pos sl k d) = k"

lemma probe_reaches:
  assumes "power_sized sl" "stops sl k d" "\<forall>d'<d. \<not> stops sl k d'" "d - s < fuel" "s \<le> d"
  shows "probe sl k fuel (pos sl k s) = Some (pos sl k d)"
  using assms(4,5)
proof (induction fuel arbitrary: s)
  case (Suc fuel)
  show ?case
  proof (cases "s = d")
    case True
    then show ?thesis using assms(2) by (auto simp: stops_def occupied_def)
  next
    case False
    then have "s < d" using Suc.prems by simp
    then show ?thesis
      using Suc assms(1,3) by (auto simp: stops_def occupied_def pos_Suc [simplified])
  qed
qed simp

text \<open>Every key is found before a free slot on its way from home.\<close>

definition reachable :: "impl_slot list \<Rightarrow> bool" where
  "reachable sl \<longleftrightarrow> (\<forall>j<length sl. occupied sl j \<longrightarrow>
     (\<exists>d. pos sl (sl_key (sl ! j)) d = j \<and> (\<forall>d'<d. \<not> stops sl (sl_key (sl ! j)) d')))"

lemma probe_home:
  assumes "power_sized sl" "reachable sl" "e < length sl" "\<not> occupied sl e"
  obtains i d where "probe_from_home sl k = Some i" "i < length sl" "i = pos sl k d" "stops sl k d" "\<forall>d'<d. \<not> stops sl k d'"
    "\<not> occupied sl i \<Longrightarrow> \<forall>j<length sl. occupied sl j \<longrightarrow> sl_key (sl ! j) \<noteq> k"
proof -
  obtain f where f: "f < length sl" "pos sl k f = e" using pos_onto [OF assms(1,3)] by blast
  then have sf: "stops sl k f" using assms(4) by (simp add: stops_def)
  define d where "d = (LEAST d. stops sl k d)"
  have d: "stops sl k d" "\<forall>d'<d. \<not> stops sl k d'"
    unfolding d_def using LeastI [of "stops sl k", OF sf] not_less_Least by blast+
  have "d \<le> f" unfolding d_def using sf by (rule Least_le)
  then have "probe sl k (length sl) (pos sl k 0) = Some (pos sl k d)"
    using f(1) by (intro probe_reaches [OF assms(1) d]) simp_all
  moreover have "pos sl k 0 = unat (kai_impl_hash k) AND (length sl - 1)"
    by (simp only: pos_def and_cap [OF assms(1)] add_0_right)
  ultimately have p: "probe_from_home sl k = Some (pos sl k d)" by (simp only: probe_from_home_def)
  have "\<forall>j<length sl. occupied sl j \<longrightarrow> sl_key (sl ! j) \<noteq> k" if free: "\<not> occupied sl (pos sl k d)"
  proof (intro allI impI notI)
    fix j assume j: "j < length sl" "occupied sl j" "sl_key (sl ! j) = k"
    then obtain dj where dj: "pos sl k dj = j" "\<forall>d'<dj. \<not> stops sl k d'"
      using assms(2) by (auto simp: reachable_def)
    then have "stops sl k dj" using j by (simp add: stops_def)
    then have "dj = d" using d dj(2) by (metis linorder_neqE_nat)
    then show False using free dj(1) j(2) by simp
  qed
  then show ?thesis using that [OF p pos_less [OF assms(1)] refl d] by blast
qed

lemma keys_unique:
  assumes "reachable sl" "i < length sl" "j < length sl" "occupied sl i" "occupied sl j" "sl_key (sl ! i) = sl_key (sl ! j)"
  shows "i = j"
proof -
  let ?k = "sl_key (sl ! j)"
  obtain di where di: "pos sl ?k di = i" "\<forall>d'<di. \<not> stops sl ?k d'" using assms by (metis reachable_def)
  obtain dj where dj: "pos sl ?k dj = j" "\<forall>d'<dj. \<not> stops sl ?k d'" using assms by (metis reachable_def)
  have "stops sl ?k di" "stops sl ?k dj" using di(1) dj(1) assms(6) by (simp_all add: stops_def)
  then have "di = dj" using di(2) dj(2) by (metis linorder_neqE_nat)
  then show ?thesis using di(1) dj(1) by simp
qed


section \<open>Insertion and lookup\<close>

definition used :: "impl_slot list \<Rightarrow> nat set" where
  "used sl = {j. j < length sl \<and> occupied sl j}"

definition room :: "nat \<Rightarrow> impl_table \<Rightarrow> bool" where
  "room n t \<longleftrightarrow> power_sized (t_slots t) \<and> reachable (t_slots t) \<and> card (used (t_slots t)) + n < t_cap t"

definition entries :: "impl_table \<Rightarrow> key \<Rightarrow> nat option" where
  "entries t = map_of (map (\<lambda>s. (sl_key s, sl_fn s)) (filter (\<lambda>s. sl_fn s \<noteq> 0) (t_slots t)))"

lemma finite_used [simp]: "finite (used sl)"
  by (simp add: used_def)

lemma room_free: "room n t \<Longrightarrow> \<exists>e<length (t_slots t). \<not> occupied (t_slots t) e"
proof (rule ccontr)
  assume r: "room n t" and "\<not> (\<exists>e<length (t_slots t). \<not> occupied (t_slots t) e)"
  then have "used (t_slots t) = {..<length (t_slots t)}" by (auto simp: used_def)
  then show False using r by (simp add: room_def t_cap_def)
qed

lemma entries_Some:
  assumes "reachable (t_slots t)" "j < length (t_slots t)" "occupied (t_slots t) j"
  shows "entries t (sl_key (t_slots t ! j)) = Some (sl_fn (t_slots t ! j))"
proof -
  let ?sl = "t_slots t" and ?xs = "map (\<lambda>s. (sl_key s, sl_fn s)) (filter (\<lambda>s. sl_fn s \<noteq> 0) (t_slots t))"
  have "(sl_key (?sl ! j), sl_fn (?sl ! j)) \<in> set ?xs" using assms by (auto simp: occupied_def)
  then obtain v where v: "map_of ?xs (sl_key (?sl ! j)) = Some v" by (blast dest: weak_map_of_SomeI)
  then have "(sl_key (?sl ! j), v) \<in> set ?xs" by (rule map_of_SomeD)
  then obtain i where "i < length ?sl" "occupied ?sl i" "sl_key (?sl ! i) = sl_key (?sl ! j)" "sl_fn (?sl ! i) = v"
    by (auto simp: in_set_conv_nth occupied_def)
  then have "i = j" using keys_unique [OF assms(1) _ assms(2)] assms(3) by blast
  then show ?thesis using v \<open>sl_fn (?sl ! i) = v\<close> by (simp add: entries_def)
qed

lemma entries_None:
  "\<forall>j<length (t_slots t). occupied (t_slots t) j \<longrightarrow> sl_key (t_slots t ! j) \<noteq> k \<Longrightarrow> entries t k = None"
  by (auto simp: entries_def map_of_eq_None_iff occupied_def in_set_conv_nth)

lemma lookup_entries:
  assumes "room n t"
  shows "kai_lookup_impl t k = Some (case entries t k of None \<Rightarrow> 0 | Some v \<Rightarrow> v)"
proof -
  let ?sl = "t_slots t"
  have p: "power_sized ?sl" "reachable ?sl" using assms by (simp_all add: room_def)
  obtain e where e: "e < length ?sl" "\<not> occupied ?sl e" using room_free [OF assms] by blast
  obtain i d where i: "probe_from_home ?sl k = Some i" "i < length ?sl" "i = pos ?sl k d" "stops ?sl k d"
      "\<not> occupied ?sl i \<Longrightarrow> \<forall>j<length ?sl. occupied ?sl j \<longrightarrow> sl_key (?sl ! j) \<noteq> k"
    by (rule probe_home [OF p e]) blast
  have cap: "t_cap t \<noteq> 0" using cap_pos [OF p(1)] by (simp add: t_cap_def)
  show ?thesis
  proof (cases "occupied ?sl i")
    case True
    then have "sl_key (?sl ! i) = k" using i(3,4) by (simp add: stops_def)
    then show ?thesis using entries_Some [OF p(2) i(2) True] i(1) cap by (auto simp: kai_lookup_impl_def)
  next
    case False
    then have "entries t k = None" by (intro entries_None i(5))
    then show ?thesis using False i(1) cap by (auto simp: kai_lookup_impl_def occupied_def)
  qed
qed


lemma entries_iff:
  assumes "reachable (t_slots t)"
  shows "entries t k = Some v \<longleftrightarrow>
    (\<exists>j<length (t_slots t). occupied (t_slots t) j \<and> sl_key (t_slots t ! j) = k \<and> sl_fn (t_slots t ! j) = v)"
  using entries_Some [OF assms] entries_None [of t k] by (metis option.distinct(1) option.inject)

lemma map_upd_eqI: "(\<And>q w. f q = Some w \<longleftrightarrow> (if q = k then w = v else g q = Some w)) \<Longrightarrow> f = g(k \<mapsto> v)"
proof
  fix q assume "\<And>q w. f q = Some w \<longleftrightarrow> (if q = k then w = v else g q = Some w)"
  note this [of q]
  then show "f q = (g(k \<mapsto> v)) q" by (cases "q = k") (simp_all, metis not_Some_eq)
qed

lemma insert_entries:
  assumes r: "room (Suc n) t" and v: "v \<noteq> 0"
  shows "\<exists>t'. kai_impl_insert k v t = Some t' \<and> room n t' \<and> entries t' = (entries t)(k \<mapsto> v)"
proof -
  let ?sl = "t_slots t"
  have p: "power_sized ?sl" "reachable ?sl" using r by (simp_all add: room_def)
  obtain e where e: "e < length ?sl" "\<not> occupied ?sl e" using room_free [OF r] by blast
  obtain i d where i: "probe_from_home ?sl k = Some i" "i < length ?sl" "i = pos ?sl k d" "stops ?sl k d"
      "\<forall>d'<d. \<not> stops ?sl k d'"
      "\<not> occupied ?sl i \<Longrightarrow> \<forall>j<length ?sl. occupied ?sl j \<longrightarrow> sl_key (?sl ! j) \<noteq> k"
    by (rule probe_home [OF p e]) blast
  let ?new = "if occupied ?sl i then (?sl ! i)\<lparr>sl_fn := v\<rparr> else \<lparr>sl_key = k, sl_fn = v\<rparr>"
  let ?sl' = "?sl[i := ?new]"
  have new: "sl_key ?new = k" "sl_fn ?new = v" using i(3,4) by (auto simp: stops_def)
  have pos: "pos ?sl' q c = pos ?sl q c" for q c by (simp add: pos_def)
  have occ: "occupied ?sl' j \<longleftrightarrow> j = i \<or> occupied ?sl j" if "j < length ?sl" for j
    using that v new(2) by (cases "j = i") (simp_all add: occupied_def)
  have key: "sl_key (?sl' ! j) = (if j = i then k else sl_key (?sl ! j))" if "j < length ?sl" for j
    using that new(1) by (simp add: nth_list_update)
  have less: "pos ?sl q c < length ?sl" for q c by (rule pos_less [OF p(1)])
  have stays: "\<not> stops ?sl' q c" if "\<not> stops ?sl q c" for q c
  proof -
    have "occupied ?sl (pos ?sl q c)" "sl_key (?sl ! pos ?sl q c) \<noteq> q" using that by (simp_all add: stops_def)
    moreover have "k = sl_key (?sl ! i)" if "occupied ?sl i" using that i(3,4) by (simp add: stops_def)
    ultimately show ?thesis using occ [OF less] key [OF less] by (auto simp: stops_def pos)
  qed
  have reach: "reachable ?sl'"
    unfolding reachable_def
  proof (intro allI impI)
    fix j assume j: "j < length ?sl'" "occupied ?sl' j"
    show "\<exists>c. pos ?sl' (sl_key (?sl' ! j)) c = j \<and> (\<forall>d'<c. \<not> stops ?sl' (sl_key (?sl' ! j)) d')"
    proof (cases "j = i")
      case True
      then have "sl_key (?sl' ! j) = k" using i(2) key [of j] by simp
      then show ?thesis using True i(3,5) stays pos by (intro exI [of _ d]) simp
    next
      case False
      then have "occupied ?sl j" using j occ [of j] by simp
      then obtain c where "pos ?sl (sl_key (?sl ! j)) c = j" "\<forall>d'<c. \<not> stops ?sl (sl_key (?sl ! j)) d'"
        using p(2) j by (auto simp: reachable_def)
      then show ?thesis using False key [of j] j(1) stays pos by (intro exI [of _ c]) simp
    qed
  qed
  let ?t' = "t\<lparr>t_slots := ?sl', t_count := (if occupied ?sl i then t_count t else t_count t + 1)\<rparr>"
  have ins: "kai_impl_insert k v t = Some ?t'"
    using i(1) by (simp add: kai_impl_insert_def occupied_def)
  have "used ?sl' = Set.insert i (used ?sl)" using occ i(2) by (auto simp: used_def)
  then have "card (used ?sl') \<le> Suc (card (used ?sl))" by (simp add: card_insert_le_m1 card_insert_if)
  then have room: "room n ?t'" using r reach by (simp add: room_def t_cap_def power_sized_def)
  have "entries ?t' = (entries t)(k \<mapsto> v)"
  proof (rule map_upd_eqI)
    fix q w
    have iff: "entries ?t' q = Some w \<longleftrightarrow> (\<exists>j<length ?sl. occupied ?sl' j \<and> sl_key (?sl' ! j) = q \<and> sl_fn (?sl' ! j) = w)"
      using entries_iff [of ?t' q w] reach by simp
    show "entries ?t' q = Some w \<longleftrightarrow> (if q = k then w = v else entries t q = Some w)"
    proof (cases "q = k")
      case True
      have "occupied ?sl' i" "sl_key (?sl' ! i) = k" "sl_fn (?sl' ! i) = v" using i(2) occ key new by auto
      then have "entries ?t' k = Some v" using entries_Some [of ?t' i] reach i(2) by simp
      then show ?thesis using True by auto
    next
      case False
      have "occupied ?sl' j \<and> sl_key (?sl' ! j) = q \<and> sl_fn (?sl' ! j) = w
          \<longleftrightarrow> occupied ?sl j \<and> sl_key (?sl ! j) = q \<and> sl_fn (?sl ! j) = w" if "j < length ?sl" for j
        using that False occ key i(3,4) by (cases "j = i") (auto simp: stops_def)
      then show ?thesis using iff False entries_iff [OF p(2), of q w] by auto
    qed
  qed
  then show ?thesis using ins room by blast
qed

interpretation impl_map: bounded_map room entries 0 kai_lookup_impl kai_impl_insert
  using lookup_entries insert_entries by unfold_locales

section \<open>Registration\<close>

lemma cap_for_power: "cap = 2 ^ m \<Longrightarrow> \<exists>m'. cap_for n cap = 2 ^ m'"
proof (induction n cap arbitrary: m rule: cap_for.induct)
  case (1 n cap)
  show ?case
  proof (cases "0 < cap \<and> cap < n * 2")
    case True
    then have "cap_for n cap = cap_for n (cap * 2)" by (subst cap_for.simps) simp
    moreover have "\<exists>m'. cap_for n (cap * 2) = 2 ^ m'" using 1(1) [OF True, of "Suc m"] 1(2) by simp
    ultimately show ?thesis by simp
  next
    case False
    then show ?thesis using 1(2) by (subst cap_for.simps) auto
  qed
qed

lemma cap_for_ge: "0 < cap \<Longrightarrow> n * 2 \<le> cap_for n cap \<and> cap \<le> cap_for n cap"
proof (induction n cap rule: cap_for.induct)
  case (1 n cap)
  then show ?case by (subst (1 2) cap_for.simps) fastforce
qed

lemma cap_for_le: "0 < cap \<Longrightarrow> cap_for n cap \<le> max cap (4 * n)"
proof (induction n cap rule: cap_for.induct)
  case (1 n cap)
  show ?case
  proof (cases "cap < n * 2")
    case True
    then have "cap_for n cap = cap_for n (cap * 2)" using 1 by (subst cap_for.simps) simp
    moreover have "cap_for n (cap * 2) \<le> max (cap * 2) (4 * n)" using 1 True by simp
    ultimately show ?thesis using True by simp
  next
    case False
    then show ?thesis by (subst cap_for.simps) simp
  qed
qed

definition empty_table :: "nat \<Rightarrow> impl_table" where
  "empty_table n = \<lparr>t_slots = replicate (cap_for n 16) \<lparr>sl_key = (0, 0, 0), sl_fn = 0\<rparr>, t_count = 0\<rparr>"

lemma room_empty: "room n (empty_table n)"
proof -
  have "used (replicate c \<lparr>sl_key = (0, 0, 0), sl_fn = 0\<rparr>) = {}" for c by (auto simp: used_def occupied_def)
  moreover have "reachable (replicate c \<lparr>sl_key = (0, 0, 0), sl_fn = 0\<rparr>)" for c
    by (auto simp: reachable_def occupied_def)
  moreover have "power_sized (replicate (cap_for n 16) x)" for x
    using cap_for_power [of 16 4 n] by (simp add: power_sized_def)
  moreover have "n < cap_for n 16" using cap_for_ge [of 16 n] by simp
  ultimately show ?thesis by (simp add: room_def empty_table_def t_cap_def)
qed

lemma entries_empty: "entries (empty_table n) = Map.empty"
  by (simp add: entries_def empty_table_def)

lemma register_result:
  assumes "\<forall>(k, fn)\<in>set es. fn \<noteq> 0"
  shows "\<exists>t. kai_register_impls es = Some \<lparr>i_table = t, i_eq_heads = eq_heads es, i_eq_heads_len = eq_len es\<rparr>
    \<and> (\<forall>k. kai_lookup_impl t k = Some (case map_of (rev es) k of None \<Rightarrow> 0 | Some fn \<Rightarrow> fn))"
  using impl_map.lookup_inserts [OF room_empty assms entries_empty]
  by (auto simp: kai_register_impls_def empty_table_def)


text \<open>The flag bytes: set for the heads with an entry of the protocol \<open>Eq\<close>, all in bounds.\<close>

lemma fold_max_len:
  fixes es :: "impl_entry list"
  defines "f \<equiv> \<lambda>((proto, op, head), fn) n. if proto = KAI_PROTO_EQ \<and> head \<ge> n then head + 1 else n"
  shows "n \<le> fold f es n \<and> (\<forall>e\<in>set es. fst (fst e) = KAI_PROTO_EQ \<longrightarrow> snd (snd (fst e)) < fold f es n)"
proof (induction es arbitrary: n)
  case (Cons e es)
  have "n \<le> f e n" "fst (fst e) = KAI_PROTO_EQ \<Longrightarrow> snd (snd (fst e)) < f e n"
    by (auto simp: f_def split: prod.splits)
  then show ?case using Cons [of "f e n"] by (fastforce simp: f_def)
qed simp

lemma eq_len_bound: "(k, fn) \<in> set es \<Longrightarrow> fst k = KAI_PROTO_EQ \<Longrightarrow> snd (snd k) < eq_len es" "0 \<le> eq_len es"
  using fold_max_len [of 0 es] by (fastforce simp: eq_len_def)+

lemma eq_heads_fold:
  fixes es :: "impl_entry list"
  defines "f \<equiv> \<lambda>((proto, op, head), fn :: nat) hs. if proto = KAI_PROTO_EQ \<and> head \<ge> 0 then hs[nat head := True] else hs"
  assumes "\<forall>e\<in>set es. fst (fst e) = KAI_PROTO_EQ \<longrightarrow> snd (snd (fst e)) < int (length hs)"
  shows "length (fold f es hs) = length hs \<and> (\<forall>j<length hs. fold f es hs ! j \<longleftrightarrow>
    hs ! j \<or> (\<exists>op fn. ((KAI_PROTO_EQ, op, int j), fn) \<in> set es))"
  using assms(2)
proof (induction es arbitrary: hs)
  case (Cons e es)
  obtain proto op head fn where e: "e = ((proto, op, head), fn)" by (cases e) auto
  have len: "length (f e hs) = length hs" by (simp add: f_def e)
  have IH: "length (fold f es (f e hs)) = length hs \<and> (\<forall>j<length hs. fold f es (f e hs) ! j \<longleftrightarrow>
    f e hs ! j \<or> (\<exists>op fn. ((KAI_PROTO_EQ, op, int j), fn) \<in> set es))"
    using Cons.IH [of "f e hs"] Cons.prems len by simp
  have "f e hs ! j \<longleftrightarrow> hs ! j \<or> proto = KAI_PROTO_EQ \<and> head = int j" if "j < length hs" for j
    using that Cons.prems by (auto simp: f_def e nth_list_update)
  then show ?case using IH e by auto
qed simp

lemma eq_heads_nth:
  assumes "0 \<le> h" "h < eq_len es"
  shows "eq_heads es ! nat h \<longleftrightarrow> (\<exists>op fn. ((KAI_PROTO_EQ, op, h), fn) \<in> set es)"
proof -
  let ?hs = "replicate (nat (if eq_len es > 0 then eq_len es else 1)) False"
  have "\<forall>e\<in>set es. fst (fst e) = KAI_PROTO_EQ \<longrightarrow> snd (snd (fst e)) < int (length ?hs)"
    using eq_len_bound(1) [of _ _ es] by fastforce
  from eq_heads_fold [OF this] show ?thesis using assms by (simp add: eq_heads_def)
qed

text \<open>
  C17: After registration every lookup ends, and returns the function of the last entry with the
  key, or \<open>NULL\<close> when there is none: the hash table refines the association list of its entries.
\<close>

theorem kai_register_impls_lookup:
  assumes "\<forall>(k, fn)\<in>set es. fn \<noteq> 0"
  shows "\<exists>im. kai_register_impls es = Some im
    \<and> (\<forall>k. kai_lookup_impl (i_table im) k = Some (case map_of (rev es) k of None \<Rightarrow> 0 | Some fn \<Rightarrow> fn))"
  using register_result [OF assms] by auto

lemma kai_register_impls_lookup_witness:
  "\<exists>im. kai_register_impls [((1, 0, 5), 7), ((0, 0, 5), 8), ((1, 0, 5), 9)] = Some im
    \<and> kai_lookup_impl (i_table im) (1, 0, 5) = Some 9 \<and> kai_lookup_impl (i_table im) (2, 0, 5) = Some 0"
proof -
  let ?es = "[((1, 0, 5), 7), ((0, 0, 5), 8), ((1, 0, 5), 9)] :: impl_entry list"
  have "\<forall>(k, fn)\<in>set ?es. fn \<noteq> 0" by simp
  from kai_register_impls_lookup [OF this] show ?thesis by (fastforce split: option.splits)
qed

text \<open>
  The byte per head tag only saves probes: the structural comparison finds for a head what
  the table holds for its operation \<open>Eq.eq\<close>, and nothing for the tags of anonymous values.
\<close>

theorem kai_eq_impl_of_lookup:
  assumes "\<forall>(k, fn)\<in>set es. fn \<noteq> 0"
  shows "\<exists>im. kai_register_impls es = Some im
    \<and> (\<forall>h. kai_eq_impl_of im h = (if h \<le> 0 then Some 0 else kai_lookup_impl (i_table im) (KAI_PROTO_EQ, KAI_OP_EQ_EQ, h)))"
proof -
  obtain t where t: "kai_register_impls es = Some \<lparr>i_table = t, i_eq_heads = eq_heads es, i_eq_heads_len = eq_len es\<rparr>"
      "\<And>k. kai_lookup_impl t k = Some (case map_of (rev es) k of None \<Rightarrow> 0 | Some fn \<Rightarrow> fn)"
    using register_result [OF assms] by blast
  let ?im = "\<lparr>i_table = t, i_eq_heads = eq_heads es, i_eq_heads_len = eq_len es\<rparr>"
  have "kai_eq_impl_of ?im h = (if h \<le> 0 then Some 0 else kai_lookup_impl t (KAI_PROTO_EQ, KAI_OP_EQ_EQ, h))" for h
  proof (cases "map_of (rev es) (KAI_PROTO_EQ, KAI_OP_EQ_EQ, h)")
    case None
    then show ?thesis using t(2) by (simp add: kai_eq_impl_of_def)
  next
    case (Some fn)
    then have "((KAI_PROTO_EQ, KAI_OP_EQ_EQ, h), fn) \<in> set es" by (auto dest: map_of_SomeD)
    then have "h < eq_len es" "0 < h \<Longrightarrow> eq_heads es ! nat h"
      using eq_len_bound(1) [of "(KAI_PROTO_EQ, KAI_OP_EQ_EQ, h)" fn es] eq_heads_nth [of h es] by auto
    then show ?thesis by (simp add: kai_eq_impl_of_def)
  qed
  then show ?thesis using t(1) by auto
qed

lemma kai_eq_impl_of_lookup_witness:
  "\<exists>im. kai_register_impls [((1, 0, 5), 7), ((0, 0, 6), 8)] = Some im
    \<and> kai_eq_impl_of im 6 = kai_lookup_impl (i_table im) (1, 0, 6)"
proof -
  let ?es = "[((1, 0, 5), 7), ((0, 0, 6), 8)] :: impl_entry list"
  have "\<forall>(k, fn)\<in>set ?es. fn \<noteq> 0" by simp
  from kai_eq_impl_of_lookup [OF this] show ?thesis by (auto simp: KAI_PROTO_EQ_def KAI_OP_EQ_EQ_def)
qed

end
