(* ===== verification/Kai_Slots.thy ===== *)
theory Kai_Slots
  imports "HOL-Library.Word"
begin

unbundle bit_operations_syntax

text \<open>
  The slot masks of variants, \<^verbatim>\<open>stage2/runtime/types.h\<close> and \<^verbatim>\<open>heap.h\<close>: two bits per slot tell
  whether it holds a pointer, an integer, a double or the tag of a constructor without arguments. The
  mask of a constructor is kept in a table under its tag.
\<close>

definition KAI_VARIANT_TAG_SPACE :: nat where "KAI_VARIANT_TAG_SPACE = 65536"
definition KAI_SLOTMASK_RECORDED :: "64 word" where "KAI_SLOTMASK_RECORDED = push_bit 32 1"
definition KAI_VAR_SLOT_PTR :: "32 word" where "KAI_VAR_SLOT_PTR = 0"
definition KAI_VAR_SLOT_INT :: "32 word" where "KAI_VAR_SLOT_INT = 1"
definition KAI_VAR_SLOT_REAL :: "32 word" where "KAI_VAR_SLOT_REAL = 2"
definition KAI_VAR_SLOT_ENUM :: "32 word" where "KAI_VAR_SLOT_ENUM = 3"

definition kai_slot_mask_of :: "(nat \<Rightarrow> 64 word) \<Rightarrow> nat \<Rightarrow> 32 word" where
  "kai_slot_mask_of masks tag = (if tag < KAI_VARIANT_TAG_SPACE then ucast (masks tag) else 0)"

definition kai_var_slot_kind :: "32 word \<Rightarrow> nat \<Rightarrow> 32 word" where
  "kai_var_slot_kind m i = drop_bit (2 * i) m AND 3"

end
