(* ===== verification/Kai_Rc.thy ===== *)
theory Kai_Rc
  imports "HOL-Library.Multiset" "HOL-Library.Monad_Syntax" Kai_Slots
begin

unbundle bit_operations_syntax

text \<open>
  Reference counting and reclamation, \<^verbatim>\<open>stage2/runtime/alloc.h\<close>, \<^verbatim>\<open>ctors.h\<close> and the count
  classes of \<^verbatim>\<open>heap.h\<close>. A \<^verbatim>\<open>KaiValue *\<close> is null, an immediate or the address of a cell; a heap
  maps addresses to cells, and recycling a cell takes its address out of the map, so that a use
  after free or a second free is the result \<open>None\<close> of the operation. The blocks a cell owns (bytes,
  field array, captures, elements) are part of the cell. Cells of the scheduler (fibers, pids,
  continuations) are not modelled: their release runs scheduler code.
\<close>

section \<open>Values, cells and the heap\<close>

datatype kvalue = Null | Imm "64 word" | Ptr nat

datatype ktag = KAI_UNIT | KAI_BOOL | KAI_INT | KAI_REAL | KAI_CHAR | KAI_STR | KAI_NIL | KAI_CONS
  | KAI_RECORD | KAI_VARIANT | KAI_CLOSURE | KAI_ARRAY | KAI_REF | KAI_FIBER | KAI_PID | KAI_BYTE
  | KAI_INT32 | KAI_UINT32 | KAI_UINT64 | KAI_INT128 | KAI_FOREIGN | KAI_VEC | KAI_RANGE | KAI_CONT | KAI_SEQ

text \<open>A slot of a variant holds a value or a raw word, by the slot mask of its constructor.\<close>

datatype var_slot = Slot_ptr kvalue | Slot_raw "64 word"

datatype body =
    Scalar ktag
  | Str "8 word list"
  | Cons kvalue kvalue
  | Record "kvalue list"
  | Variant nat "var_slot list"
  | Closure "kvalue list"
  | Array "kvalue list"
  | Vec_boxed "kvalue list"
  | Vec_raw "8 word list"
  | Vec_view kvalue
  | Ref kvalue
  | Seq kvalue kvalue

fun tag_of :: "body \<Rightarrow> ktag" where
  "tag_of (Scalar t) = t"
| "tag_of (Str s) = KAI_STR"
| "tag_of (Cons car cdr) = KAI_CONS"
| "tag_of (Record fs) = KAI_RECORD"
| "tag_of (Variant t ss) = KAI_VARIANT"
| "tag_of (Closure cs) = KAI_CLOSURE"
| "tag_of (Array vs) = KAI_ARRAY"
| "tag_of (Vec_boxed vs) = KAI_VEC"
| "tag_of (Vec_raw bs) = KAI_VEC"
| "tag_of (Vec_view v) = KAI_VEC"
| "tag_of (Ref v) = KAI_REF"
| "tag_of (Seq s p) = KAI_SEQ"

record cell =
  c_rc :: int
  c_body :: body

text \<open>The stack of cells waiting to be reclaimed; the first item is the top. A capacity of 0 is a
  stack that was not yet set up.\<close>

record free_stack =
  fs_items :: "nat list"
  fs_cap :: nat
  fs_active :: bool

record heap =
  h_cells :: "nat \<Rightarrow> cell option"
  h_masks :: "nat \<Rightarrow> 64 word"
  h_stack :: free_stack

section \<open>Slot masks\<close>

definition kai_slotmask_register :: "nat \<Rightarrow> 32 word \<Rightarrow> heap \<Rightarrow> heap" where
  "kai_slotmask_register tag msk h =
     (if tag < KAI_VARIANT_TAG_SPACE \<and> h_masks h tag = 0
      then h\<lparr>h_masks := (h_masks h)(tag := KAI_SLOTMASK_RECORDED OR ucast msk)\<rparr> else h)"

text \<open>The values in the pointer slots. A raw word read as a pointer, and a shift by the width of the
  mask, have no meaning.\<close>

fun slot_values :: "32 word \<Rightarrow> nat \<Rightarrow> var_slot list \<Rightarrow> kvalue list option" where
  "slot_values m i [] = Some []"
| "slot_values m i (s # ss) =
     (if m \<noteq> 0 \<and> 16 \<le> i then None
      else if m \<noteq> 0 \<and> kai_var_slot_kind m i \<noteq> KAI_VAR_SLOT_PTR then slot_values m (Suc i) ss
      else case s of Slot_raw w \<Rightarrow> None | Slot_ptr v \<Rightarrow> map_option ((#) v) (slot_values m (Suc i) ss))"

section \<open>Counts\<close>

definition INT32_MAX :: int where "INT32_MAX = 0x7fffffff"
definition KAI_RC_SPECIAL :: int where "KAI_RC_SPECIAL = 0x40000000"
definition KAI_FREE_DEPTH :: nat where "KAI_FREE_DEPTH = 16"
definition KAI_FREE_STACK_LOCAL :: nat where "KAI_FREE_STACK_LOCAL = 64"

definition set_rc :: "nat \<Rightarrow> int \<Rightarrow> heap \<Rightarrow> heap" where
  "set_rc p r h = h\<lparr>h_cells := (h_cells h)(p := map_option (c_rc_update (\<lambda>_. r)) (h_cells h p))\<rparr>"

datatype incref_result = Overflow | Counted heap

definition kai_incref_special :: "nat \<Rightarrow> int \<Rightarrow> heap \<Rightarrow> incref_result" where
  "kai_incref_special p r h =
     (if r < KAI_RC_SPECIAL then Overflow
      else if INT32_MAX - 1 \<le> r then Overflow
      else Counted (set_rc p (r + 1) h))"

definition kai_incref :: "kvalue \<Rightarrow> heap \<Rightarrow> incref_result option" where
  "kai_incref v h =
     (case v of
        Ptr p \<Rightarrow> do {
          c \<leftarrow> h_cells h p;
          let r = c_rc c;
          Some (if r \<ge> KAI_RC_SPECIAL - 1
                then if r \<noteq> INT32_MAX then kai_incref_special p r h else Counted h
                else Counted (set_rc p (r + 1) h)) }
      | _ \<Rightarrow> Some (Counted h))"

definition kai_drop_atomic_hits_zero :: "nat \<Rightarrow> int \<Rightarrow> heap \<Rightarrow> bool \<times> heap" where
  "kai_drop_atomic_hits_zero p old h =
     (let h = set_rc p (old - 1) h
      in if old \<noteq> KAI_RC_SPECIAL + 1 then (False, h) else (True, set_rc p 0 h))"

definition kai_drop_hits_zero :: "kvalue \<Rightarrow> heap \<Rightarrow> (bool \<times> heap) option" where
  "kai_drop_hits_zero v h =
     (case v of
        Ptr p \<Rightarrow> do {
          c \<leftarrow> h_cells h p;
          let r = c_rc c;
          Some (if r \<ge> KAI_RC_SPECIAL
                then if r \<noteq> INT32_MAX then kai_drop_atomic_hits_zero p r h else (False, h)
                else (r = 1, set_rc p (r - 1) h)) }
      | _ \<Rightarrow> Some (False, h))"

section \<open>The free stack\<close>

definition kai_free_stack_grow :: "free_stack \<Rightarrow> free_stack" where
  "kai_free_stack_grow st = st\<lparr>fs_cap := fs_cap st * 2\<rparr>"

text \<open>A write past the capacity is \<open>None\<close>.\<close>

definition kai_free_stack_push :: "nat \<Rightarrow> free_stack \<Rightarrow> free_stack option" where
  "kai_free_stack_push v st =
     (let st = if length (fs_items st) = fs_cap st then kai_free_stack_grow st else st
      in if length (fs_items st) < fs_cap st then Some (st\<lparr>fs_items := v # fs_items st\<rparr>) else None)"

definition push_pending :: "nat \<Rightarrow> heap \<Rightarrow> heap option" where
  "push_pending v h = map_option (\<lambda>st. h\<lparr>h_stack := st\<rparr>) (kai_free_stack_push v (h_stack h))"

section \<open>Reclaiming a cell\<close>

definition recycle :: "nat \<Rightarrow> heap \<Rightarrow> heap" where
  "recycle v h = h\<lparr>h_cells := (h_cells h)(v := None)\<rparr>"

text \<open>One reference a dying cell held; \<open>free\<close> is what becomes of a child that reached 0.\<close>

definition kai_drop_child :: "(nat \<Rightarrow> heap \<Rightarrow> heap option) \<Rightarrow> kvalue \<Rightarrow> heap \<Rightarrow> heap option" where
  "kai_drop_child free v h = do {
     (zero, h) \<leftarrow> kai_drop_hits_zero v h;
     case v of Ptr p \<Rightarrow> if zero then free p h else Some h | _ \<Rightarrow> Some h }"

text \<open>A pointer slot of a variant: a variant child with a single owner is not counted down.\<close>

definition drop_slot :: "(nat \<Rightarrow> heap \<Rightarrow> heap option) \<Rightarrow> kvalue \<Rightarrow> heap \<Rightarrow> heap option" where
  "drop_slot free v h =
     (case v of
        Ptr p \<Rightarrow> do {
          c \<leftarrow> h_cells h p;
          if c_rc c = 1 \<and> tag_of (c_body c) = KAI_VARIANT then free p (set_rc p 0 h)
          else kai_drop_child free v h }
      | _ \<Rightarrow> kai_drop_child free v h)"

fun drop_all :: "(kvalue \<Rightarrow> heap \<Rightarrow> heap option) \<Rightarrow> kvalue list \<Rightarrow> heap \<Rightarrow> heap option" where
  "drop_all dec [] h = Some h"
| "drop_all dec (v # vs) h = do { h \<leftarrow> dec v h; drop_all dec vs h }"

text \<open>
  The mutually recursive release. \<open>st\<close> tells whether the pending children go to the stack. The first
  argument bounds the recursion; \<open>kai_decref\<close> gives as much as any heap needs.
\<close>

fun kai_free_child :: "nat \<Rightarrow> nat \<Rightarrow> bool \<Rightarrow> nat \<Rightarrow> heap \<Rightarrow> heap option"
  and kai_free_one :: "nat \<Rightarrow> nat \<Rightarrow> nat \<Rightarrow> bool \<Rightarrow> heap \<Rightarrow> heap option"
  and kai_free_drain :: "nat \<Rightarrow> nat \<Rightarrow> heap \<Rightarrow> heap option"
  and drain_loop :: "nat \<Rightarrow> heap \<Rightarrow> heap option" where
  "kai_free_child n depth st c h =
     (if st then push_pending c h
      else if depth < KAI_FREE_DEPTH then kai_free_one n c (depth + 1) False h
      else kai_free_drain n c h)"
| "kai_free_one 0 v depth st h = None"
| "kai_free_one (Suc n) v depth st h =
     (case h_cells h v of
        None \<Rightarrow> None
      | Some c \<Rightarrow>
          let dec = kai_drop_child (\<lambda>c h. kai_free_child n depth st c h);
              slot = drop_slot (\<lambda>c h. kai_free_child n depth st c h);
              all = (\<lambda>vs. map_option (recycle v) (drop_all dec vs h))
          in case c_body c of
               Cons car cdr \<Rightarrow> do {
                 h \<leftarrow> dec car h;
                 (zero, h) \<leftarrow> kai_drop_hits_zero cdr h;
                 let h = recycle v h;
                 case cdr of Ptr t \<Rightarrow> if zero then kai_free_one n t depth st h else Some h | _ \<Rightarrow> Some h }
             | Record fs \<Rightarrow> all fs
             | Variant t ss \<Rightarrow> do {
                 vs \<leftarrow> slot_values (kai_slot_mask_of (h_masks h) t) 0 ss;
                 map_option (recycle v) (drop_all slot vs h) }
             | Closure cs \<Rightarrow> all cs
             | Array vs \<Rightarrow> all vs
             | Vec_boxed vs \<Rightarrow> all vs
             | Vec_view w \<Rightarrow> all [w]
             | Ref w \<Rightarrow> all [w]
             | Seq s p \<Rightarrow> all [s, p]
             | Scalar t \<Rightarrow> all []
             | Str s \<Rightarrow> all []
             | Vec_raw bs \<Rightarrow> all [])"
| "kai_free_drain n v h =
     (let st = h_stack h
      in if fs_active st then push_pending v h
         else let cap = (if fs_cap st = 0 then KAI_FREE_STACK_LOCAL else fs_cap st);
                  st = st\<lparr>fs_cap := cap, fs_active := True, fs_items := v # fs_items st\<rparr>
              in map_option (\<lambda>h. h\<lparr>h_stack := (h_stack h)\<lparr>fs_active := False, fs_cap := KAI_FREE_STACK_LOCAL\<rparr>\<rparr>)
                   (drain_loop n (h\<lparr>h_stack := st\<rparr>)))"
| "drain_loop 0 h = None"
| "drain_loop (Suc n) h =
     (case fs_items (h_stack h) of
        [] \<Rightarrow> Some h
      | v # vs \<Rightarrow> do {
          h \<leftarrow> kai_free_one n v 0 True (h\<lparr>h_stack := (h_stack h)\<lparr>fs_items := vs\<rparr>\<rparr>);
          drain_loop n h })"

text \<open>The number of cells with a count and of cells on the stack bounds the work that is left.\<close>

definition work :: "heap \<Rightarrow> nat" where
  "work h = card {p. \<exists>c. h_cells h p = Some c \<and> c_rc c \<noteq> 0} + length (fs_items (h_stack h))"

definition kai_decref :: "nat \<Rightarrow> kvalue \<Rightarrow> heap \<Rightarrow> heap option" where
  "kai_decref n v h = do {
     (zero, h) \<leftarrow> kai_drop_hits_zero v h;
     case v of Ptr p \<Rightarrow> if zero then kai_free_one n p 0 False h else Some h | _ \<Rightarrow> Some h }"

text \<open>A fresh cell; \<open>p\<close> is the address the allocator hands out.\<close>

definition kai_alloc :: "nat \<Rightarrow> body \<Rightarrow> heap \<Rightarrow> heap" where
  "kai_alloc p b h = h\<lparr>h_cells := (h_cells h)(p \<mapsto> \<lparr>c_rc = 1, c_body = b\<rparr>)\<rparr>"

definition kai_cons :: "nat \<Rightarrow> kvalue \<Rightarrow> kvalue \<Rightarrow> heap \<Rightarrow> heap" where
  "kai_cons p car cdr h = kai_alloc p (Cons car cdr) h"

end
