(* ===== verification/Kai_Rc_Safe.thy ===== *)
theory Kai_Rc_Safe
  imports Kai_Rc
begin

text \<open>
  The counting invariant of the heap and what dropping a reference does to it: it ends, it never
  meets a cell that is gone, it leaves every count equal to the number of references, and it takes
  away exactly the cells without one.
\<close>

section \<open>References\<close>

text \<open>The values a cell owns.\<close>

fun owned :: "(nat \<Rightarrow> 64 word) \<Rightarrow> body \<Rightarrow> kvalue list option" where
  "owned masks (Cons car cdr) = Some [car, cdr]"
| "owned masks (Record fs) = Some fs"
| "owned masks (Variant t ss) = slot_values (kai_slot_mask_of masks t) 0 ss"
| "owned masks (Closure cs) = Some cs"
| "owned masks (Array vs) = Some vs"
| "owned masks (Vec_boxed vs) = Some vs"
| "owned masks (Vec_view v) = Some [v]"
| "owned masks (Ref v) = Some [v]"
| "owned masks (Seq s p) = Some [s, p]"
| "owned masks (Scalar t) = Some []"
| "owned masks (Str s) = Some []"
| "owned masks (Vec_raw bs) = Some []"

fun addr_of :: "kvalue \<Rightarrow> nat list" where
  "addr_of (Ptr p) = [p]"
| "addr_of Null = []"
| "addr_of (Imm w) = []"

definition addrs :: "kvalue list \<Rightarrow> nat multiset" where
  "addrs vs = mset (concat (map addr_of vs))"

lemma addrs_simps [simp]:
  "addrs [] = {#}" "addrs (v # vs) = mset (addr_of v) + addrs vs"
  by (simp_all add: addrs_def)

definition kids :: "heap \<Rightarrow> nat \<Rightarrow> nat multiset" where
  "kids h p = (case h_cells h p of None \<Rightarrow> {#} | Some c \<Rightarrow> addrs (the (owned (h_masks h) (c_body c))))"

definition refs :: "heap \<Rightarrow> nat set \<Rightarrow> nat multiset" where
  "refs h A = (\<Sum>p\<in>A. kids h p)"

definition immortal :: "cell \<Rightarrow> bool" where
  "immortal c \<longleftrightarrow> c_rc c = INT32_MAX"

text \<open>The number of owners a count stands for: plain below \<open>KAI_RC_SPECIAL\<close>, atomic above.\<close>

definition owners :: "cell \<Rightarrow> int" where
  "owners c = (if KAI_RC_SPECIAL \<le> c_rc c then c_rc c - KAI_RC_SPECIAL else c_rc c)"

text \<open>
  The counts of a heap with references \<open>R\<close> from outside. \<open>Z\<close> are the cells at 0, not yet recycled;
  those of \<open>G\<close> are being taken apart, their references are in \<open>R\<close>.
\<close>

definition counted :: "nat set \<Rightarrow> nat set \<Rightarrow> nat multiset \<Rightarrow> heap \<Rightarrow> bool" where
  "counted G Z R h \<longleftrightarrow>
     finite (dom (h_cells h)) \<and> G \<subseteq> Z \<and> Z \<subseteq> dom (h_cells h)
   \<and> (\<forall>p c. h_cells h p = Some c \<longrightarrow>
        owned (h_masks h) (c_body c) \<noteq> None \<and> (c_rc c = 0 \<longleftrightarrow> p \<in> Z)
      \<and> c_rc c \<noteq> KAI_RC_SPECIAL \<and> c_rc c \<le> INT32_MAX
      \<and> (\<not> immortal c \<longrightarrow> owners c = int (count (refs h (dom (h_cells h) - G) + R) p)))
   \<and> set_mset (refs h (dom (h_cells h) - G) + R) \<subseteq> dom (h_cells h)"

definition live :: "heap \<Rightarrow> nat" where
  "live h = card {p. \<exists>c. h_cells h p = Some c \<and> c_rc c \<noteq> 0}"

abbreviation stk :: "heap \<Rightarrow> nat list" where "stk h \<equiv> fs_items (h_stack h)"

text \<open>No cell appears or changes its contents.\<close>

definition shrinks :: "heap \<Rightarrow> heap \<Rightarrow> bool" where
  "shrinks h h' \<longleftrightarrow> h_masks h' = h_masks h
     \<and> (\<forall>p c'. h_cells h' p = Some c' \<longrightarrow> (\<exists>c. h_cells h p = Some c \<and> c_body c' = c_body c
          \<and> (immortal c \<or> immortal c' \<longrightarrow> c' = c)))
     \<and> (\<forall>p c. h_cells h p = Some c \<and> immortal c \<longrightarrow> h_cells h' p = Some c)"

lemma shrinks_refl [simp]: "shrinks h h"
  by (simp add: shrinks_def)

lemma shrinksD:
  assumes "shrinks h h'" "h_cells h' p = Some c'"
  obtains c where "h_cells h p = Some c" "c_body c' = c_body c" "immortal c \<or> immortal c' \<Longrightarrow> c' = c"
  using assms unfolding shrinks_def by blast

lemma shrinks_kids:
  assumes "shrinks h h'" "h_cells h' p = Some c'"
  shows "kids h' p = kids h p"
proof -
  obtain c where "h_cells h p = Some c" "c_body c' = c_body c" using shrinksD [OF assms] by metis
  then show ?thesis using assms by (simp add: kids_def shrinks_def)
qed

lemma shrinks_trans [trans]:
  assumes a: "shrinks h1 h2" and b: "shrinks h2 h3"
  shows "shrinks h1 h3"
proof -
  have "\<exists>c. h_cells h1 p = Some c \<and> c_body c3 = c_body c \<and> (immortal c \<or> immortal c3 \<longrightarrow> c3 = c)" if c3: "h_cells h3 p = Some c3" for p c3
  proof -
    obtain c2 where c2: "h_cells h2 p = Some c2" "c_body c3 = c_body c2" "immortal c2 \<or> immortal c3 \<Longrightarrow> c3 = c2"
      using shrinksD [OF b c3] by blast
    obtain c1 where "h_cells h1 p = Some c1" "c_body c2 = c_body c1" "immortal c1 \<or> immortal c2 \<Longrightarrow> c2 = c1"
      using shrinksD [OF a c2(1)] by blast
    then show ?thesis using c2 by auto
  qed
  then show ?thesis using a b unfolding shrinks_def by simp
qed

section \<open>Single steps\<close>

lemma set_rc_simps [simp]:
  "h_masks (set_rc p r h) = h_masks h" "h_stack (set_rc p r h) = h_stack h"
  "dom (h_cells (set_rc p r h)) = dom (h_cells h)"
  by (auto simp: set_rc_def split: if_splits)

lemma set_rc_cells:
  "h_cells (set_rc p r h) q = (if q = p then map_option (c_rc_update (\<lambda>_. r)) (h_cells h p) else h_cells h q)"
  by (simp add: set_rc_def)

lemma set_rc_twice [simp]: "set_rc p r (set_rc p r' h) = set_rc p r h"
  by (cases "h_cells h p") (simp_all add: set_rc_def)

lemma set_rc_kids [simp]: "kids (set_rc p r h) q = kids h q"
  by (auto simp: kids_def set_rc_cells split: option.splits)

lemma set_rc_refs [simp]: "refs (set_rc p r h) A = refs h A"
  by (simp add: refs_def)

lemma stack_kids [simp]:
  "kids (h\<lparr>h_stack := st\<rparr>) = kids h" "refs (h\<lparr>h_stack := st\<rparr>) = refs h" "live (h\<lparr>h_stack := st\<rparr>) = live h"
  by (simp_all add: kids_def refs_def live_def fun_eq_iff cong: option.case_cong)

lemma counted_stack [simp]: "counted G Z R (h\<lparr>h_stack := st\<rparr>) = counted G Z R h"
  by (simp add: counted_def)

lemma shrinks_stack [simp]:
  "shrinks (h\<lparr>h_stack := st\<rparr>) h' = shrinks h h'" "shrinks h (h'\<lparr>h_stack := st\<rparr>) = shrinks h h'"
  by (simp_all add: shrinks_def)

lemma live_drop:
  assumes "finite (dom (h_cells h))" "h_cells h p = Some c" "c_rc c \<noteq> 0"
  shows "live h = Suc (live (set_rc p 0 h))" "r \<noteq> 0 \<Longrightarrow> live (set_rc p r h) = live h"
proof -
  let ?A = "{p. \<exists>c. h_cells h p = Some c \<and> c_rc c \<noteq> 0}"
  have fin: "finite ?A" by (rule finite_subset [OF _ assms(1)]) auto
  have "{q. \<exists>c. h_cells (set_rc p 0 h) q = Some c \<and> c_rc c \<noteq> 0} = ?A - {p}" by (auto simp: set_rc_cells)
  then show "live h = Suc (live (set_rc p 0 h))"
    using assms(2,3) fin card_Suc_Diff1 [of ?A p] by (simp add: live_def)
  assume "r \<noteq> 0"
  then have "{q. \<exists>c. h_cells (set_rc p r h) q = Some c \<and> c_rc c \<noteq> 0} = ?A"
    using assms(2,3) by (auto simp: set_rc_cells split: if_splits)
  then show "live (set_rc p r h) = live h" by (simp add: live_def)
qed

lemma special_facts [simp]:
  "0 < KAI_RC_SPECIAL" "KAI_RC_SPECIAL < INT32_MAX" "0 < INT32_MAX" "1 < KAI_RC_SPECIAL" "KAI_RC_SPECIAL + 1 < INT32_MAX"
  "\<not> KAI_RC_SPECIAL \<le> 0" "\<not> KAI_RC_SPECIAL \<le> 1" "KAI_RC_SPECIAL \<le> INT32_MAX" "KAI_RC_SPECIAL \<noteq> 0" "INT32_MAX \<noteq> 0" "INT32_MAX \<noteq> 1"
  by (simp_all add: KAI_RC_SPECIAL_def INT32_MAX_def)

text \<open>Giving a cell the count that fits one reference less.\<close>

lemma counted_set_rc:
  assumes C: "counted G Z (R + {#p#}) h" and c: "h_cells h p = Some c" "\<not> immortal c"
    and r: "\<not> immortal (c\<lparr>c_rc := r\<rparr>)" "owners (c\<lparr>c_rc := r\<rparr>) = owners c - 1" "r \<noteq> KAI_RC_SPECIAL" "r \<le> INT32_MAX"
  shows "counted G (if r = 0 then insert p Z else Z) R (set_rc p r h)" "p \<notin> Z"
proof -
  have own: "owners c = int (count (refs h (dom (h_cells h) - G) + R) p) + 1"
    using C c by (auto simp: counted_def)
  then have "owners c \<noteq> 0" by linarith
  then have "c_rc c \<noteq> 0" by (auto simp: owners_def)
  then show "p \<notin> Z" using C c by (auto simp: counted_def)
  then have "p \<notin> G" using C by (auto simp: counted_def)
  show "counted G (if r = 0 then insert p Z else Z) R (set_rc p r h)"
    using C c(1) r own \<open>p \<notin> Z\<close> \<open>p \<notin> G\<close>
    unfolding counted_def set_rc_simps set_rc_refs
    apply (intro conjI allI impI)
    subgoal by simp
    subgoal by auto
    subgoal by auto
    subgoal by (auto simp: set_rc_cells split: if_splits)
    subgoal by (auto simp: set_rc_cells split: if_splits)
    subgoal by (auto simp: set_rc_cells split: if_splits)
    subgoal by (auto simp: set_rc_cells split: if_splits)
    subgoal for q d by (cases "q = p") (auto simp: set_rc_cells immortal_def owners_def split: if_splits)
    subgoal by auto
    done
qed

lemma counted_immortal:
  assumes "counted G Z (R + {#p#}) h" "h_cells h p = Some c" "immortal c"
  shows "counted G Z R h"
  using assms unfolding counted_def
  by (auto split: if_splits)

text \<open>A value dropped.\<close>

lemma drop_hits_zero_spec:
  assumes C: "counted G Z (R + mset (addr_of v)) h"
  shows "\<exists>z h'. kai_drop_hits_zero v h = Some (z, h') \<and> shrinks h h' \<and> h_stack h' = h_stack h
    \<and> (if z then \<exists>p. v = Ptr p \<and> p \<notin> Z \<and> counted G (insert p Z) R h' \<and> live h = Suc (live h')
         \<and> h' = set_rc p 0 h
       else counted G Z R h' \<and> live h' = live h)"
proof (cases v)
  case (Ptr p)
  then have "p \<in> dom (h_cells h)" using C by (auto simp: counted_def)
  then obtain c where c: "h_cells h p = Some c" by blast
  have fin: "finite (dom (h_cells h))" using C by (simp add: counted_def)
  have shr: "shrinks h (set_rc p r h)" if "\<not> immortal c" "\<not> immortal (c\<lparr>c_rc := r\<rparr>)" for r
    using c that by (auto simp: shrinks_def set_rc_cells split: if_splits)
  show ?thesis
  proof (cases "immortal c")
    case True
    then show ?thesis using counted_immortal [of G Z R p h c] C c Ptr
      by (intro exI [of _ False] exI [of _ h]) (simp add: kai_drop_hits_zero_def immortal_def)
  next
    case mortal: False
    let ?r = "if c_rc c = KAI_RC_SPECIAL + 1 then 0 else c_rc c - 1"
    have own: "owners c = int (count (refs h (dom (h_cells h) - G) + R) p) + 1" "c_rc c \<noteq> KAI_RC_SPECIAL" "c_rc c \<le> INT32_MAX"
      using C c mortal Ptr by (auto simp: counted_def)
    then have pos: "0 < owners c" by linarith
    have r: "\<not> immortal (c\<lparr>c_rc := ?r\<rparr>)" "owners (c\<lparr>c_rc := ?r\<rparr>) = owners c - 1" "?r \<noteq> KAI_RC_SPECIAL" "?r \<le> INT32_MAX"
      using pos own(2,3) mortal by (auto simp: immortal_def owners_def KAI_RC_SPECIAL_def INT32_MAX_def split: if_splits)
    have zero: "?r = 0 \<longleftrightarrow> c_rc c = 1 \<or> c_rc c = KAI_RC_SPECIAL + 1" by (simp add: KAI_RC_SPECIAL_def)
    have "kai_drop_hits_zero v h = Some (?r = 0, set_rc p ?r h)"
      using c mortal own(2) Ptr
      by (auto simp: kai_drop_hits_zero_def kai_drop_atomic_hits_zero_def Let_def immortal_def KAI_RC_SPECIAL_def)
    moreover have "counted G (if ?r = 0 then insert p Z else Z) R (set_rc p ?r h)" "p \<notin> Z"
      using counted_set_rc [OF _ c mortal r, of G Z R] C Ptr by simp_all
    moreover have "c_rc c \<noteq> 0" using pos by (auto simp: owners_def)
    ultimately have H: "kai_drop_hits_zero v h = Some (?r = 0, set_rc p ?r h)"
        "counted G (if ?r = 0 then insert p Z else Z) R (set_rc p ?r h)" "p \<notin> Z" "c_rc c \<noteq> 0" by auto
    show ?thesis
    proof (cases "?r = 0")
      case True
      then show ?thesis
        using H live_drop(1) [OF fin c] shr [OF mortal, of 0] r(1) Ptr
        by (intro exI [of _ True] exI [of _ "set_rc p 0 h"]) (simp only: if_True set_rc_simps, simp)
    next
      case False
      then show ?thesis
        using H live_drop(2) [OF fin c _ False] shr [OF mortal r(1)]
        by (intro exI [of _ False] exI [of _ "set_rc p ?r h"]) (simp only: if_False set_rc_simps simp_thms)
    qed
  qed
next
  case Null
  then show ?thesis using C by (intro exI [of _ False] exI [of _ h]) (simp add: kai_drop_hits_zero_def)
next
  case (Imm w)
  then show ?thesis using C by (intro exI [of _ False] exI [of _ h]) (simp add: kai_drop_hits_zero_def)
qed


text \<open>A cell at 0 taken apart: what it owned is in hand.\<close>

lemma counted_open:
  assumes "counted G Z R h" "v \<in> Z" "v \<notin> G"
  shows "counted (insert v G) Z (R + kids h v) h"
proof -
  have D: "finite (dom (h_cells h))" "v \<in> dom (h_cells h)" using assms by (auto simp: counted_def)
  have "dom (h_cells h) - insert v G = (dom (h_cells h) - G) - {v}" by auto
  then have "refs h (dom (h_cells h) - G) = kids h v + refs h (dom (h_cells h) - insert v G)"
    using D assms(3) by (simp add: refs_def sum.remove [of _ v])
  then have "refs h (dom (h_cells h) - G) + R = refs h (dom (h_cells h) - insert v G) + (R + kids h v)"
    by (simp add: ac_simps)
  then show ?thesis using assms unfolding counted_def by simp
qed

text \<open>The cell itself given back.\<close>

lemma recycle_simps [simp]:
  "h_masks (recycle v h) = h_masks h" "h_stack (recycle v h) = h_stack h"
  "dom (h_cells (recycle v h)) = dom (h_cells h) - {v}"
  by (auto simp: recycle_def split: if_splits)

lemma recycle_kids: "q \<noteq> v \<Longrightarrow> kids (recycle v h) q = kids h q"
  by (simp add: kids_def recycle_def cong: option.case_cong)

lemma counted_recycle:
  assumes C: "counted (insert v G) Z R h" and v: "v \<notin> G"
  shows "counted G (Z - {v}) R (recycle v h)" "live (recycle v h) = live h"
    "\<exists>c. h_cells h v = Some c \<and> \<not> immortal c \<and> c_rc c = 0" "shrinks h (recycle v h)"
proof -
  have vZ: "v \<in> Z" using C by (auto simp: counted_def)
  then obtain c where c: "h_cells h v = Some c" using C by (auto simp: counted_def)
  then have rc: "c_rc c = 0" using C vZ by (auto simp: counted_def)
  then have rc: "c_rc c = 0" "\<not> immortal c" by (simp_all add: immortal_def)
  then show ex: "\<exists>c. h_cells h v = Some c \<and> \<not> immortal c \<and> c_rc c = 0" using c by blast
  have "owners c = 0" using rc by (simp add: owners_def)
  then have none: "v \<notin># refs h (dom (h_cells h) - insert v G) + R"
    using C c rc by (auto simp: counted_def not_in_iff)
  have eq: "refs (recycle v h) (dom (h_cells h) - {v} - G) = refs h (dom (h_cells h) - insert v G)"
    unfolding refs_def by (rule sum.cong) (auto simp: recycle_kids)
  show "live (recycle v h) = live h"
    using c rc by (auto simp: live_def recycle_def intro!: arg_cong [where f = card])
  show "shrinks h (recycle v h)"
    using c rc by (auto simp: shrinks_def recycle_def)
  show "counted G (Z - {v}) R (recycle v h)"
    unfolding counted_def recycle_simps eq
    apply (intro conjI)
    subgoal using C by (simp add: counted_def)
    subgoal using C v by (auto simp: counted_def)
    subgoal using C by (auto simp: counted_def)
    subgoal using C by (auto simp: counted_def recycle_def)
    subgoal using C none by (auto simp: counted_def)
    done
qed


section \<open>Releasing\<close>

definition stack_ok :: "bool \<Rightarrow> nat set \<Rightarrow> heap \<Rightarrow> bool" where
  "stack_ok st G h \<longleftrightarrow> fs_active (h_stack h) = st
     \<and> (if st then distinct (stk h) \<and> set (stk h) \<inter> G = {} \<and> length (stk h) \<le> fs_cap (h_stack h)
          \<and> 0 < fs_cap (h_stack h)
        else stk h = [])"

text \<open>The state a step leaves: the cells at 0 are those being taken apart and those on the stack.\<close>

definition settled :: "bool \<Rightarrow> nat set \<Rightarrow> nat multiset \<Rightarrow> nat \<Rightarrow> heap \<Rightarrow> heap \<Rightarrow> bool" where
  "settled st G R b h h' \<longleftrightarrow> counted G (G \<union> set (stk h')) R h' \<and> stack_ok st G h' \<and> work h' \<le> b \<and> shrinks h h'"

definition frees :: "(nat \<Rightarrow> heap \<Rightarrow> heap option) \<Rightarrow> bool \<Rightarrow> nat set \<Rightarrow> nat \<Rightarrow> bool" where
  "frees f st G m \<longleftrightarrow> (\<forall>c R h. counted G (insert c (G \<union> set (stk h))) R h \<and> c \<notin> G \<and> c \<notin> set (stk h)
     \<and> stack_ok st G h \<and> work h < m \<longrightarrow> (\<exists>h'. f c h = Some h' \<and> settled st G R (Suc (work h)) h h'))"

definition drops :: "(kvalue \<Rightarrow> heap \<Rightarrow> heap option) \<Rightarrow> bool \<Rightarrow> nat set \<Rightarrow> nat \<Rightarrow> bool" where
  "drops f st G m \<longleftrightarrow> (\<forall>v R h. counted G (G \<union> set (stk h)) (R + mset (addr_of v)) h \<and> stack_ok st G h \<and> work h \<le> m
     \<longrightarrow> (\<exists>h'. f v h = Some h' \<and> settled st G R (work h) h h'))"

lemma freesD:
  "frees f st G m \<Longrightarrow> counted G (insert c (G \<union> set (stk h))) R h \<Longrightarrow> c \<notin> G \<union> set (stk h) \<Longrightarrow> stack_ok st G h \<Longrightarrow> work h < m
    \<Longrightarrow> \<exists>h'. f c h = Some h' \<and> settled st G R (Suc (work h)) h h'"
  by (simp add: frees_def)

lemma dropsD:
  "drops f st G m \<Longrightarrow> counted G (G \<union> set (stk h)) (R + mset (addr_of v)) h \<Longrightarrow> stack_ok st G h \<Longrightarrow> work h \<le> m
    \<Longrightarrow> \<exists>h'. f v h = Some h' \<and> settled st G R (work h) h h'"
  by (simp add: drops_def)

lemma work_live: "work h = live h + length (stk h)"
  by (simp add: work_def live_def)

lemma settled_trans:
  assumes "settled st G R b h h'" "settled st G' R' b' h' h''" "b' \<le> work h'"
  shows "settled st G' R' b h h''"
  using assms shrinks_trans unfolding settled_def by (blast intro: order_trans)

lemma kai_drop_child_drops:
  assumes F: "frees f st G m"
  shows "drops (kai_drop_child f) st G m"
  unfolding drops_def
proof (intro allI impI)
  fix v R h
  assume A: "counted G (G \<union> set (stk h)) (R + mset (addr_of v)) h \<and> stack_ok st G h \<and> work h \<le> m"
  then obtain z h1 where d: "kai_drop_hits_zero v h = Some (z, h1)" "shrinks h h1" "h_stack h1 = h_stack h"
      "if z then \<exists>p. v = Ptr p \<and> p \<notin> G \<union> set (stk h) \<and> counted G (insert p (G \<union> set (stk h))) R h1 \<and> live h = Suc (live h1)
         \<and> h1 = set_rc p 0 h
       else counted G (G \<union> set (stk h)) R h1 \<and> live h1 = live h"
    using drop_hits_zero_spec [of G "G \<union> set (stk h)" R v h] by blast
  have ok: "stack_ok st G h1" using A d(3) by (simp add: stack_ok_def)
  show "\<exists>h'. kai_drop_child f v h = Some h' \<and> settled st G R (work h) h h'"
  proof (cases z)
    case True
    then obtain p where p: "v = Ptr p" "p \<notin> G \<union> set (stk h1)" "counted G (insert p (G \<union> set (stk h1))) R h1" "live h = Suc (live h1)"
      using d by auto
    then have "work h = Suc (work h1)" using d(3) by (simp add: work_live)
    then obtain h' where h': "f p h1 = Some h'" "settled st G R (work h) h1 h'"
      using freesD [OF F p(3) _ ok] p(2) A by auto
    then have "settled st G R (work h) h h'" using d(2) shrinks_trans by (auto simp: settled_def)
    then show ?thesis using d(1) p(1) True h'(1) by (simp add: kai_drop_child_def)
  next
    case False
    then have "settled st G R (work h) h h1" using d ok by (simp add: settled_def work_live)
    then show ?thesis using d(1) False by (auto simp: kai_drop_child_def split: kvalue.splits)
  qed
qed

lemma drop_slot_eq:
  assumes "counted G Z (R + mset (addr_of v)) h"
  shows "drop_slot f v h = kai_drop_child f v h"
proof (cases v)
  case (Ptr p)
  then obtain c where c: "h_cells h p = Some c" using assms by (auto simp: counted_def)
  show ?thesis
  proof (cases "c_rc c = 1")
    case True
    then show ?thesis
      using c Ptr by (simp add: drop_slot_def kai_drop_child_def kai_drop_hits_zero_def)
  qed (use c Ptr in \<open>simp add: drop_slot_def\<close>)
qed (simp_all add: drop_slot_def)

lemma drop_slot_drops:
  assumes "frees f st G m"
  shows "drops (drop_slot f) st G m"
  using kai_drop_child_drops [OF assms] drop_slot_eq unfolding drops_def by metis

lemma drop_all_settled:
  assumes D: "drops dec st G m"
  shows "counted G (G \<union> set (stk h)) (R + addrs vs) h \<Longrightarrow> stack_ok st G h \<Longrightarrow> work h \<le> m
    \<Longrightarrow> \<exists>h'. drop_all dec vs h = Some h' \<and> settled st G R (work h) h h'"
proof (induction vs arbitrary: h)
  case (Cons v vs)
  then have "counted G (G \<union> set (stk h)) ((R + addrs vs) + mset (addr_of v)) h" by (simp add: ac_simps)
  then obtain h1 where h1: "dec v h = Some h1" "settled st G (R + addrs vs) (work h) h h1"
    using D Cons.prems unfolding drops_def by blast
  then have "counted G (G \<union> set (stk h1)) (R + addrs vs) h1" "stack_ok st G h1" "work h1 \<le> m"
    using Cons.prems(3) by (auto simp: settled_def)
  from Cons.IH [OF this] obtain h' where "drop_all dec vs h1 = Some h'" "settled st G R (work h1) h1 h'" by blast
  then show ?case using h1 settled_trans by fastforce
qed (simp add: settled_def)


lemma push_pending_settled:
  assumes "counted G (insert c (G \<union> set (stk h))) R h" "c \<notin> G \<union> set (stk h)" "stack_ok True G h"
  shows "\<exists>h'. push_pending c h = Some h' \<and> settled True G R (Suc (work h)) h h'"
proof -
  let ?st = "if length (stk h) = fs_cap (h_stack h) then kai_free_stack_grow (h_stack h) else h_stack h"
  have "push_pending c h = Some (h\<lparr>h_stack := ?st\<lparr>fs_items := c # stk h\<rparr>\<rparr>)"
    using assms(3) by (auto simp: push_pending_def kai_free_stack_push_def kai_free_stack_grow_def stack_ok_def Let_def)
  moreover have "stack_ok True G (h\<lparr>h_stack := ?st\<lparr>fs_items := c # stk h\<rparr>\<rparr>)"
    using assms(2,3) by (auto simp: stack_ok_def kai_free_stack_grow_def)
  ultimately show ?thesis using assms(1) by (simp add: settled_def work_live)
qed

text \<open>What is left to do once the references of \<open>v\<close> are dropped.\<close>

lemma settled_recycle:
  assumes "settled st (insert v G) R b h h'" "v \<notin> G"
  shows "settled st G R b h (recycle v h')"
proof -
  have C: "counted (insert v G) (insert v G \<union> set (stk h')) R h'" "stack_ok st (insert v G) h'" "work h' \<le> b" "shrinks h h'"
    using assms(1) by (simp_all add: settled_def)
  have "v \<notin> set (stk h')" using C(2) by (auto simp: stack_ok_def split: if_splits)
  then have "insert v G \<union> set (stk h') - {v} = G \<union> set (stk h')" using assms(2) by auto
  then have "counted G (G \<union> set (stk h')) R (recycle v h')" using counted_recycle(1) [OF C(1) assms(2)] by simp
  moreover have "stack_ok st G (recycle v h')" using C(2) by (auto simp: stack_ok_def split: if_splits)
  ultimately show ?thesis
    using C(3,4) counted_recycle(2,4) [OF C(1) assms(2)] shrinks_trans by (simp add: settled_def work_live)
qed

lemma drop_all_recycle:
  assumes D: "drops dec st (insert v G) (work h)" and v: "v \<notin> G" "v \<notin> set (stk h)"
    and C: "counted G (insert v (G \<union> set (stk h))) R h" and ok: "stack_ok st G h"
    and vs: "kids h v = addrs vs"
  shows "\<exists>h'. map_option (recycle v) (drop_all dec vs h) = Some h' \<and> settled st G R (work h) h h'"
proof -
  have "counted (insert v G) (insert v G \<union> set (stk h)) (R + addrs vs) h"
    using counted_open [OF C _ v(1)] vs by simp
  moreover have "stack_ok st (insert v G) h" using ok v(2) by (auto simp: stack_ok_def split: if_splits)
  ultimately obtain h' where "drop_all dec vs h = Some h'" "settled st (insert v G) R (work h) h h'"
    using drop_all_settled [OF D] by blast
  then show ?thesis using settled_recycle [OF _ v(1)] by auto
qed

lemma free_child_frees:
  assumes one: "\<And>G v R h depth. counted G (insert v (G \<union> set (stk h))) R h \<Longrightarrow> v \<notin> G \<union> set (stk h) \<Longrightarrow> stack_ok False G h
      \<Longrightarrow> 2 * work h + 2 \<le> n \<Longrightarrow> \<exists>h'. kai_free_one n v depth False h = Some h' \<and> settled False G R (work h) h h'"
    and loop: "\<And>G R h. counted G (G \<union> set (stk h)) R h \<Longrightarrow> stack_ok True G h \<Longrightarrow> 2 * work h + 1 \<le> n
      \<Longrightarrow> \<exists>h'. drain_loop n h = Some h' \<and> settled True G R (work h) h h' \<and> stk h' = []"
    and m: "2 * m + 1 \<le> n"
  shows "frees (kai_free_child n depth st) st G m"
  unfolding frees_def
proof (intro allI impI)
  fix c R h
  assume A: "counted G (insert c (G \<union> set (stk h))) R h \<and> c \<notin> G \<and> c \<notin> set (stk h) \<and> stack_ok st G h \<and> work h < m"
  show "\<exists>h'. kai_free_child n depth st c h = Some h' \<and> settled st G R (Suc (work h)) h h'"
  proof (cases st)
    case True
    then show ?thesis using push_pending_settled [of G c h R] A by simp
  next
    case False
    show ?thesis
    proof (cases "depth < KAI_FREE_DEPTH")
      case True
      have "2 * work h + 2 \<le> n" using A m by linarith
      then obtain h' where "kai_free_one n c (depth + 1) False h = Some h'" "settled False G R (work h) h h'"
        using one [of G c h R "depth + 1"] A False by auto
      then show ?thesis using True False by (auto simp: settled_def)
    next
      case deep: False
      have stk: "stk h = []" "\<not> fs_active (h_stack h)" using A False by (auto simp: stack_ok_def)
      let ?cap = "if fs_cap (h_stack h) = 0 then KAI_FREE_STACK_LOCAL else fs_cap (h_stack h)"
      let ?h = "h\<lparr>h_stack := (h_stack h)\<lparr>fs_cap := ?cap, fs_active := True, fs_items := [c]\<rparr>\<rparr>"
      have "counted G (G \<union> set (stk ?h)) R ?h" "stack_ok True G ?h" "work ?h = Suc (work h)"
        using A stk by (auto simp: stack_ok_def work_live KAI_FREE_STACK_LOCAL_def)
      then obtain h' where h': "drain_loop n ?h = Some h'" "settled True G R (Suc (work h)) ?h h'" "stk h' = []"
        using loop [of G ?h R] A m by auto
      let ?h' = "h'\<lparr>h_stack := (h_stack h')\<lparr>fs_active := False, fs_cap := KAI_FREE_STACK_LOCAL\<rparr>\<rparr>"
      have "settled False G R (Suc (work h)) h ?h'"
        using h'(2,3) by (simp add: settled_def stack_ok_def work_live)
      moreover have "kai_free_drain n c h = Some ?h'" using h'(1) stk by (simp add: Let_def)
      ultimately show ?thesis using deep False by simp
    qed
  qed
qed


lemma cons_recycle:
  assumes F: "frees f st (insert v G) (work h)" and v: "v \<notin> G" "v \<notin> set (stk h)"
    and C: "counted G (insert v (G \<union> set (stk h))) R h" and ok: "stack_ok st G h"
    and vs: "kids h v = addrs [car, cdr]"
    and tail: "\<And>t h1. counted G (insert t (G \<union> set (stk h1))) R h1 \<Longrightarrow> t \<notin> G \<union> set (stk h1) \<Longrightarrow> stack_ok st G h1
      \<Longrightarrow> work h1 < work h \<Longrightarrow> \<exists>h'. k t h1 = Some h' \<and> settled st G R (work h1) h1 h'"
  shows "\<exists>h'. do {
       h \<leftarrow> kai_drop_child f car h;
       (zero, h) \<leftarrow> kai_drop_hits_zero cdr h;
       let h = recycle v h;
       case cdr of Ptr t \<Rightarrow> if zero then k t h else Some h | _ \<Rightarrow> Some h } = Some h' \<and> settled st G R (work h) h h'"
proof -
  let ?G = "insert v G"
  have "counted ?G (?G \<union> set (stk h)) ((R + mset (addr_of cdr)) + mset (addr_of car)) h"
    using counted_open [OF C _ v(1)] vs by (simp add: ac_simps)
  moreover have "stack_ok st ?G h" using ok v(2) by (auto simp: stack_ok_def split: if_splits)
  ultimately obtain h1 where h1: "kai_drop_child f car h = Some h1" "settled st ?G (R + mset (addr_of cdr)) (work h) h h1"
    using kai_drop_child_drops [OF F] unfolding drops_def by blast
  then have C1: "counted ?G (?G \<union> set (stk h1)) (R + mset (addr_of cdr)) h1" "stack_ok st ?G h1" "work h1 \<le> work h" "shrinks h h1"
    by (simp_all add: settled_def)
  obtain z h2 where d: "kai_drop_hits_zero cdr h1 = Some (z, h2)" "shrinks h1 h2" "h_stack h2 = h_stack h1"
      "if z then \<exists>p. cdr = Ptr p \<and> p \<notin> ?G \<union> set (stk h1) \<and> counted ?G (insert p (?G \<union> set (stk h1))) R h2 \<and> live h1 = Suc (live h2)
         \<and> h2 = set_rc p 0 h1
       else counted ?G (?G \<union> set (stk h1)) R h2 \<and> live h2 = live h1"
    using drop_hits_zero_spec [OF C1(1)] by blast
  have ok2: "stack_ok st ?G h2" and shr: "shrinks h h2" using C1(2) d(2,3) shrinks_trans [OF C1(4)] by (simp_all add: stack_ok_def)
  show ?thesis
  proof (cases z)
    case False
    then have "settled st ?G R (work h) h h2" using d ok2 shr C1(3) by (simp add: settled_def work_live)
    from settled_recycle [OF this v(1)] show ?thesis
      using h1(1) d(1) False by (cases cdr) (auto simp: Let_def)
  next
    case True
    then obtain p where p: "cdr = Ptr p" "p \<notin> ?G \<union> set (stk h2)" "counted ?G (insert p (?G \<union> set (stk h2))) R h2" "live h1 = Suc (live h2)"
      using d by auto
    have vs2: "v \<notin> set (stk h2)" using ok2 by (auto simp: stack_ok_def split: if_splits)
    then have eq: "insert p (?G \<union> set (stk h2)) - {v} = insert p (G \<union> set (stk h2))" using p(2) v(1) by auto
    let ?h = "recycle v h2"
    have C3: "counted G (insert p (G \<union> set (stk ?h))) R ?h" "live ?h = live h2" "shrinks h2 ?h"
      using counted_recycle [OF p(3) v(1)] eq by auto
    have "stack_ok st G ?h" using ok2 by (auto simp: stack_ok_def split: if_splits)
    moreover have w: "work ?h < work h" using C3(2) p(4) d(3) C1(3) by (simp add: work_live)
    ultimately obtain h' where h': "k p ?h = Some h'" "settled st G R (work ?h) ?h h'"
      using tail [OF C3(1)] p(2) by auto
    have "settled st G R (work h) h h'"
      using h'(2) w shrinks_trans [OF shrinks_trans [OF shr C3(3)]] by (auto simp: settled_def)
    then show ?thesis using h1(1) d(1) True p(1) h'(1) by (simp add: Let_def)
  qed
qed

text \<open>Reclaiming a cell at 0, and draining the stack: enough fuel always gives a result.\<close>

lemma free_release:
  shows "counted G (insert v (G \<union> set (stk h))) R h \<Longrightarrow> v \<notin> G \<union> set (stk h) \<Longrightarrow> stack_ok st G h \<Longrightarrow> 2 * work h + 2 \<le> n
      \<Longrightarrow> \<exists>h'. kai_free_one n v depth st h = Some h' \<and> settled st G R (work h) h h'"
    and "counted G (G \<union> set (stk h)) R h \<Longrightarrow> stack_ok True G h \<Longrightarrow> 2 * work h + 1 \<le> n
      \<Longrightarrow> \<exists>h'. drain_loop n h = Some h' \<and> settled True G R (work h) h h' \<and> stk h' = []"
proof (induction n arbitrary: G v h R st depth)
  case (Suc n)
  {
    case 1
    then have v: "v \<notin> G" "v \<notin> set (stk h)" by auto
    obtain c where c: "h_cells h v = Some c" using 1(1) by (auto simp: counted_def)
    then obtain vs where vs: "owned (h_masks h) (c_body c) = Some vs" using 1(1) unfolding counted_def by blast
    then have kids: "kids h v = addrs vs" using c by (simp add: kids_def)
    have F: "frees (kai_free_child n depth st) st (insert v G) (work h)"
      by (rule free_child_frees [OF Suc.IH(1) Suc.IH(2)]) (use 1(4) in auto)
    note all = drop_all_recycle [OF kai_drop_child_drops [OF F] v 1(1,3) kids]
    note slots = drop_all_recycle [OF drop_slot_drops [OF F] v 1(1,3) kids]
    show ?case
    proof (cases "c_body c")
      case (Cons car cdr)
      then have "kids h v = addrs [car, cdr]" using kids vs by simp
      note cons = cons_recycle [OF F v 1(1,3) this, of "\<lambda>t h. kai_free_one n t depth st h"]
      show ?thesis using c Cons cons Suc.IH(1) 1(4) by (simp add: Let_def)
    next
      case (Variant t ss)
      then show ?thesis using c vs slots by (simp add: Let_def)
    qed (use c vs all in \<open>simp_all add: Let_def\<close>)
  next
    case 2
    show ?case
    proof (cases "stk h")
      case Nil
      then show ?thesis using 2 by (simp add: settled_def)
    next
      case (Cons v vs)
      let ?h = "h\<lparr>h_stack := (h_stack h)\<lparr>fs_items := vs\<rparr>\<rparr>"
      have "counted G (insert v (G \<union> set (stk ?h))) R ?h" "v \<notin> G \<union> set (stk ?h)" "stack_ok True G ?h" "work h = Suc (work ?h)"
        using 2 Cons by (auto simp: stack_ok_def work_live)
      then obtain h1 where h1: "kai_free_one n v 0 True ?h = Some h1" "settled True G R (work ?h) ?h h1"
        using Suc.IH(1) [of G v ?h R True 0] 2(3) by auto
      then have "counted G (G \<union> set (stk h1)) R h1" "stack_ok True G h1" "work h1 \<le> work ?h"
        by (simp_all add: settled_def)
      then obtain h' where h': "drain_loop n h1 = Some h'" "settled True G R (work h1) h1 h'" "stk h' = []"
        using Suc.IH(2) [of G h1 R] \<open>work h = Suc (work ?h)\<close> 2(3) by auto
      have "settled True G R (work ?h) ?h h'" by (rule settled_trans [OF h1(2) h'(2)]) simp
      then have "settled True G R (work h) h h'" using \<open>work h = Suc (work ?h)\<close> by (simp add: settled_def)
      then show ?thesis using Cons h1(1) h'(1,3) by simp
    qed
  }
qed simp_all


section \<open>The interface of a counted heap\<close>

text \<open>A heap whose references can be given back one at a time.\<close>

locale counted_heap =
  fixes ok :: "'a multiset \<Rightarrow> 'h \<Rightarrow> bool"
    and keeps :: "'h \<Rightarrow> 'h \<Rightarrow> bool"
    and held :: "'v \<Rightarrow> 'a multiset"
    and release :: "'v \<Rightarrow> 'h \<Rightarrow> 'h option"
  assumes release: "ok (R + held v) h \<Longrightarrow> \<exists>h'. release v h = Some h' \<and> ok R h' \<and> keeps h h'"
    and refl: "keeps h h"
    and trans: "keeps h1 h2 \<Longrightarrow> keeps h2 h3 \<Longrightarrow> keeps h1 h3"
begin

fun release_all :: "'v list \<Rightarrow> 'h \<Rightarrow> 'h option" where
  "release_all [] h = Some h"
| "release_all (v # vs) h = Option.bind (release v h) (release_all vs)"

lemma release_all:
  "ok (R + sum_list (map held vs)) h \<Longrightarrow> \<exists>h'. release_all vs h = Some h' \<and> ok R h' \<and> keeps h h'"
proof (induction vs arbitrary: h)
  case (Cons v vs)
  then have "ok ((R + sum_list (map held vs)) + held v) h" by (simp add: ac_simps)
  then obtain h1 where "release v h = Some h1" "ok (R + sum_list (map held vs)) h1" "keeps h h1"
    using release by blast
  then show ?case using Cons.IH trans by fastforce
qed (simp add: refl)

end

definition rc_ok :: "nat multiset \<Rightarrow> heap \<Rightarrow> bool" where
  "rc_ok R h \<longleftrightarrow> counted {} {} R h \<and> stack_ok False {} h"

text \<open>What the references \<open>R\<close> reach.\<close>

inductive reaches :: "nat multiset \<Rightarrow> heap \<Rightarrow> nat \<Rightarrow> bool" for R h where
  root: "p \<in># R \<Longrightarrow> reaches R h p"
| kid: "reaches R h p \<Longrightarrow> q \<in># kids h p \<Longrightarrow> reaches R h q"

lemma rc_ok_dom:
  assumes "rc_ok R h"
  shows "set_mset R \<subseteq> dom (h_cells h)" "set_mset (kids h p) \<subseteq> dom (h_cells h)" "finite (dom (h_cells h))"
proof -
  have C: "finite (dom (h_cells h))" "set_mset (refs h (dom (h_cells h)) + R) \<subseteq> dom (h_cells h)"
    using assms unfolding rc_ok_def counted_def by auto
  then show "set_mset R \<subseteq> dom (h_cells h)" "finite (dom (h_cells h))" by auto
  show "set_mset (kids h p) \<subseteq> dom (h_cells h)"
  proof (cases "p \<in> dom (h_cells h)")
    case True
    then have "kids h p \<subseteq># refs h (dom (h_cells h))" using C(1) by (simp add: refs_def sum.remove [of _ p])
    then show ?thesis using C(2) set_mset_mono by fastforce
  qed (auto simp: kids_def split: option.splits)
qed

lemma decref_result:
  assumes ok: "rc_ok (R + mset (addr_of v)) h" and n: "2 * work h + 2 \<le> n"
  shows "\<exists>h'. kai_decref n v h = Some h' \<and> rc_ok R h' \<and> work h' \<le> work h \<and> shrinks h h'"
proof -
  have C: "counted {} {} (R + mset (addr_of v)) h" "stack_ok False {} h" using ok by (simp_all add: rc_ok_def)
  then have stk: "stk h = []" by (simp add: stack_ok_def)
  have F: "frees (\<lambda>p h. kai_free_one n p 0 False h) False {} (work h)"
    unfolding frees_def
  proof (intro allI impI)
    fix c R h1
    assume A: "counted {} (insert c ({} \<union> set (stk h1))) R h1 \<and> c \<notin> {} \<and> c \<notin> set (stk h1) \<and> stack_ok False {} h1 \<and> work h1 < work h"
    then have "\<exists>h'. kai_free_one n c 0 False h1 = Some h' \<and> settled False {} R (work h1) h1 h'"
      using n by (intro free_release(1)) auto
    then show "\<exists>h'. kai_free_one n c 0 False h1 = Some h' \<and> settled False {} R (Suc (work h1)) h1 h'"
      by (auto simp: settled_def)
  qed
  have "kai_decref n v h = kai_drop_child (\<lambda>p h. kai_free_one n p 0 False h) v h"
    by (simp add: kai_decref_def kai_drop_child_def)
  then obtain h' where "kai_decref n v h = Some h'" "settled False {} R (work h) h h'"
    using dropsD [OF kai_drop_child_drops [OF F], of h R v] C stk by auto
  then show ?thesis by (auto simp: settled_def rc_ok_def stack_ok_def)
qed

abbreviation decref :: "kvalue \<Rightarrow> heap \<Rightarrow> heap option" where
  "decref v h \<equiv> kai_decref (2 * work h + 2) v h"

interpretation rc_heap: counted_heap rc_ok shrinks "\<lambda>v. mset (addr_of v)" decref
  by unfold_locales (use decref_result shrinks_trans in \<open>auto, blast\<close>)

lemma alloc_ok:
  assumes ok: "rc_ok (R + addrs vs) h" and p: "h_cells h p = None" and vs: "owned (h_masks h) b = Some vs"
  shows "rc_ok (R + {#p#}) (kai_alloc p b h)"
proof -
  let ?h = "kai_alloc p b h"
  have C: "counted {} {} (R + addrs vs) h" "stack_ok False {} h" using ok by (simp_all add: rc_ok_def)
  have fin: "finite (dom (h_cells h))" using rc_ok_dom(3) [OF ok] .
  have kid: "kids ?h q = (if q = p then addrs vs else kids h q)" for q
    using vs by (simp add: kids_def kai_alloc_def cong: option.case_cong)
  have dom: "dom (h_cells ?h) = insert p (dom (h_cells h))" by (simp add: kai_alloc_def)
  have "refs ?h (dom (h_cells h)) = refs h (dom (h_cells h))"
    unfolding refs_def using p by (intro sum.cong) (auto simp: kid)
  then have refs: "refs ?h (dom (h_cells ?h)) = refs h (dom (h_cells h)) + addrs vs"
    using fin p dom by (simp add: refs_def kid domIff)
  have none: "p \<notin># refs h (dom (h_cells h)) + (R + addrs vs)" using C(1) p unfolding counted_def by auto
  have mk: "h_masks ?h = h_masks h" by (simp add: kai_alloc_def)
  have "counted {} {} (R + {#p#}) ?h"
    unfolding counted_def mk
  proof (intro conjI allI impI)
    show "finite (dom (h_cells ?h))" using fin dom by simp
    show "set_mset (refs ?h (dom (h_cells ?h) - {}) + (R + {#p#})) \<subseteq> dom (h_cells ?h)"
      using C(1) refs dom unfolding counted_def by auto
    fix q c assume c: "h_cells ?h q = Some c"
    show "owned (h_masks h) (c_body c) \<noteq> None" using C(1) c vs unfolding counted_def
      by (cases "q = p") (auto simp: kai_alloc_def)
    show "(c_rc c = 0) = (q \<in> {})" "c_rc c \<noteq> KAI_RC_SPECIAL" "c_rc c \<le> INT32_MAX"
      using C(1) c unfolding counted_def by (cases "q = p"; auto simp: kai_alloc_def KAI_RC_SPECIAL_def INT32_MAX_def)+
    assume "\<not> immortal c"
    then show "owners c = int (count (refs ?h (dom (h_cells ?h) - {}) + (R + {#p#})) q)"
      using C(1) c none refs unfolding counted_def
      by (cases "q = p") (auto simp: kai_alloc_def owners_def KAI_RC_SPECIAL_def not_in_iff)
  qed auto
  then show ?thesis using C(2) by (simp add: rc_ok_def stack_ok_def kai_alloc_def)
qed

end
