(* ===== verification/Kai_Rc_Main.thy ===== *)
theory Kai_Rc_Main
  imports Kai_Rc_Safe
begin

text \<open>
  The theorems on reference counting: what giving back, taking and moving a reference do to a heap
  whose counts are right.
\<close>

section \<open>Sample heaps\<close>

definition empty_heap :: heap where
  "empty_heap = \<lparr>h_cells = Map.empty, h_masks = (\<lambda>_. 0), h_stack = \<lparr>fs_items = [], fs_cap = 0, fs_active = False\<rparr>\<rparr>"

lemma rc_ok_empty: "rc_ok {#} empty_heap"
  by (simp add: rc_ok_def counted_def stack_ok_def empty_heap_def refs_def)

text \<open>The list \<open>[7.5]\<close>, its number boxed, and a second owner of the number.\<close>

definition sample_heap :: heap where
  "sample_heap = kai_cons 1 (Ptr 0) Null (set_rc 0 2 (kai_alloc 0 (Scalar KAI_REAL) empty_heap))"

lemma sample_cells:
  "h_cells sample_heap = [0 \<mapsto> \<lparr>c_rc = 2, c_body = Scalar KAI_REAL\<rparr>, 1 \<mapsto> \<lparr>c_rc = 1, c_body = Cons (Ptr 0) Null\<rparr>]"
  by (auto simp: sample_heap_def kai_cons_def kai_alloc_def set_rc_def empty_heap_def)

lemma incref_ok:
  assumes ok: "rc_ok R h" and p: "h_cells h p = Some c"
    and r: "immortal c \<and> h' = h \<or> \<not> immortal c \<and> h' = set_rc p (c_rc c + 1) h \<and> c_rc c \<noteq> KAI_RC_SPECIAL - 1 \<and> c_rc c < INT32_MAX - 1"
  shows "rc_ok (R + {#p#}) h'"
proof -
  have C: "counted {} {} R h" "stack_ok False {} h" using ok by (simp_all add: rc_ok_def)
  have own: "c_rc c \<noteq> 0" "c_rc c \<noteq> KAI_RC_SPECIAL" "\<not> immortal c \<Longrightarrow> 0 \<le> owners c"
    using C(1) p by (auto simp: counted_def)
  have "counted {} {} (R + {#p#}) h'"
  proof (cases "immortal c")
    case True
    then show ?thesis using r C(1) p unfolding counted_def by auto
  next
    case False
    let ?c = "c\<lparr>c_rc := c_rc c + 1\<rparr>"
    have new: "c_rc c + 1 \<noteq> 0" "c_rc c + 1 \<noteq> KAI_RC_SPECIAL" "c_rc c + 1 \<le> INT32_MAX" "owners ?c = owners c + 1"
      using r False own by (auto simp: owners_def KAI_RC_SPECIAL_def split: if_splits)
    have h': "h' = set_rc p (c_rc c + 1) h" using r False by blast
    show ?thesis
      using C(1) p False new unfolding h' counted_def set_rc_simps set_rc_refs
      apply (intro conjI allI impI)
      subgoal by simp
      subgoal by simp
      subgoal by simp
      subgoal by (auto simp: set_rc_cells split: if_splits)
      subgoal by (auto simp: set_rc_cells split: if_splits)
      subgoal by (auto simp: set_rc_cells split: if_splits)
      subgoal by (auto simp: set_rc_cells split: if_splits)
      subgoal for q d by (cases "q = p") (auto simp: set_rc_cells owners_def split: if_splits)
      subgoal by auto
      done
  qed
  moreover have "stack_ok False {} h'" using C(2) r by (auto simp: stack_ok_def)
  ultimately show ?thesis by (simp add: rc_ok_def)
qed

lemma rc_ok_sample: "rc_ok ({#0#} + {#1#}) sample_heap"
proof -
  have "rc_ok {#0#} (kai_alloc 0 (Scalar KAI_REAL) empty_heap)"
    using alloc_ok [of "{#}" "[]" empty_heap 0 "Scalar KAI_REAL"] rc_ok_empty by (simp add: empty_heap_def)
  then have "rc_ok ({#0#} + {#0#}) (set_rc 0 2 (kai_alloc 0 (Scalar KAI_REAL) empty_heap))"
    by (rule incref_ok) (auto simp: kai_alloc_def immortal_def KAI_RC_SPECIAL_def INT32_MAX_def)
  then show ?thesis
    using alloc_ok [of "{#0#}" "[Ptr 0, Null]" _ 1 "Cons (Ptr 0) Null"]
    by (simp add: sample_heap_def kai_cons_def set_rc_cells kai_alloc_def empty_heap_def)
qed

lemma mset_sample: "mset [x] = {#x#}" by simp

lemma work_le: "work h \<le> card (dom (h_cells h)) + length (stk h)" if "finite (dom (h_cells h))"
  using that by (auto simp: work_def intro!: card_mono)

lemma work_sample: "2 * work sample_heap + 2 \<le> 6"
  using work_le [of sample_heap] sample_cells
  by (simp add: sample_heap_def kai_cons_def kai_alloc_def empty_heap_def card_insert_if)

section \<open>Giving back a reference\<close>

text \<open>
  C4: Giving back a reference ends, never meets a cell that was freed, and leaves a heap in which
  every count is the number of references to the cell and no unreferenced cell is left: nothing
  leaks, nothing is freed twice, nothing dangles.
\<close>

theorem kai_decref_counts:
  assumes "rc_ok (R + mset (addr_of v)) h" "2 * work h + 2 \<le> n"
  shows "\<exists>h'. kai_decref n v h = Some h' \<and> rc_ok R h' \<and> work h' \<le> work h"
  using decref_result [OF assms] by blast

lemma kai_decref_counts_witness:
  "\<exists>h'. kai_decref 6 (Ptr 1) sample_heap = Some h' \<and> rc_ok {#0#} h'"
  using kai_decref_counts [of "{#0#}" "Ptr 1" sample_heap 6] rc_ok_sample work_sample unfolding addr_of.simps mset_sample by blast

text \<open>Cells that the remaining references reach.\<close>

lemma reaches_dom: "rc_ok R h \<Longrightarrow> reaches R h p \<Longrightarrow> \<exists>c. h_cells h p = Some c"
  by (erule reaches.cases) (use rc_ok_dom in blast)+

lemma reaches_shrinks:
  assumes "reaches R h p" "shrinks h h'" "rc_ok R h'"
  shows "reaches R h' p"
  using assms
proof (induction rule: reaches.induct)
  case (kid p q)
  then have "reaches R h' p" by blast
  moreover obtain c' where "h_cells h' p = Some c'" using reaches_dom kid calculation by blast
  then have "kids h' p = kids h p" using shrinks_kids [OF kid(4)] by blast
  ultimately show ?case using kid(2) by (auto intro: reaches.kid)
qed (auto intro: reaches.root)

text \<open>C10: What the other references reach survives, contents and all.\<close>

theorem kai_decref_keeps_reachable:
  assumes "rc_ok (R + mset (addr_of v)) h" "2 * work h + 2 \<le> n" "reaches R h p"
  shows "\<exists>h' c c'. kai_decref n v h = Some h' \<and> h_cells h p = Some c \<and> h_cells h' p = Some c'
    \<and> c_body c' = c_body c"
proof -
  obtain h' where h': "kai_decref n v h = Some h'" "rc_ok R h'" "shrinks h h'"
    using decref_result [OF assms(1,2)] by blast
  obtain c' where c': "h_cells h' p = Some c'" using reaches_dom [OF h'(2) reaches_shrinks [OF assms(3) h'(3,2)]] by blast
  then obtain c where "h_cells h p = Some c" "c_body c' = c_body c" using shrinksD [OF h'(3)] by blast
  then show ?thesis using h'(1) c' by blast
qed

lemma kai_decref_keeps_reachable_witness:
  "\<exists>h' c c'. kai_decref 6 (Ptr 1) sample_heap = Some h' \<and> h_cells sample_heap 0 = Some c \<and> h_cells h' 0 = Some c' \<and> c_body c' = c_body c"
  using kai_decref_keeps_reachable [of "{#0#}" "Ptr 1" sample_heap 6 0] rc_ok_sample work_sample
    reaches.root [of 0 "{#0#}" sample_heap]
  unfolding addr_of.simps mset_sample by simp

text \<open>The cells nobody has to hold: the immortal ones and what they reach.\<close>

inductive everlasting :: "heap \<Rightarrow> nat \<Rightarrow> bool" where
  immortal: "h_cells h p = Some c \<Longrightarrow> immortal c \<Longrightarrow> everlasting h p"
| kid: "everlasting h p \<Longrightarrow> q \<in># kids h p \<Longrightarrow> everlasting h q"

lemma kept_dom:
  assumes "everlasting h p" "shrinks h h'" "rc_ok R h'"
  shows "p \<in> dom (h_cells h')"
  using assms
proof (induction rule: everlasting.induct)
  case (immortal h p c)
  then show ?case by (auto simp: shrinks_def)
next
  case (kid h p q)
  then obtain c where "h_cells h' p = Some c" by blast
  then have "kids h' p = kids h p" using shrinks_kids [OF kid(4)] by blast
  then have "q \<in># kids h' p" using kid(2) by simp
  then show ?case by (rule subsetD [OF rc_ok_dom(2) [OF kid(5)]])
qed

text \<open>Without references from outside and cycles, only these are left.\<close>

lemma no_roots:
  assumes ok: "rc_ok {#} h'" and sh: "shrinks h h'" and acyc: "acyclic {(p, q). q \<in># kids h p \<and> \<not> everlasting h q}"
    and p: "p \<in> dom (h_cells h')"
  shows "everlasting h p"
proof (rule ccontr)
  let ?E = "{(p, q). q \<in># kids h' p \<and> \<not> everlasting h q}"
  let ?M = "{p \<in> dom (h_cells h'). \<not> everlasting h p}"
  have kids: "kids h' p = kids h p" if "h_cells h' p = Some c" for p c
    using shrinks_kids [OF sh that] .
  have dom: "finite (dom (h_cells h'))" "\<And>p. set_mset (kids h' p) \<subseteq> dom (h_cells h')" using rc_ok_dom [OF ok] by auto
  have own: "p \<in> dom (h_cells h')" if "q \<in># kids h' p" for p q
    using that by (auto simp: kids_def split: option.splits)
  have "?E \<subseteq> dom (h_cells h') \<times> dom (h_cells h')" using own subsetD [OF dom(2)] by blast
  then have "finite ?E" using dom(1) finite_subset by blast
  moreover have "?E \<subseteq> {(p, q). q \<in># kids h p \<and> \<not> everlasting h q}" using kids own by fastforce
  then have "acyclic ?E" by (rule acyclic_subset [OF acyc])
  ultimately have "wf ?E" using finite_acyclic_wf by blast
  assume "\<not> everlasting h p"
  then have "?M \<noteq> {}" using p by blast
  with \<open>wf ?E\<close> obtain p where p: "p \<in> ?M" "\<And>q. (q, p) \<in> ?E \<Longrightarrow> q \<notin> ?M" by (rule wfE_min') blast
  then obtain c where c: "h_cells h' p = Some c" by blast
  have mortal: "\<not> immortal c"
  proof
    assume "immortal c"
    moreover from this have "h_cells h p = Some c" using shrinksD [OF sh c] by metis
    ultimately show False using p(1) everlasting.immortal by blast
  qed
  have "p \<notin># kids h' q" for q
  proof
    assume q: "p \<in># kids h' q"
    then have "everlasting h q" using p own by blast
    moreover have "p \<in># kids h q" using q own kids by fastforce
    ultimately show False using p(1) everlasting.kid by blast
  qed
  then have "count (refs h' (dom (h_cells h'))) p = 0" using dom(1) by (simp add: refs_def count_sum not_in_iff)
  then have "owners c = 0" "c_rc c \<noteq> 0" "c_rc c \<noteq> KAI_RC_SPECIAL"
    using ok c mortal unfolding rc_ok_def counted_def by auto
  then show False by (auto simp: owners_def split: if_splits)
qed

text \<open>
  C11: When all references are given back, in any order, exactly the immortal cells and the cells they
  reach are left, with their bodies, and the immortal cells are as they were. The other cells must form
  no cycle.
\<close>

theorem release_all_empties:
  assumes "rc_ok (sum_list (map (\<lambda>v. mset (addr_of v)) vs)) h" "acyclic {(p, q). q \<in># kids h p \<and> \<not> everlasting h q}"
  shows "\<exists>h'. rc_heap.release_all vs h = Some h' \<and> dom (h_cells h') = {p. everlasting h p}
    \<and> (\<forall>p c. h_cells h' p = Some c \<longrightarrow> (\<exists>d. h_cells h p = Some d \<and> c_body d = c_body c))
    \<and> (\<forall>p c. h_cells h p = Some c \<and> immortal c \<longrightarrow> h_cells h' p = Some c)"
proof -
  obtain h' where h': "rc_heap.release_all vs h = Some h'" "rc_ok {#} h'" "shrinks h h'"
    using rc_heap.release_all [of "{#}" vs h] assms(1) by auto
  have "dom (h_cells h') = {p. everlasting h p}" using kept_dom [OF _ h'(3,2)] no_roots [OF h'(2,3) assms(2)] by blast
  moreover have "\<exists>d. h_cells h p = Some d \<and> c_body d = c_body c" if "h_cells h' p = Some c" for p c
    using shrinksD [OF h'(3) that] by metis
  moreover have "h_cells h' p = Some c" if "h_cells h p = Some c" "immortal c" for p c
    using h'(3) that by (simp add: shrinks_def)
  ultimately show ?thesis using h'(1) by blast
qed

lemma sample_kids: "kids sample_heap p = (if p = 1 then {#0#} else {#})"
  by (simp add: kids_def sample_cells)

lemma release_all_empties_witness:
  "\<exists>h'. rc_heap.release_all [Ptr 0, Ptr 1] sample_heap = Some h' \<and> h_cells h' 0 = None \<and> h_cells h' 1 = None"
proof -
  have mortal: "\<not> immortal c" if "h_cells sample_heap p = Some c" for p c
    using that by (auto simp: sample_cells immortal_def INT32_MAX_def split: if_splits)
  have none: "\<not> everlasting sample_heap p" for p
  proof
    assume "everlasting sample_heap p"
    then show False
      by (induction "sample_heap" p rule: everlasting.induct) (use mortal in blast)+
  qed
  then have "{(p, q). q \<in># kids sample_heap p \<and> \<not> everlasting sample_heap q} = {(1, 0)}"
    by (auto simp: sample_kids split: if_splits)
  moreover have "acyclic ({} :: (nat \<times> nat) set)" by (simp add: acyclic_def)
  ultimately have "acyclic {(p, q). q \<in># kids sample_heap p \<and> \<not> everlasting sample_heap q}" by (simp add: acyclic_insert)
  then obtain h' where "rc_heap.release_all [Ptr 0, Ptr 1] sample_heap = Some h'" "dom (h_cells h') = {p. everlasting sample_heap p}"
    using release_all_empties [of "[Ptr 0, Ptr 1]" sample_heap] rc_ok_sample by auto
  then show ?thesis using none by blast
qed

section \<open>Taking a reference, making a cell\<close>

lemma kai_incref_Ptr:
  "h_cells h p = Some c \<Longrightarrow> kai_incref (Ptr p) h = Some (if immortal c then Counted h
     else if c_rc c = KAI_RC_SPECIAL - 1 \<or> INT32_MAX - 1 \<le> c_rc c then Overflow
     else Counted (set_rc p (c_rc c + 1) h))"
  by (simp add: kai_incref_def kai_incref_special_def immortal_def KAI_RC_SPECIAL_def INT32_MAX_def Let_def)

text \<open>
  Taking a reference either adds it to the counts or stops the program, and it stops the
  program only for a plain count one below \<open>KAI_RC_SPECIAL\<close> or an atomic one at the largest it can
  hold: no count ever wraps or turns into the mark of an immortal cell.
\<close>

theorem kai_incref_counts:
  assumes "rc_ok R h" "set_mset (mset (addr_of v)) \<subseteq> dom (h_cells h)"
  shows "\<exists>r. kai_incref v h = Some r \<and> (case r of
      Overflow \<Rightarrow> \<exists>p c. v = Ptr p \<and> h_cells h p = Some c \<and> c_rc c \<in> {KAI_RC_SPECIAL - 1, INT32_MAX - 1}
    | Counted h' \<Rightarrow> rc_ok (R + mset (addr_of v)) h')"
proof (cases v)
  case (Ptr p)
  then obtain c where c: "h_cells h p = Some c" using assms(2) by auto
  then have "c_rc c \<noteq> KAI_RC_SPECIAL" "c_rc c \<le> INT32_MAX" using assms(1) unfolding rc_ok_def counted_def by auto
  then show ?thesis
    using incref_ok [OF assms(1) c] c Ptr by (auto simp: kai_incref_Ptr immortal_def)
qed (use assms(1) in \<open>simp_all add: kai_incref_def\<close>)

lemma kai_incref_counts_witness:
  "\<exists>h'. kai_incref (Ptr 0) sample_heap = Some (Counted h') \<and> rc_ok ({#0#} + {#1#} + {#0#}) h'"
proof -
  have "set_mset (mset (addr_of (Ptr 0))) \<subseteq> dom (h_cells sample_heap)" by (simp add: sample_cells)
  from kai_incref_counts [OF rc_ok_sample this] obtain r where r: "kai_incref (Ptr 0) sample_heap = Some r"
    "case r of Overflow \<Rightarrow> \<exists>p c. Ptr 0 = Ptr p \<and> h_cells sample_heap p = Some c \<and> c_rc c \<in> {KAI_RC_SPECIAL - 1, INT32_MAX - 1}
     | Counted h' \<Rightarrow> rc_ok ({#0#} + {#1#} + mset (addr_of (Ptr 0))) h'" by blast
  then show ?thesis
    by (cases r) (auto simp: sample_cells KAI_RC_SPECIAL_def INT32_MAX_def)
qed

text \<open>A reference taken and given back at once leaves the heap as it was.\<close>

theorem kai_decref_incref:
  assumes "rc_ok R h" "kai_incref v h = Some (Counted h')"
  shows "kai_decref n v h' = Some h"
proof (cases v)
  case (Ptr p)
  obtain c where c: "h_cells h p = Some c" using assms(2) Ptr by (auto simp: kai_incref_def split: bind_splits)
  have rc: "c_rc c \<noteq> 0" "c_rc c \<noteq> KAI_RC_SPECIAL" using assms(1) c unfolding rc_ok_def counted_def by auto
  have id: "set_rc p (c_rc c) h = h" using c by (cases h) (auto simp: set_rc_def fun_eq_iff)
  show ?thesis
  proof (cases "immortal c")
    case True
    then show ?thesis using assms(2) c Ptr
      by (simp add: kai_incref_Ptr kai_decref_def kai_drop_hits_zero_def immortal_def)
  next
    case False
    then have h': "h' = set_rc p (c_rc c + 1) h" "c_rc c \<noteq> KAI_RC_SPECIAL - 1" "c_rc c + 1 \<noteq> INT32_MAX"
      using assms(2) c Ptr by (auto simp: kai_incref_Ptr split: if_splits)
    then show ?thesis using c rc id Ptr
      by (auto simp: kai_decref_def kai_drop_hits_zero_def kai_drop_atomic_hits_zero_def set_rc_cells Let_def)
  qed
qed (use assms in \<open>auto simp: kai_incref_def kai_decref_def kai_drop_hits_zero_def\<close>)

lemma kai_decref_incref_witness:
  "kai_decref 0 (Ptr 0) (set_rc 0 3 sample_heap) = Some sample_heap"
proof -
  have "kai_incref (Ptr 0) sample_heap = Some (Counted (set_rc 0 3 sample_heap))"
    by (simp add: kai_incref_def sample_cells KAI_RC_SPECIAL_def INT32_MAX_def)
  from kai_decref_incref [OF rc_ok_sample this] show ?thesis .
qed

text \<open>
  A new pair takes over the references to its parts: the caller's two references become the
  cell's, and the caller gets the only one to the cell.
\<close>

theorem kai_cons_counts:
  assumes "rc_ok (R + mset (addr_of car) + mset (addr_of cdr)) h" "h_cells h p = None"
  shows "rc_ok (R + {#p#}) (kai_cons p car cdr h)"
  using alloc_ok [of R "[car, cdr]" h p "Cons car cdr"] assms by (simp add: kai_cons_def ac_simps)

lemma kai_cons_counts_witness: "rc_ok {#2#} (kai_cons 2 (Ptr 0) (Ptr 1) sample_heap)"
proof -
  have "rc_ok ({#} + mset (addr_of (Ptr 0)) + mset (addr_of (Ptr 1))) sample_heap" using rc_ok_sample by simp
  from kai_cons_counts [OF this, of 2] show ?thesis by (simp add: sample_cells)
qed

end
