(* ===== verification/Kai_Shell.thy ===== *)
theory Kai_Shell
  imports Kai_Rc_Main
begin

text \<open>
  Cells whose contents are being exchanged. Reuse in place overwrites the parts of a cell and gives
  back the old ones while the cell holds a mixture of both; a reuse token is a cell whose parts have
  moved out. Neither state satisfies the counting invariant as it stands. What does is the heap in
  which that cell is hollow, and releasing other cells is the same on both.
\<close>

section \<open>Another body for a cell\<close>

definition set_body :: "nat \<Rightarrow> body \<Rightarrow> heap \<Rightarrow> heap" where
  "set_body s b h = h\<lparr>h_cells := (h_cells h)(s := map_option (c_body_update (\<lambda>_. b)) (h_cells h s))\<rparr>"

abbreviation hollow :: "nat \<Rightarrow> heap \<Rightarrow> heap" where
  "hollow s \<equiv> set_body s (Scalar KAI_UNIT)"

lemma set_body_simps [simp]:
  "h_masks (set_body s b h) = h_masks h" "h_stack (set_body s b h) = h_stack h"
  "dom (h_cells (set_body s b h)) = dom (h_cells h)" "(h_cells (set_body s b h) q = None) = (h_cells h q = None)"
  by (auto simp: set_body_def split: if_splits)

lemma set_body_cells:
  "h_cells (set_body s b h) q = (if q = s then map_option (c_body_update (\<lambda>_. b)) (h_cells h s) else h_cells h q)"
  by (simp add: set_body_def)

lemma body_counts [simp]: "immortal (c\<lparr>c_body := b\<rparr>) = immortal c" "owners (c\<lparr>c_body := b\<rparr>) = owners c"
  by (simp_all add: immortal_def owners_def)

lemma set_body_twice [simp]: "set_body s b (set_body s b' h) = set_body s b h"
  by (cases "h_cells h s") (simp_all add: set_body_def)

lemma set_body_same: "h_cells h s = Some c \<Longrightarrow> c_body c = b \<Longrightarrow> set_body s b h = h"
  by (cases h) (auto simp: set_body_def fun_eq_iff)

lemma set_body_work [simp]: "work (set_body s b h) = work h"
proof -
  have "{p. \<exists>c. h_cells (set_body s b h) p = Some c \<and> c_rc c \<noteq> 0} = {p. \<exists>c. h_cells h p = Some c \<and> c_rc c \<noteq> 0}"
    by (auto simp: set_body_cells split: if_splits)
  then show ?thesis by (simp add: work_def)
qed

lemma set_body_kids:
  "kids (set_body s b h) q = (if q = s \<and> h_cells h s \<noteq> None then addrs (the (owned (h_masks h) b)) else kids h q)"
  by (cases "h_cells h s") (auto simp: kids_def set_body_cells split: option.splits)

text \<open>The references a cell gives up are in hand, those it takes over leave the hand.\<close>

lemma set_body_ok:
  assumes ok: "rc_ok R h" and s: "h_cells h s = Some c" and b: "owned (h_masks h) b = Some vs"
    and R: "R + kids h s = R' + addrs vs"
  shows "rc_ok R' (set_body s b h)"
proof -
  let ?D = "dom (h_cells h)"
  have C: "counted {} {} R h" "stack_ok False {} h" using ok by (simp_all add: rc_ok_def)
  have fin: "finite ?D" using rc_ok_dom(3) [OF ok] .
  have rest: "(\<Sum>p\<in>?D - {s}. kids (set_body s b h) p) = (\<Sum>p\<in>?D - {s}. kids h p)"
    by (rule sum.cong) (auto simp: set_body_kids)
  have "refs (set_body s b h) ?D = addrs vs + (\<Sum>p\<in>?D - {s}. kids h p)"
    using fin s b rest by (simp add: refs_def sum.remove [of ?D s] domI set_body_kids)
  moreover have "refs h ?D = kids h s + (\<Sum>p\<in>?D - {s}. kids h p)"
    using fin s by (simp add: refs_def sum.remove [of ?D s] domI)
  ultimately have eq: "refs (set_body s b h) ?D + R' = refs h ?D + R"
    using R by (metis (no_types, lifting) add.assoc add.commute)
  have "counted {} {} R' (set_body s b h)"
    using C(1) unfolding counted_def set_body_simps Diff_empty eq
    apply (intro conjI allI impI)
    subgoal by simp
    subgoal by simp
    subgoal by simp
    subgoal using b by (auto simp: set_body_cells split: if_splits)
    subgoal by (auto simp: set_body_cells split: if_splits)
    subgoal by (auto simp: set_body_cells split: if_splits)
    subgoal by (auto simp: set_body_cells split: if_splits)
    subgoal for q d by (cases "q = s") (auto simp: set_body_cells simp del: count_union)
    subgoal by simp
    done
  then show ?thesis using C(2) by (simp add: rc_ok_def stack_ok_def)
qed

lemma hollow_open:
  assumes "rc_ok R h" "h_cells h s = Some c"
  shows "rc_ok (R + kids h s) (hollow s h)"
  by (rule set_body_ok [OF assms, of _ "[]"]) simp_all

lemma hollow_close:
  assumes "rc_ok (R + addrs vs) (hollow s h)" "h_cells h s = Some c" "owned (h_masks h) b = Some vs"
  shows "rc_ok R (set_body s b h)"
  using set_body_ok [OF assms(1), of s _ b vs R] assms(2,3) by (simp add: set_body_cells set_body_kids)

section \<open>Releasing other cells\<close>

text \<open>A function of the heap that does not look at the body of \<open>s\<close> as long as \<open>s\<close> lives.\<close>

definition blind :: "nat \<Rightarrow> body \<Rightarrow> (heap \<Rightarrow> heap option) \<Rightarrow> bool" where
  "blind s b f \<longleftrightarrow> (\<forall>h h'. f h = Some h' \<longrightarrow> dom (h_cells h') \<subseteq> dom (h_cells h)
     \<and> (h_cells h' s \<noteq> None \<longrightarrow> f (set_body s b h) = Some (set_body s b h')))"

lemma blindI:
  assumes "\<And>h h'. f h = Some h' \<Longrightarrow> dom (h_cells h') \<subseteq> dom (h_cells h)"
    and "\<And>h h'. f h = Some h' \<Longrightarrow> h_cells h' s \<noteq> None \<Longrightarrow> f (set_body s b h) = Some (set_body s b h')"
  shows "blind s b f"
  using assms by (simp add: blind_def)

lemma blind_dom: "blind s b f \<Longrightarrow> f h = Some h' \<Longrightarrow> dom (h_cells h') \<subseteq> dom (h_cells h)"
  by (simp add: blind_def)

lemma blind_eq: "blind s b f \<Longrightarrow> f h = Some h' \<Longrightarrow> h_cells h' s \<noteq> None \<Longrightarrow> f (set_body s b h) = Some (set_body s b h')"
  by (simp add: blind_def)

lemma blind_bind:
  assumes "blind s b f" "blind s b g"
  shows "blind s b (\<lambda>h. Option.bind (f h) g)"
proof (rule blindI)
  fix h h' assume "Option.bind (f h) g = Some h'"
  then obtain h1 where h1: "f h = Some h1" "g h1 = Some h'" by (auto split: bind_splits)
  show "dom (h_cells h') \<subseteq> dom (h_cells h)" using blind_dom [OF assms(1) h1(1)] blind_dom [OF assms(2) h1(2)] by blast
  assume live: "h_cells h' s \<noteq> None"
  then have "h_cells h1 s \<noteq> None" using blind_dom [OF assms(2) h1(2)] by (metis domIff subsetD)
  then show "Option.bind (f (set_body s b h)) g = Some (set_body s b h')"
    using blind_eq [OF assms(1) h1(1)] blind_eq [OF assms(2) h1(2) live] by simp
qed

lemma blind_Some [simp]: "blind s b Some"
  by (simp add: blind_def)

lemma set_body_set_rc: "set_rc p r (set_body s b h) = set_body s b (set_rc p r h)"
  by (cases "h_cells h p"; cases "h_cells h s") (auto simp: set_rc_def set_body_def fun_eq_iff)

lemma set_body_recycle: "recycle v (set_body s b h) = set_body s b (recycle v h)"
  by (auto simp: recycle_def set_body_def fun_eq_iff)

lemma hits_zero_body:
  "kai_drop_hits_zero v (set_body s b h) = map_option (apsnd (set_body s b)) (kai_drop_hits_zero v h)"
proof (cases v)
  case (Ptr p)
  then show ?thesis
    by (cases "h_cells h p")
      (auto simp: kai_drop_hits_zero_def kai_drop_atomic_hits_zero_def set_body_cells set_body_set_rc Let_def)
qed (simp_all add: kai_drop_hits_zero_def)

lemma hits_zero_dom:
  assumes "kai_drop_hits_zero v h = Some (z, h')"
  shows "dom (h_cells h') = dom (h_cells h)"
proof -
  have "h' = h \<or> (\<exists>p r. h' = set_rc p r h)"
    using assms
    by (auto simp: kai_drop_hits_zero_def kai_drop_atomic_hits_zero_def Let_def split: kvalue.splits bind_splits if_splits)
  then show ?thesis using set_rc_simps(3) by blast
qed

lemma blind_if:
  assumes "\<And>h. P (set_body s b h) = P h" "blind s b f" "blind s b g"
  shows "blind s b (\<lambda>h. if P h then f h else g h)"
  using assms by (simp add: blind_def)

lemma blind_stack: "blind s b (\<lambda>h. Some (h\<lparr>h_stack := f (h_stack h)\<rparr>))"
  by (simp add: blind_def set_body_def)

lemma blind_drop_child:
  assumes "\<And>p. blind s b (free p)"
  shows "blind s b (kai_drop_child free v)"
proof (rule blindI)
  fix h h' assume d: "kai_drop_child free v h = Some h'"
  then obtain z h1 where h1: "kai_drop_hits_zero v h = Some (z, h1)"
      "(case v of Ptr p \<Rightarrow> if z then free p h1 else Some h1 | _ \<Rightarrow> Some h1) = Some h'"
    by (auto simp: kai_drop_child_def split: bind_splits)
  then show "dom (h_cells h') \<subseteq> dom (h_cells h)"
    unfolding hits_zero_dom [OF h1(1), symmetric] using blind_dom [OF assms]
    by (cases v) (simp_all split: if_splits)
  assume "h_cells h' s \<noteq> None"
  then show "kai_drop_child free v (set_body s b h) = Some (set_body s b h')"
    using h1 blind_eq [OF assms] by (cases v) (auto simp: kai_drop_child_def hits_zero_body split: if_splits)
qed

lemma drop_slot_child: "drop_slot f = kai_drop_child f"
proof (intro ext)
  fix v h
  show "drop_slot f v h = kai_drop_child f v h"
  proof (cases v)
    case (Ptr p)
    then show ?thesis
      by (cases "h_cells h p"; cases "c_rc (the (h_cells h p)) = 1")
        (simp_all add: drop_slot_def kai_drop_child_def kai_drop_hits_zero_def Let_def)
  qed (simp_all add: drop_slot_def)
qed

lemma blind_drop_all: "(\<And>v. blind s b (dec v)) \<Longrightarrow> blind s b (drop_all dec vs)"
proof (induction vs)
  case (Cons v vs)
  have "drop_all dec (v # vs) = (\<lambda>h. Option.bind (dec v h) (drop_all dec vs))" by auto
  then show ?case using blind_bind Cons by metis
qed (simp add: blind_def)

lemma blind_push: "blind s b (push_pending c)"
  by (auto simp: blind_def push_pending_def set_body_def)


text \<open>The release: whatever it does, it does not read a cell that outlives it.\<close>

lemma blind_free_child:
  assumes "\<And>v depth st. blind s b (kai_free_one n v depth st)" "blind s b (drain_loop n)"
  shows "blind s b (kai_free_child n depth st c)"
proof -
  let ?open = "\<lambda>st. st\<lparr>fs_cap := if fs_cap st = 0 then KAI_FREE_STACK_LOCAL else fs_cap st, fs_active := True,
    fs_items := c # fs_items st\<rparr>"
  let ?close = "\<lambda>st. st\<lparr>fs_active := False, fs_cap := KAI_FREE_STACK_LOCAL\<rparr>"
  have "kai_free_drain n c = (\<lambda>h. if fs_active (h_stack h) then push_pending c h
      else Option.bind (Option.bind (Some (h\<lparr>h_stack := ?open (h_stack h)\<rparr>)) (drain_loop n))
             (\<lambda>h. Some (h\<lparr>h_stack := ?close (h_stack h)\<rparr>)))"
    by (auto simp: fun_eq_iff Let_def map_conv_bind_option comp_def)
  then have drain: "blind s b (kai_free_drain n c)"
    using blind_if [OF _ blind_push blind_bind [OF blind_bind [OF blind_stack [of s b ?open] assms(2)] blind_stack [of s b ?close]]]
    by simp
  have "kai_free_child n depth st c = (if st then push_pending c
      else if depth < KAI_FREE_DEPTH then kai_free_one n c (depth + 1) False else kai_free_drain n c)" by auto
  then show ?thesis using assms(1) drain blind_push by (simp split: if_splits)
qed


lemma blind_match:
  assumes v: "v \<noteq> s" and f: "\<And>c m. blind s b (f c m)"
  shows "blind s b (\<lambda>h. case h_cells h v of None \<Rightarrow> None | Some c \<Rightarrow> f (c_body c) (h_masks h) h)"
proof (rule blindI)
  fix h h' assume "(case h_cells h v of None \<Rightarrow> None | Some c \<Rightarrow> f (c_body c) (h_masks h) h) = Some h'"
  then obtain c where c: "h_cells h v = Some c" "f (c_body c) (h_masks h) h = Some h'" by (auto split: option.splits)
  show "dom (h_cells h') \<subseteq> dom (h_cells h)" using blind_dom [OF f c(2)] .
  assume "h_cells h' s \<noteq> None"
  then show "(case h_cells (set_body s b h) v of None \<Rightarrow> None
      | Some c \<Rightarrow> f (c_body c) (h_masks (set_body s b h)) (set_body s b h)) = Some (set_body s b h')"
    using blind_eq [OF f c(2)] c(1) v by (simp add: set_body_cells)
qed

lemma blind_recycle: "blind s b (\<lambda>h. Some (recycle v h))"
  by (auto simp: blind_def set_body_recycle)

lemma blind_map_recycle: "blind s b f \<Longrightarrow> blind s b (\<lambda>h. map_option (recycle v) (f h))"
  using blind_bind [OF _ blind_recycle] by (simp add: map_conv_bind_option comp_def)

text \<open>The tail of a dying pair.\<close>

definition drop_tail :: "(nat \<Rightarrow> heap \<Rightarrow> heap option) \<Rightarrow> nat \<Rightarrow> kvalue \<Rightarrow> heap \<Rightarrow> heap option" where
  "drop_tail k v cdr h = do {
     (zero, h) \<leftarrow> kai_drop_hits_zero cdr h;
     let h = recycle v h;
     case cdr of Ptr t \<Rightarrow> if zero then k t h else Some h | _ \<Rightarrow> Some h }"

lemma drop_tail_cases:
  assumes "drop_tail k v cdr h = Some h'"
  obtains z h1 where "kai_drop_hits_zero cdr h = Some (z, h1)" "h' = recycle v h1"
      "drop_tail k v cdr = (\<lambda>h. map_option (recycle v \<circ> snd) (kai_drop_hits_zero cdr h)) \<or> \<not> z \<or> (\<forall>t. cdr \<noteq> Ptr t)"
  | t h1 where "cdr = Ptr t" "kai_drop_hits_zero cdr h = Some (True, h1)" "k t (recycle v h1) = Some h'"
  using assms by (auto simp: drop_tail_def Let_def split: bind_splits kvalue.splits if_splits)

lemma blind_tail:
  assumes k: "\<And>t. blind s b (k t)"
  shows "blind s b (drop_tail k v cdr)" "drop_tail k v cdr h = Some h' \<Longrightarrow> h_cells h' v = None"
proof -
  have dom: "dom (h_cells h') \<subseteq> dom (h_cells h) - {v}" if d: "drop_tail k v cdr h = Some h'" for h h'
    using d
  proof (cases rule: drop_tail_cases)
    case (1 z h1)
    then show ?thesis using hits_zero_dom by auto
  next
    case (2 t h1)
    then show ?thesis using hits_zero_dom [OF 2(2)] blind_dom [OF k 2(3)] by auto
  qed
  then show "drop_tail k v cdr h = Some h' \<Longrightarrow> h_cells h' v = None" by blast
  show "blind s b (drop_tail k v cdr)"
  proof (rule blindI)
    fix h h' assume d: "drop_tail k v cdr h = Some h'" and live: "h_cells h' s \<noteq> None"
    obtain z h1 where h1: "kai_drop_hits_zero cdr h = Some (z, h1)"
        "(case cdr of Ptr t \<Rightarrow> if z then k t (recycle v h1) else Some (recycle v h1) | _ \<Rightarrow> Some (recycle v h1)) = Some h'"
      using d by (auto simp: drop_tail_def Let_def split: bind_splits)
    have "kai_drop_hits_zero cdr (set_body s b h) = Some (z, set_body s b h1)" using h1(1) by (simp add: hits_zero_body)
    then show "drop_tail k v cdr (set_body s b h) = Some (set_body s b h')"
      using h1(2) blind_eq [OF k _ live] by (auto simp: drop_tail_def set_body_recycle split: kvalue.splits if_splits)
  qed (use dom in blast)
qed

text \<open>What \<^verbatim>\<open>kai_free_one\<close> does with a cell, given its body and the masks.\<close>

definition take_apart :: "nat \<Rightarrow> nat \<Rightarrow> nat \<Rightarrow> bool \<Rightarrow> body \<Rightarrow> (nat \<Rightarrow> 64 word) \<Rightarrow> heap \<Rightarrow> heap option" where
  "take_apart n v depth st x m h =
     (let dec = kai_drop_child (kai_free_child n depth st) in
      case x of
        Cons car cdr \<Rightarrow> Option.bind (dec car h) (drop_tail (\<lambda>t. kai_free_one n t depth st) v cdr)
      | _ \<Rightarrow> (case owned m x of None \<Rightarrow> None | Some vs \<Rightarrow> map_option (recycle v) (drop_all dec vs h)))"

lemma kai_free_one_take_apart:
  "kai_free_one (Suc n) v depth st h =
     (case h_cells h v of None \<Rightarrow> None | Some c \<Rightarrow> take_apart n v depth st (c_body c) (h_masks h) h)"
  by (auto simp: take_apart_def drop_tail_def [abs_def] drop_slot_child Let_def split: option.splits body.splits)

lemma blind_take_apart:
  assumes k: "\<And>v depth st. blind s b (kai_free_one n v depth st)" "blind s b (drain_loop n)"
  shows "blind s b (take_apart n v depth st x m)" "take_apart n v depth st x m h = Some h' \<Longrightarrow> h_cells h' v = None"
proof -
  have dec: "blind s b (kai_drop_child (kai_free_child n depth st) w)" for w
    by (intro blind_drop_child blind_free_child k)
  note tail = blind_tail [where k = "\<lambda>t. kai_free_one n t depth st", OF k(1)]
  have all: "blind s b (\<lambda>h. map_option (recycle v) (drop_all (kai_drop_child (kai_free_child n depth st)) vs h))" for vs
    by (intro blind_map_recycle blind_drop_all dec)
  show "blind s b (take_apart n v depth st x m)"
  proof (cases "\<exists>car cdr. x = Cons car cdr")
    case True
    then show ?thesis using blind_bind [OF dec tail(1)] by (auto simp: take_apart_def [abs_def])
  next
    case False
    then have "take_apart n v depth st x m = (\<lambda>h. case owned m x of None \<Rightarrow> None
        | Some vs \<Rightarrow> map_option (recycle v) (drop_all (kai_drop_child (kai_free_child n depth st)) vs h))"
      by (cases x) (simp_all add: take_apart_def [abs_def] Let_def)
    then show ?thesis using all by (cases "owned m x") (simp_all add: blind_def)
  qed
  show "take_apart n v depth st x m h = Some h' \<Longrightarrow> h_cells h' v = None"
    using tail(2) by (cases x) (auto simp: take_apart_def recycle_def Let_def split: option.splits bind_splits)
qed

lemma blind_release: "blind s b (kai_free_one n v depth st)" "blind s b (drain_loop n)"
proof (induction n arbitrary: v depth st)
  case 0
  { case 1 show ?case by (simp add: blind_def) }
  { case 2 show ?case by (simp add: blind_def) }
next
  case (Suc n)
  {
    case 1
    show ?case
    proof (cases "v = s")
      case False
      then show ?thesis unfolding kai_free_one_take_apart
        by (intro blind_match blind_take_apart Suc)
    next
      case True
      show ?thesis
      proof (rule blindI)
        fix h h' assume "kai_free_one (Suc n) v depth st h = Some h'"
        then have c: "take_apart n v depth st (c_body (the (h_cells h v))) (h_masks h) h = Some h'"
          unfolding kai_free_one_take_apart by (simp split: option.splits)
        show "dom (h_cells h') \<subseteq> dom (h_cells h)"
          by (rule blind_dom [OF blind_take_apart(1) [OF Suc] c])
        assume "h_cells h' s \<noteq> None"
        then show "kai_free_one (Suc n) v depth st (set_body s b h) = Some (set_body s b h')"
          using blind_take_apart(2) [OF Suc c] True by simp
      qed
    qed
  next
    case 2
    have step: "blind s b (\<lambda>h. Option.bind (Option.bind (Some (h\<lparr>h_stack := (h_stack h)\<lparr>fs_items := vs\<rparr>\<rparr>))
        (kai_free_one n v 0 True)) (drain_loop n))" for v vs
      using blind_bind [OF blind_bind [OF blind_stack [of s b "\<lambda>st. st\<lparr>fs_items := vs\<rparr>"] Suc(1)] Suc(2)] .
    show ?case
    proof (rule blindI)
      fix h h' assume d: "drain_loop (Suc n) h = Some h'"
      show "dom (h_cells h') \<subseteq> dom (h_cells h)"
        using d blind_dom [OF step, where h = h] by (auto split: list.splits)
      assume "h_cells h' s \<noteq> None"
      then show "drain_loop (Suc n) (set_body s b h) = Some (set_body s b h')"
        using d blind_eq [OF step, where h = h] by (auto split: list.splits)
    qed
  }
qed

lemma blind_decref: "blind s b (kai_decref n v)"
proof -
  have "kai_decref n v = kai_drop_child (\<lambda>p h. kai_free_one n p 0 False h) v"
    by (auto simp: kai_decref_def kai_drop_child_def)
  then show ?thesis using blind_drop_child [OF blind_release(1)] by simp
qed

text \<open>
  A value given back while cell \<open>s\<close> is hollow: the same happens whatever the cell holds at the time.
\<close>

lemma decref_around:
  assumes ok: "rc_ok (R + mset (addr_of v)) h" and s: "s \<in># R"
  shows "\<exists>h'. decref v h = Some h' \<and> decref v (set_body s b h) = Some (set_body s b h') \<and> rc_ok R h' \<and> shrinks h h'"
proof -
  obtain h' where h': "decref v h = Some h'" "rc_ok R h'" "shrinks h h'" using decref_result [OF ok] by blast
  have "h_cells h' s \<noteq> None" using rc_ok_dom(1) [OF h'(2)] s by blast
  from blind_eq [OF blind_decref h'(1) this, of b] show ?thesis using h' by simp
qed

end
