(* ===== verification/Kai_Variant.thy ===== *)
theory Kai_Variant
  imports Kai_Rc_Main
begin

unbundle bit_operations_syntax

text \<open>
  The constructor of variants, \<^verbatim>\<open>kai_variant_u\<close> of \<^verbatim>\<open>stage2/runtime/ranges.h\<close>, with the tables it keeps:
  the name and slot mask of every tag (\<^verbatim>\<open>heap.h\<close>), the singletons of constructors without arguments,
  and the interned variants whose arguments are immortal. A name is the address of its text, 0 for
  \<open>NULL\<close>; a pointer is hashed by its address. The second look-up under the lock is the first one, as
  one thread runs at a time; other threads are not modelled.
\<close>

section \<open>The tables\<close>

type_synonym cname = "64 word"

record nullary_bucket =
  nb_tag :: nat
  nb_name :: cname
  nb_value :: kvalue

record var_bucket =
  vb_tag :: nat
  vb_name :: cname
  vb_args :: "kvalue list"
  vb_value :: kvalue

record ctors =
  t_names :: "nat \<Rightarrow> cname"
  t_nullary :: "nat \<Rightarrow> nullary_bucket option"
  t_by_tag :: "nat \<Rightarrow> kvalue"
  t_vars :: "nat \<Rightarrow> var_bucket option"
  t_reusable :: "nat \<Rightarrow> 8 word"

definition KAI_NULLARY_SINGLETON_BUCKETS :: nat where "KAI_NULLARY_SINGLETON_BUCKETS = 64"
definition KAI_ENUM_TAG_MAX :: nat where "KAI_ENUM_TAG_MAX = 65536"
definition KAI_IMMORTAL_VAR_BUCKETS :: nat where "KAI_IMMORTAL_VAR_BUCKETS = 4096"
definition KAI_IMMORTAL_VAR_MAXN :: nat where "KAI_IMMORTAL_VAR_MAXN = 4"
definition KAI_IMMORTAL_VAR_PROBE :: nat where "KAI_IMMORTAL_VAR_PROBE = 16"
definition KAI_REUSABLE_TAG_MAX :: nat where "KAI_REUSABLE_TAG_MAX = 65536"

definition kai_varname_register :: "nat \<Rightarrow> cname \<Rightarrow> ctors \<Rightarrow> ctors" where
  "kai_varname_register tag name t =
     (if \<not> tag < KAI_VARIANT_TAG_SPACE \<or> name = 0 then t
      else if t_names t tag = 0 then t\<lparr>t_names := (t_names t)(tag := name)\<rparr> else t)"

text \<open>The result 0 stands for the empty text.\<close>

definition kai_variant_name_of :: "nat \<Rightarrow> ctors \<Rightarrow> cname" where
  "kai_variant_name_of tag t = (if \<not> tag < KAI_VARIANT_TAG_SPACE then 0 else t_names t tag)"

text \<open>Tags that the program rewrites in place.\<close>

fun kai_register_reusable_tags :: "nat list \<Rightarrow> ctors \<Rightarrow> ctors" where
  "kai_register_reusable_tags [] t = t"
| "kai_register_reusable_tags (tag # tags) t = kai_register_reusable_tags tags
     (if tag < KAI_REUSABLE_TAG_MAX
      then t\<lparr>t_reusable := (t_reusable t)(tag div 8 := t_reusable t (tag div 8) OR push_bit (tag mod 8) 1)\<rparr>
      else t)"

definition kai_tag_is_reusable :: "nat \<Rightarrow> ctors \<Rightarrow> bool" where
  "kai_tag_is_reusable tag t = (tag < KAI_REUSABLE_TAG_MAX \<and> drop_bit (tag mod 8) (t_reusable t (tag div 8)) AND 1 = 1)"

section \<open>Probing\<close>

text \<open>The loop both tables share: from one bucket to the next until an empty one or the bound.\<close>

primrec find_from :: "nat \<Rightarrow> (nat \<Rightarrow> nat) \<Rightarrow> ('b \<Rightarrow> bool) \<Rightarrow> (nat \<Rightarrow> 'b option) \<Rightarrow> nat \<Rightarrow> 'b option" where
  "find_from 0 nxt m t i = None"
| "find_from (Suc n) nxt m t i =
     (case t i of None \<Rightarrow> None | Some b \<Rightarrow> if m b then Some b else find_from n nxt m t (nxt i))"

primrec install_from :: "nat \<Rightarrow> (nat \<Rightarrow> nat) \<Rightarrow> 'b \<Rightarrow> (nat \<Rightarrow> 'b option) \<Rightarrow> nat \<Rightarrow> (nat \<Rightarrow> 'b option) option" where
  "install_from 0 nxt b t i = None"
| "install_from (Suc n) nxt b t i =
     (case t i of None \<Rightarrow> Some (t(i \<mapsto> b)) | Some _ \<Rightarrow> install_from n nxt b t (nxt i))"

definition nullary_next :: "nat \<Rightarrow> nat" where
  "nullary_next i = (i + 1) AND (KAI_NULLARY_SINGLETON_BUCKETS - 1)"

definition kai_nullary_hash :: "nat \<Rightarrow> cname \<Rightarrow> nat" where
  "kai_nullary_hash tag name =
     unat ((drop_bit 4 name XOR drop_bit 12 name XOR word_of_nat tag) AND word_of_nat (KAI_NULLARY_SINGLETON_BUCKETS - 1))"

definition kai_nullary_lookup :: "nat \<Rightarrow> cname \<Rightarrow> ctors \<Rightarrow> kvalue" where
  "kai_nullary_lookup tag name t =
     (case find_from KAI_NULLARY_SINGLETON_BUCKETS nullary_next (\<lambda>b. nb_tag b = tag \<and> nb_name b = name)
             (t_nullary t) (kai_nullary_hash tag name) of
        None \<Rightarrow> Null | Some b \<Rightarrow> nb_value b)"

definition kai_nullary_install :: "nat \<Rightarrow> cname \<Rightarrow> kvalue \<Rightarrow> ctors \<Rightarrow> ctors" where
  "kai_nullary_install tag name v t =
     (let t = (if tag < KAI_ENUM_TAG_MAX then t\<lparr>t_by_tag := (t_by_tag t)(tag := v)\<rparr> else t)
      in case install_from KAI_NULLARY_SINGLETON_BUCKETS nullary_next \<lparr>nb_tag = tag, nb_name = name, nb_value = v\<rparr>
                (t_nullary t) (kai_nullary_hash tag name) of
           None \<Rightarrow> t | Some tab \<Rightarrow> t\<lparr>t_nullary := tab\<rparr>)"

fun addr_word :: "kvalue \<Rightarrow> 64 word" where
  "addr_word Null = 0"
| "addr_word (Imm w) = w"
| "addr_word (Ptr p) = word_of_nat p"

definition hash_mult :: "64 word" where "hash_mult = 1315423911"

definition kai_immortal_slot_hash :: "nat \<Rightarrow> cname \<Rightarrow> kvalue list \<Rightarrow> nat" where
  "kai_immortal_slot_hash tag name vs =
     (let h = name * hash_mult XOR word_of_nat tag;
          h = h * hash_mult XOR word_of_nat (length vs);
          h = fold (\<lambda>v h. h * hash_mult XOR addr_word v) vs h;
          h = h XOR drop_bit 13 h
      in unat (h AND word_of_nat (KAI_IMMORTAL_VAR_BUCKETS - 1)))"

definition var_next :: "nat \<Rightarrow> nat" where
  "var_next i = (i + 1) AND (KAI_IMMORTAL_VAR_BUCKETS - 1)"

definition kai_immortal_slot_match :: "nat \<Rightarrow> cname \<Rightarrow> kvalue list \<Rightarrow> var_bucket \<Rightarrow> bool" where
  "kai_immortal_slot_match tag name vs b \<longleftrightarrow> vb_name b = name \<and> vb_tag b = tag
     \<and> length (vb_args b) = length vs \<and> vb_args b = vs"

definition kai_immortal_slot_lookup :: "nat \<Rightarrow> cname \<Rightarrow> kvalue list \<Rightarrow> ctors \<Rightarrow> kvalue" where
  "kai_immortal_slot_lookup tag name vs t =
     (case find_from KAI_IMMORTAL_VAR_PROBE var_next (kai_immortal_slot_match tag name vs)
             (t_vars t) (kai_immortal_slot_hash tag name vs) of
        None \<Rightarrow> Null | Some b \<Rightarrow> vb_value b)"

text \<open>\<open>None\<close> is the result 0: no bucket of the window is free.\<close>

definition kai_immortal_slot_install :: "nat \<Rightarrow> cname \<Rightarrow> kvalue list \<Rightarrow> kvalue \<Rightarrow> ctors \<Rightarrow> ctors option" where
  "kai_immortal_slot_install tag name vs v t =
     map_option (\<lambda>tab. t\<lparr>t_vars := tab\<rparr>)
       (install_from KAI_IMMORTAL_VAR_PROBE var_next \<lparr>vb_tag = tag, vb_name = name, vb_args = vs, vb_value = v\<rparr>
          (t_vars t) (kai_immortal_slot_hash tag name vs))"

section \<open>The constructor\<close>

text \<open>Reading \<^verbatim>\<open>slots[i].ptr\<close>; a raw slot has none.\<close>

fun slot_ptrs :: "var_slot list \<Rightarrow> kvalue list option" where
  "slot_ptrs [] = Some []"
| "slot_ptrs (Slot_ptr v # ss) = map_option ((#) v) (slot_ptrs ss)"
| "slot_ptrs (Slot_raw w # ss) = None"

definition kai_slot_internable :: "kvalue \<Rightarrow> heap \<Rightarrow> bool option" where
  "kai_slot_internable v h =
     (case v of
        Ptr p \<Rightarrow> do {
          c \<leftarrow> h_cells h p;
          Some (c_rc c = INT32_MAX \<and> tag_of (c_body c) \<in> {KAI_UNIT, KAI_BOOL, KAI_NIL, KAI_STR, KAI_VARIANT}) }
      | _ \<Rightarrow> Some False)"

fun all_internable :: "kvalue list \<Rightarrow> heap \<Rightarrow> bool option" where
  "all_internable [] h = Some True"
| "all_internable (v # vs) h = do {
     b \<leftarrow> kai_slot_internable v h;
     if b then all_internable vs h else Some False }"

definition kai_slots_all_immortal_ptr :: "kvalue list \<Rightarrow> heap \<Rightarrow> bool option" where
  "kai_slots_all_immortal_ptr vs h =
     (if length vs = 0 \<or> KAI_IMMORTAL_VAR_MAXN < length vs then Some False else all_internable vs h)"

text \<open>A cell with its slots; the header keeps 16 bits of the tag.\<close>

definition new_variant :: "nat \<Rightarrow> nat \<Rightarrow> var_slot list \<Rightarrow> heap \<Rightarrow> heap" where
  "new_variant p tag slots h = kai_alloc p (Variant (tag mod 65536) slots) h"

definition kai_variant_u_fast :: "nat \<Rightarrow> nat \<Rightarrow> var_slot list \<Rightarrow> heap \<Rightarrow> kvalue \<times> heap" where
  "kai_variant_u_fast p tag slots h = (Ptr p, new_variant p tag slots h)"

text \<open>\<open>p\<close> is the address the allocator hands out.\<close>

definition kai_variant_u :: "nat \<Rightarrow> nat \<Rightarrow> cname \<Rightarrow> 32 word \<Rightarrow> var_slot list \<Rightarrow> ctors \<Rightarrow> heap
    \<Rightarrow> (kvalue \<times> ctors \<times> heap) option" where
  "kai_variant_u p tag name msk slots t h =
     (let t = kai_varname_register tag name t; h = kai_slotmask_register tag msk h in
      if slots = [] \<and> name \<noteq> 0
      then let cached = kai_nullary_lookup tag name t in
        if cached \<noteq> Null then Some (cached, t, h)
        else let h = kai_slotmask_register (tag mod 65536) 0 (new_variant p tag [] h);
                 h = set_rc p INT32_MAX h
             in Some (Ptr p, kai_nullary_install tag name (Ptr p) t, h)
      else do {
        immortal \<leftarrow> (if msk = 0 \<and> name \<noteq> 0 \<and> \<not> kai_tag_is_reusable tag t
                    then do { vs \<leftarrow> slot_ptrs slots; b \<leftarrow> kai_slots_all_immortal_ptr vs h; Some (b, vs) }
                    else Some (False, []));
        case immortal of
          (True, vs) \<Rightarrow>
            let cached = kai_immortal_slot_lookup tag name vs t in
            if cached \<noteq> Null then Some (cached, t, h)
            else let h = set_rc p INT32_MAX (kai_slotmask_register (tag mod 65536) 0 (new_variant p tag slots h))
                 in (case kai_immortal_slot_install tag name vs (Ptr p) t of
                       Some t \<Rightarrow> Some (Ptr p, t, h)
                     | None \<Rightarrow> Some (Ptr p, t, set_rc p 1 h))
        | (False, _) \<Rightarrow>
            Some (Ptr p, t, kai_slotmask_register (tag mod 65536) msk (new_variant p tag slots h)) })"

definition kai_nullary_fast :: "nat \<Rightarrow> nat \<Rightarrow> cname \<Rightarrow> ctors \<Rightarrow> heap \<Rightarrow> (kvalue \<times> ctors \<times> heap) option" where
  "kai_nullary_fast p tag name t h =
     (if tag < KAI_ENUM_TAG_MAX \<and> t_by_tag t tag \<noteq> Null then Some (t_by_tag t tag, t, h)
      else kai_variant_u p tag name 0 [] t h)"

fun kai_register_payload_ctors :: "(nat \<times> cname \<times> 32 word) list \<Rightarrow> ctors \<Rightarrow> heap \<Rightarrow> ctors \<times> heap" where
  "kai_register_payload_ctors [] t h = (t, h)"
| "kai_register_payload_ctors ((tag, name, msk) # cs) t h =
     kai_register_payload_ctors cs (kai_varname_register tag name t) (kai_slotmask_register tag msk h)"


section \<open>Tables that only grow\<close>

lemma install_from_find:
  "install_from n nxt b t i = Some t' \<Longrightarrow> find_from n nxt m t i = None \<Longrightarrow> m b \<Longrightarrow> find_from n nxt m t' i = Some b"
proof (induction n arbitrary: i)
  case (Suc n)
  show ?case
  proof (cases "t i")
    case None
    then show ?thesis using Suc.prems by auto
  next
    case (Some b0)
    then have "t' i = Some b0" if "install_from k nxt b t j = Some t'" for k j
      using that by (induction k arbitrary: j) (auto split: option.splits if_splits)
    then show ?thesis using Suc Some by (auto split: if_splits)
  qed
qed simp

lemma install_from_le: "install_from n nxt b t i = Some t' \<Longrightarrow> \<exists>j. t j = None \<and> t' = t(j \<mapsto> b)"
  by (induction n arbitrary: i) (auto split: option.splits)

lemma find_from_le: "find_from n nxt m t i = Some b \<Longrightarrow> t \<subseteq>\<^sub>m t' \<Longrightarrow> find_from n nxt m t' i = Some b"
  by (induction n arbitrary: i) (auto simp: map_le_def dom_def split: option.splits if_splits)

lemma find_from_Some: "find_from n nxt m t i = Some b \<Longrightarrow> m b \<and> (\<exists>j. t j = Some b)"
  by (induction n arbitrary: i) (auto split: option.splits if_splits)

text \<open>A table in which a key, once found, is found for good.\<close>

locale intern_table =
  fixes lookup :: "'k \<Rightarrow> 't \<Rightarrow> 'v option"
    and install :: "'k \<Rightarrow> 'v \<Rightarrow> 't \<Rightarrow> 't option"
    and le :: "'t \<Rightarrow> 't \<Rightarrow> bool"
  assumes install: "lookup k t = None \<Longrightarrow> install k v t = Some t' \<Longrightarrow> lookup k t' = Some v"
    and install_le: "install k v t = Some t' \<Longrightarrow> le t t'"
    and le: "le t t' \<Longrightarrow> lookup k t = Some v \<Longrightarrow> lookup k t' = Some v"
begin

text \<open>The protocol of the constructors: look the key up, install the new value if it is not there.\<close>

definition intern :: "'k \<Rightarrow> 'v \<Rightarrow> 't \<Rightarrow> 'v \<times> 't" where
  "intern k v t = (case lookup k t of
       Some v' \<Rightarrow> (v', t)
     | None \<Rightarrow> (v, case install k v t of None \<Rightarrow> t | Some t' \<Rightarrow> t'))"

lemma intern_le: "le t (snd (intern k v t)) \<or> snd (intern k v t) = t"
  using install_le by (auto simp: intern_def split: option.splits)

lemma intern_keeps: "lookup k t = Some v \<Longrightarrow> lookup k (snd (intern k' v' t)) = Some v"
  using intern_le [of t k' v'] le by metis

lemma intern_again:
  assumes "install k v t \<noteq> None \<or> lookup k t \<noteq> None"
  shows "lookup k (snd (intern k v t)) = Some (fst (intern k v t))"
  using assms install by (auto simp: intern_def split: option.splits)

end

abbreviation nullary_find :: "nat \<times> cname \<Rightarrow> (nat \<Rightarrow> nullary_bucket option) \<Rightarrow> kvalue option" where
  "nullary_find k t \<equiv> map_option nb_value
     (find_from KAI_NULLARY_SINGLETON_BUCKETS nullary_next (\<lambda>b. nb_tag b = fst k \<and> nb_name b = snd k) t
       (kai_nullary_hash (fst k) (snd k)))"

abbreviation nullary_put :: "nat \<times> cname \<Rightarrow> kvalue \<Rightarrow> (nat \<Rightarrow> nullary_bucket option) \<Rightarrow> (nat \<Rightarrow> nullary_bucket option) option" where
  "nullary_put k v t \<equiv> install_from KAI_NULLARY_SINGLETON_BUCKETS nullary_next
     \<lparr>nb_tag = fst k, nb_name = snd k, nb_value = v\<rparr> t (kai_nullary_hash (fst k) (snd k))"

interpretation nullary: intern_table nullary_find nullary_put map_le
proof unfold_locales
  fix k :: "nat \<times> cname" and t t' :: "nat \<Rightarrow> nullary_bucket option" and v
  assume "nullary_find k t = None" "nullary_put k v t = Some t'"
  then show "nullary_find k t' = Some v" by (auto dest: install_from_find)
next
  fix k :: "nat \<times> cname" and t t' :: "nat \<Rightarrow> nullary_bucket option" and v
  assume "nullary_put k v t = Some t'"
  then show "t \<subseteq>\<^sub>m t'" using install_from_le by (fastforce simp: map_le_def)
qed (auto dest: find_from_le)

abbreviation var_find :: "nat \<times> cname \<times> kvalue list \<Rightarrow> (nat \<Rightarrow> var_bucket option) \<Rightarrow> kvalue option" where
  "var_find k t \<equiv> map_option vb_value
     (case k of (tag, name, vs) \<Rightarrow> find_from KAI_IMMORTAL_VAR_PROBE var_next (kai_immortal_slot_match tag name vs) t
       (kai_immortal_slot_hash tag name vs))"

abbreviation var_put :: "nat \<times> cname \<times> kvalue list \<Rightarrow> kvalue \<Rightarrow> (nat \<Rightarrow> var_bucket option) \<Rightarrow> (nat \<Rightarrow> var_bucket option) option" where
  "var_put k v t \<equiv> case k of (tag, name, vs) \<Rightarrow> install_from KAI_IMMORTAL_VAR_PROBE var_next
     \<lparr>vb_tag = tag, vb_name = name, vb_args = vs, vb_value = v\<rparr> t (kai_immortal_slot_hash tag name vs)"

interpretation vars: intern_table var_find var_put map_le
proof unfold_locales
  fix k :: "nat \<times> cname \<times> kvalue list" and t t' :: "nat \<Rightarrow> var_bucket option" and v
  assume "var_find k t = None" "var_put k v t = Some t'"
  then show "var_find k t' = Some v"
    by (cases k) (auto simp: kai_immortal_slot_match_def dest!: install_from_find [where m = "kai_immortal_slot_match _ _ _"])
next
  fix k :: "nat \<times> cname \<times> kvalue list" and t t' :: "nat \<Rightarrow> var_bucket option" and v
  assume "var_put k v t = Some t'"
  then show "t \<subseteq>\<^sub>m t'" using install_from_le by (cases k) (fastforce simp: map_le_def)
qed (auto dest: find_from_le split: prod.splits)


section \<open>What the tables and the masks say of the heap\<close>

text \<open>The mask of every variant cell was recorded before the cell was made.\<close>

definition tags_known :: "heap \<Rightarrow> bool" where
  "tags_known h \<longleftrightarrow> (\<forall>p c tag ss. h_cells h p = Some c \<and> c_body c = Variant tag ss \<longrightarrow> h_masks h tag \<noteq> 0 \<and> tag < KAI_VARIANT_TAG_SPACE)"

definition atom :: "kvalue \<Rightarrow> nat \<Rightarrow> var_slot list \<Rightarrow> heap \<Rightarrow> bool" where
  "atom v tag ss h \<longleftrightarrow> (\<exists>p c. v = Ptr p \<and> h_cells h p = Some c \<and> immortal c \<and> c_body c = Variant tag ss)"

definition ctors_ok :: "ctors \<Rightarrow> heap \<Rightarrow> bool" where
  "ctors_ok t h \<longleftrightarrow>
     (\<forall>i b. t_nullary t i = Some b \<longrightarrow> atom (nb_value b) (nb_tag b) [] h)
   \<and> (\<forall>i b. t_vars t i = Some b \<longrightarrow> atom (vb_value b) (vb_tag b) (map Slot_ptr (vb_args b)) h)
   \<and> (\<forall>tag. t_by_tag t tag \<noteq> Null \<longrightarrow> atom (t_by_tag t tag) tag [] h)"

definition keeps_cells :: "heap \<Rightarrow> heap \<Rightarrow> bool" where
  "keeps_cells h h' \<longleftrightarrow> (\<forall>p c. h_cells h p = Some c \<longrightarrow> h_cells h' p = Some c)"

lemma keeps_cells_refl [simp]: "keeps_cells h h"
  by (simp add: keeps_cells_def)

lemma keeps_cells_trans: "keeps_cells h1 h2 \<Longrightarrow> keeps_cells h2 h3 \<Longrightarrow> keeps_cells h1 h3"
  by (simp add: keeps_cells_def)

lemma atom_keeps: "atom v tag ss h \<Longrightarrow> keeps_cells h h' \<Longrightarrow> atom v tag ss h'"
  by (auto simp: atom_def keeps_cells_def)

lemma atom_shrinks: "atom v tag ss h \<Longrightarrow> shrinks h h' \<Longrightarrow> atom v tag ss h'"
  by (auto simp: atom_def shrinks_def)

lemma ctors_ok_keeps: "ctors_ok t h \<Longrightarrow> keeps_cells h h' \<Longrightarrow> ctors_ok t h'"
  unfolding ctors_ok_def using atom_keeps by blast

lemma ctors_ok_shrinks: "ctors_ok t h \<Longrightarrow> shrinks h h' \<Longrightarrow> ctors_ok t h'"
  unfolding ctors_ok_def using atom_shrinks by blast

lemma tags_known_shrinks: "tags_known h \<Longrightarrow> shrinks h h' \<Longrightarrow> tags_known h'"
  unfolding tags_known_def shrinks_def by metis

lemma kai_varname_register_simps [simp]:
  "t_nullary (kai_varname_register tag name t) = t_nullary t" "t_vars (kai_varname_register tag name t) = t_vars t"
  "t_by_tag (kai_varname_register tag name t) = t_by_tag t" "t_reusable (kai_varname_register tag name t) = t_reusable t"
  by (simp_all add: kai_varname_register_def)

lemma ctors_ok_name [simp]: "ctors_ok (kai_varname_register tag name t) h = ctors_ok t h"
  by (simp add: ctors_ok_def)

lemma kai_nullary_lookup_find:
  "kai_nullary_lookup tag name t = (case nullary_find (tag, name) (t_nullary t) of None \<Rightarrow> Null | Some v \<Rightarrow> v)"
  by (auto simp: kai_nullary_lookup_def split: option.splits)

lemma kai_immortal_slot_lookup_find:
  "kai_immortal_slot_lookup tag name vs t = (case var_find (tag, name, vs) (t_vars t) of None \<Rightarrow> Null | Some v \<Rightarrow> v)"
  by (auto simp: kai_immortal_slot_lookup_def split: option.splits)

lemma nullary_lookup_atom:
  assumes "ctors_ok t h" "kai_nullary_lookup tag name t \<noteq> Null"
  shows "atom (kai_nullary_lookup tag name t) tag [] h"
  using assms by (auto simp: kai_nullary_lookup_def ctors_ok_def split: option.splits dest!: find_from_Some)

lemma var_lookup_atom:
  assumes "ctors_ok t h" "kai_immortal_slot_lookup tag name vs t \<noteq> Null"
  shows "atom (kai_immortal_slot_lookup tag name vs t) tag (map Slot_ptr vs) h"
  using assms by (auto simp: kai_immortal_slot_lookup_def kai_immortal_slot_match_def ctors_ok_def
      split: option.splits dest!: find_from_Some)

lemma nullary_install_ok:
  assumes "ctors_ok t h" "atom v tag [] h"
  shows "ctors_ok (kai_nullary_install tag name v t) h"
proof -
  have "ctors_ok (if tag < KAI_ENUM_TAG_MAX then t\<lparr>t_by_tag := (t_by_tag t)(tag := v)\<rparr> else t) h"
    using assms by (auto simp: ctors_ok_def)
  then show ?thesis
    using assms(2) by (auto simp: kai_nullary_install_def ctors_ok_def Let_def split: option.splits if_splits
      dest!: install_from_le)
qed

lemma var_install_ok:
  assumes "ctors_ok t h" "atom v tag (map Slot_ptr vs) h" "kai_immortal_slot_install tag name vs v t = Some t'"
  shows "ctors_ok t' h"
  using assms by (auto simp: kai_immortal_slot_install_def ctors_ok_def split: if_splits dest!: install_from_le)

section \<open>Recording a mask, making a cell immortal\<close>

lemma register_simps [simp]:
  "h_cells (kai_slotmask_register tag m h) = h_cells h" "h_stack (kai_slotmask_register tag m h) = h_stack h"
  by (simp_all add: kai_slotmask_register_def)

lemma recorded [simp]: "KAI_SLOTMASK_RECORDED OR ucast (m :: 32 word) \<noteq> 0"
proof -
  have "bit (KAI_SLOTMASK_RECORDED OR ucast m) 32" by (simp add: KAI_SLOTMASK_RECORDED_def bit_or_iff bit_push_bit_iff)
  then show ?thesis by auto
qed

lemma register_masks:
  "h_masks (kai_slotmask_register tag m h) t = (if t = tag \<and> tag < KAI_VARIANT_TAG_SPACE \<and> h_masks h tag = 0
     then KAI_SLOTMASK_RECORDED OR ucast m else h_masks h t)"
  by (simp add: kai_slotmask_register_def)

lemma register_known: "tag < KAI_VARIANT_TAG_SPACE \<Longrightarrow> h_masks (kai_slotmask_register tag m h) tag \<noteq> 0"
  by (simp add: register_masks)

lemma register_keeps: "keeps_cells h (kai_slotmask_register tag m h)"
  by (simp add: keeps_cells_def)

lemma register_twice [simp]:
  "tag < KAI_VARIANT_TAG_SPACE \<Longrightarrow> h_masks h tag \<noteq> 0 \<Longrightarrow> kai_slotmask_register tag m h = h"
  by (simp add: kai_slotmask_register_def)

lemma owned_masks:
  assumes "\<And>tag ss. b = Variant tag ss \<Longrightarrow> masks tag = masks' tag"
  shows "owned masks b = owned masks' b"
  using assms by (cases b) (auto simp: kai_slot_mask_of_def)

lemma register_ok:
  assumes "rc_ok R h" "tags_known h"
  shows "rc_ok R (kai_slotmask_register tag m h)" "tags_known (kai_slotmask_register tag m h)"
proof -
  let ?h = "kai_slotmask_register tag m h"
  have own: "owned (h_masks ?h) (c_body c) = owned (h_masks h) (c_body c)" if "h_cells h p = Some c" for p c
    by (rule owned_masks) (use assms(2) that in \<open>auto simp: tags_known_def register_masks\<close>)
  then have "kids ?h p = kids h p" for p by (auto simp: kids_def split: option.splits)
  then have "refs ?h A = refs h A" for A by (simp add: refs_def)
  then have "counted {} {} R ?h = counted {} {} R h" using own unfolding counted_def by auto
  then show "rc_ok R ?h" using assms(1) by (simp add: rc_ok_def stack_ok_def)
  show "tags_known ?h" using assms(2) unfolding tags_known_def by (auto simp: register_masks)
qed

lemma immortal_refs:
  assumes "rc_ok R h" "\<forall>q\<in>#S. \<exists>c. h_cells h q = Some c \<and> immortal c"
  shows "rc_ok (R + S) h" "R = R' + S \<Longrightarrow> rc_ok R' h"
proof -
  have C: "counted {} {} R h" "stack_ok False {} h" using assms by (simp_all add: rc_ok_def)
  have S: "count S p = 0" if "h_cells h p = Some c" "\<not> immortal c" for p c
    using assms(2) that by (auto simp: not_in_iff [symmetric])
  have "set_mset S \<subseteq> dom (h_cells h)" using assms(2) by blast
  then have "counted {} {} (R + S) h" using C(1) S unfolding counted_def by auto
  then show "rc_ok (R + S) h" using C(2) by (simp add: rc_ok_def)
  assume "R = R' + S"
  then have "counted {} {} R' h" using C(1) S unfolding counted_def by auto
  then show "rc_ok R' h" using C(2) by (simp add: rc_ok_def)
qed

lemma immortalize_ok:
  assumes "rc_ok R h"
  shows "rc_ok R (set_rc p INT32_MAX h)"
proof -
  have "INT32_MAX \<noteq> KAI_RC_SPECIAL" by (simp add: INT32_MAX_def KAI_RC_SPECIAL_def)
  then have "counted {} {} R (set_rc p INT32_MAX h)"
    using assms unfolding rc_ok_def counted_def set_rc_simps set_rc_refs
    by (auto simp: set_rc_cells immortal_def split: if_splits)
  then show ?thesis using assms by (simp add: rc_ok_def stack_ok_def)
qed


section \<open>Building a variant\<close>

lemma slot_values_zero: "slot_values 0 i slots = slot_ptrs slots"
  by (induction slots arbitrary: i) (auto split: var_slot.splits)

lemma slot_ptrs_map: "slot_ptrs slots = Some vs \<Longrightarrow> slots = map Slot_ptr vs"
  by (induction slots arbitrary: vs rule: slot_ptrs.induct) auto

lemma all_internable_result:
  assumes "set_mset (addrs vs) \<subseteq> dom (h_cells h)"
  shows "\<exists>b. all_internable vs h = Some b \<and> (b \<longrightarrow> (\<forall>q\<in>#addrs vs. \<exists>c. h_cells h q = Some c \<and> immortal c))"
  using assms
proof (induction vs)
  case Nil
  then show ?case by (intro exI [of _ True]) simp
next
  case (Cons v vs)
  then show ?case
    by (cases v) (auto simp: kai_slot_internable_def immortal_def)
qed

lemma all_immortal_result:
  assumes "set_mset (addrs vs) \<subseteq> dom (h_cells h)"
  shows "\<exists>b. kai_slots_all_immortal_ptr vs h = Some b \<and> (b \<longrightarrow> (\<forall>q\<in>#addrs vs. \<exists>c. h_cells h q = Some c \<and> immortal c))"
proof (cases "length vs = 0 \<or> KAI_IMMORTAL_VAR_MAXN < length vs")
  case True
  then show ?thesis by (intro exI [of _ False]) (auto simp: kai_slots_all_immortal_ptr_def)
next
  case False
  then show ?thesis using all_internable_result [OF assms] by (auto simp: kai_slots_all_immortal_ptr_def)
qed

definition mask_agrees :: "nat \<Rightarrow> 32 word \<Rightarrow> heap \<Rightarrow> bool" where
  "mask_agrees tag msk h \<longleftrightarrow> tag < KAI_VARIANT_TAG_SPACE \<and> (h_masks h tag = 0 \<or> kai_slot_mask_of (h_masks h) tag = msk)"

lemma mask_of_register: "mask_agrees tag msk h \<Longrightarrow> kai_slot_mask_of (h_masks (kai_slotmask_register tag msk h)) tag = msk"
proof -
  have "(ucast KAI_SLOTMASK_RECORDED :: 32 word) = 0" by (simp add: KAI_SLOTMASK_RECORDED_def)
  moreover have "ucast (ucast msk :: 64 word) = msk" by (rule bit_word_eqI) (auto simp: bit_simps)
  ultimately have "ucast (KAI_SLOTMASK_RECORDED OR ucast msk) = msk" by (simp add: unsigned_or_eq)
  then show "mask_agrees tag msk h \<Longrightarrow> ?thesis"
    by (auto simp: mask_agrees_def kai_slot_mask_of_def register_masks)
qed

text \<open>What the constructor promises: a value with the constructor and the slots, on a heap whose counts are right.\<close>

definition builds :: "nat multiset \<Rightarrow> nat \<Rightarrow> nat \<Rightarrow> var_slot list \<Rightarrow> heap \<Rightarrow> (kvalue \<times> ctors \<times> heap) \<Rightarrow> bool" where
  "builds R p tag slots h r \<longleftrightarrow> (case r of (v, t, h') \<Rightarrow>
     rc_ok (R + mset (addr_of v)) h' \<and> tags_known h' \<and> ctors_ok t h' \<and> keeps_cells h h'
   \<and> (\<forall>q. q \<noteq> p \<longrightarrow> h_cells h' q = h_cells h q)
   \<and> (\<exists>q c. v = Ptr q \<and> h_cells h' q = Some c \<and> c_body c = Variant tag slots))"

lemma new_variant_ok:
  assumes ok: "rc_ok (R + addrs vs) h" "tags_known h" and p: "h_cells h p = None"
    and tag: "h_masks h tag \<noteq> 0" "tag < KAI_VARIANT_TAG_SPACE"
    and vs: "slot_values (kai_slot_mask_of (h_masks h) tag) 0 slots = Some vs"
  shows "rc_ok (R + {#p#}) (new_variant p tag slots h)" "tags_known (new_variant p tag slots h)"
    "keeps_cells h (new_variant p tag slots h)" "q \<noteq> p \<Longrightarrow> h_cells (new_variant p tag slots h) q = h_cells h q"
    "h_cells (new_variant p tag slots h) p = Some \<lparr>c_rc = 1, c_body = Variant tag slots\<rparr>"
    "h_masks (new_variant p tag slots h) = h_masks h"
proof -
  have eq: "new_variant p tag slots h = kai_alloc p (Variant tag slots) h"
    using tag(2) by (simp add: new_variant_def KAI_VARIANT_TAG_SPACE_def)
  show "rc_ok (R + {#p#}) (new_variant p tag slots h)" unfolding eq by (rule alloc_ok [OF ok(1) p]) (simp add: vs)
  show "tags_known (new_variant p tag slots h)" using ok(2) tag unfolding eq tags_known_def by (auto simp: kai_alloc_def)
  show "keeps_cells h (new_variant p tag slots h)" using p unfolding eq by (auto simp: keeps_cells_def kai_alloc_def)
qed (use tag in \<open>simp_all add: new_variant_def kai_alloc_def KAI_VARIANT_TAG_SPACE_def\<close>)

lemma set_rc_fresh:
  assumes "h_cells h p = None" "keeps_cells h h'"
  shows "keeps_cells h (set_rc p r h')"
  using assms by (auto simp: keeps_cells_def set_rc_cells)

lemma set_rc_tags: "tags_known h \<Longrightarrow> tags_known (set_rc p r h)"
proof -
  assume known: "tags_known h"
  have "\<exists>d. h_cells h q = Some d \<and> c_body d = c_body c" if "h_cells (set_rc p r h) q = Some c" for q c
    using that by (auto simp: set_rc_cells split: if_splits)
  then show ?thesis using known unfolding tags_known_def set_rc_simps by metis
qed

theorem kai_variant_u_builds:
  assumes ok: "rc_ok (R + addrs vs) h" "tags_known h" "ctors_ok t h" and p: "h_cells h p = None"
    and agrees: "mask_agrees tag msk h" and slots: "slot_values msk 0 slots = Some vs"
  shows "\<exists>r. kai_variant_u p tag name msk slots t h = Some r \<and> builds R p tag slots h r"
proof -
  let ?t = "kai_varname_register tag name t" and ?h = "kai_slotmask_register tag msk h"
  let ?new = "new_variant p tag slots ?h"
  have h: "rc_ok (R + addrs vs) ?h" "tags_known ?h" "ctors_ok ?t ?h" "h_cells ?h p = None"
    using register_ok ok p ctors_ok_keeps [OF _ register_keeps] by simp_all
  have tag: "h_masks ?h tag \<noteq> 0" "tag < KAI_VARIANT_TAG_SPACE" using agrees register_known by (auto simp: mask_agrees_def)
  have vs: "slot_values (kai_slot_mask_of (h_masks ?h) tag) 0 slots = Some vs" using mask_of_register [OF agrees] slots by simp
  note new = new_variant_ok [OF h(1,2,4) tag vs]
  have tag16: "tag mod 65536 = tag" using tag(2) by (simp add: KAI_VARIANT_TAG_SPACE_def)
  have reg: "kai_slotmask_register tag m ?new = ?new" for m using new(6) tag by simp
  have keeps: "keeps_cells h ?new" using new(3) by (simp add: keeps_cells_def)
  have cached: "builds R p tag slots h (v, ?t, ?h)"
    if "atom v tag slots ?h" "\<forall>q\<in>#addrs vs. \<exists>c. h_cells ?h q = Some c \<and> immortal c" for v
  proof -
    have "rc_ok R ?h" using immortal_refs(2) [OF h(1) that(2)] by simp
    then have "rc_ok (R + mset (addr_of v)) ?h"
      by (rule immortal_refs(1)) (use that(1) in \<open>auto simp: atom_def\<close>)
    then show ?thesis using h that(1) by (auto simp: builds_def atom_def keeps_cells_def)
  qed
  have fresh: "builds R p tag slots h (Ptr p, ?t, ?new)"
    using new keeps ctors_ok_keeps [OF h(3) new(3)] by (auto simp: builds_def)
  have immortal: "builds R p tag slots h (Ptr p, t', set_rc p INT32_MAX ?new)" "atom (Ptr p) tag slots (set_rc p INT32_MAX ?new)"
    if "ctors_ok t' (set_rc p INT32_MAX ?new)" for t'
    using immortalize_ok [OF new(1)] set_rc_tags [OF new(2)] set_rc_fresh [OF p keeps] that new(4,5)
    by (auto simp: builds_def set_rc_cells atom_def immortal_def)
  have at: "atom (Ptr p) tag slots (set_rc p INT32_MAX ?new)" "ctors_ok ?t (set_rc p INT32_MAX ?new)"
    using new(5) ctors_ok_keeps [OF h(3) set_rc_fresh [OF h(4) new(3)]] by (auto simp: set_rc_cells atom_def immortal_def)
  show ?thesis
  proof (cases "slots = [] \<and> name \<noteq> 0")
    case True
    then have "vs = []" using slots by simp
    show ?thesis
    proof (cases "kai_nullary_lookup tag name ?t = Null")
      case lookup: True
      have "builds R p tag slots h (Ptr p, kai_nullary_install tag name (Ptr p) ?t, set_rc p INT32_MAX ?new)"
        by (rule immortal(1), rule nullary_install_ok) (use at True in auto)
      then show ?thesis using True lookup reg tag16 by (simp add: kai_variant_u_def Let_def)
    next
      case False
      then show ?thesis using True cached [OF _] nullary_lookup_atom [OF h(3), of tag name] \<open>vs = []\<close>
        by (simp add: kai_variant_u_def Let_def)
    qed
  next
    case payload: False
    show ?thesis
    proof (cases "msk = 0 \<and> name \<noteq> 0 \<and> \<not> kai_tag_is_reusable tag ?t")
      case True
      then have ptrs: "slot_ptrs slots = Some vs" using slots by (simp add: slot_values_zero)
      have "set_mset (addrs vs) \<subseteq> dom (h_cells ?h)" using rc_ok_dom(1) [OF h(1)] by simp
      then obtain b where b: "kai_slots_all_immortal_ptr vs ?h = Some b"
          "b \<longrightarrow> (\<forall>q\<in>#addrs vs. \<exists>c. h_cells ?h q = Some c \<and> immortal c)"
        using all_immortal_result by blast
      show ?thesis
      proof (cases b)
        case False
        then show ?thesis using payload True ptrs b reg tag16 fresh by (simp add: kai_variant_u_def Let_def)
      next
        case b_True: True
        let ?c = "kai_immortal_slot_lookup tag name vs ?t"
        have slots_eq: "slots = map Slot_ptr vs" using slot_ptrs_map [OF ptrs] .
        show ?thesis
        proof (cases "?c = Null")
          case False
          then have "builds R p tag slots h (?c, ?t, ?h)"
            using cached var_lookup_atom [OF h(3) False] b b_True slots_eq by simp
          then show ?thesis using payload True ptrs b b_True False by (simp add: kai_variant_u_def Let_def)
        next
          case lookup: True
          show ?thesis
          proof (cases "kai_immortal_slot_install tag name vs (Ptr p) ?t")
            case None
            have "set_rc p 1 ?new = ?new" using new(5) by (cases ?new) (auto simp: set_rc_def fun_eq_iff)
            then show ?thesis using payload True ptrs b b_True lookup None fresh reg tag16
              by (simp add: kai_variant_u_def Let_def)
          next
            case (Some t')
            have "ctors_ok t' (set_rc p INT32_MAX ?new)"
              using var_install_ok [OF at(2) _ Some] at(1) slots_eq by simp
            from immortal(1) [OF this] show ?thesis using payload True ptrs b b_True lookup Some reg tag16
              by (simp add: kai_variant_u_def Let_def)
          qed
        qed
      qed
    next
      case False
      then show ?thesis using payload reg tag16 fresh by (auto simp: kai_variant_u_def Let_def)
    qed
  qed
qed


section \<open>Interning\<close>

definition immortals_kept :: "heap \<Rightarrow> heap \<Rightarrow> bool" where
  "immortals_kept h h' \<longleftrightarrow> (\<forall>p c. h_cells h p = Some c \<and> immortal c \<longrightarrow> h_cells h' p = Some c)"

lemma immortals_kept_refl [simp]: "immortals_kept h h"
  by (simp add: immortals_kept_def)

lemma immortals_kept_trans: "immortals_kept h1 h2 \<Longrightarrow> immortals_kept h2 h3 \<Longrightarrow> immortals_kept h1 h3"
  by (simp add: immortals_kept_def)

lemma shrinks_immortals: "shrinks h h' \<Longrightarrow> immortals_kept h h'"
  by (simp add: shrinks_def immortals_kept_def)

text \<open>What may happen to the tables and the heap: variants are built, and the rest of the program does
  what it likes with cells that are not immortal.\<close>

inductive later :: "ctors \<Rightarrow> heap \<Rightarrow> ctors \<Rightarrow> heap \<Rightarrow> bool" for t h where
  start: "later t h t h"
| build: "later t h t1 h1 \<Longrightarrow> h_cells h1 p = None \<Longrightarrow> kai_variant_u p tag name msk slots t1 h1 = Some (v, t2, h2)
    \<Longrightarrow> later t h t2 h2"
| other: "later t h t1 h1 \<Longrightarrow> immortals_kept h1 h2 \<Longrightarrow> later t h t1 h2"

definition tables_le :: "ctors \<Rightarrow> ctors \<Rightarrow> bool" where
  "tables_le t t' \<longleftrightarrow> t_nullary t \<subseteq>\<^sub>m t_nullary t' \<and> t_vars t \<subseteq>\<^sub>m t_vars t' \<and> t_reusable t' = t_reusable t"

lemma tables_le_refl [simp]: "tables_le t t"
  by (simp add: tables_le_def)

lemma tables_le_trans: "tables_le t1 t2 \<Longrightarrow> tables_le t2 t3 \<Longrightarrow> tables_le t1 t3"
  by (auto simp: tables_le_def intro: map_le_trans)

lemma name_le [simp]: "tables_le t (kai_varname_register tag name t)"
  by (simp add: tables_le_def)

lemma nullary_install_le: "tables_le t (kai_nullary_install tag name v t)"
  using nullary.install_le [where k = "(tag, name)" and v = v]
  by (auto simp: kai_nullary_install_def tables_le_def Let_def split: option.splits)

lemma var_install_le: "kai_immortal_slot_install tag name vs v t = Some t' \<Longrightarrow> tables_le t t'"
  using vars.install_le [where k = "(tag, name, vs)" and v = v] by (auto simp: kai_immortal_slot_install_def tables_le_def)

lemma new_immortals: "h_cells h p = None \<Longrightarrow> immortals_kept h (new_variant p tag slots h)"
  by (auto simp: immortals_kept_def new_variant_def kai_alloc_def)

lemma set_rc_immortals: "h_cells h p = None \<Longrightarrow> immortals_kept h h' \<Longrightarrow> immortals_kept h (set_rc p r h')"
  by (auto simp: immortals_kept_def set_rc_cells)

lemma register_immortals [simp]:
  "immortals_kept h (kai_slotmask_register tag m h') = immortals_kept h h'"
  "immortals_kept (kai_slotmask_register tag m h) h' = immortals_kept h h'"
  by (simp_all add: immortals_kept_def)

lemma kai_variant_u_grows:
  assumes "kai_variant_u p tag name msk slots t h = Some (v, t', h')" "h_cells h p = None"
  shows "tables_le t t' \<and> immortals_kept h h'"
proof -
  let ?t = "kai_varname_register tag name t" and ?h = "kai_slotmask_register tag msk h"
  have new: "immortals_kept h (new_variant p tag slots ?h)" using new_immortals [of ?h p tag slots] assms(2) by simp
  then have rc: "immortals_kept h (set_rc p r (new_variant p tag slots ?h))"
      "immortals_kept h (set_rc p r (kai_slotmask_register tag' m (new_variant p tag slots ?h)))" for r tag' m
    using set_rc_immortals assms(2) by simp_all
  have nul: "tables_le t (kai_nullary_install tag name (Ptr p) ?t)"
    using tables_le_trans [OF name_le nullary_install_le] .
  have var: "kai_immortal_slot_install tag name vs (Ptr p) ?t = Some t1 \<Longrightarrow> tables_le t t1" for vs t1
    using tables_le_trans [OF name_le var_install_le] .
  show ?thesis
    using assms(1) new rc nul var
    by (auto simp: kai_variant_u_def Let_def split: if_splits option.splits prod.splits bool.splits bind_splits)
qed

lemma later_grows: "later t h t' h' \<Longrightarrow> tables_le t t' \<and> immortals_kept h h'"
  by (induction rule: later.induct) (use kai_variant_u_grows tables_le_trans immortals_kept_trans in \<open>fastforce+\<close>)

lemma all_internable_kept: "all_internable vs h = Some True \<Longrightarrow> immortals_kept h h' \<Longrightarrow> all_internable vs h' = Some True"
proof (induction vs)
  case (Cons v vs)
  then show ?case
    by (cases v) (auto simp: kai_slot_internable_def immortals_kept_def immortal_def split: bind_splits if_splits)
qed simp

text \<open>
  A loop over a table of \<open>m\<close> buckets that tries \<open>n\<close> of them in turn fails only when these are taken.
  The loop of the singletons visits every bucket, the other one a window of 16.
\<close>

lemma install_from_room:
  assumes nxt: "\<And>i. nxt i = Suc i mod m"
  shows "install_from n nxt b t i = None \<Longrightarrow> i < m \<Longrightarrow> k < n \<Longrightarrow> t ((i + k) mod m) \<noteq> None"
proof (induction n arbitrary: i k)
  case (Suc n)
  show ?case
  proof (cases k)
    case 0
    then show ?thesis using Suc.prems by (auto split: option.splits)
  next
    case (Suc k')
    have "t ((Suc i mod m + k') mod m) \<noteq> None"
      by (rule Suc.IH) (use Suc.prems Suc in \<open>auto simp: nxt split: option.splits\<close>)
    then show ?thesis using Suc by (simp add: mod_add_left_eq)
  qed
qed simp

lemma nullary_next_mod: "nullary_next i = Suc i mod 64"
  using take_bit_eq_mask [of 6 "i + 1"] by (simp add: nullary_next_def KAI_NULLARY_SINGLETON_BUCKETS_def take_bit_eq_mod mask_eq_exp_minus_1)

lemma var_next_mod: "var_next i = Suc i mod 4096"
  using take_bit_eq_mask [of 12 "i + 1"] by (simp add: var_next_def KAI_IMMORTAL_VAR_BUCKETS_def take_bit_eq_mod mask_eq_exp_minus_1)

lemma unat_and_less: "unat n < k \<Longrightarrow> unat (w AND n) < k" for n :: "64 word"
  by (rule le_less_trans [of _ "unat n"], unfold word_le_nat_alt [symmetric]) (simp_all add: word_and_le1)

lemma nullary_put_room:
  assumes "i < 64" "t i = None"
  shows "nullary_put k v t \<noteq> None"
proof
  let ?i = "kai_nullary_hash (fst k) (snd k)"
  assume none: "nullary_put k v t = None"
  have "?i < 64" unfolding kai_nullary_hash_def KAI_NULLARY_SINGLETON_BUCKETS_def by (rule unat_and_less) simp
  moreover have "(?i + (64 + i - ?i) mod 64) mod 64 = i" using assms(1) \<open>?i < 64\<close> by (simp add: mod_add_right_eq)
  ultimately show False
    using install_from_room [OF nullary_next_mod, of 64 _ t ?i "(64 + i - ?i) mod 64"] none assms(2)
    by (simp add: KAI_NULLARY_SINGLETON_BUCKETS_def)
qed

lemma var_put_room:
  assumes "k < 16" "t ((kai_immortal_slot_hash tag name vs + k) mod 4096) = None"
  shows "var_put (tag, name, vs) v t \<noteq> None"
proof
  assume none: "var_put (tag, name, vs) v t = None"
  have "kai_immortal_slot_hash tag name vs < 4096"
    unfolding kai_immortal_slot_hash_def KAI_IMMORTAL_VAR_BUCKETS_def Let_def by (rule unat_and_less) simp
  then show False
    using install_from_room [OF var_next_mod, of 16 _ t "kai_immortal_slot_hash tag name vs" k] none assms
    by (simp add: KAI_IMMORTAL_VAR_PROBE_def)
qed


text \<open>A key that the tables hold is answered from the tables.\<close>

lemma nullary_hit:
  assumes "nullary_find (tag, name) (t_nullary t) = Some (Ptr x)" "name \<noteq> 0"
  shows "kai_variant_u p tag name msk [] t h = Some (Ptr x, kai_varname_register tag name t, kai_slotmask_register tag msk h)"
  using assms by (auto simp: kai_variant_u_def kai_nullary_lookup_find)

lemma var_hit:
  assumes "var_find (tag, name, vs) (t_vars t) = Some (Ptr x)" "name \<noteq> 0" "vs \<noteq> []" "length vs \<le> KAI_IMMORTAL_VAR_MAXN"
    "all_internable vs h = Some True" "\<not> kai_tag_is_reusable tag t"
  shows "kai_variant_u p tag name 0 (map Slot_ptr vs) t h
    = Some (Ptr x, kai_varname_register tag name t, kai_slotmask_register tag 0 h)"
proof -
  have "slot_ptrs (map Slot_ptr vs) = Some vs" by (induction vs) auto
  moreover have "all_internable vs (kai_slotmask_register tag 0 h) = Some True"
    using all_internable_kept [OF assms(5)] by simp
  ultimately show ?thesis
    using assms by (auto simp: kai_variant_u_def kai_immortal_slot_lookup_def kai_slots_all_immortal_ptr_def
        kai_tag_is_reusable_def Let_def)
qed

lemma ctors_ok_values:
  assumes "ctors_ok t h"
  shows "t_nullary t i = Some b \<Longrightarrow> nb_value b \<noteq> Null" "t_vars t i = Some d \<Longrightarrow> vb_value d \<noteq> Null"
  using assms unfolding ctors_ok_def atom_def by (metis kvalue.distinct(3))+

text \<open>What makes the result of a construction be found again.\<close>

lemma kai_variant_u_installs:
  assumes u: "kai_variant_u p tag name msk slots t h = Some (v, t', h')" and p: "h_cells h p = None"
    and t: "ctors_ok t h" and v: "atom v tag slots h'" and room: "slots = [] \<Longrightarrow> \<exists>i<64. t_nullary t i = None"
  shows "name \<noteq> 0 \<and>
    (if slots = [] then nullary_find (tag, name) (t_nullary t') = Some v
     else \<exists>vs. slots = map Slot_ptr vs \<and> msk = 0 \<and> length vs \<le> KAI_IMMORTAL_VAR_MAXN \<and> all_internable vs h = Some True
       \<and> \<not> kai_tag_is_reusable tag t' \<and> var_find (tag, name, vs) (t_vars t') = Some v)"
proof -
  let ?t = "kai_varname_register tag name t" and ?h = "kai_slotmask_register tag msk h"
  have t0: "ctors_ok ?t h" using t by simp
  have rc: "\<not> atom (Ptr p) tg ss (kai_slotmask_register tg' m (new_variant p tag slots h1))"
    "\<not> atom (Ptr p) tg ss (set_rc p 1 h1)" for tg ss tg' m h1
    by (auto simp: atom_def new_variant_def kai_alloc_def immortal_def INT32_MAX_def set_rc_cells)
  show ?thesis
  proof (cases "slots = [] \<and> name \<noteq> 0")
    case True
    show ?thesis
    proof (cases "nullary_find (tag, name) (t_nullary t)")
      case None
      obtain i where "i < 64" "t_nullary t i = None" using room True by blast
      then obtain tab where tab: "nullary_put (tag, name) (Ptr p) (t_nullary t) = Some tab"
        using nullary_put_room by blast
      have "t_nullary (kai_nullary_install tag name (Ptr p) ?t) = tab"
        using tab by (simp add: kai_nullary_install_def Let_def)
      moreover have "kai_nullary_lookup tag name ?t = Null" unfolding kai_nullary_lookup_find using None by simp
      then have "v = Ptr p \<and> t' = kai_nullary_install tag name (Ptr p) ?t"
        using u True by (auto simp: kai_variant_u_def Let_def)
      ultimately show ?thesis using True nullary.install [OF None tab] by simp
    next
      case (Some x)
      then have l: "kai_nullary_lookup tag name ?t = x" unfolding kai_nullary_lookup_find by auto
      obtain b i where "x = nb_value b" "t_nullary t i = Some b" using Some find_from_Some by fastforce
      then have "x \<noteq> Null" using ctors_ok_values [OF t] by metis
      then have "v = x" "t' = ?t" using u True l by (simp_all add: kai_variant_u_def Let_def)
      then show ?thesis using True Some by simp
    qed
  next
    case False
    show ?thesis
    proof (cases "msk = 0 \<and> name \<noteq> 0 \<and> \<not> kai_tag_is_reusable tag ?t \<and> (\<exists>vs. slot_ptrs slots = Some vs \<and> kai_slots_all_immortal_ptr vs ?h = Some True)")
      case True
      then obtain vs where vs: "slot_ptrs slots = Some vs" "kai_slots_all_immortal_ptr vs ?h = Some True" by blast
      have "all_internable vs ?h = Some True" "length vs \<le> KAI_IMMORTAL_VAR_MAXN" "vs \<noteq> []"
        using vs(2) by (auto simp: kai_slots_all_immortal_ptr_def split: if_splits)
      then have shape: "slots = map Slot_ptr vs" "slots \<noteq> []" "length vs \<le> KAI_IMMORTAL_VAR_MAXN" "all_internable vs h = Some True"
        using slot_ptrs_map [OF vs(1)] all_internable_kept [of vs ?h h] by simp_all
      have "var_find (tag, name, vs) (t_vars t') = Some v \<and> t_reusable t' = t_reusable t"
      proof (cases "var_find (tag, name, vs) (t_vars t)")
        case None
        then have l: "kai_immortal_slot_lookup tag name vs ?t = Null" unfolding kai_immortal_slot_lookup_find by simp
        have new: "v = Ptr p \<and> kai_immortal_slot_install tag name vs (Ptr p) ?t = Some t'"
        proof (cases "kai_immortal_slot_install tag name vs (Ptr p) ?t")
          case none: None
          then have "atom (Ptr p) tag slots (set_rc p 1 (set_rc p INT32_MAX (kai_slotmask_register (tag mod 65536) 0 (new_variant p tag slots ?h))))"
            using u v False True vs l by (simp add: kai_variant_u_def Let_def)
          then show ?thesis using rc(2) by blast
        qed (use u False True vs l in \<open>simp add: kai_variant_u_def Let_def\<close>)
        then obtain tab where "var_put (tag, name, vs) (Ptr p) (t_vars t) = Some tab" "t' = ?t\<lparr>t_vars := tab\<rparr>"
          by (auto simp: kai_immortal_slot_install_def)
        then show ?thesis using vars.install [OF None] new by simp
      next
        case (Some x)
        then have l: "kai_immortal_slot_lookup tag name vs ?t = x" unfolding kai_immortal_slot_lookup_find by auto
        obtain b i where "x = vb_value b" "t_vars t i = Some b" using Some find_from_Some by fastforce
        then have "x \<noteq> Null" using ctors_ok_values [OF t] by metis
        then have "v = x" "t' = ?t" using u False True vs l by (simp_all add: kai_variant_u_def Let_def)
        then show ?thesis using Some by simp
      qed
      then show ?thesis using shape True by (auto simp: kai_tag_is_reusable_def)
    next
      case no: False
      have "atom (Ptr p) tag slots (kai_slotmask_register (tag mod 65536) msk (new_variant p tag slots ?h))"
        using u v False no by (auto simp: kai_variant_u_def Let_def split: if_splits bind_splits bool.splits)
      then show ?thesis using rc(1) by blast
    qed
  qed
qed

lemma kai_variant_u_again:
  assumes "kai_variant_u p tag name msk slots t h = Some (v, t1, h1)" "h_cells h p = None" "ctors_ok t h"
    "atom v tag slots h1" "slots = [] \<Longrightarrow> \<exists>i<64. t_nullary t i = None" "later t1 h1 t2 h2"
  shows "\<exists>t3 h3. kai_variant_u q tag name msk slots t2 h2 = Some (v, t3, h3) \<and> h_cells h3 = h_cells h2"
proof -
  note inst = kai_variant_u_installs [OF assms(1-5)]
  have le: "tables_le t1 t2" "immortals_kept h h2"
    using later_grows [OF assms(6)] kai_variant_u_grows [OF assms(1,2)] immortals_kept_trans by blast+
  obtain x where x: "v = Ptr x" using assms(4) by (auto simp: atom_def)
  show ?thesis
  proof (cases "slots = []")
    case True
    then have "nullary_find (tag, name) (t_nullary t2) = Some (Ptr x)"
      using inst le(1) x nullary.le by (fastforce simp: tables_le_def)
    from nullary_hit [OF this] show ?thesis using inst True x by simp
  next
    case False
    then obtain vs where vs: "slots = map Slot_ptr vs" "msk = 0" "length vs \<le> KAI_IMMORTAL_VAR_MAXN" "all_internable vs h = Some True"
        "\<not> kai_tag_is_reusable tag t1" "var_find (tag, name, vs) (t_vars t1) = Some v" using inst by auto
    have "var_find (tag, name, vs) (t_vars t2) = Some (Ptr x)"
      using vars.le [where k = "(tag, name, vs)", OF _ vs(6)] le(1) unfolding tables_le_def x by blast
    moreover have "\<not> kai_tag_is_reusable tag t2" using vs(5) le(1) by (simp add: tables_le_def kai_tag_is_reusable_def)
    ultimately have "kai_variant_u q tag name 0 (map Slot_ptr vs) t2 h2
        = Some (Ptr x, kai_varname_register tag name t2, kai_slotmask_register tag 0 h2)"
      by (intro var_hit) (use inst vs(1,3) False all_internable_kept [OF vs(4) le(2)] in simp_all)
    then show ?thesis using vs(1,2) x by simp
  qed
qed


text \<open>
  Which constructions are interned: a named constructor without arguments, while the table of the
  singletons has a free bucket; and a named constructor with up to four arguments that are all immortal
  cells of a kind the table takes, unless its tag is one the program rewrites in place, while one of the
  sixteen buckets the probe visits is free.
\<close>

definition immortal_part :: "heap \<Rightarrow> kvalue \<Rightarrow> bool" where
  "immortal_part h v \<longleftrightarrow> (\<exists>q c. v = Ptr q \<and> h_cells h q = Some c \<and> immortal c
     \<and> tag_of (c_body c) \<in> {KAI_UNIT, KAI_BOOL, KAI_NIL, KAI_STR, KAI_VARIANT})"

definition internable :: "nat \<Rightarrow> cname \<Rightarrow> 32 word \<Rightarrow> var_slot list \<Rightarrow> ctors \<Rightarrow> heap \<Rightarrow> bool" where
  "internable tag name msk slots t h \<longleftrightarrow> name \<noteq> 0 \<and> tag < 65536 \<and>
     (if slots = [] then \<exists>i<64. t_nullary t i = None
      else msk = 0 \<and> length slots \<le> 4 \<and> \<not> kai_tag_is_reusable tag t
        \<and> (\<exists>vs. slots = map Slot_ptr vs \<and> (\<forall>v \<in> set vs. immortal_part h v)
             \<and> (\<exists>k<16. t_vars t ((kai_immortal_slot_hash tag name vs + k) mod 4096) = None)))"

lemma all_internable_parts: "(\<forall>v \<in> set vs. immortal_part h v) \<Longrightarrow> all_internable vs h = Some True"
  by (induction vs) (auto simp: immortal_part_def kai_slot_internable_def immortal_def)

lemma new_atom:
  assumes "tag < 65536"
  shows "atom (Ptr p) tag slots (set_rc p INT32_MAX (kai_slotmask_register tag' m (new_variant p tag slots h)))"
  using assms by (auto simp: atom_def new_variant_def kai_alloc_def set_rc_cells immortal_def)

lemma kai_variant_u_interns:
  assumes i: "internable tag name msk slots t h" and ok: "ctors_ok t h"
  shows "\<exists>v t1 h1. kai_variant_u p tag name msk slots t h = Some (v, t1, h1) \<and> atom v tag slots h1"
proof -
  let ?t = "kai_varname_register tag name t" and ?h = "kai_slotmask_register tag msk h"
  have t: "ctors_ok ?t ?h" using ok ctors_ok_keeps [OF _ register_keeps] by simp
  have name: "name \<noteq> 0" "tag < 65536" using i by (simp_all add: internable_def)
  show ?thesis
  proof (cases "slots = []")
    case True
    then show ?thesis
      using nullary_lookup_atom [OF t, of tag name] name new_atom by (auto simp: kai_variant_u_def Let_def)
  next
    case False
    have sh: "msk = 0" "length slots \<le> 4" "\<not> kai_tag_is_reusable tag t"
      and "\<exists>vs. slots = map Slot_ptr vs \<and> (\<forall>v \<in> set vs. immortal_part h v)
        \<and> (\<exists>k<16. t_vars t ((kai_immortal_slot_hash tag name vs + k) mod 4096) = None)"
      using i False by (simp_all add: internable_def)
    then obtain vs k where vs: "slots = map Slot_ptr vs" "\<forall>v \<in> set vs. immortal_part h v" "k < 16"
        "t_vars t ((kai_immortal_slot_hash tag name vs + k) mod 4096) = None" by blast
    have "slot_ptrs slots = Some vs" unfolding vs(1) by (induction vs) auto
    moreover have "all_internable vs ?h = Some True"
      using all_internable_kept [OF all_internable_parts [OF vs(2)], of ?h] by simp
    then have "kai_slots_all_immortal_ptr vs ?h = Some True"
      using sh(2) vs(1) False by (simp add: kai_slots_all_immortal_ptr_def KAI_IMMORTAL_VAR_MAXN_def)
    moreover have "\<not> kai_tag_is_reusable tag ?t" using sh(3) by (simp add: kai_tag_is_reusable_def)
    moreover obtain t1 where "kai_immortal_slot_install tag name vs (Ptr p) ?t = Some t1"
      using var_put_room [of k "t_vars t" tag name vs "Ptr p"] vs(3,4) by (auto simp: kai_immortal_slot_install_def)
    ultimately show ?thesis
      using var_lookup_atom [OF t, of tag name vs] False name new_atom sh(1) vs(1)
      by (cases "kai_immortal_slot_lookup tag name vs ?t = Null") (auto simp: kai_variant_u_def Let_def)
  qed
qed



text \<open>A box under address 0 and the variant \<open>Some\<close> of it under address 1.\<close>

definition empty_ctors :: ctors where
  "empty_ctors = \<lparr>t_names = (\<lambda>_. 0), t_nullary = Map.empty, t_by_tag = (\<lambda>_. Null), t_vars = Map.empty, t_reusable = (\<lambda>_. 0)\<rparr>"

definition some_heap :: heap where
  "some_heap = new_variant 1 2 [Slot_ptr (Ptr 0)] (kai_slotmask_register 2 0 (kai_alloc 0 (Scalar KAI_REAL) empty_heap))"

lemma ctors_ok_empty: "ctors_ok empty_ctors h"
  by (simp add: ctors_ok_def empty_ctors_def)

lemma tags_known_empty: "tags_known empty_heap"
  by (simp add: tags_known_def empty_heap_def)

lemma some_cells:
  "h_cells some_heap = [0 \<mapsto> \<lparr>c_rc = 1, c_body = Scalar KAI_REAL\<rparr>, 1 \<mapsto> \<lparr>c_rc = 1, c_body = Variant 2 [Slot_ptr (Ptr 0)]\<rparr>]"
  by (auto simp: some_heap_def new_variant_def kai_alloc_def empty_heap_def)

lemma some_masks: "h_masks some_heap 2 \<noteq> 0" "kai_slot_mask_of (h_masks some_heap) 2 = 0"
  by (simp_all add: some_heap_def new_variant_def kai_alloc_def empty_heap_def kai_slotmask_register_def KAI_VARIANT_TAG_SPACE_def
      KAI_SLOTMASK_RECORDED_def kai_slot_mask_of_def)

lemma rc_ok_some: "rc_ok {#1#} some_heap" "tags_known some_heap"
proof -
  let ?h = "kai_alloc 0 (Scalar KAI_REAL) empty_heap"
  have "rc_ok {#0#} ?h" using alloc_ok [of "{#}" "[]" empty_heap 0 "Scalar KAI_REAL"] rc_ok_empty by (simp add: empty_heap_def)
  moreover have known: "tags_known ?h" by (simp add: tags_known_def kai_alloc_def empty_heap_def)
  ultimately have reg: "rc_ok {#0#} (kai_slotmask_register 2 0 ?h)" "tags_known (kai_slotmask_register 2 0 ?h)"
    using register_ok by blast+
  have "kai_slot_mask_of (h_masks (kai_slotmask_register 2 0 ?h)) 2 = 0"
    by (rule mask_of_register) (simp add: mask_agrees_def KAI_VARIANT_TAG_SPACE_def kai_alloc_def empty_heap_def)
  then show "rc_ok {#1#} some_heap" "tags_known some_heap"
    using new_variant_ok(1,2) [of "{#}" "[Ptr 0]" "kai_slotmask_register 2 0 ?h" 1 2 "[Slot_ptr (Ptr 0)]"] reg register_known [of 2 0 ?h]
    by (simp_all add: some_heap_def kai_alloc_def empty_heap_def KAI_VARIANT_TAG_SPACE_def)
qed

lemma nullary_absent: "(\<And>i b. t_nullary t i = Some b \<Longrightarrow> nb_tag b \<noteq> tag) \<Longrightarrow> kai_nullary_lookup tag name t = Null"
  by (auto simp: kai_nullary_lookup_def split: option.splits dest!: find_from_Some)

lemma nullary_install_entries:
  "t_nullary (kai_nullary_install tag name v t) i = Some b \<Longrightarrow> t_nullary t i = Some b \<or> nb_tag b = tag"
  by (auto simp: kai_nullary_install_def Let_def split: option.splits if_splits dest!: install_from_le)

lemma nullary_new:
  "kai_nullary_lookup tag name (kai_varname_register tag name t) = Null \<Longrightarrow> name \<noteq> 0 \<Longrightarrow> kai_variant_u p tag name msk [] t h =
     Some (Ptr p, kai_nullary_install tag name (Ptr p) (kai_varname_register tag name t),
       set_rc p INT32_MAX (kai_slotmask_register (tag mod 65536) 0 (new_variant p tag [] (kai_slotmask_register tag msk h))))"
  by (simp add: kai_variant_u_def Let_def)


end
