(* ===== verification/Kai_Reuse.thy ===== *)
theory Kai_Reuse
  imports Kai_Shell Kai_Variant
begin

unbundle bit_operations_syntax

text \<open>
  Reuse in place, \<^verbatim>\<open>stage2/runtime/perceus_vec.h\<close>: a match arm whose scrutinee nobody else holds
  builds its result in the scrutinee's cell. A function that may build a fresh cell takes the address
  \<open>p\<close> the allocator would hand out. Field names and the type tag of a record are not part of the cell,
  trace counters are left out.
\<close>

section \<open>Definitions\<close>

definition kai_check_unique :: "kvalue \<Rightarrow> heap \<Rightarrow> bool option" where
  "kai_check_unique v h =
     (case v of Ptr p \<Rightarrow> map_option (\<lambda>c. c_rc c = 1) (h_cells h p) | _ \<Rightarrow> Some False)"

definition kai_incref_if_shared :: "kvalue \<Rightarrow> kvalue \<Rightarrow> heap \<Rightarrow> incref_result option" where
  "kai_incref_if_shared donor child h = do {
     unique \<leftarrow> kai_check_unique donor h;
     if unique then Some (Counted h) else kai_incref child h }"

text \<open>\<^verbatim>\<open>return kai_incref(v)\<close>; an abort has no result.\<close>

definition ret_incref :: "kvalue \<Rightarrow> heap \<Rightarrow> (kvalue \<times> heap) option" where
  "ret_incref v h = (case kai_incref v h of Some (Counted h) \<Rightarrow> Some (v, h) | _ \<Rightarrow> None)"

definition kai_reuse_or_alloc_cons :: "nat \<Rightarrow> kvalue \<Rightarrow> kvalue \<Rightarrow> kvalue \<Rightarrow> heap \<Rightarrow> (kvalue \<times> heap) option" where
  "kai_reuse_or_alloc_cons p scr car cdr h =
     (let fresh = Some (Ptr p, kai_cons p car cdr h) in
      case scr of
        Null \<Rightarrow> fresh
      | Imm w \<Rightarrow> None
      | Ptr s \<Rightarrow> do {
          c \<leftarrow> h_cells h s;
          unique \<leftarrow> kai_check_unique scr h;
          case c_body c of
            Cons old_h old_t \<Rightarrow>
              if unique then do {
                let h = set_body s (Cons car cdr) h;
                h \<leftarrow> if old_h \<noteq> car then decref old_h h else Some h;
                h \<leftarrow> if old_t \<noteq> cdr then decref old_t h else Some h;
                ret_incref scr h }
              else fresh
          | _ \<Rightarrow> fresh })"

text \<open>
  The loop over the parts of a cell: each is overwritten, and what \<open>old_of\<close> says of the old one is given
  back. \<open>cur\<close> is what the cell holds. \<open>old_of\<close> is \<open>None\<close> where the C has no meaning.
\<close>

fun overwrite :: "('x list \<Rightarrow> body) \<Rightarrow> (nat \<Rightarrow> 'x \<Rightarrow> 'x \<Rightarrow> kvalue list option) \<Rightarrow> nat \<Rightarrow> 'x list \<Rightarrow> 'x list \<Rightarrow> nat
    \<Rightarrow> heap \<Rightarrow> heap option" where
  "overwrite mk old_of s cur [] i h = Some h"
| "overwrite mk old_of s cur (x # xs) i h = do {
     old \<leftarrow> old_of i (cur ! i) x;
     h \<leftarrow> drop_all decref old (set_body s (mk (cur[i := x])) h);
     overwrite mk old_of s (cur[i := x]) xs (Suc i) h }"

definition old_field :: "64 word \<Rightarrow> nat \<Rightarrow> kvalue \<Rightarrow> kvalue \<Rightarrow> kvalue list option" where
  "old_field kept_mask i old_f f =
     Some (if old_f \<noteq> f \<or> (i < 64 \<and> kept_mask AND push_bit i 1 \<noteq> 0) then [old_f] else [])"

definition kai_reuse_or_alloc_record :: "nat \<Rightarrow> kvalue \<Rightarrow> kvalue list \<Rightarrow> 64 word \<Rightarrow> heap \<Rightarrow> (kvalue \<times> heap) option" where
  "kai_reuse_or_alloc_record p scr fs kept_mask h =
     (let fresh = Some (Ptr p, kai_alloc p (Record fs) h) in
      case scr of
        Null \<Rightarrow> fresh
      | Imm w \<Rightarrow> None
      | Ptr s \<Rightarrow> do {
          c \<leftarrow> h_cells h s;
          unique \<leftarrow> kai_check_unique scr h;
          case c_body c of
            Record old \<Rightarrow>
              if length old = length fs \<and> unique
              then Option.bind (overwrite Record (old_field kept_mask) s old fs 0 h) (ret_incref scr)
              else fresh
          | _ \<Rightarrow> fresh })"

text \<open>\<^verbatim>\<open>old_ptr != slots[i].ptr\<close>, whatever the slot holds.\<close>

fun slot_differs :: "kvalue \<Rightarrow> var_slot \<Rightarrow> bool" where
  "slot_differs v (Slot_ptr w) = (v \<noteq> w)"
| "slot_differs v (Slot_raw w) = (addr_word v \<noteq> w)"

definition old_slot :: "32 word \<Rightarrow> nat \<Rightarrow> var_slot \<Rightarrow> var_slot \<Rightarrow> kvalue list option" where
  "old_slot donor_mask i old_s s =
     (if donor_mask \<noteq> 0 \<and> 16 \<le> i then None
      else if donor_mask = 0 \<or> kai_var_slot_kind donor_mask i = KAI_VAR_SLOT_PTR
      then (case old_s of
              Slot_raw w \<Rightarrow> None
            | Slot_ptr (Ptr q) \<Rightarrow> Some (if slot_differs (Ptr q) s then [Ptr q] else [])
            | Slot_ptr v \<Rightarrow> Some [])
      else Some [])"

definition kai_variant_reuse_at :: "nat \<Rightarrow> kvalue \<Rightarrow> nat \<Rightarrow> cname \<Rightarrow> 32 word \<Rightarrow> var_slot list \<Rightarrow> ctors \<Rightarrow> heap
    \<Rightarrow> (kvalue \<times> ctors \<times> heap) option" where
  "kai_variant_reuse_at p scr tag name msk slots t h =
     (let fresh = kai_variant_u p tag name msk slots t h in
      case scr of
        Ptr s \<Rightarrow> do {
          c \<leftarrow> h_cells h s;
          unique \<leftarrow> kai_check_unique scr h;
          case c_body c of
            Variant donor_tag old \<Rightarrow>
              if length old = length slots \<and> unique then do {
                let donor_mask = kai_slot_mask_of (h_masks h) donor_tag;
                h \<leftarrow> overwrite (Variant donor_tag) (old_slot donor_mask) s old slots 0 h;
                let h = kai_slotmask_register (tag mod 65536) msk (set_body s (Variant (tag mod 65536) slots) h);
                (v, h) \<leftarrow> ret_incref scr h;
                Some (v, t, h) }
              else fresh
          | _ \<Rightarrow> fresh }
      | _ \<Rightarrow> fresh)"

section \<open>Definitions: tokens and arms\<close>

text \<open>A reuse token is the address of a cell whose parts have moved out, or null.\<close>

definition rc_decrement :: "nat \<Rightarrow> cell \<Rightarrow> heap \<Rightarrow> heap" where
  "rc_decrement s c h = (if c_rc c \<noteq> INT32_MAX then set_rc s (c_rc c - 1) h else h)"

definition kai_drop_reuse_token :: "kvalue \<Rightarrow> nat \<Rightarrow> heap \<Rightarrow> (kvalue \<times> heap) option" where
  "kai_drop_reuse_token v n h =
     (case v of
        Ptr s \<Rightarrow> do {
          c \<leftarrow> h_cells h s;
          unique \<leftarrow> kai_check_unique v h;
          case c_body c of
            Variant tag ss \<Rightarrow> Some (if length ss \<noteq> n then (Null, rc_decrement s c h)
                                  else if unique then (v, h) else (Null, rc_decrement s c h))
          | _ \<Rightarrow> Some (Null, h) }
      | _ \<Rightarrow> Some (Null, h))"

definition kai_reuse_free :: "kvalue \<Rightarrow> heap \<Rightarrow> heap option" where
  "kai_reuse_free at h =
     (case at of
        Ptr s \<Rightarrow> do {
          c \<leftarrow> h_cells h s;
          Some (if tag_of (c_body c) = KAI_VARIANT then recycle s h else h) }
      | _ \<Rightarrow> Some h)"

definition kai_variant_at :: "nat \<Rightarrow> kvalue \<Rightarrow> nat \<Rightarrow> cname \<Rightarrow> 32 word \<Rightarrow> var_slot list \<Rightarrow> ctors \<Rightarrow> heap
    \<Rightarrow> (kvalue \<times> ctors \<times> heap) option" where
  "kai_variant_at p at tag name msk slots t h =
     (let fresh = Option.bind (kai_reuse_free at h) (kai_variant_u p tag name msk slots t) in
      case at of
        Null \<Rightarrow> fresh
      | Imm w \<Rightarrow> None
      | Ptr s \<Rightarrow> do {
          c \<leftarrow> h_cells h s;
          case c_body c of
            Variant old_tag ss \<Rightarrow>
              if length ss = length slots
              then Some (at, t, set_rc s 1 (set_body s (Variant (tag mod 65536) slots) h))
              else fresh
          | _ \<Rightarrow> fresh })"

text \<open>\<open>unbound\<close> has a bit for each pointer slot that no binder took.\<close>

fun drop_unbound :: "32 word \<Rightarrow> var_slot list \<Rightarrow> heap \<Rightarrow> heap option" where
  "drop_unbound u [] h = (if u = 0 then Some h else None)"
| "drop_unbound u (s # ss) h =
     (if u = 0 then Some h
      else do {
        h \<leftarrow> (if bit u 0 then (case s of Slot_ptr v \<Rightarrow> decref v h | Slot_raw w \<Rightarrow> None) else Some h);
        drop_unbound (drop_bit 1 u) ss h })"

definition kai_arm_take_shell :: "nat \<Rightarrow> 32 word \<Rightarrow> heap \<Rightarrow> heap option" where
  "kai_arm_take_shell s unbound h = do {
     c \<leftarrow> h_cells h s;
     case c_body c of
       Variant tag ss \<Rightarrow> map_option (recycle s) (drop_unbound unbound ss h)
     | _ \<Rightarrow> None }"

definition kai_arm_take :: "kvalue \<Rightarrow> 32 word \<Rightarrow> heap \<Rightarrow> (bool \<times> heap) option" where
  "kai_arm_take v unbound h =
     (case v of
        Ptr s \<Rightarrow> do {
          unique \<leftarrow> kai_check_unique v h;
          c \<leftarrow> h_cells h s;
          if unique then map_option (Pair True) (kai_arm_take_shell s unbound h)
          else Some (False, rc_decrement s c h) }
      | _ \<Rightarrow> Some (False, h))"


section \<open>Overwriting under the eyes of the counts\<close>

lemma shrinks_dom: "shrinks h h' \<Longrightarrow> dom (h_cells h') \<subseteq> dom (h_cells h)"
proof
  fix p assume "shrinks h h'" "p \<in> dom (h_cells h')"
  then obtain c' where "h_cells h' p = Some c'" "shrinks h h'" by blast
  then show "p \<in> dom (h_cells h)" by (elim shrinksD) auto
qed

lemma shrinks_refs:
  assumes "shrinks h h'" "finite (dom (h_cells h))"
  shows "refs h' (dom (h_cells h')) \<subseteq># refs h (dom (h_cells h))"
proof -
  have "refs h' (dom (h_cells h')) = refs h (dom (h_cells h'))"
    unfolding refs_def using shrinks_kids [OF assms(1)] by (intro sum.cong) auto
  moreover have "refs h (dom (h_cells h)) = refs h (dom (h_cells h) - dom (h_cells h')) + refs h (dom (h_cells h'))"
    unfolding refs_def by (rule sum.subset_diff) (use assms shrinks_dom in auto)
  ultimately show ?thesis by simp
qed

lemma drop_all_one: "drop_all dec [v] h = dec v h"
  by (cases "dec v h") auto

lemma drop_all_around:
  assumes "rc_ok (R + addrs vs) h" "s \<in># R"
  shows "\<exists>h'. drop_all decref vs (set_body s b h) = Some (set_body s b h') \<and> rc_ok R h' \<and> shrinks h h'"
  using assms
proof (induction vs arbitrary: h)
  case (Cons v vs)
  then have "rc_ok ((R + addrs vs) + mset (addr_of v)) h" by (simp add: ac_simps)
  then obtain h1 where h1: "decref v (set_body s b h) = Some (set_body s b h1)" "rc_ok (R + addrs vs) h1" "shrinks h h1"
    using decref_around [of "R + addrs vs" v h s b] Cons.prems(2) by auto
  obtain h' where "drop_all decref vs (set_body s b h1) = Some (set_body s b h')" "rc_ok R h'" "shrinks h1 h'"
    using Cons.IH [OF h1(2) Cons.prems(2)] by blast
  then show ?case using h1(1,3) shrinks_trans by auto
qed (use shrinks_refl in auto)

text \<open>What the loop gives back, in order.\<close>

fun released :: "(nat \<Rightarrow> 'x \<Rightarrow> 'x \<Rightarrow> kvalue list option) \<Rightarrow> 'x list \<Rightarrow> 'x list \<Rightarrow> nat \<Rightarrow> kvalue list option" where
  "released f (y # ys) (x # xs) i = do { d \<leftarrow> f i y x; ds \<leftarrow> released f ys xs (Suc i); Some (d @ ds) }"
| "released f [] [] i = Some []"
| "released f _ _ i = None"

lemma addrs_append [simp]: "addrs (vs @ ws) = addrs vs + addrs ws"
  by (simp add: addrs_def)

lemma overwrite_ok:
  assumes "rc_ok (R + addrs ds) h" "s \<in># R" "released f (drop i cur) xs i = Some ds" "i + length xs = length cur"
  shows "\<exists>h'. overwrite mk f s cur xs i (set_body s (mk cur) h) = Some (set_body s (mk (take i cur @ xs)) h')
    \<and> rc_ok R h' \<and> shrinks h h'"
  using assms
proof (induction xs arbitrary: i cur ds h)
  case Nil
  then show ?case by auto
next
  case (Cons x xs)
  then have i: "i < length cur" by simp
  then have "drop i cur = cur ! i # drop (Suc i) cur" by (simp add: Cons_nth_drop_Suc)
  then obtain d ds' where d: "f i (cur ! i) x = Some d" "released f (drop (Suc i) cur) xs (Suc i) = Some ds'" "ds = d @ ds'"
    using Cons.prems(3) by (auto split: bind_splits)
  have "rc_ok ((R + addrs ds') + addrs d) h" using Cons.prems(1) d(3) by (simp add: ac_simps)
  then obtain h1 where h1: "drop_all decref d (set_body s (mk (cur[i := x])) h) = Some (set_body s (mk (cur[i := x])) h1)"
      "rc_ok (R + addrs ds') h1" "shrinks h h1"
    using drop_all_around [of "R + addrs ds'" d h s "mk (cur[i := x])"] Cons.prems(2) by auto
  have "released f (drop (Suc i) (cur[i := x])) xs (Suc i) = Some ds'" using d(2) by simp
  from Cons.IH [OF h1(2) Cons.prems(2) this] Cons.prems(4)
  obtain h' where "overwrite mk f s (cur[i := x]) xs (Suc i) (set_body s (mk (cur[i := x])) h1)
      = Some (set_body s (mk (take (Suc i) (cur[i := x]) @ xs)) h')" "rc_ok R h'" "shrinks h1 h'" by auto
  moreover have "take (Suc i) (cur[i := x]) @ xs = take i cur @ x # xs" using i by (simp add: take_Suc_conv_app_nth)
  ultimately show ?case using d(1) h1(1,3) shrinks_trans by auto
qed

text \<open>Nobody who holds only \<open>R\<close> can tell the heaps apart.\<close>

definition unseen :: "nat multiset \<Rightarrow> heap \<Rightarrow> heap \<Rightarrow> bool" where
  "unseen R h h' \<longleftrightarrow> (\<forall>q. reaches R h q \<longrightarrow> (\<exists>c c'. h_cells h q = Some c \<and> h_cells h' q = Some c' \<and> c_body c' = c_body c))"

lemma rc_ok_count:
  assumes "rc_ok R h" "h_cells h s = Some c" "c_rc c = 1"
  shows "count (refs h (dom (h_cells h)) + R) s = 1"
proof -
  have "\<not> immortal c" "owners c = 1" using assms(3) by (simp_all add: immortal_def owners_def)
  then show ?thesis using assms(1,2) unfolding rc_ok_def counted_def by auto
qed

lemma lone_unreached:
  assumes ok: "rc_ok (R + {#s#} + X) h" and s: "h_cells h s = Some c" "c_rc c = 1"
    and r: "reaches R h q"
  shows "q \<noteq> s"
proof -
  have one: "count (refs h (dom (h_cells h)) + R + X) s = 0" using rc_ok_count [OF ok s] by simp
  show ?thesis
    using r
  proof (cases rule: reaches.cases)
    case root
    then show ?thesis using one by (auto simp: not_in_iff [symmetric])
  next
    case (kid p)
    have "p \<in> dom (h_cells h)" using kid(2) by (auto simp: kids_def split: option.splits)
    then have "kids h p \<subseteq># refs h (dom (h_cells h))" using rc_ok_dom(3) [OF ok] by (simp add: refs_def sum.remove [of _ p])
    then have "q \<in># refs h (dom (h_cells h))" using kid(2) by (rule mset_subset_eqD)
    then show ?thesis using one by (auto simp: not_in_iff [symmetric])
  qed
qed

lemma reaches_mono: "reaches R h q \<Longrightarrow> reaches (R + S) h q"
  by (induction rule: reaches.induct) (auto intro: reaches.intros)

lemma reaches_hollow:
  assumes "rc_ok (R + {#s#} + X) h" "h_cells h s = Some c" "c_rc c = 1" "reaches R h q"
  shows "reaches R (hollow s h) q"
  using assms(4)
proof (induction rule: reaches.induct)
  case (kid p q)
  then have "p \<noteq> s" using lone_unreached [OF assms(1-3)] by blast
  then show ?case using kid by (auto simp: set_body_kids intro: reaches.kid)
qed (rule reaches.root)


text \<open>
  The end of an in-place update of the lone cell \<open>s\<close>. \<open>h1\<close> is the heap with \<open>s\<close> hollow after the old
  parts were given back, \<open>h2\<close> the same with more masks on record.
\<close>

lemma lone_after:
  assumes ok: "rc_ok (R + {#s#} + X) h" and s: "h_cells h s = Some c" "c_rc c = 1"
    and sub: "addrs vs \<subseteq># X + kids h s"
    and h1: "shrinks (hollow s h) h1" "rc_ok (R + {#s#} + addrs vs) h1"
  shows "\<exists>d. h_cells h1 s = Some d \<and> \<not> immortal d \<and> owners d = 1 \<and> kids h1 s = {#}"
proof -
  have "s \<in> dom (h_cells h1)" using rc_ok_dom(1) [OF h1(2)] by auto
  then obtain d where d: "h_cells h1 s = Some d" by blast
  then obtain d0 where d0: "h_cells (hollow s h) s = Some d0" "c_body d = c_body d0" "immortal d0 \<or> immortal d \<Longrightarrow> d = d0"
    using h1(1) by (elim shrinksD) auto
  have mortal: "\<not> immortal d" using d0 s by (auto simp: set_body_cells immortal_def)
  have empty: "kids h1 s = {#}" using d d0 s(1) by (auto simp: kids_def set_body_cells)
  have fin: "finite (dom (h_cells h))" using rc_ok_dom(3) [OF ok] .
  have "(\<Sum>p\<in>dom (h_cells h) - {s}. kids (hollow s h) p) = (\<Sum>p\<in>dom (h_cells h) - {s}. kids h p)"
    by (rule sum.cong) (auto simp: set_body_kids)
  then have "refs (hollow s h) (dom (h_cells h)) + kids h s = refs h (dom (h_cells h))"
    using s(1) fin by (simp add: refs_def sum.remove [of "dom (h_cells h)" s] domI set_body_kids)
  then have "count (refs (hollow s h) (dom (h_cells h)) + kids h s + R + X) s = 0" using rc_ok_count [OF ok s] by simp
  moreover have "refs h1 (dom (h_cells h1)) \<subseteq># refs (hollow s h) (dom (h_cells h))"
    using shrinks_refs [OF h1(1)] fin by simp
  ultimately have "count (refs h1 (dom (h_cells h1)) + R + addrs vs) s = 0"
    using mset_subset_eq_count [OF sub, of s] mset_subset_eq_count [of "refs h1 (dom (h_cells h1))" "refs (hollow s h) (dom (h_cells h))" s]
    by simp
  then have "owners d = 1" using h1(2) d mortal unfolding rc_ok_def counted_def by auto
  then show ?thesis using d mortal empty by blast
qed

lemma lone_unseen:
  assumes ok: "rc_ok (R + {#s#} + X) h" and s: "h_cells h s = Some c" "c_rc c = 1"
    and h1: "shrinks (hollow s h) h1" "rc_ok (R + S) h1" and h': "\<And>q. q \<noteq> s \<Longrightarrow> h_cells h' q = h_cells h1 q"
  shows "unseen R h h'"
  unfolding unseen_def
proof (intro allI impI)
  fix q assume r: "reaches R h q"
  have qs: "q \<noteq> s" using lone_unreached [OF ok s r] .
  have "reaches (R + S) (hollow s h) q" by (rule reaches_mono [OF reaches_hollow [OF ok s r]])
  then have "reaches (R + S) h1 q" using reaches_shrinks [OF _ h1] by blast
  then obtain c' where c': "h_cells h1 q = Some c'" using reaches_dom [OF h1(2)] by blast
  then obtain c0 where "h_cells (hollow s h) q = Some c0" "c_body c' = c_body c0" using h1(1) by (elim shrinksD) auto
  then show "\<exists>c c'. h_cells h q = Some c \<and> h_cells h' q = Some c' \<and> c_body c' = c_body c"
    using c' qs h' [OF qs] by (auto simp: set_body_cells)
qed

lemma in_place:
  assumes ok: "rc_ok (R + {#s#} + X) h" and s: "h_cells h s = Some c" "c_rc c = 1"
    and sub: "addrs vs \<subseteq># X + kids h s"
    and h1: "shrinks (hollow s h) h1" "rc_ok (R + {#s#} + addrs vs) h1"
    and h2: "rc_ok (R + {#s#} + addrs vs) h2" "h_cells h2 = h_cells h1" "refs h2 = refs h1"
    and b: "owned (h_masks h2) b = Some vs"
  shows "\<exists>h'. ret_incref (Ptr s) (set_body s b h2) = Some (Ptr s, h') \<and> rc_ok (R + {#s#} + {#s#}) h'
    \<and> (\<exists>c'. h_cells h' s = Some c' \<and> c_body c' = b) \<and> unseen R h h'
    \<and> h_masks h' = h_masks h2 \<and> (\<forall>q. q \<noteq> s \<longrightarrow> h_cells h' q = h_cells h1 q)"
proof -
  obtain d where d: "h_cells h2 s = Some d" "\<not> immortal d" "owners d = 1" "kids h1 s = {#}"
    using lone_after [OF ok s sub h1] h2(2) by auto
  have "refs h2 {s} = refs h1 {s}" using h2(3) by simp
  then have empty: "kids h2 s = {#}" using d(4) by (simp add: refs_def)
  let ?h3 = "set_body s b h2"
  have ok3: "rc_ok (R + {#s#}) ?h3" by (rule set_body_ok [OF h2(1) d(1) b]) (simp add: empty)
  have d3: "h_cells ?h3 s = Some (d\<lparr>c_body := b\<rparr>)" using d(1) by (simp add: set_body_cells)
  have rc: "c_rc d \<noteq> KAI_RC_SPECIAL - 1" "c_rc d < INT32_MAX - 1"
    using d(2,3) by (auto simp: immortal_def owners_def KAI_RC_SPECIAL_def INT32_MAX_def split: if_splits)
  let ?h' = "set_rc s (c_rc d + 1) ?h3"
  have ret: "ret_incref (Ptr s) ?h3 = Some (Ptr s, ?h')"
    using kai_incref_Ptr [OF d3] rc d(2) by (auto simp: ret_incref_def)
  have ok': "rc_ok (R + {#s#} + {#s#}) ?h'"
    by (rule incref_ok [OF ok3 d3]) (use rc d(2) in auto)
  have cells: "h_cells ?h' q = h_cells h1 q" if "q \<noteq> s" for q
    using that h2(2) by (simp add: set_rc_cells set_body_cells)
  have "rc_ok (R + ({#s#} + addrs vs)) h1" using h1(2) by (simp add: ac_simps)
  from lone_unseen [OF ok s h1(1) this cells] have "unseen R h ?h'" .
  then show ?thesis using ret ok' d3 cells by (auto simp: set_rc_cells)
qed

section \<open>Pairs and records\<close>

text \<open>The body of the cell of \<open>v\<close> if \<open>v\<close> is its only reference.\<close>

definition lone :: "kvalue \<Rightarrow> heap \<Rightarrow> body option" where
  "lone v h = (case v of
      Ptr p \<Rightarrow> (case h_cells h p of None \<Rightarrow> None | Some c \<Rightarrow> if c_rc c = 1 then Some (c_body c) else None)
    | _ \<Rightarrow> None)"

text \<open>
  A part that the new value keeps in its place moves: it needs no reference of its own. Every other part
  comes with one, and so does a kept field whose bit is set.
\<close>

fun owed_parts :: "64 word \<Rightarrow> kvalue list \<Rightarrow> kvalue list \<Rightarrow> nat \<Rightarrow> kvalue list" where
  "owed_parts kept (y # ys) (x # xs) i =
     (if y \<noteq> x \<or> (i < 64 \<and> kept AND push_bit i 1 \<noteq> 0) then [x] else []) @ owed_parts kept ys xs (Suc i)"
| "owed_parts kept _ _ i = []"

definition owed_cons :: "kvalue \<Rightarrow> kvalue \<Rightarrow> kvalue \<Rightarrow> heap \<Rightarrow> kvalue list" where
  "owed_cons scr car cdr h = (case lone scr h of Some (Cons y ys) \<Rightarrow> owed_parts 0 [y, ys] [car, cdr] 0 | _ \<Rightarrow> [car, cdr])"

definition owed_record :: "kvalue \<Rightarrow> kvalue list \<Rightarrow> 64 word \<Rightarrow> heap \<Rightarrow> kvalue list" where
  "owed_record scr fs kept h = (case lone scr h of
      Some (Record old) \<Rightarrow> if length old = length fs then owed_parts kept old fs 0 else fs
    | _ \<Rightarrow> fs)"

text \<open>
  What a reuse function promises: its result has the contents \<open>b\<close> and one reference of its own besides
  the scrutinee's, every count is right, and whoever does not hold the scrutinee sees no change.
\<close>

definition rebuilds :: "nat multiset \<Rightarrow> kvalue \<Rightarrow> body \<Rightarrow> heap \<Rightarrow> kvalue \<Rightarrow> heap \<Rightarrow> bool" where
  "rebuilds R scr b h v h' \<longleftrightarrow> rc_ok (R + mset (addr_of scr) + mset (addr_of v)) h' \<and> unseen R h h'
     \<and> (\<exists>q c. v = Ptr q \<and> h_cells h' q = Some c \<and> c_body c = b)"

lemma unseen_keeps:
  assumes "rc_ok (R + S) h" "keeps_cells h h'"
  shows "unseen R h h'"
  unfolding unseen_def
proof (intro allI impI)
  fix q assume "reaches R h q"
  then obtain c where "h_cells h q = Some c" using reaches_dom [OF assms(1) reaches_mono] by blast
  then show "\<exists>c c'. h_cells h q = Some c \<and> h_cells h' q = Some c' \<and> c_body c' = c_body c"
    using assms(2) by (auto simp: keeps_cells_def)
qed

lemma fresh_rebuilds:
  assumes "rc_ok (R + mset (addr_of scr) + addrs vs) h" "h_cells h p = None" "owned (h_masks h) b = Some vs"
  shows "rebuilds R scr b h (Ptr p) (kai_alloc p b h)"
proof -
  have "keeps_cells h (kai_alloc p b h)" using assms(2) by (auto simp: keeps_cells_def kai_alloc_def)
  then have "unseen R h (kai_alloc p b h)" using unseen_keeps [of R "mset (addr_of scr) + addrs vs"] assms(1) by (simp add: ac_simps)
  then show ?thesis using alloc_ok [OF assms] by (auto simp: rebuilds_def kai_alloc_def)
qed

lemma lone_Some:
  assumes "lone v h = Some b"
  obtains s c where "v = Ptr s" "h_cells h s = Some c" "c_rc c = 1" "c_body c = b" "kai_check_unique v h = Some True"
  using assms by (auto simp: lone_def kai_check_unique_def split: kvalue.splits option.splits if_splits)

lemma lone_None:
  assumes "rc_ok (R + mset (addr_of v)) h" "lone v h = None" "v = Ptr s"
  obtains c where "h_cells h s = Some c" "kai_check_unique v h = Some False"
proof -
  obtain c where "h_cells h s = Some c" using rc_ok_dom(1) [OF assms(1)] assms(3) by auto
  then show thesis using that assms(2,3) by (auto simp: lone_def kai_check_unique_def split: if_splits)
qed

lemma released_fields:
  "length ys = length xs \<Longrightarrow> \<exists>ds. released (old_field kept) ys xs i = Some ds
     \<and> addrs (owed_parts kept ys xs i) + addrs ys = addrs xs + addrs ds"
proof (induction ys xs arbitrary: i rule: list_induct2)
  case (Cons y ys x xs)
  then obtain ds where "released (old_field kept) ys xs (Suc i) = Some ds"
      "addrs (owed_parts kept ys xs (Suc i)) + addrs ys = addrs xs + addrs ds" by blast
  moreover have "old_field kept i y x = Some (if y \<noteq> x \<or> (i < 64 \<and> kept AND push_bit i 1 \<noteq> 0) then [y] else [])"
    by (simp add: old_field_def)
  ultimately show ?case by (auto simp: ac_simps)
qed simp

text \<open>
  C39: Rebuilding a record in place: given a reference for every new field that does not stay where it
  was, the function returns a record with the new fields and a reference of its own, the old fields that
  went are given back, every count is right, and nobody who does not hold the scrutinee sees a change.
  A shared scrutinee, or one of another shape, is left alone and a fresh record built.
\<close>

theorem kai_reuse_or_alloc_record_rebuilds:
  assumes ok: "rc_ok (R + mset (addr_of scr) + addrs (owed_record scr fs kept h)) h"
    and p: "h_cells h p = None" and scr: "\<And>w. scr \<noteq> Imm w"
  shows "\<exists>v h'. kai_reuse_or_alloc_record p scr fs kept h = Some (v, h') \<and> rebuilds R scr (Record fs) h v h'"
proof (cases "\<exists>old. lone scr h = Some (Record old) \<and> length old = length fs")
  case True
  then obtain old where l: "lone scr h = Some (Record old)" and len: "length old = length fs" by blast
  obtain s c where s: "scr = Ptr s" "h_cells h s = Some c" "c_rc c = 1" "c_body c = Record old" "kai_check_unique scr h = Some True"
    using lone_Some [OF l] by blast
  let ?X = "addrs (owed_parts kept old fs 0)"
  have ok1: "rc_ok (R + {#s#} + ?X) h" using ok l len s(1) by (simp add: owed_record_def)
  have kids: "kids h s = addrs old" using s(2,4) by (simp add: kids_def)
  obtain ds where ds: "released (old_field kept) old fs 0 = Some ds" "?X + addrs old = addrs fs + addrs ds"
    using released_fields [OF len] by blast
  have "rc_ok ((R + {#s#} + addrs fs) + addrs ds) (hollow s h)"
    using hollow_open [OF ok1 s(2)] kids ds(2) by (metis add.assoc)
  moreover have "set_body s (Record old) (hollow s h) = h" using set_body_same [OF s(2,4)] by simp
  ultimately obtain h1 where h1: "overwrite Record (old_field kept) s old fs 0 h = Some (set_body s (Record fs) h1)"
      "rc_ok (R + {#s#} + addrs fs) h1" "shrinks (hollow s h) h1"
    using overwrite_ok [of "R + {#s#} + addrs fs" ds "hollow s h" s "old_field kept" 0 old fs Record] ds(1) len by auto
  have "addrs fs \<subseteq># ?X + kids h s" using ds(2) kids by simp
  from in_place [OF ok1 s(2,3) this h1(3,2,2) refl refl, of "Record fs"]
  obtain h' where "ret_incref (Ptr s) (set_body s (Record fs) h1) = Some (Ptr s, h')" "rebuilds R scr (Record fs) h (Ptr s) h'"
    using s(1) by (auto simp: rebuilds_def)
  then show ?thesis using h1(1) s len by (auto simp: kai_reuse_or_alloc_record_def)
next
  case False
  then have "owed_record scr fs kept h = fs" by (auto simp: owed_record_def split: option.splits body.splits)
  then have "rebuilds R scr (Record fs) h (Ptr p) (kai_alloc p (Record fs) h)" using fresh_rebuilds [OF _ p] ok by simp
  moreover have "kai_reuse_or_alloc_record p scr fs kept h = Some (Ptr p, kai_alloc p (Record fs) h)"
  proof (cases scr)
    case (Ptr s)
    then obtain c where "h_cells h s = Some c" using rc_ok_dom(1) [OF ok] by auto
    then show ?thesis using False Ptr
      by (auto simp: kai_reuse_or_alloc_record_def lone_def kai_check_unique_def Let_def split: body.splits if_splits)
  qed (use scr in \<open>auto simp: kai_reuse_or_alloc_record_def\<close>)
  ultimately show ?thesis by blast
qed

theorem kai_reuse_or_alloc_cons_rebuilds:
  assumes ok: "rc_ok (R + mset (addr_of scr) + addrs (owed_cons scr car cdr h)) h"
    and p: "h_cells h p = None" and scr: "\<And>w. scr \<noteq> Imm w"
  shows "\<exists>v h'. kai_reuse_or_alloc_cons p scr car cdr h = Some (v, h') \<and> rebuilds R scr (Cons car cdr) h v h'"
proof (cases "\<exists>y ys. lone scr h = Some (Cons y ys)")
  case True
  then obtain y ys where l: "lone scr h = Some (Cons y ys)" by blast
  obtain s c where s: "scr = Ptr s" "h_cells h s = Some c" "c_rc c = 1" "c_body c = Cons y ys" "kai_check_unique scr h = Some True"
    using lone_Some [OF l] by blast
  let ?X = "addrs (owed_parts 0 [y, ys] [car, cdr] 0)" and ?b = "Cons car cdr"
  let ?d = "if y \<noteq> car then [y] else []" and ?e = "if ys \<noteq> cdr then [ys] else []"
  have ok1: "rc_ok (R + {#s#} + ?X) h" using ok l s(1) by (simp add: owed_cons_def)
  have kids: "kids h s = addrs [y, ys]" using s(2,4) by (simp add: kids_def)
  have eq: "?X + addrs [y, ys] = addrs [car, cdr] + addrs ?d + addrs ?e" by auto
  have hol: "rc_ok ((R + {#s#} + addrs [car, cdr] + addrs ?e) + addrs ?d) (hollow s h)"
    using hollow_open [OF ok1 s(2)] unfolding kids by (metis (no_types, lifting) eq add.assoc add.commute)
  obtain h0 where h0: "drop_all decref ?d (set_body s ?b (hollow s h)) = Some (set_body s ?b h0)"
      "rc_ok (R + {#s#} + addrs [car, cdr] + addrs ?e) h0" "shrinks (hollow s h) h0"
    using drop_all_around [OF hol, of s ?b] by auto
  obtain h1 where h1: "drop_all decref ?e (set_body s ?b h0) = Some (set_body s ?b h1)"
      "rc_ok (R + {#s#} + addrs [car, cdr]) h1" "shrinks h0 h1"
    using drop_all_around [OF h0(2), of s ?b] by auto
  have "addrs [car, cdr] \<subseteq># ?X + kids h s" unfolding kids eq by simp
  from in_place [OF ok1 s(2,3) this shrinks_trans [OF h0(3) h1(3)] h1(2,2) refl refl, of ?b]
  obtain h' where "ret_incref (Ptr s) (set_body s ?b h1) = Some (Ptr s, h')" "rebuilds R scr ?b h (Ptr s) h'"
    using s(1) by (auto simp: rebuilds_def)
  moreover have "kai_reuse_or_alloc_cons p scr car cdr h
      = Option.bind (Option.bind (drop_all decref ?d (set_body s ?b h)) (drop_all decref ?e)) (ret_incref scr)"
  proof -
    have one: "(if b then decref v h' else Some h') = drop_all decref (if b then [v] else []) h'" for b v h'
      by (cases b) (simp_all only: drop_all_one drop_all.simps(1) if_True if_False)
    show ?thesis using s by (simp add: kai_reuse_or_alloc_cons_def one del: drop_all.simps)
  qed
  then have "kai_reuse_or_alloc_cons p scr car cdr h = ret_incref (Ptr s) (set_body s ?b h1)"
    unfolding h0(1) [unfolded set_body_twice] bind.bind_lunit h1(1) s(1) .
  ultimately show ?thesis by simp
next
  case False
  then have "owed_cons scr car cdr h = [car, cdr]" by (auto simp: owed_cons_def split: option.splits body.splits)
  then have "rebuilds R scr (Cons car cdr) h (Ptr p) (kai_cons p car cdr h)"
    using fresh_rebuilds [OF ok p, of "Cons car cdr"] by (simp add: kai_cons_def)
  moreover have "kai_reuse_or_alloc_cons p scr car cdr h = Some (Ptr p, kai_cons p car cdr h)"
  proof (cases scr)
    case (Ptr s)
    then obtain c where "h_cells h s = Some c" using rc_ok_dom(1) [OF ok] by auto
    then show ?thesis using False Ptr
      by (auto simp: kai_reuse_or_alloc_cons_def lone_def kai_check_unique_def Let_def split: body.splits if_splits)
  qed (use scr in \<open>auto simp: kai_reuse_or_alloc_cons_def\<close>)
  ultimately show ?thesis by blast
qed


section \<open>Variants\<close>

abbreviation ptr_slot :: "32 word \<Rightarrow> nat \<Rightarrow> bool" where
  "ptr_slot m i \<equiv> m = 0 \<or> kai_var_slot_kind m i = KAI_VAR_SLOT_PTR"

fun owed_slots :: "32 word \<Rightarrow> 32 word \<Rightarrow> var_slot list \<Rightarrow> var_slot list \<Rightarrow> nat \<Rightarrow> kvalue list" where
  "owed_slots dm m (y # ys) (x # xs) i =
     (case x of Slot_ptr v \<Rightarrow> if ptr_slot m i \<and> \<not> (ptr_slot dm i \<and> y = x) then [v] else [] | Slot_raw w \<Rightarrow> [])
     @ owed_slots dm m ys xs (Suc i)"
| "owed_slots dm m _ _ i = []"

text \<open>
  A raw word that takes the place of a pointer must not look like it: the function would take the old
  part for one that stays and never give it back.
\<close>

fun no_clash :: "32 word \<Rightarrow> 32 word \<Rightarrow> var_slot list \<Rightarrow> var_slot list \<Rightarrow> nat \<Rightarrow> bool" where
  "no_clash dm m (y # ys) (x # xs) i \<longleftrightarrow>
     (ptr_slot dm i \<and> \<not> ptr_slot m i \<longrightarrow> (\<nexists>q. y = Slot_ptr (Ptr q) \<and> x \<in> {Slot_ptr (Ptr q), Slot_raw (word_of_nat q)}))
   \<and> no_clash dm m ys xs (Suc i)"
| "no_clash dm m _ _ i \<longleftrightarrow> True"

definition host :: "kvalue \<Rightarrow> nat \<Rightarrow> heap \<Rightarrow> (nat \<times> var_slot list) option" where
  "host scr n h = (case lone scr h of Some (Variant dt ys) \<Rightarrow> if length ys = n then Some (dt, ys) else None | _ \<Rightarrow> None)"

definition owed_variant :: "kvalue \<Rightarrow> 32 word \<Rightarrow> var_slot list \<Rightarrow> heap \<Rightarrow> kvalue list" where
  "owed_variant scr msk slots h = (case host scr (length slots) h of
      Some (dt, ys) \<Rightarrow> owed_slots (kai_slot_mask_of (h_masks h) dt) msk ys slots 0
    | None \<Rightarrow> the (slot_values msk 0 slots))"

lemma exchange:
  fixes a :: "'a multiset"
  assumes "a + v = k + d + v'" "w + v' = k' + e"
  shows "(a + w) + v = (k + k') + (d + e)"
proof -
  have "(a + w) + v = (a + v) + w" by (simp add: ac_simps)
  also have "\<dots> = k + d + (w + v')" unfolding assms(1) by (simp add: ac_simps)
  finally show ?thesis unfolding assms(2) by (simp add: ac_simps)
qed

lemma released_slots:
  assumes "length ys = length xs" "slot_values dm i ys = Some vo" "slot_values m i xs = Some vn" "no_clash dm m ys xs i"
  shows "\<exists>ds. released (old_slot dm) ys xs i = Some ds
     \<and> addrs (owed_slots dm m ys xs i) + addrs vo = addrs vn + addrs ds"
  using assms
proof (induction ys xs arbitrary: i vo vn rule: list_induct2)
  case (Cons y ys x xs)
  define vo' vn' where "vo' = (if ptr_slot dm i then tl vo else vo)" and "vn' = (if ptr_slot m i then tl vn else vn)"
  have y: "\<not> (dm \<noteq> 0 \<and> 16 \<le> i)" "ptr_slot dm i \<Longrightarrow> \<exists>v. y = Slot_ptr v \<and> vo = v # vo'" "slot_values dm (Suc i) ys = Some vo'"
    using Cons.prems(1) by (auto simp: vo'_def split: if_splits var_slot.splits)
  have x: "ptr_slot m i \<Longrightarrow> \<exists>v. x = Slot_ptr v \<and> vn = v # vn'" "slot_values m (Suc i) xs = Some vn'"
    using Cons.prems(2) by (auto simp: vn'_def split: if_splits var_slot.splits)
  obtain ds where ds: "released (old_slot dm) ys xs (Suc i) = Some ds"
      "addrs (owed_slots dm m ys xs (Suc i)) + addrs vo' = addrs vn' + addrs ds"
    using Cons.IH [OF y(3) x(2)] Cons.prems(3) by auto
  define d where "d = (if ptr_slot dm i then (case y of Slot_ptr (Ptr q) \<Rightarrow> if slot_differs (Ptr q) x then [Ptr q] else [] | _ \<Rightarrow> []) else [])"
  define o1 where "o1 = (case x of Slot_ptr v \<Rightarrow> if ptr_slot m i \<and> \<not> (ptr_slot dm i \<and> y = x) then [v] else [] | Slot_raw w \<Rightarrow> [])"
  have "old_slot dm i y x = Some d"
    using y(1,2) by (auto simp: old_slot_def d_def split: var_slot.splits kvalue.splits)
  then have rel: "released (old_slot dm) (y # ys) (x # xs) i = Some (d @ ds)" using ds(1) by simp
  have E1: "addrs o1 + addrs vo = addrs (if ptr_slot m i then [hd vn] else []) + addrs d + addrs vo'"
  proof (cases "ptr_slot dm i")
    case True
    then obtain v where v: "y = Slot_ptr v" "vo = v # vo'" using y(2) by blast
    show ?thesis
    proof (cases "ptr_slot m i")
      case m: True
      then obtain w where "x = Slot_ptr w" "vn = w # vn'" using x(1) by blast
      then show ?thesis using v True m by (cases v) (auto simp: o1_def d_def)
    next
      case False
      then show ?thesis using v True Cons.prems(3) by (cases v) (auto simp: o1_def d_def split: var_slot.splits)
    qed
  next
    case False
    then have "vo = vo'" "d = []" by (simp_all add: vo'_def d_def)
    moreover have "addrs o1 = addrs (if ptr_slot m i then [hd vn] else [])"
      using x(1) False by (cases "ptr_slot m i") (auto simp: o1_def split: var_slot.splits)
    ultimately show ?thesis by simp
  qed
  have N: "addrs vn = addrs (if ptr_slot m i then [hd vn] else []) + addrs vn'"
    using x(1) by (cases vn) (auto simp: vn'_def)
  have O: "owed_slots dm m (y # ys) (x # xs) i = o1 @ owed_slots dm m ys xs (Suc i)" by (simp add: o1_def)
  have "addrs (owed_slots dm m (y # ys) (x # xs) i) + addrs vo = addrs vn + addrs (d @ ds)"
    unfolding O N addrs_append by (rule exchange [OF E1 ds(2)])
  with rel show ?case by blast
qed auto


lemma ctors_ok_kept: "ctors_ok t h \<Longrightarrow> immortals_kept h h' \<Longrightarrow> ctors_ok t h'"
proof -
  assume "ctors_ok t h" "immortals_kept h h'"
  moreover have "atom v tag ss h \<Longrightarrow> immortals_kept h h' \<Longrightarrow> atom v tag ss h'" for v tag ss
    by (auto simp: atom_def immortals_kept_def)
  ultimately show ?thesis unfolding ctors_ok_def by blast
qed

lemma tags_known_body:
  assumes "tags_known h" "\<And>tag ss. b = Variant tag ss \<Longrightarrow> h_masks h tag \<noteq> 0 \<and> tag < KAI_VARIANT_TAG_SPACE"
  shows "tags_known (set_body s b h)"
  unfolding tags_known_def
proof (intro allI impI)
  fix p c tag ss assume "h_cells (set_body s b h) p = Some c \<and> c_body c = Variant tag ss"
  then have "b = Variant tag ss \<or> (\<exists>c. h_cells h p = Some c \<and> c_body c = Variant tag ss)"
    by (auto simp: set_body_cells split: if_splits)
  then show "h_masks (set_body s b h) tag \<noteq> 0 \<and> tag < KAI_VARIANT_TAG_SPACE"
    using assms unfolding tags_known_def set_body_simps by blast
qed

lemma register_refs: "tags_known h \<Longrightarrow> refs (kai_slotmask_register tag m h) = refs h"
proof -
  assume known: "tags_known h"
  have "owned (h_masks (kai_slotmask_register tag m h)) (c_body c) = owned (h_masks h) (c_body c)" if "h_cells h p = Some c" for p c
    by (rule owned_masks) (use known that in \<open>auto simp: tags_known_def register_masks\<close>)
  then have "kids (kai_slotmask_register tag m h) p = kids h p" for p by (auto simp: kids_def split: option.splits)
  then show ?thesis by (simp add: refs_def fun_eq_iff)
qed

lemma register_set_body: "kai_slotmask_register tag m (set_body s b h) = set_body s b (kai_slotmask_register tag m h)"
  by (simp add: kai_slotmask_register_def set_body_def)

lemma host_cases:
  assumes "host scr n h = Some (dt, ys)"
  obtains s c where "scr = Ptr s" "h_cells h s = Some c" "c_rc c = 1" "c_body c = Variant dt ys"
    "kai_check_unique scr h = Some True" "length ys = n"
proof -
  have "lone scr h = Some (Variant dt ys)" "length ys = n"
    using assms by (auto simp: host_def split: option.splits body.splits if_splits)
  then show thesis using lone_Some that by blast
qed

text \<open>
  C13: Rebuilding a variant in place, for any two slot masks: as for records, the parts that stay move,
  the pointers that go are given back, raw slots are left out of the count, and only holders of the
  scrutinee can tell. The tables of interned variants stay right. There is one condition on the data
  (\<open>no_clash\<close>): no integer or real that the new constructor puts into a slot has the bits of the
  pointer the old one had there; the code would take that pointer for a part that stays and leak it.
\<close>

theorem kai_variant_reuse_at_rebuilds:
  assumes ok: "rc_ok (R + mset (addr_of scr) + addrs (owed_variant scr msk slots h)) h" "tags_known h" "ctors_ok t h"
    and p: "h_cells h p = None" and agrees: "mask_agrees tag msk h" and slots: "slot_values msk 0 slots \<noteq> None"
    and clash: "\<And>dt ys. host scr (length slots) h = Some (dt, ys) \<Longrightarrow> no_clash (kai_slot_mask_of (h_masks h) dt) msk ys slots 0"
  shows "\<exists>v t' h'. kai_variant_reuse_at p scr tag name msk slots t h = Some (v, t', h')
    \<and> rebuilds R scr (Variant tag slots) h v h' \<and> tags_known h' \<and> ctors_ok t' h'"
proof (cases "host scr (length slots) h")
  case (Some d)
  then obtain dt ys where hst: "host scr (length slots) h = Some (dt, ys)" by (cases d) auto
  obtain s c where s: "scr = Ptr s" "h_cells h s = Some c" "c_rc c = 1" "c_body c = Variant dt ys" "kai_check_unique scr h = Some True"
    and len: "length ys = length slots" using host_cases [OF hst] by blast
  let ?dm = "kai_slot_mask_of (h_masks h) dt"
  let ?X = "addrs (owed_slots ?dm msk ys slots 0)"
  have ok1: "rc_ok (R + {#s#} + ?X) h" using ok(1) hst s(1) by (simp add: owed_variant_def)
  obtain vo where vo: "slot_values ?dm 0 ys = Some vo"
    using ok1 s(2,4) unfolding rc_ok_def counted_def by fastforce
  obtain vs where vs: "slot_values msk 0 slots = Some vs" using slots by blast
  have kids: "kids h s = addrs vo" using s(2,4) vo by (simp add: kids_def)
  obtain ds where ds: "released (old_slot ?dm) ys slots 0 = Some ds" "?X + addrs vo = addrs vs + addrs ds"
    using released_slots [OF len vo vs clash [OF hst]] by blast
  have "rc_ok ((R + {#s#} + addrs vs) + addrs ds) (hollow s h)"
    using hollow_open [OF ok1 s(2)] kids ds(2) by (metis add.assoc)
  moreover have "set_body s (Variant dt ys) (hollow s h) = h" using set_body_same [OF s(2,4)] by simp
  ultimately obtain h1 where h1: "overwrite (Variant dt) (old_slot ?dm) s ys slots 0 h = Some (set_body s (Variant dt slots) h1)"
      "rc_ok (R + {#s#} + addrs vs) h1" "shrinks (hollow s h) h1"
    using overwrite_ok [of "R + {#s#} + addrs vs" ds "hollow s h" s "old_slot ?dm" 0 ys slots "Variant dt"] ds(1) len by auto
  have tag: "tag < KAI_VARIANT_TAG_SPACE" "tag mod 65536 = tag" using agrees by (simp_all add: mask_agrees_def KAI_VARIANT_TAG_SPACE_def)
  have masks: "h_masks h1 = h_masks h" using h1(3) by (simp add: shrinks_def)
  have known1: "tags_known h1" using tags_known_shrinks [OF tags_known_body [OF ok(2)] h1(3)] by simp
  let ?h2 = "kai_slotmask_register tag msk h1"
  have "kai_slot_mask_of (h_masks ?h2) tag = msk"
    by (rule mask_of_register) (use agrees masks in \<open>simp add: mask_agrees_def\<close>)
  then have own: "owned (h_masks ?h2) (Variant tag slots) = Some vs" using vs by simp
  have sub: "addrs vs \<subseteq># ?X + kids h s" using ds(2) kids by simp
  from in_place [OF ok1 s(2,3) sub h1(3,2) register_ok(1) [OF h1(2) known1] register_simps(1) register_refs [OF known1] own]
  obtain h' where h': "ret_incref (Ptr s) (set_body s (Variant tag slots) ?h2) = Some (Ptr s, h')"
      "rebuilds R scr (Variant tag slots) h (Ptr s) h'" "h_masks h' = h_masks ?h2" "\<And>q. q \<noteq> s \<Longrightarrow> h_cells h' q = h_cells h1 q"
    using s(1) by (auto simp: rebuilds_def)
  have "immortals_kept (hollow s h) h1" by (rule shrinks_immortals [OF h1(3)])
  have "immortals_kept h h'"
    unfolding immortals_kept_def
  proof (intro allI impI)
    fix q d assume d: "h_cells h q = Some d \<and> immortal d"
    then have "q \<noteq> s" using s(2,3) by (auto simp: immortal_def)
    then show "h_cells h' q = Some d"
      using d h'(4) \<open>immortals_kept (hollow s h) h1\<close> by (auto simp: immortals_kept_def set_body_cells)
  qed
  then have "ctors_ok t h'" using ctors_ok_kept [OF ok(3)] by blast
  moreover have "tags_known h'"
    unfolding tags_known_def
  proof (intro allI impI)
    fix q d tg ss assume d: "h_cells h' q = Some d \<and> c_body d = Variant tg ss"
    have "tags_known ?h2" using register_ok(2) [OF h1(2) known1] .
    moreover have "tg = tag" if "q = s" using d that h'(2) by (auto simp: rebuilds_def)
    ultimately show "h_masks h' tg \<noteq> 0 \<and> tg < KAI_VARIANT_TAG_SPACE"
      using d h'(3,4) tag(1) register_known by (cases "q = s") (auto simp: tags_known_def)
  qed
  ultimately show ?thesis using h1(1) h'(1,2) s len tag
    by (auto simp: kai_variant_reuse_at_def Let_def register_set_body)
next
  case None
  obtain vs where vs: "slot_values msk 0 slots = Some vs" using slots by blast
  have ok1: "rc_ok (R + mset (addr_of scr) + addrs vs) h" using ok(1) None vs by (simp add: owed_variant_def)
  obtain v t' h' where r: "kai_variant_u p tag name msk slots t h = Some (v, t', h')" "builds (R + mset (addr_of scr)) p tag slots h (v, t', h')"
    using kai_variant_u_builds [OF ok1 ok(2,3) p agrees vs, of name] by auto
  have "unseen R h h'"
    using unseen_keeps [of R "mset (addr_of scr) + addrs vs" h h'] ok1 r(2) by (simp add: ac_simps builds_def)
  then have "rebuilds R scr (Variant tag slots) h v h' \<and> tags_known h' \<and> ctors_ok t' h'"
    using r(2) by (auto simp: builds_def rebuilds_def)
  moreover have "kai_variant_reuse_at p scr tag name msk slots t h = kai_variant_u p tag name msk slots t h"
  proof (cases scr)
    case (Ptr s)
    then obtain c where "h_cells h s = Some c" using rc_ok_dom(1) [OF ok1] by auto
    then show ?thesis using None Ptr
      by (auto simp: kai_variant_reuse_at_def host_def lone_def kai_check_unique_def Let_def split: body.splits if_splits)
  qed (simp_all add: kai_variant_reuse_at_def)
  ultimately show ?thesis using r(1) by auto
qed


text \<open>A second box for \<open>some_heap\<close>, and a record of one field with a second box.\<close>

definition two_boxes :: heap where
  "two_boxes = kai_alloc 2 (Scalar KAI_CHAR) some_heap"

lemma two_cells: "h_cells two_boxes = (h_cells some_heap)(2 \<mapsto> \<lparr>c_rc = 1, c_body = Scalar KAI_CHAR\<rparr>)"
  "h_masks two_boxes = h_masks some_heap"
  by (simp_all add: two_boxes_def kai_alloc_def)

lemma two_ok: "rc_ok ({#1#} + {#2#}) two_boxes" "tags_known two_boxes"
  using alloc_ok [of "{#1#}" "[]" some_heap 2 "Scalar KAI_CHAR"] rc_ok_some
  by (auto simp: two_boxes_def some_cells kai_alloc_def tags_known_def split: if_splits)

lemma kai_variant_reuse_at_rebuilds_witness:
  "\<exists>v t' h'. kai_variant_reuse_at 9 (Ptr 1) 2 4096 0 [Slot_ptr (Ptr 2)] empty_ctors two_boxes = Some (v, t', h')
     \<and> rebuilds {#} (Ptr 1) (Variant 2 [Slot_ptr (Ptr 2)]) two_boxes v h'"
proof -
  have l: "host (Ptr 1) 1 two_boxes = Some (2, [Slot_ptr (Ptr 0)])"
    by (simp add: host_def lone_def two_cells some_cells)
  have "owed_variant (Ptr 1) 0 [Slot_ptr (Ptr 2)] two_boxes = [Ptr 2]"
    using l by (simp add: owed_variant_def some_masks two_cells(2))
  then have ok: "rc_ok ({#} + mset (addr_of (Ptr 1)) + addrs (owed_variant (Ptr 1) 0 [Slot_ptr (Ptr 2)] two_boxes)) two_boxes"
    using two_ok(1) by simp
  have agrees: "mask_agrees 2 0 two_boxes" by (simp add: mask_agrees_def KAI_VARIANT_TAG_SPACE_def two_cells some_masks)
  have free: "h_cells two_boxes 9 = None" by (simp add: two_cells some_cells)
  have "\<And>dt ys. host (Ptr 1) (length [Slot_ptr (Ptr 2)]) two_boxes = Some (dt, ys)
      \<Longrightarrow> no_clash (kai_slot_mask_of (h_masks two_boxes) dt) 0 ys [Slot_ptr (Ptr 2)] 0"
    using l by simp
  from kai_variant_reuse_at_rebuilds [OF ok two_ok(2) ctors_ok_empty free agrees _ this, of 4096]
  show ?thesis by auto
qed

definition record_heap :: heap where
  "record_heap = kai_alloc 2 (Scalar KAI_CHAR) (kai_alloc 1 (Record [Ptr 0]) (kai_alloc 0 (Scalar KAI_REAL) empty_heap))"

lemma kai_reuse_or_alloc_record_rebuilds_witness:
  "\<exists>v h'. kai_reuse_or_alloc_record 9 (Ptr 1) [Ptr 2] 0 record_heap = Some (v, h')
     \<and> rebuilds {#} (Ptr 1) (Record [Ptr 2]) record_heap v h'"
proof -
  have "rc_ok {#0#} (kai_alloc 0 (Scalar KAI_REAL) empty_heap)"
    using alloc_ok [of "{#}" "[]" empty_heap 0 "Scalar KAI_REAL"] rc_ok_empty by (simp add: empty_heap_def)
  then have "rc_ok {#1#} (kai_alloc 1 (Record [Ptr 0]) (kai_alloc 0 (Scalar KAI_REAL) empty_heap))"
    using alloc_ok [of "{#}" "[Ptr 0]" "kai_alloc 0 (Scalar KAI_REAL) empty_heap" 1 "Record [Ptr 0]"]
    by (simp add: kai_alloc_def empty_heap_def del: One_nat_def)
  then have ok: "rc_ok ({#1#} + {#2#}) record_heap"
    using alloc_ok [of "{#1#}" "[]" "kai_alloc 1 (Record [Ptr 0]) (kai_alloc 0 (Scalar KAI_REAL) empty_heap)" 2 "Scalar KAI_CHAR"]
    by (simp add: record_heap_def kai_alloc_def empty_heap_def del: One_nat_def)
  have "owed_record (Ptr 1) [Ptr 2] 0 record_heap = [Ptr 2]"
    by (simp add: owed_record_def lone_def record_heap_def kai_alloc_def empty_heap_def)
  then have "rc_ok ({#} + mset (addr_of (Ptr 1)) + addrs (owed_record (Ptr 1) [Ptr 2] 0 record_heap)) record_heap"
    using ok by simp
  from kai_reuse_or_alloc_record_rebuilds [OF this, of 9] show ?thesis
    by (auto simp: record_heap_def kai_alloc_def empty_heap_def)
qed

end
