(* ===== verification/Kai_Reuse_Token.thy ===== *)
theory Kai_Reuse_Token
  imports Kai_Reuse
begin

unbundle bit_operations_syntax

text \<open>
  Taking a matched variant apart: \<^verbatim>\<open>kai_arm_take\<close> hands its parts to the binders of the arm, and the
  token functions carry the empty shell to the constructor that fills it again.
\<close>

section \<open>A shell given back\<close>

lemma recycle_set_body: "recycle s (set_body s b h) = recycle s h"
  by (auto simp: recycle_def set_body_def fun_eq_iff)

lemma recycle_set_rc: "recycle s (set_rc s r h) = recycle s h"
  by (auto simp: recycle_def set_rc_def fun_eq_iff)

lemma set_rc_same: "h_cells h s = Some c \<Longrightarrow> c_rc c = r \<Longrightarrow> set_rc s r h = h"
  by (cases h) (auto simp: set_rc_def fun_eq_iff)

lemma recycle_shell:
  assumes ok: "rc_ok (R + {#s#}) h" and d: "h_cells h s = Some d" "\<not> immortal d" "owners d = 1" "kids h s = {#}"
  shows "rc_ok R (recycle s h)"
proof -
  have C: "counted {} {} (R + {#s#}) h" "stack_ok False {} h" using ok by (simp_all add: rc_ok_def)
  have zero: "\<not> immortal (d\<lparr>c_rc := 0\<rparr>)" "owners (d\<lparr>c_rc := 0\<rparr>) = owners d - 1" "(0 :: int) \<noteq> KAI_RC_SPECIAL" "0 \<le> INT32_MAX"
    using d(3) by (simp_all add: immortal_def owners_def INT32_MAX_def)
  have "counted {} {s} R (set_rc s 0 h)" using counted_set_rc(1) [OF C(1) d(1,2) zero] by simp
  from counted_open [OF this, of s] have "counted {s} {s} R (set_rc s 0 h)" using d(4) by simp
  from counted_recycle(1) [OF this] have "counted {} {} R (recycle s h)" by (simp add: recycle_set_rc)
  then show ?thesis using C(2) by (simp add: rc_ok_def stack_ok_def)
qed

section \<open>Taking an arm\<close>

text \<open>The parts the binders took, and which bits may be set in the mask of the others.\<close>

fun bound_parts :: "32 word \<Rightarrow> 32 word \<Rightarrow> var_slot list \<Rightarrow> nat \<Rightarrow> kvalue list" where
  "bound_parts m u [] i = []"
| "bound_parts m u (s # ss) i =
     (case s of Slot_ptr v \<Rightarrow> if ptr_slot m i \<and> \<not> bit u 0 then [v] else [] | Slot_raw w \<Rightarrow> [])
     @ bound_parts m (drop_bit 1 u) ss (Suc i)"

fun unbound_ok :: "32 word \<Rightarrow> 32 word \<Rightarrow> var_slot list \<Rightarrow> nat \<Rightarrow> bool" where
  "unbound_ok m u [] i \<longleftrightarrow> u = 0"
| "unbound_ok m u (s # ss) i \<longleftrightarrow> (bit u 0 \<longrightarrow> ptr_slot m i) \<and> unbound_ok m (drop_bit 1 u) ss (Suc i)"

lemma bound_parts_zero: "slot_values m i ss = Some vs \<Longrightarrow> bound_parts m 0 ss i = vs"
  by (induction ss arbitrary: i vs) (auto split: if_splits var_slot.splits)

lemma drop_unbound_ok:
  assumes "rc_ok (R + addrs vs) h" "s \<in># R" "slot_values m i ss = Some vs" "unbound_ok m u ss i"
  shows "\<exists>h'. drop_unbound u ss (set_body s b h) = Some (set_body s b h')
    \<and> rc_ok (R + addrs (bound_parts m u ss i)) h' \<and> shrinks h h' \<and> addrs (bound_parts m u ss i) \<subseteq># addrs vs"
  using assms
proof (induction ss arbitrary: R u i vs h)
  case (Cons x ss)
  show ?case
  proof (cases "u = 0")
    case True
    then have "bound_parts m u (x # ss) i = vs" using bound_parts_zero Cons.prems(3) by blast
    then show ?thesis using True Cons.prems(1) shrinks_refl by auto
  next
    case u: False
    define vs' where "vs' = (if ptr_slot m i then tl vs else vs)"
    have x: "ptr_slot m i \<Longrightarrow> \<exists>v. x = Slot_ptr v \<and> vs = v # vs'" "slot_values m (Suc i) ss = Some vs'"
      using Cons.prems(3) by (auto simp: vs'_def split: if_splits var_slot.splits)
    have rest: "unbound_ok m (drop_bit 1 u) ss (Suc i)" using Cons.prems(4) by simp
    show ?thesis
    proof (cases "bit u 0")
      case True
      then obtain v where v: "x = Slot_ptr v" "vs = v # vs'" using Cons.prems(4) x(1) by auto
      have "rc_ok ((R + addrs vs') + mset (addr_of v)) h" using Cons.prems(1) v(2) by (simp add: ac_simps)
      then obtain h1 where h1: "decref v (set_body s b h) = Some (set_body s b h1)" "rc_ok (R + addrs vs') h1" "shrinks h h1"
        using decref_around [of "R + addrs vs'" v h s b] Cons.prems(2) by auto
      obtain h' where h': "drop_unbound (drop_bit 1 u) ss (set_body s b h1) = Some (set_body s b h')"
          "rc_ok (R + addrs (bound_parts m (drop_bit 1 u) ss (Suc i))) h'" "shrinks h1 h'"
          "addrs (bound_parts m (drop_bit 1 u) ss (Suc i)) \<subseteq># addrs vs'"
        using Cons.IH [OF h1(2) Cons.prems(2) x(2) rest] by blast
      have "drop_unbound u (x # ss) (set_body s b h) = Some (set_body s b h')" using u True v(1) h1(1) h'(1) by simp
      moreover have "bound_parts m u (x # ss) i = bound_parts m (drop_bit 1 u) ss (Suc i)" using True v(1) by simp
      moreover have "addrs vs' \<subseteq># addrs vs" using v(2) by simp
      ultimately show ?thesis using h'(2,4) shrinks_trans [OF h1(3) h'(3)] subset_mset.trans by metis
    next
      case False
      define w where "w = (case x of Slot_ptr v \<Rightarrow> if ptr_slot m i then [v] else [] | Slot_raw w \<Rightarrow> [])"
      have w: "addrs vs = addrs w + addrs vs'" "bound_parts m u (x # ss) i = w @ bound_parts m (drop_bit 1 u) ss (Suc i)"
        using x(1) False by (cases vs; auto simp: w_def vs'_def split: var_slot.splits)+
      have "rc_ok ((R + addrs w) + addrs vs') h" using Cons.prems(1) w(1) by (simp add: ac_simps)
      from Cons.IH [OF this _ x(2) rest] obtain h' where h': "drop_unbound (drop_bit 1 u) ss (set_body s b h) = Some (set_body s b h')"
          "rc_ok (R + addrs w + addrs (bound_parts m (drop_bit 1 u) ss (Suc i))) h'" "shrinks h h'"
          "addrs (bound_parts m (drop_bit 1 u) ss (Suc i)) \<subseteq># addrs vs'"
        using Cons.prems(2) by auto
      have "drop_unbound u (x # ss) (set_body s b h) = Some (set_body s b h')" using u False h'(1) by simp
      moreover have "rc_ok (R + addrs (bound_parts m u (x # ss) i)) h'" unfolding w(2) addrs_append using h'(2) by (simp add: ac_simps)
      moreover have "addrs (bound_parts m u (x # ss) i) \<subseteq># addrs vs" unfolding w addrs_append using h'(4) by simp
      ultimately show ?thesis using h'(3) by blast
    qed
  qed
qed (use shrinks_refl in auto)

lemma rc_decrement_ok:
  assumes ok: "rc_ok (R + {#s#}) h" and c: "h_cells h s = Some c" "c_rc c \<noteq> 1" "c_rc c < KAI_RC_SPECIAL \<or> immortal c"
  shows "rc_ok R (rc_decrement s c h)" "h_masks (rc_decrement s c h) = h_masks h"
    "\<exists>c'. h_cells (rc_decrement s c h) s = Some c' \<and> c_body c' = c_body c" "unseen R h (rc_decrement s c h)"
proof -
  have C: "counted {} {} (R + {#s#}) h" "stack_ok False {} h" using ok by (simp_all add: rc_ok_def)
  show body: "h_masks (rc_decrement s c h) = h_masks h"
    "\<exists>c'. h_cells (rc_decrement s c h) s = Some c' \<and> c_body c' = c_body c"
    using c(1) by (auto simp: rc_decrement_def set_rc_cells)
  have cells: "\<exists>d'. h_cells (rc_decrement s c h) q = Some d' \<and> c_body d' = c_body d" if "h_cells h q = Some d" for q d
    using that by (auto simp: rc_decrement_def set_rc_cells)
  show "unseen R h (rc_decrement s c h)"
    unfolding unseen_def
  proof (intro allI impI)
    fix q assume "reaches R h q"
    then obtain d where "h_cells h q = Some d" using reaches_dom [OF ok reaches_mono] by blast
    then show "\<exists>c' c''. h_cells h q = Some c' \<and> h_cells (rc_decrement s c h) q = Some c'' \<and> c_body c'' = c_body c'"
      using cells by blast
  qed
  show "rc_ok R (rc_decrement s c h)"
  proof (cases "immortal c")
    case True
    then have "rc_decrement s c h = h" by (simp add: rc_decrement_def immortal_def)
    then show ?thesis using immortal_refs(2) [OF ok, of "{#s#}" R] c(1) True by simp
  next
    case False
    then have "rc_decrement s c h = set_rc s (c_rc c - 1) h" by (simp add: rc_decrement_def immortal_def)
    moreover have "counted {} {} R (set_rc s (c_rc c - 1) h)"
      using counted_set_rc(1) [OF C(1) c(1) False, of "c_rc c - 1"] c(2,3) False
      by (simp add: immortal_def owners_def KAI_RC_SPECIAL_def INT32_MAX_def)
    ultimately show ?thesis using C(2) by (simp add: rc_ok_def stack_ok_def)
  qed
qed

text \<open>
  C20: Taking an arm: from the sole owner the binders get the references of the parts they took, the
  other parts are given back, and the cell is reclaimed; from a shared cell one reference is given back
  and the cell stays as it is.
\<close>

theorem kai_arm_take_counts:
  assumes ok: "rc_ok (R + {#s#}) h" and c: "h_cells h s = Some c" "c_body c = Variant tag ss"
    and plain: "c_rc c < KAI_RC_SPECIAL \<or> immortal c"
    and u: "unbound_ok (kai_slot_mask_of (h_masks h) tag) u ss 0"
  shows "\<exists>h'. kai_arm_take (Ptr s) u h = Some (c_rc c = 1, h') \<and> unseen R h h'
    \<and> (if c_rc c = 1 then rc_ok (R + addrs (bound_parts (kai_slot_mask_of (h_masks h) tag) u ss 0)) h' \<and> h_cells h' s = None
       else rc_ok R h' \<and> (\<exists>c'. h_cells h' s = Some c' \<and> c_body c' = c_body c))"
proof (cases "c_rc c = 1")
  case False
  then show ?thesis using rc_decrement_ok [OF ok c(1) _ plain] c by (simp add: kai_arm_take_def kai_check_unique_def)
next
  case True
  let ?m = "kai_slot_mask_of (h_masks h) tag"
  obtain vs where vs: "slot_values ?m 0 ss = Some vs"
    using ok c unfolding rc_ok_def counted_def by fastforce
  have kids: "kids h s = addrs vs" using c vs by (simp add: kids_def)
  have ok0: "rc_ok (R + {#s#} + {#}) h" using ok by simp
  have "rc_ok (R + {#s#} + addrs vs) (hollow s h)" using hollow_open [OF ok c(1)] kids by simp
  from drop_unbound_ok [OF this _ vs u, of s "Variant tag ss"]
  obtain h1 where h1: "drop_unbound u ss h = Some (set_body s (Variant tag ss) h1)"
      "rc_ok (R + {#s#} + addrs (bound_parts ?m u ss 0)) h1" "shrinks (hollow s h) h1" "addrs (bound_parts ?m u ss 0) \<subseteq># addrs vs"
    using set_body_same [OF c] by auto
  have sub: "addrs (bound_parts ?m u ss 0) \<subseteq># {#} + kids h s" using h1(4) kids by simp
  obtain d where d: "h_cells h1 s = Some d" "\<not> immortal d" "owners d = 1" "kids h1 s = {#}"
    using lone_after [OF ok0 c(1) True sub h1(3,2)] by blast
  have "rc_ok ((R + addrs (bound_parts ?m u ss 0)) + {#s#}) h1" using h1(2) by (simp add: ac_simps)
  from recycle_shell [OF this d] have "rc_ok (R + addrs (bound_parts ?m u ss 0)) (recycle s h1)" .
  moreover have "rc_ok (R + ({#s#} + addrs (bound_parts ?m u ss 0))) h1" using h1(2) by (simp add: ac_simps)
  then have "unseen R h (recycle s h1)"
    by (rule lone_unseen [OF ok0 c(1) True h1(3)]) (simp add: recycle_def)
  moreover have "kai_arm_take (Ptr s) u h = Some (True, recycle s h1)"
    using c True h1(1) by (simp add: kai_arm_take_def kai_check_unique_def kai_arm_take_shell_def recycle_set_body)
  ultimately show ?thesis using True by (auto simp: recycle_def)
qed


section \<open>Tokens\<close>

theorem kai_drop_reuse_token_counts:
  assumes ok: "rc_ok (R + {#s#}) h" and c: "h_cells h s = Some c" "c_body c = Variant tag ss"
    and plain: "c_rc c < KAI_RC_SPECIAL \<or> immortal c"
  shows "if c_rc c = 1
    then kai_drop_reuse_token (Ptr s) (length ss) h = Some (Ptr s, h) \<and> rc_ok (R + {#s#} + kids h s) (hollow s h)
    else \<exists>h'. kai_drop_reuse_token (Ptr s) (length ss) h = Some (Null, h') \<and> rc_ok R h' \<and> unseen R h h'
      \<and> h_masks h' = h_masks h \<and> (\<exists>c'. h_cells h' s = Some c' \<and> c_body c' = c_body c)"
  using hollow_open [OF ok c(1)] rc_decrement_ok [OF ok c(1) _ plain] c
  by (auto simp: kai_drop_reuse_token_def kai_check_unique_def)

lemma recycle_kept: "h_cells h s = Some c \<Longrightarrow> \<not> immortal c \<Longrightarrow> immortals_kept h (recycle s h)"
  by (auto simp: immortals_kept_def recycle_def)

lemma tags_known_recycle: "tags_known h \<Longrightarrow> tags_known (recycle s h)"
  by (auto simp: tags_known_def recycle_def)

lemma variant_u_result:
  assumes "rc_ok (R + addrs vs) h" "tags_known h" "ctors_ok t h" "h_cells h p = None" "mask_agrees tag msk h"
    "slot_values msk 0 slots = Some vs"
  shows "\<exists>v t' h'. kai_variant_u p tag name msk slots t h = Some (v, t', h') \<and> rc_ok (R + mset (addr_of v)) h'
    \<and> tags_known h' \<and> ctors_ok t' h' \<and> (\<exists>q c. v = Ptr q \<and> h_cells h' q = Some c \<and> c_body c = Variant tag slots)"
  using kai_variant_u_builds [OF assms, of name] by (auto simp: builds_def)

text \<open>
  A shell filled: \<open>vs\<close> are the references its maker holds for the new parts. A shell of another size is
  given back, and the allocator may hand out its address again.
\<close>

theorem kai_variant_at_fills:
  assumes ok: "rc_ok (R + {#s#} + addrs vs) (hollow s h)" and c: "h_cells h s = Some c" "c_rc c = 1" "c_body c = Variant dt ys"
    and known: "tags_known h" "ctors_ok t h" and p: "h_cells (recycle s h) p = None"
    and agrees: "mask_agrees tag msk h" "h_masks h tag \<noteq> 0" and slots: "slot_values msk 0 slots = Some vs"
  shows "\<exists>v t' h'. kai_variant_at p (Ptr s) tag name msk slots t h = Some (v, t', h') \<and> rc_ok (R + mset (addr_of v)) h'
    \<and> tags_known h' \<and> ctors_ok t' h' \<and> (\<exists>q c. v = Ptr q \<and> h_cells h' q = Some c \<and> c_body c = Variant tag slots)"
proof -
  have mortal: "\<not> immortal c" using c(2) by (simp add: immortal_def)
  have tag: "tag < KAI_VARIANT_TAG_SPACE" "tag mod 65536 = tag" "kai_slot_mask_of (h_masks h) tag = msk"
    using agrees by (auto simp: mask_agrees_def KAI_VARIANT_TAG_SPACE_def)
  show ?thesis
  proof (cases "length ys = length slots")
    case True
    let ?h = "set_body s (Variant tag slots) h"
    have "rc_ok (R + {#s#}) ?h" by (rule hollow_close [OF ok c(1)]) (simp add: tag(3) slots)
    moreover have "set_rc s 1 ?h = ?h"
      by (rule set_rc_same [where c = "c\<lparr>c_body := Variant tag slots\<rparr>"]) (simp_all add: set_body_cells c)
    moreover have "tags_known ?h" by (rule tags_known_body [OF known(1)]) (use agrees(2) tag(1) in auto)
    moreover have "immortals_kept h ?h" using c(1) mortal by (auto simp: immortals_kept_def set_body_cells)
    then have "ctors_ok t ?h" by (rule ctors_ok_kept [OF known(2)])
    ultimately show ?thesis using c True tag(2)
      by (auto simp: kai_variant_at_def set_body_cells)
  next
    case False
    have "rc_ok ((R + addrs vs) + {#s#}) (hollow s h)" using ok by (simp add: ac_simps)
    moreover have "h_cells (hollow s h) s = Some (c\<lparr>c_body := Scalar KAI_UNIT\<rparr>)" using c(1) by (simp add: set_body_cells)
    ultimately have "rc_ok (R + addrs vs) (recycle s (hollow s h))"
      by (rule recycle_shell) (use mortal c in \<open>simp_all add: owners_def set_body_kids\<close>)
    then have ok': "rc_ok (R + addrs vs) (recycle s h)" by (simp add: recycle_set_body)
    have "mask_agrees tag msk (recycle s h)" using agrees by (simp add: mask_agrees_def)
    from variant_u_result [OF ok' tags_known_recycle [OF known(1)] ctors_ok_kept [OF known(2) recycle_kept [OF c(1) mortal]] p this slots]
    show ?thesis using c False by (simp add: kai_variant_at_def kai_reuse_free_def)
  qed
qed

section \<open>The whole arm\<close>

fun dup_all :: "kvalue list \<Rightarrow> heap \<Rightarrow> incref_result option" where
  "dup_all [] h = Some (Counted h)"
| "dup_all (v # vs) h = do {
     r \<leftarrow> kai_incref v h;
     case r of Overflow \<Rightarrow> Some Overflow | Counted h \<Rightarrow> dup_all vs h }"

text \<open>
  An arm that takes its scrutinee \<open>v\<close> apart and builds a variant of the same size from its parts: the
  token is taken, a shared scrutinee's parts get references of their own, the token is filled. \<open>None\<close>
  inside is a count that overflows. This is the sequence of calls the compiler emits for such an arm, as
  the comments on \<^verbatim>\<open>kai_drop_reuse_token\<close> and \<^verbatim>\<open>kai_variant_at\<close> describe it; the
  calls are the runtime's own.
\<close>

definition rebuild_arm :: "nat \<Rightarrow> kvalue \<Rightarrow> kvalue list \<Rightarrow> nat \<Rightarrow> cname \<Rightarrow> 32 word \<Rightarrow> var_slot list \<Rightarrow> ctors \<Rightarrow> heap
    \<Rightarrow> (kvalue \<times> ctors \<times> heap) option option" where
  "rebuild_arm p v parts tag name msk slots t h = do {
     (token, h) \<leftarrow> kai_drop_reuse_token v (length slots) h;
     r \<leftarrow> (if token = Null then dup_all parts h else Some (Counted h));
     case r of Overflow \<Rightarrow> Some None
     | Counted h \<Rightarrow> map_option Some (kai_variant_at p token tag name msk slots t h) }"

definition same_shape :: "heap \<Rightarrow> heap \<Rightarrow> bool" where
  "same_shape h h' \<longleftrightarrow> h_masks h' = h_masks h \<and> immortals_kept h h'
     \<and> (\<forall>q. map_option c_body (h_cells h' q) = map_option c_body (h_cells h q))"

lemma same_shape_trans: "same_shape h1 h2 \<Longrightarrow> same_shape h2 h3 \<Longrightarrow> same_shape h1 h3"
  using immortals_kept_trans by (auto simp: same_shape_def)

lemma same_shape_dom: "same_shape h h' \<Longrightarrow> dom (h_cells h') = dom (h_cells h)"
  unfolding same_shape_def by (metis (no_types, lifting) domIff map_option_is_None set_eqI subsetI subset_antisym)

lemma incref_shape:
  assumes "kai_incref v h = Some (Counted h')"
  shows "same_shape h h'"
proof -
  have "h' = h \<or> (\<exists>p c. v = Ptr p \<and> h_cells h p = Some c \<and> \<not> immortal c \<and> h' = set_rc p (c_rc c + 1) h)"
  proof (cases v)
    case (Ptr p)
    then obtain c where c: "h_cells h p = Some c" using assms by (auto simp: kai_incref_def split: bind_splits)
    then show ?thesis using assms Ptr by (auto simp: kai_incref_Ptr split: if_splits)
  qed (use assms in \<open>simp_all add: kai_incref_def\<close>)
  then show ?thesis by (auto simp: same_shape_def set_rc_cells immortals_kept_def)
qed

lemma dup_all_ok:
  assumes "rc_ok R h" "set_mset (addrs vs) \<subseteq> dom (h_cells h)"
  shows "\<exists>r. dup_all vs h = Some r \<and> (case r of Overflow \<Rightarrow> True
    | Counted h' \<Rightarrow> rc_ok (R + addrs vs) h' \<and> same_shape h h')"
  using assms
proof (induction vs arbitrary: R h)
  case (Cons v vs)
  then obtain r where r: "kai_incref v h = Some r" "case r of
      Overflow \<Rightarrow> \<exists>p c. v = Ptr p \<and> h_cells h p = Some c \<and> c_rc c \<in> {KAI_RC_SPECIAL - 1, INT32_MAX - 1}
    | Counted h' \<Rightarrow> rc_ok (R + mset (addr_of v)) h'"
    using kai_incref_counts [OF Cons.prems(1), of v] by auto
  show ?case
  proof (cases r)
    case Overflow
    then show ?thesis using r(1) by simp
  next
    case (Counted h1)
    then have h1: "rc_ok (R + mset (addr_of v)) h1" "same_shape h h1"
      using r incref_shape by auto
    have "set_mset (addrs vs) \<subseteq> dom (h_cells h1)" using Cons.prems(2) same_shape_dom [OF h1(2)] by simp
    from Cons.IH [OF h1(1) this] obtain r' where r': "dup_all vs h1 = Some r'" "case r' of Overflow \<Rightarrow> True
      | Counted h' \<Rightarrow> rc_ok (R + mset (addr_of v) + addrs vs) h' \<and> same_shape h1 h'" by blast
    then show ?thesis using r(1) Counted same_shape_trans [OF h1(2)]
      by (auto simp: ac_simps split: incref_result.splits)
  qed
qed (simp add: same_shape_def)


text \<open>A cell whose count passes one of the two limits when \<open>k\<close> references are added.\<close>

definition at_limit :: "heap \<Rightarrow> nat \<Rightarrow> nat \<Rightarrow> bool" where
  "at_limit h k q \<longleftrightarrow> (\<exists>d. h_cells h q = Some d \<and> \<not> immortal d
     \<and> (\<exists>l \<in> {KAI_RC_SPECIAL - 1, INT32_MAX - 1}. c_rc d \<le> l \<and> l < c_rc d + int k))"

lemma dup_all_overflow:
  assumes "dup_all vs h = Some Overflow" "\<forall>q d. h_cells h q = Some d \<longrightarrow> c_rc d \<le> INT32_MAX"
  shows "\<exists>q. at_limit h (count (addrs vs) q) q"
  using assms
proof (induction vs arbitrary: h)
  case (Cons v vs)
  from Cons.prems obtain r where r: "kai_incref v h = Some r" by (auto split: bind_splits)
  show ?case
  proof (cases v)
    case (Ptr p)
    obtain c where c: "h_cells h p = Some c" using r Ptr by (auto simp: kai_incref_def split: bind_splits)
    consider "immortal c" | "\<not> immortal c" "c_rc c = KAI_RC_SPECIAL - 1 \<or> INT32_MAX - 1 \<le> c_rc c"
      | "\<not> immortal c" "\<not> (c_rc c = KAI_RC_SPECIAL - 1 \<or> INT32_MAX - 1 \<le> c_rc c)" by blast
    then show ?thesis
    proof cases
      case 1
      then have "dup_all vs h = Some Overflow" using Cons.prems Ptr c by (simp add: kai_incref_Ptr)
      from Cons.IH [OF this Cons.prems(2)] obtain q where q: "at_limit h (count (addrs vs) q) q" by blast
      then have "q \<noteq> p" using c 1 by (auto simp: at_limit_def)
      then show ?thesis using q Ptr by auto
    next
      case 2
      have "c_rc c \<noteq> INT32_MAX" using 2(1) by (simp add: immortal_def)
      then have "c_rc c = KAI_RC_SPECIAL - 1 \<or> c_rc c = INT32_MAX - 1" using 2(2) Cons.prems(2) c by force
      then have "at_limit h (count (addrs (v # vs)) p) p" using c 2(1) Ptr by (auto simp: at_limit_def)
      then show ?thesis by blast
    next
      case 3
      let ?h = "set_rc p (c_rc c + 1) h"
      have "dup_all vs ?h = Some Overflow" using Cons.prems Ptr c 3 by (simp add: kai_incref_Ptr)
      moreover have "\<forall>q d. h_cells ?h q = Some d \<longrightarrow> c_rc d \<le> INT32_MAX"
        using Cons.prems(2) 3(2) by (auto simp: set_rc_cells)
      ultimately obtain q where q: "at_limit ?h (count (addrs vs) q) q" using Cons.IH by blast
      have "at_limit h (count (addrs (v # vs)) q) q"
        using q c 3 Ptr by (cases "q = p") (auto simp: at_limit_def set_rc_cells)
      then show ?thesis by blast
    qed
  qed (use Cons r in \<open>auto simp: kai_incref_def\<close>)
qed simp

lemma at_limit_decrement:
  assumes "at_limit (rc_decrement s c h) k q" "h_cells h s = Some c" "c_rc c < KAI_RC_SPECIAL \<or> immortal c"
  shows "at_limit h k q"
proof (cases "q = s \<and> \<not> immortal c")
  case True
  then have "h_cells (rc_decrement s c h) q = Some (c\<lparr>c_rc := c_rc c - 1\<rparr>)"
    using assms(2) by (simp add: rc_decrement_def set_rc_cells immortal_def)
  then show ?thesis using assms True
    by (auto simp: at_limit_def KAI_RC_SPECIAL_def INT32_MAX_def)
next
  case False
  then have "h_cells (rc_decrement s c h) q = h_cells h q"
    using assms(2) by (auto simp: rc_decrement_def set_rc_cells immortal_def)
  then show ?thesis using assms(1) by (simp add: at_limit_def)
qed

lemma rc_decrement_shape: "h_cells h s = Some c \<Longrightarrow> same_shape h (rc_decrement s c h)"
  by (auto simp: same_shape_def rc_decrement_def set_rc_cells immortals_kept_def immortal_def)

lemma tags_known_shape: "tags_known h \<Longrightarrow> same_shape h h' \<Longrightarrow> tags_known h'"
  unfolding tags_known_def same_shape_def by (metis (no_types, lifting) map_option_eq_Some)

text \<open>
  C12: An arm that takes its scrutinee apart and rebuilds it, by reuse token: whether the scrutinee is
  shared or not the result has its constructor and its parts, all counts are right, and the sole owner's
  cell becomes the result. The program stops only when the scrutinee is shared and the count of one of
  its parts would pass one of the two limits of a count.
\<close>

theorem rebuild_arm_counts:
  assumes ok: "rc_ok (R + {#s#}) h" and c: "h_cells h s = Some c" "c_body c = Variant dt ys"
    and plain: "c_rc c < KAI_RC_SPECIAL \<or> immortal c"
    and parts: "addrs parts = kids h s" and slots: "length slots = length ys" "slot_values msk 0 slots = Some ws" "addrs ws = kids h s"
    and known: "tags_known h" "ctors_ok t h" and p: "h_cells h p = None" and agrees: "mask_agrees tag msk h" "h_masks h tag \<noteq> 0"
  shows "\<exists>r. rebuild_arm p (Ptr s) parts tag name msk slots t h = Some r \<and> (case r of
      None \<Rightarrow> c_rc c \<noteq> 1 \<and> (\<exists>q. at_limit h (count (kids h s) q) q)
    | Some (v, t', h') \<Rightarrow> rc_ok (R + mset (addr_of v)) h' \<and> (c_rc c = 1 \<longrightarrow> v = Ptr s)
        \<and> (\<exists>q d. v = Ptr q \<and> h_cells h' q = Some d \<and> c_body d = Variant tag slots))"
proof (cases "c_rc c = 1")
  case True
  note tok = kai_drop_reuse_token_counts [OF ok c plain]
  have tok: "kai_drop_reuse_token (Ptr s) (length slots) h = Some (Ptr s, h)" "rc_ok (R + {#s#} + addrs ws) (hollow s h)"
    using tok True slots by simp_all
  have "h_cells (recycle s h) p = None" using p by (simp add: recycle_def)
  from kai_variant_at_fills [OF tok(2) c(1) True c(2) known this agrees slots(2), of name]
  obtain v t' h' where "kai_variant_at p (Ptr s) tag name msk slots t h = Some (v, t', h')" "rc_ok (R + mset (addr_of v)) h'"
      "\<exists>q c. v = Ptr q \<and> h_cells h' q = Some c \<and> c_body c = Variant tag slots" by blast
  moreover from this(1) have "v = Ptr s" using c slots(1) by (auto simp: kai_variant_at_def)
  ultimately show ?thesis using tok(1) True by (simp add: rebuild_arm_def)
next
  case False
  let ?h = "rc_decrement s c h"
  have tok: "kai_drop_reuse_token (Ptr s) (length slots) h = Some (Null, ?h)" "rc_ok R ?h"
    using False c slots(1) rc_decrement_ok(1) [OF ok c(1) False plain] by (simp_all add: kai_drop_reuse_token_def kai_check_unique_def)
  have shape: "same_shape h ?h" by (rule rc_decrement_shape [OF c(1)])
  have "set_mset (addrs parts) \<subseteq> dom (h_cells ?h)"
    using rc_ok_dom(2) [OF ok] parts same_shape_dom [OF shape] by simp
  from dup_all_ok [OF tok(2) this] obtain r where r: "dup_all parts ?h = Some r"
      "case r of Overflow \<Rightarrow> True | Counted h' \<Rightarrow> rc_ok (R + addrs parts) h' \<and> same_shape ?h h'" by blast
  show ?thesis
  proof (cases r)
    case Overflow
    have "\<forall>q d. h_cells ?h q = Some d \<longrightarrow> c_rc d \<le> INT32_MAX" using tok(2) unfolding rc_ok_def counted_def by blast
    then obtain q where "at_limit ?h (count (addrs parts) q) q" using dup_all_overflow r(1) Overflow by blast
    then have "at_limit h (count (kids h s) q) q" using at_limit_decrement [OF _ c(1) plain] parts by simp
    then show ?thesis using tok(1) r(1) False Overflow by (auto simp: rebuild_arm_def)
  next
    case (Counted h2)
    then have h2: "rc_ok (R + addrs ws) h2" "same_shape h h2"
      using r(2) parts slots(3) same_shape_trans [OF shape] by auto
    then have "h_cells h2 p = None" "mask_agrees tag msk h2" "ctors_ok t h2"
      using p agrees same_shape_dom [OF h2(2)] ctors_ok_kept [OF known(2)]
      by (auto simp: same_shape_def mask_agrees_def domIff [symmetric] simp del: domIff)
    from variant_u_result [OF h2(1) tags_known_shape [OF known(1) h2(2)] this(3,1,2) slots(2), of name]
    show ?thesis using tok(1) r(1) Counted False
      by (auto simp: rebuild_arm_def kai_variant_at_def kai_reuse_free_def)
  qed
qed


lemma some_cell: "h_cells some_heap 1 = Some \<lparr>c_rc = 1, c_body = Variant 2 [Slot_ptr (Ptr 0)]\<rparr>"
  by (simp add: some_cells)

lemma kai_arm_take_counts_witness:
  "\<exists>h'. kai_arm_take (Ptr 1) 0 some_heap = Some (True, h') \<and> rc_ok {#0#} h' \<and> h_cells h' 1 = None"
proof -
  have "rc_ok ({#} + {#1#}) some_heap" using rc_ok_some(1) by simp
  from kai_arm_take_counts [OF this some_cell, of 2 "[Slot_ptr (Ptr 0)]" 0] show ?thesis
    by (auto simp: KAI_RC_SPECIAL_def some_masks)
qed

lemma rebuild_arm_counts_witness:
  "\<exists>t' h'. rebuild_arm 9 (Ptr 1) [Ptr 0] 2 4096 0 [Slot_ptr (Ptr 0)] empty_ctors some_heap = Some (Some (Ptr 1, t', h'))
     \<and> rc_ok {#1#} h'"
proof -
  have ok: "rc_ok ({#} + {#1#}) some_heap" using rc_ok_some(1) by simp
  have kids: "kids some_heap 1 = {#0#}" by (simp add: kids_def some_cell some_masks del: One_nat_def)
  have "mask_agrees 2 0 some_heap" by (simp add: mask_agrees_def KAI_VARIANT_TAG_SPACE_def some_masks)
  from rebuild_arm_counts [OF ok some_cell, of 2 "[Slot_ptr (Ptr 0)]" "[Ptr 0]" "[Slot_ptr (Ptr 0)]" 0 "[Ptr 0]" empty_ctors 9 2 4096]
  show ?thesis
    using kids rc_ok_some(2) ctors_ok_empty some_masks(1) \<open>mask_agrees 2 0 some_heap\<close>
    by (auto simp: KAI_RC_SPECIAL_def some_cells split: option.splits)
qed

end
