(* ===== verification/Kai_Ranges.thy ===== *)
theory Kai_Ranges
  imports "HOL-Library.Word" "HOL-Library.Monad_Syntax"
begin

text \<open>
  Lists and lazy ranges, \<^verbatim>\<open>stage2/runtime/ranges.h\<close>, and the list functions of
  \<^verbatim>\<open>core_collections.h\<close>. A list value is a chain of cells; a range cell stands for the integers it
  generates. An element is an integer or an opaque value. Reference counts are those of \<open>Kai_Rc\<close> and
  left out here, and a closure is a function on the state it may change. A loop over a list takes the
  number of its turns; a list that goes on longer gives \<open>None\<close>.
\<close>

section \<open>An interface: a cursor\<close>

text \<open>What a loop \<^verbatim>\<open>for (x = next(it); x; x = next(it))\<close> relies on.\<close>

fun for_each :: "('s \<Rightarrow> 'x option \<times> 's) \<Rightarrow> nat \<Rightarrow> ('x \<Rightarrow> 'a \<Rightarrow> 'a) \<Rightarrow> 's \<Rightarrow> 'a \<Rightarrow> 'a option" where
  "for_each nxt 0 body it acc = None"
| "for_each nxt (Suc n) body it acc =
     (case nxt it of (None, it) \<Rightarrow> Some acc | (Some x, it) \<Rightarrow> for_each nxt n body it (body x acc))"

locale cursor =
  fixes nxt :: "'s \<Rightarrow> 'x option \<times> 's"
    and ok :: "'s \<Rightarrow> bool"
    and rest :: "'s \<Rightarrow> 'x list"
  assumes nxt_Nil: "ok it \<Longrightarrow> rest it = [] \<Longrightarrow> fst (nxt it) = None"
    and nxt_Cons: "ok it \<Longrightarrow> rest it = x # xs \<Longrightarrow> \<exists>it'. nxt it = (Some x, it') \<and> ok it' \<and> rest it' = xs"
begin

lemma for_each_fold:
  "ok it \<Longrightarrow> length (rest it) < n \<Longrightarrow> for_each nxt n body it acc = Some (fold body (rest it) acc)"
proof (induction n arbitrary: it acc)
  case (Suc n)
  show ?case
  proof (cases "rest it")
    case Nil
    then show ?thesis using nxt_Nil [OF Suc.prems(1)] by (auto split: prod.splits)
  next
    case (Cons x xs)
    then obtain it' where "nxt it = (Some x, it')" "ok it'" "rest it' = xs"
      using nxt_Cons [OF Suc.prems(1)] by blast
    then show ?thesis using Suc Cons by simp
  qed
qed simp

end

section \<open>Ranges\<close>

record range =
  r_from :: "64 word"
  r_to :: "64 word"
  r_step :: "64 word"

definition kai_range_is_empty :: "range \<Rightarrow> bool" where
  "kai_range_is_empty r = (if sint (r_step r) > 0 then sint (r_from r) > sint (r_to r)
                           else sint (r_from r) < sint (r_to r))"

text \<open>The last addition is signed in C and overflows for a range of \<open>2 ^ 63\<close> elements; here it wraps.\<close>

definition kai_range_len :: "range \<Rightarrow> 64 word" where
  "kai_range_len r =
     (let (span, ustep) = (if sint (r_step r) > 0 then (r_to r - r_from r, r_step r)
                           else (r_from r - r_to r, 0 - r_step r))
      in span div ustep + 1)"

definition kai_range_last :: "range \<Rightarrow> 64 word" where
  "kai_range_last r = r_from r + r_step r * (kai_range_len r - 1)"

definition kai_range_next :: "64 word \<Rightarrow> 64 word \<Rightarrow> 64 word" where
  "kai_range_next i step = i + step"

section \<open>Lists and their cursor\<close>

datatype 'v item = Int_item "64 word" | Item 'v

datatype 'v seq = Nil_cell | Cons_cell "'v item" "'v seq" | Range_cell range

text \<open>Rewriting one range cell into the list it denotes.\<close>

definition kai_seq_norm :: "'v seq \<Rightarrow> 'v seq" where
  "kai_seq_norm v =
     (case v of
        Range_cell r \<Rightarrow>
          if kai_range_is_empty r then Nil_cell
          else let nxt = kai_range_next (r_from r) (r_step r);
                   tail = (if if sint (r_step r) > 0 then sint nxt > sint (r_to r) else sint nxt < sint (r_to r)
                           then Nil_cell else Range_cell (r\<lparr>r_from := nxt\<rparr>))
               in Cons_cell (Int_item (r_from r)) tail
      | _ \<Rightarrow> v)"

record 'v seq_it =
  it_node :: "'v seq"
  it_range :: range
  it_in_range :: bool

definition kai_seq_it_init :: "'v seq \<Rightarrow> 'v seq_it" where
  "kai_seq_it_init v = \<lparr>it_node = v, it_range = \<lparr>r_from = 0, r_to = 0, r_step = 0\<rparr>, it_in_range = False\<rparr>"

definition range_step :: "'v seq_it \<Rightarrow> 'v item option \<times> 'v seq_it" where
  "range_step it =
     (let r = it_range it
      in if kai_range_is_empty r then (None, it)
         else (Some (Int_item (r_from r)), it\<lparr>it_range := r\<lparr>r_from := kai_range_next (r_from r) (r_step r)\<rparr>\<rparr>))"

definition kai_seq_it_next :: "'v seq_it \<Rightarrow> 'v item option \<times> 'v seq_it" where
  "kai_seq_it_next it =
     (if it_in_range it then range_step it
      else case it_node it of
             Nil_cell \<Rightarrow> (None, it)
           | Cons_cell x xs \<Rightarrow> (Some x, it\<lparr>it_node := xs\<rparr>)
           | Range_cell r \<Rightarrow> range_step (it\<lparr>it_in_range := True, it_range := r\<rparr>))"

section \<open>List functions\<close>

fun kai_core_list_length :: "'v seq \<Rightarrow> 64 word" where
  "kai_core_list_length Nil_cell = 0"
| "kai_core_list_length (Cons_cell x xs) = 1 + kai_core_list_length xs"
| "kai_core_list_length (Range_cell r) = (if kai_range_is_empty r then 0 else kai_range_len r)"

abbreviation walk :: "nat \<Rightarrow> ('v item \<Rightarrow> 'a \<Rightarrow> 'a) \<Rightarrow> 'v seq \<Rightarrow> 'a \<Rightarrow> 'a option" where
  "walk n body xs \<equiv> for_each kai_seq_it_next n body (kai_seq_it_init xs)"

text \<open>The tail slot of the last cell is filled at each turn: a list of cells still open at its end.\<close>

definition kai_core_list_append :: "nat \<Rightarrow> 'v seq \<Rightarrow> 'v seq \<Rightarrow> 'v seq option" where
  "kai_core_list_append n xs ys =
     map_option (\<lambda>slot. slot ys) (walk n (\<lambda>x slot. \<lambda>tail. slot (Cons_cell x tail)) xs (\<lambda>tail. tail))"

definition kai_core_list_reverse :: "nat \<Rightarrow> 'v seq \<Rightarrow> 'v seq option" where
  "kai_core_list_reverse n xs =
     (case xs of
        Range_cell r \<Rightarrow>
          Some (if kai_range_is_empty r then Nil_cell
                else Range_cell \<lparr>r_from = kai_range_last r, r_to = r_from r, r_step = 0 - r_step r\<rparr>)
      | _ \<Rightarrow> walk n Cons_cell xs Nil_cell)"

type_synonym ('v, 's) closure1 = "'v item \<Rightarrow> 's \<Rightarrow> 'v item \<times> 's"

definition kai_core_map :: "nat \<Rightarrow> ('v, 's) closure1 \<Rightarrow> 'v seq \<Rightarrow> 's \<Rightarrow> ('v seq \<times> 's) option" where
  "kai_core_map n f xs s = do {
     (acc, s) \<leftarrow> walk n (\<lambda>x (acc, s). let (y, s) = f x s in (Cons_cell y acc, s)) xs (Nil_cell, s);
     ys \<leftarrow> kai_core_list_reverse n acc;
     Some (ys, s) }"

definition kai_core_flat_map :: "nat \<Rightarrow> ('v item \<Rightarrow> 's \<Rightarrow> 'v seq \<times> 's) \<Rightarrow> 'v seq \<Rightarrow> 's \<Rightarrow> ('v seq \<times> 's) option" where
  "kai_core_flat_map n f xs s = do {
     r \<leftarrow> walk n (\<lambda>x st. do {
            (acc, s) \<leftarrow> st;
            let (piece, s) = f x s;
            acc \<leftarrow> walk n Cons_cell piece acc;
            Some (acc, s) }) xs (Some (Nil_cell, s));
     (acc, s) \<leftarrow> r;
     ys \<leftarrow> kai_core_list_reverse n acc;
     Some (ys, s) }"

definition kai_core_filter :: "nat \<Rightarrow> ('v item \<Rightarrow> 's \<Rightarrow> bool \<times> 's) \<Rightarrow> 'v seq \<Rightarrow> 's \<Rightarrow> ('v seq \<times> 's) option" where
  "kai_core_filter n p xs s = do {
     (acc, s) \<leftarrow> walk n (\<lambda>x (acc, s). let (yes, s) = p x s in (if yes then Cons_cell x acc else acc, s)) xs (Nil_cell, s);
     ys \<leftarrow> kai_core_list_reverse n acc;
     Some (ys, s) }"

definition kai_core_reduce :: "nat \<Rightarrow> ('a \<Rightarrow> 'v item \<Rightarrow> 's \<Rightarrow> 'a \<times> 's) \<Rightarrow> 'v seq \<Rightarrow> 'a \<Rightarrow> 's \<Rightarrow> ('a \<times> 's) option" where
  "kai_core_reduce n f xs init s = walk n (\<lambda>x (acc, s). f acc x s) xs (init, s)"

definition kai_core_each :: "nat \<Rightarrow> ('v item \<Rightarrow> 's \<Rightarrow> 's) \<Rightarrow> 'v seq \<Rightarrow> 's \<Rightarrow> 's option" where
  "kai_core_each n f xs s = walk n f xs s"

section \<open>Constructing ranges\<close>

definition kai_range :: "64 word \<Rightarrow> 64 word \<Rightarrow> 'v seq" where
  "kai_range from to = Range_cell \<lparr>r_from = from, r_to = to, r_step = 1\<rparr>"

text \<open>A zero step ends the program.\<close>

definition kai_range_step :: "64 word \<Rightarrow> 64 word \<Rightarrow> 64 word \<Rightarrow> 'v seq option" where
  "kai_range_step from to step = (if step = 0 then None else Some (Range_cell \<lparr>r_from = from, r_to = to, r_step = step\<rparr>))"


section \<open>The integers of a range\<close>

text \<open>Its end is a step away from the limits of 64 bits: the last advance does not wrap.\<close>

definition inside :: "range \<Rightarrow> bool" where
  "inside r \<longleftrightarrow> r_step r \<noteq> 0 \<and> - (2 ^ 63) \<le> sint (r_to r) + sint (r_step r) \<and> sint (r_to r) + sint (r_step r) < 2 ^ 63"

text \<open>What the range means: the integers from \<open>from\<close> in steps of \<open>step\<close> that are not past \<open>to\<close>.\<close>

definition turns :: "range \<Rightarrow> nat" where
  "turns r = (if kai_range_is_empty r then 0
              else Suc (nat ((sint (r_to r) - sint (r_from r)) div sint (r_step r))))"

definition ints :: "range \<Rightarrow> int list" where
  "ints r = map (\<lambda>i. sint (r_from r) + int i * sint (r_step r)) [0..<turns r]"

lemma sint_bounds: "- (2 ^ 63) \<le> sint (w :: 64 word)" "sint (w :: 64 word) < 2 ^ 63"
  using sint_ge [of w] sint_lt [of w] by simp_all

lemma sint_of_int: "- (2 ^ 63) \<le> k \<Longrightarrow> k < 2 ^ 63 \<Longrightarrow> sint (word_of_int k :: 64 word) = k"
  by (simp add: sint_sbintrunc' signed_take_bit_int_eq_self)

lemma uint_of_int: "0 \<le> k \<Longrightarrow> k < 2 ^ 64 \<Longrightarrow> uint (word_of_int k :: 64 word) = k"
  by (simp add: uint_word_of_int)

lemma word_diff_sint: "a - b = (word_of_int (sint a - sint b) :: 64 word)"
  by simp

lemma sint_zero_iff: "sint (w :: 64 word) = 0 \<longleftrightarrow> w = 0"
  by (rule signed_eq_0_iff)

lemma div_pos_step: "(0 :: int) < s \<Longrightarrow> 0 \<le> d \<Longrightarrow> d div s \<le> d"
  by (metis div_by_1 int_one_le_iff_zero_less zdiv_mono2 zero_less_one)

text \<open>The 64-bit length is the number of integers.\<close>

lemma kai_range_len_turns:
  assumes "inside r" "\<not> kai_range_is_empty r"
  shows "unat (kai_range_len r) = turns r"
proof -
  let ?f = "sint (r_from r)" and ?t = "sint (r_to r)" and ?s = "sint (r_step r)"
  have s0: "?s \<noteq> 0" using assms(1) by (simp add: inside_def sint_zero_iff)
  define span where "span = \<bar>?t - ?f\<bar>"
  define ustep where "ustep = \<bar>?s\<bar>"
  have b: "0 \<le> span" "span < 2 ^ 64 - 1 \<or> 1 < ustep" "span < 2 ^ 64" "0 < ustep" "ustep < 2 ^ 64"
    using sint_bounds [of "r_from r"] sint_bounds [of "r_to r"] sint_bounds [of "r_step r"] assms s0
    by (auto simp: span_def ustep_def inside_def kai_range_is_empty_def split: if_splits)
  have q: "(?t - ?f) div ?s = span div ustep"
    using assms(2) s0 div_minus_minus [of "?t - ?f" ?s]
    by (auto simp: span_def ustep_def kai_range_is_empty_def abs_if split: if_splits)
  have len: "kai_range_len r = word_of_int span div word_of_int ustep + 1"
  proof (cases "?s > 0")
    case True
    then have "span = ?t - ?f" "ustep = ?s" using assms(2) by (simp_all add: span_def ustep_def kai_range_is_empty_def)
    then show ?thesis using True by (simp add: kai_range_len_def)
  next
    case False
    then have "span = ?f - ?t" "ustep = - ?s" using assms(2) s0 by (simp_all add: span_def ustep_def kai_range_is_empty_def)
    then show ?thesis using False by (simp add: kai_range_len_def)
  qed
  have small: "span div ustep + 1 < 2 ^ 64"
  proof (cases "ustep = 1")
    case True
    then show ?thesis using b by simp
  next
    case False
    then have "span div ustep \<le> span div 2" using b by (intro zdiv_mono2) auto
    then show ?thesis using b(3) by simp
  qed
  have pos: "0 \<le> span div ustep" using b by (simp add: pos_imp_zdiv_nonneg_iff)
  have "uint (word_of_int span div word_of_int ustep :: 64 word) = span div ustep"
    using b by (simp add: uint_div uint_of_int)
  then have "kai_range_len r = word_of_int (span div ustep + 1)"
    unfolding len by (metis word_of_int_1 word_of_int_uint wi_hom_add)
  then have "uint (kai_range_len r) = span div ustep + 1"
    using small pos uint_of_int [of "span div ustep + 1"] by (simp only:)
  then show ?thesis using assms(2) q pos by (simp add: turns_def unat_eq_nat_uint nat_add_distrib)
qed


lemma sint_next:
  assumes "inside r" "\<not> kai_range_is_empty r"
  shows "sint (kai_range_next (r_from r) (r_step r)) = sint (r_from r) + sint (r_step r)"
proof -
  have "- (2 ^ 63) \<le> sint (r_from r) + sint (r_step r)" "sint (r_from r) + sint (r_step r) < 2 ^ 63"
    using sint_bounds [of "r_from r"] assms by (auto simp: inside_def kai_range_is_empty_def split: if_splits)
  moreover have "kai_range_next (r_from r) (r_step r) = word_of_int (sint (r_from r) + sint (r_step r))"
    by (simp add: kai_range_next_def)
  ultimately show ?thesis using sint_of_int [of "sint (r_from r) + sint (r_step r)"] by (simp only:)
qed

lemma ints_Cons:
  assumes "inside r" "\<not> kai_range_is_empty r"
  shows "ints r = sint (r_from r) # ints (r\<lparr>r_from := kai_range_next (r_from r) (r_step r)\<rparr>)"
proof -
  let ?f = "sint (r_from r)" and ?t = "sint (r_to r)" and ?s = "sint (r_step r)"
  let ?r = "r\<lparr>r_from := kai_range_next (r_from r) (r_step r)\<rparr>"
  have s0: "?s \<noteq> 0" using assms(1) by (simp add: inside_def sint_zero_iff)
  have nxt: "sint (r_from ?r) = ?f + ?s" using sint_next [OF assms] by simp
  have t: "turns r = Suc (turns ?r)"
  proof (cases "kai_range_is_empty ?r")
    case True
    have "(?t - ?f) div ?s = 0"
    proof (cases "?s > 0")
      case True
      then show ?thesis using assms(2) \<open>kai_range_is_empty ?r\<close> nxt by (simp add: kai_range_is_empty_def div_pos_pos_trivial)
    next
      case False
      then show ?thesis using assms(2) \<open>kai_range_is_empty ?r\<close> nxt s0 by (simp add: kai_range_is_empty_def div_neg_neg_trivial)
    qed
    then show ?thesis using assms(2) True by (simp add: turns_def)
  next
    case False
    have "(?t - ?f) div ?s = (?t - (?f + ?s)) div ?s + 1"
      using div_add_self2 [OF s0, of "?t - (?f + ?s)"] by simp
    moreover have "0 \<le> (?t - (?f + ?s)) div ?s"
      using False nxt s0 by (auto simp: kai_range_is_empty_def pos_imp_zdiv_nonneg_iff neg_imp_zdiv_nonneg_iff split: if_splits)
    ultimately show ?thesis using assms(2) False nxt by (simp add: turns_def nat_add_distrib)
  qed
  have "ints r = map (\<lambda>i. ?f + int i * ?s) (0 # map Suc [0..<turns ?r])"
    unfolding ints_def t by (simp only: upt_conv_Cons map_Suc_upt)
  then show ?thesis using nxt by (simp add: ints_def algebra_simps)
qed

lemma ints_empty: "kai_range_is_empty r \<Longrightarrow> ints r = []"
  by (simp add: ints_def turns_def)

text \<open>The elements of a list; a list whose ranges all keep away from the limits.\<close>

fun elems :: "'v seq \<Rightarrow> 'v item list" where
  "elems Nil_cell = []"
| "elems (Cons_cell x xs) = x # elems xs"
| "elems (Range_cell r) = map (\<lambda>k. Int_item (word_of_int k)) (ints r)"

fun wf_seq :: "'v seq \<Rightarrow> bool" where
  "wf_seq Nil_cell = True"
| "wf_seq (Cons_cell x xs) = wf_seq xs"
| "wf_seq (Range_cell r) = inside r"

definition it_rest :: "'v seq_it \<Rightarrow> 'v item list" where
  "it_rest it = elems (if it_in_range it then Range_cell (it_range it) else it_node it)"

definition it_ok :: "'v seq_it \<Rightarrow> bool" where
  "it_ok it = wf_seq (if it_in_range it then Range_cell (it_range it) else it_node it)"

text \<open>What one step of a cursor does, by what is left to read.\<close>

definition steps_to :: "('v item option \<times> 'v seq_it) \<Rightarrow> 'v item list \<Rightarrow> bool" where
  "steps_to r zs \<longleftrightarrow> (case zs of
     [] \<Rightarrow> fst r = None
   | x # xs \<Rightarrow> \<exists>it'. r = (Some x, it') \<and> it_ok it' \<and> it_rest it' = xs)"

lemma range_step_steps:
  assumes "inside (it_range it)" "it_in_range it"
  shows "steps_to (range_step it) (elems (Range_cell (it_range it)))"
  using assms ints_Cons [OF assms(1)]
  by (cases "kai_range_is_empty (it_range it)")
     (simp_all add: steps_to_def range_step_def Let_def it_rest_def it_ok_def inside_def ints_empty)

lemma kai_seq_it_next_steps:
  assumes "it_ok it"
  shows "steps_to (kai_seq_it_next it) (it_rest it)"
proof (cases "it_in_range it")
  case True
  then show ?thesis using range_step_steps [of it] assms by (simp add: kai_seq_it_next_def it_ok_def it_rest_def)
next
  case False
  show ?thesis
  proof (cases "it_node it")
    case (Range_cell r)
    then show ?thesis
      using False assms range_step_steps [of "it\<lparr>it_in_range := True, it_range := r\<rparr>"]
      by (simp add: kai_seq_it_next_def it_ok_def it_rest_def)
  qed (use False assms in \<open>simp_all add: kai_seq_it_next_def it_ok_def it_rest_def steps_to_def\<close>)
qed

interpretation seq_cursor: cursor kai_seq_it_next it_ok it_rest
proof
  fix it :: "'v seq_it" and x xs
  assume "it_ok it"
  note s = kai_seq_it_next_steps [OF this]
  show "it_rest it = [] \<Longrightarrow> fst (kai_seq_it_next it) = None" using s by (simp add: steps_to_def)
  assume "it_rest it = x # xs"
  then show "\<exists>it'. kai_seq_it_next it = (Some x, it') \<and> it_ok it' \<and> it_rest it' = xs"
    using s by (simp add: steps_to_def)
qed

lemma walk_fold: "wf_seq xs \<Longrightarrow> length (elems xs) < n \<Longrightarrow> walk n body xs acc = Some (fold body (elems xs) acc)"
  using seq_cursor.for_each_fold [of "kai_seq_it_init xs" n body acc]
  by (simp add: it_ok_def it_rest_def kai_seq_it_init_def)

section \<open>The list functions\<close>

lemma elems_rev_cells: "elems (fold Cons_cell xs zs) = rev xs @ elems zs"
  by (induction xs arbitrary: zs) simp_all

lemma wf_cells: "wf_seq (fold Cons_cell xs zs) = wf_seq zs"
  by (induction xs arbitrary: zs) simp_all

lemma open_cells: "fold (\<lambda>x slot. \<lambda>tail. slot (Cons_cell x tail)) xs slot ys = slot (foldr Cons_cell xs ys)"
  by (induction xs arbitrary: slot) simp_all

lemma elems_cells: "elems (foldr Cons_cell xs ys) = xs @ elems ys"
  by (induction xs) simp_all

fun is_range :: "'v seq \<Rightarrow> bool" where
  "is_range (Range_cell r) = True"
| "is_range xs = False"

lemma reverse_cells:
  "\<not> is_range xs \<Longrightarrow> wf_seq xs \<Longrightarrow> length (elems xs) < n
    \<Longrightarrow> kai_core_list_reverse n xs = Some (fold Cons_cell (elems xs) Nil_cell)"
  by (cases xs) (simp_all add: kai_core_list_reverse_def walk_fold)

lemma not_range_cells: "\<not> is_range (fold Cons_cell xs Nil_cell)"
proof (cases xs rule: rev_cases)
  case (snoc ys y)
  then show ?thesis by simp
qed simp

text \<open>The range read from its last integer back.\<close>

abbreviation backwards :: "range \<Rightarrow> range" where
  "backwards r \<equiv> \<lparr>r_from = kai_range_last r, r_to = r_from r, r_step = 0 - r_step r\<rparr>"

lemma kai_range_last_int:
  assumes "inside r" "\<not> kai_range_is_empty r"
  shows "sint (kai_range_last r) = sint (r_from r) + (sint (r_to r) - sint (r_from r)) div sint (r_step r) * sint (r_step r)"
    "0 \<le> (sint (r_to r) - sint (r_from r)) div sint (r_step r)"
proof -
  let ?f = "sint (r_from r)" and ?t = "sint (r_to r)" and ?s = "sint (r_step r)"
  let ?q = "(?t - ?f) div ?s"
  have s0: "?s \<noteq> 0" using assms(1) by (simp add: inside_def sint_zero_iff)
  show q0: "0 \<le> ?q"
    using assms(2) s0 by (auto simp: kai_range_is_empty_def pos_imp_zdiv_nonneg_iff neg_imp_zdiv_nonneg_iff split: if_splits)
  have "kai_range_len r = word_of_int (int (turns r))"
    by (simp flip: kai_range_len_turns [OF assms])
  then have "kai_range_len r = word_of_int ?q + 1" using assms(2) q0 by (simp add: turns_def)
  then have last: "kai_range_last r = word_of_int (?f + ?q * ?s)"
    by (simp add: kai_range_last_def mult.commute)
  have "\<bar>?t - ?f - ?q * ?s\<bar> < \<bar>?s\<bar>" using s0 abs_mod_less [OF s0, of "?t - ?f"] by (simp add: minus_div_mult_eq_mod)
  moreover have "if ?s > 0 then 0 \<le> ?t - ?f - ?q * ?s \<and> 0 \<le> ?q * ?s else ?t - ?f - ?q * ?s \<le> 0 \<and> ?q * ?s \<le> 0"
    using s0 q0 pos_mod_sign [of ?s "?t - ?f"] neg_mod_sign [of ?s "?t - ?f"]
    by (auto simp: minus_div_mult_eq_mod mult_nonneg_nonneg mult_nonneg_nonpos)
  ultimately have "- (2 ^ 63) \<le> ?f + ?q * ?s" "?f + ?q * ?s < 2 ^ 63"
    using sint_bounds [of "r_from r"] sint_bounds [of "r_to r"] by (auto split: if_splits)
  then show "sint (kai_range_last r) = ?f + ?q * ?s" unfolding last by (rule sint_of_int)
qed


lemma rev_map_upt: "rev (map g [0..<Suc m]) = map (\<lambda>i. g (m - i)) [0..<Suc m]"
  by (rule nth_equalityI) (simp_all add: rev_nth nth_append del: upt_Suc)

lemma ints_backwards:
  assumes "inside r" "inside (backwards r)" "\<not> kai_range_is_empty r"
  shows "ints (backwards r) = rev (ints r)" "\<not> kai_range_is_empty (backwards r)"
proof -
  let ?f = "sint (r_from r)" and ?t = "sint (r_to r)" and ?s = "sint (r_step r)"
  let ?q = "(?t - ?f) div ?s" and ?s' = "sint (0 - r_step r)"
  have s0: "?s \<noteq> 0" using assms(1) by (simp add: inside_def sint_zero_iff)
  have l: "sint (kai_range_last r) = ?f + ?q * ?s" "0 \<le> ?q" by (rule kai_range_last_int [OF assms(1,3)])+
  have neg: "?s' = - ?s \<or> ?s' = ?s \<and> ?q = 0"
  proof (cases "?s = - (2 ^ 63)")
    case True
    have "r_step r = word_of_int ?s" by simp
    then have "r_step r = word_of_int (- (2 ^ 63))" by (simp only: True)
    then have "0 - r_step r = r_step r" by simp
    then have eq: "?s' = ?s" by (simp only:)
    then have "0 \<le> ?f" "0 \<le> ?t" using True assms(1,2) by (simp_all add: inside_def)
    then have "?q = 0" using True assms(3) sint_bounds [of "r_from r"]
      by (simp add: kai_range_is_empty_def div_neg_neg_trivial)
    then show ?thesis using eq by simp
  next
    case False
    then have "- (2 ^ 63) \<le> - ?s" "- ?s < 2 ^ 63" using sint_bounds [of "r_step r"] by auto
    moreover have "0 - r_step r = word_of_int (- ?s)" by simp
    ultimately have "?s' = - ?s" using sint_of_int [of "- ?s"] by (simp only:)
    then show ?thesis ..
  qed
  have qs: "?s > 0 \<Longrightarrow> 0 \<le> ?q * ?s" "?s < 0 \<Longrightarrow> ?q * ?s \<le> 0"
    using l(2) by (simp_all add: mult_nonneg_nonpos)
  show ne: "\<not> kai_range_is_empty (backwards r)"
    using neg l(1) qs s0 by (auto simp: kai_range_is_empty_def)
  have d: "(?f - (?f + ?q * ?s)) div ?s' = ?q"
  proof (cases "?s' = - ?s")
    case True
    then have "(?f - (?f + ?q * ?s)) div ?s' = (- (?q * ?s)) div (- ?s)" by simp
    also have "\<dots> = ?q" using s0 by (simp only: div_minus_minus nonzero_mult_div_cancel_right not_False_eq_True)
    finally show ?thesis .
  next
    case False
    then have "?q = 0" using neg by auto
    then show ?thesis by simp
  qed
  have t: "turns (backwards r) = Suc (nat ?q)" "turns r = Suc (nat ?q)"
    using ne assms(3) l(1) d by (simp_all add: turns_def)
  have step: "?f + ?q * ?s + int i * ?s' = ?f + int (nat ?q - i) * ?s" if "i < Suc (nat ?q)" for i
    using that neg l(2) by (auto simp: of_nat_diff algebra_simps)
  have "ints (backwards r) = map (\<lambda>i. ?f + ?q * ?s + int i * ?s') [0..<Suc (nat ?q)]"
    unfolding ints_def t by (simp only: range.simps l(1))
  also have "\<dots> = map (\<lambda>i. ?f + int (nat ?q - i) * ?s) [0..<Suc (nat ?q)]"
    using step by (intro map_cong refl) (simp del: upt_Suc)
  also have "\<dots> = rev (ints r)"
    unfolding ints_def t by (rule rev_map_upt [symmetric])
  finally show "ints (backwards r) = rev (ints r)" .
qed

lemma kai_core_list_length_elems:
  fixes xs :: "'v seq"
  shows "wf_seq xs \<Longrightarrow> kai_core_list_length xs = of_nat (length (elems xs))"
proof (induction xs rule: elems.induct)
  case (3 r)
  show ?case
  proof (cases "kai_range_is_empty r")
    case False
    have "kai_range_len r = of_nat (unat (kai_range_len r))" by simp
    also have "\<dots> = of_nat (turns r)" using kai_range_len_turns [of r] 3 False by simp
    finally show ?thesis using False by (simp add: ints_def)
  qed (simp add: ints_empty)
qed simp_all

text \<open>
  C23: Length, append and reverse are those of the list of elements, although a range is never built
  and is reversed in one step. The list has fewer than \<open>2 ^ 63\<close> elements, its range keeps away from
  the limits of 64 bits (\<open>inside\<close>: one step past its end does not wrap, for \<open>reverse\<close> nor one
  step before its start), and the loops are given one turn more than there are elements.
\<close>

theorem list_shape:
  fixes xs ys :: "'v seq"
  assumes "wf_seq xs" "length (elems xs) < n" "length (elems xs) < 2 ^ 63"
    "\<And>r. xs = Range_cell r \<Longrightarrow> inside (backwards r)"
  shows "sint (kai_core_list_length xs) = int (length (elems xs))
    \<and> map_option elems (kai_core_list_append n xs ys) = Some (elems xs @ elems ys)
    \<and> map_option elems (kai_core_list_reverse n xs) = Some (rev (elems xs))"
proof (intro conjI)
  show "sint (kai_core_list_length xs) = int (length (elems xs))"
    using kai_core_list_length_elems [OF assms(1)] assms(3) by (simp add: signed_of_nat signed_take_bit_int_eq_self)
  show "map_option elems (kai_core_list_append n xs ys) = Some (elems xs @ elems ys)"
    by (simp add: kai_core_list_append_def walk_fold [OF assms(1,2)] open_cells elems_cells)
  show "map_option elems (kai_core_list_reverse n xs) = Some (rev (elems xs))"
  proof (cases "is_range xs")
    case True
    then obtain r where r: "xs = Range_cell r" by (cases xs) simp_all
    then show ?thesis using assms(1) assms(4) [OF r] ints_backwards [of r]
      by (cases "kai_range_is_empty r") (simp_all add: kai_core_list_reverse_def ints_empty rev_map)
  next
    case False
    then show ?thesis using reverse_cells [OF False assms(1,2)] by (simp add: elems_rev_cells)
  qed
qed

lemma list_shape_witness:
  "sint (kai_core_list_length (Range_cell \<lparr>r_from = 1, r_to = 8, r_step = 3\<rparr> :: nat seq)) = 3
    \<and> map_option elems (kai_core_list_reverse 9 (Range_cell \<lparr>r_from = 1, r_to = 8, r_step = 3\<rparr> :: nat seq))
      = Some [Int_item 7, Int_item 4, Int_item 1]"
proof -
  let ?xs = "Range_cell \<lparr>r_from = 1, r_to = 8, r_step = 3\<rparr> :: nat seq"
  have e: "elems ?xs = [Int_item 1, Int_item 4, Int_item 7]"
    by (simp add: ints_def turns_def kai_range_is_empty_def upt_rec numeral_eq_Suc)
  have wf: "wf_seq ?xs" by (simp add: inside_def)
  have ins: "inside (backwards r)" if "?xs = Range_cell r" for r using that by (auto simp: inside_def)
  have len: "length (elems ?xs) < 9" unfolding e by simp
  then have small: "length (elems ?xs) < 2 ^ 63" by simp
  have "int (length (elems ?xs)) = 3" "rev (elems ?xs) = [Int_item 7, Int_item 4, Int_item 1]"
    unfolding e by simp_all
  then show ?thesis using list_shape [OF wf len small ins, of Nil_cell] by (simp only: simp_thms)
qed

text \<open>The closures of a loop run in the order of the elements, each on the state the last one left.\<close>

fun thread :: "('x \<Rightarrow> 's \<Rightarrow> 'y \<times> 's) \<Rightarrow> 'x list \<Rightarrow> 's \<Rightarrow> 'y list \<times> 's" where
  "thread f [] s = ([], s)"
| "thread f (x # xs) s = (let (y, s) = f x s; (ys, s) = thread f xs s in (y # ys, s))"

lemma thread_map_fold:
  "fold (\<lambda>x (acc, s). let (y, s) = f x s in (Cons_cell y acc, s)) xs (acc, s)
     = (let (ys, s) = thread f xs s in (fold Cons_cell ys acc, s))"
  by (induction xs arbitrary: acc s) (simp_all split: prod.splits)

lemma thread_filter_fold:
  "fold (\<lambda>x (acc, s). let (yes, s) = p x s in (if yes then Cons_cell x acc else acc, s)) xs (acc, s)
     = (let (bs, s) = thread p xs s in (fold Cons_cell (map fst (filter snd (zip xs bs))) acc, s))"
  by (induction xs arbitrary: acc s) (simp_all split: prod.splits)

lemma thread_length: "length (fst (thread f xs s)) = length xs"
  by (induction xs arbitrary: s) (simp_all split: prod.splits, metis fst_conv)

lemma reverse_built:
  "length ys < n \<Longrightarrow> map_option elems (kai_core_list_reverse n (fold Cons_cell ys Nil_cell)) = Some ys"
  using reverse_cells [of "fold Cons_cell ys Nil_cell" n] not_range_cells [of ys]
  by (simp add: wf_cells elems_rev_cells)

text \<open>
  \<open>map\<close> and \<open>filter\<close> call the closure once for each element, in order, and give the results,
  or the elements it accepted, in order; \<open>reduce\<close> is the fold from the left.
\<close>

theorem list_closures:
  fixes xs :: "'v seq"
  assumes "wf_seq xs" "length (elems xs) < n"
  shows "map_option (map_prod elems id) (kai_core_map n f xs s) = Some (thread f (elems xs) s)
    \<and> map_option (map_prod elems id) (kai_core_filter n p xs s)
        = (let (bs, s) = thread p (elems xs) s in Some (map fst (filter snd (zip (elems xs) bs)), s))
    \<and> kai_core_reduce n g xs a s = Some (fold (\<lambda>x (acc, s). g acc x s) (elems xs) (a, s))"
proof (intro conjI)
  obtain ys s' where t: "thread f (elems xs) s = (ys, s')" by (cases "thread f (elems xs) s")
  then have "length ys < n" using thread_length [of f "elems xs" s] assms(2) by simp
  then show "map_option (map_prod elems id) (kai_core_map n f xs s) = Some (thread f (elems xs) s)"
    using reverse_built [of ys n] t
    by (auto simp: kai_core_map_def walk_fold [OF assms] thread_map_fold [unfolded Let_def] Let_def split: bind_splits)
next
  obtain bs s' where t: "thread p (elems xs) s = (bs, s')" by (cases "thread p (elems xs) s")
  let ?ys = "map fst (filter snd (zip (elems xs) bs))"
  have "length ?ys \<le> length (elems xs)" by (metis le_trans length_filter_le length_map length_zip min.cobounded1)
  then have "length ?ys < n" using assms(2) by simp
  then show "map_option (map_prod elems id) (kai_core_filter n p xs s)
      = (let (bs, s) = thread p (elems xs) s in Some (map fst (filter snd (zip (elems xs) bs)), s))"
    using reverse_built [of ?ys n] t
    by (auto simp: kai_core_filter_def walk_fold [OF assms] thread_filter_fold [unfolded Let_def] Let_def split: bind_splits)
next
  show "kai_core_reduce n g xs a s = Some (fold (\<lambda>x (acc, s). g acc x s) (elems xs) (a, s))"
    by (simp add: kai_core_reduce_def walk_fold [OF assms])
qed

lemma list_closures_witness:
  "map_option (map_prod elems id) (kai_core_map 5 (\<lambda>x s. (Item (s :: nat), Suc s)) (Cons_cell (Int_item 7) (Cons_cell (Int_item 9) Nil_cell)) 0)
    = Some ([Item 0, Item (Suc 0)], Suc (Suc 0))"
  using list_closures [of "Cons_cell (Int_item 7) (Cons_cell (Int_item 9) Nil_cell)" 5 "\<lambda>x s. (Item (s :: nat), Suc s)" 0
      "\<lambda>x s. (True, s)" "\<lambda>a x s. (a, s)" "()"]
  by simp

section \<open>Normalising, and the limits\<close>

text \<open>A cursor in the middle of a range does not look at its cell.\<close>

lemma walk_in_range:
  "for_each kai_seq_it_next n body \<lparr>it_node = v, it_range = r, it_in_range = True\<rparr> acc
     = for_each kai_seq_it_next n body \<lparr>it_node = Range_cell r, it_range = r', it_in_range = False\<rparr> acc"
proof (cases n)
  case (Suc m)
  have same: "for_each kai_seq_it_next m body \<lparr>it_node = u, it_range = q, it_in_range = True\<rparr> acc
      = for_each kai_seq_it_next m body \<lparr>it_node = w, it_range = q, it_in_range = True\<rparr> acc" for m u w q acc
    by (induction m arbitrary: q acc) (simp_all add: kai_seq_it_next_def range_step_def Let_def)
  then show ?thesis using Suc by (simp add: kai_seq_it_next_def range_step_def Let_def)
qed simp

text \<open>
  Rewriting a range cell in place does not change the list: every loop over it, of whatever
  length, does the same before and after.
\<close>

theorem kai_seq_norm_walk: "walk n body (kai_seq_norm v) acc = walk n body v acc"
proof (cases v)
  case (Range_cell r)
  let ?r = "r\<lparr>r_from := kai_range_next (r_from r) (r_step r)\<rparr>"
  have tail: "for_each kai_seq_it_next m body \<lparr>it_node = (if kai_range_is_empty ?r then Nil_cell else Range_cell ?r), it_range = q, it_in_range = False\<rparr> a
      = for_each kai_seq_it_next m body \<lparr>it_node = v, it_range = ?r, it_in_range = True\<rparr> a" for m a q
    by (cases m) (auto simp: walk_in_range [of _ _ _ _ _ q] kai_seq_it_next_def range_step_def Let_def)
  show ?thesis
  proof (cases n)
    case (Suc m)
    show ?thesis
    proof (cases "kai_range_is_empty r")
      case True
      then show ?thesis using Range_cell Suc
        by (simp add: kai_seq_norm_def kai_seq_it_init_def kai_seq_it_next_def range_step_def Let_def)
    next
      case False
      have empty: "kai_range_is_empty ?r = (if sint (r_step r) > 0 then sint (kai_range_next (r_from r) (r_step r)) > sint (r_to r)
          else sint (kai_range_next (r_from r) (r_step r)) < sint (r_to r))"
        by (simp add: kai_range_is_empty_def)
      show ?thesis
        using False Range_cell Suc tail
        by (simp add: kai_seq_norm_def kai_seq_it_init_def kai_seq_it_next_def range_step_def Let_def flip: empty)
    qed
  qed simp
qed (simp_all add: kai_seq_norm_def)

text \<open>
  C38: A range up to the largest integer never ends: after it the advance wraps to the smallest one,
  which is not past the end. \<open>length\<close> takes it for finite all the same.
\<close>

theorem range_to_max_endless:
  assumes "0 < sint (r_step r)" "r_to r = 0x7fffffffffffffff"
  shows "walk n body (Range_cell r) acc = None \<and> \<not> kai_range_is_empty r"
proof -
  have max: "sint (0x7fffffffffffffff :: 64 word) = 2 ^ 63 - 1" by simp
  have ne: "\<not> kai_range_is_empty (r\<lparr>r_from := i\<rparr>)" for i
    using assms sint_bounds [of i] max by (simp add: kai_range_is_empty_def)
  have "for_each kai_seq_it_next n body \<lparr>it_node = v, it_range = r\<lparr>r_from := i\<rparr>, it_in_range = True\<rparr> acc = None" for i v
    using ne by (induction n arbitrary: i acc) (simp_all add: kai_seq_it_next_def range_step_def Let_def)
  from this [of "Range_cell r" "r_from r"] show ?thesis
    using walk_in_range [of n body "Range_cell r" r acc] ne [of "r_from r"] by (simp add: kai_seq_it_init_def)
qed

lemma range_to_max_endless_witness:
  "walk 1000 (\<lambda>x n. Suc n) (kai_range 0x7fffffffffffffff 0x7fffffffffffffff) (0 :: nat) = None"
  unfolding kai_range_def
  by (rule range_to_max_endless [of "\<lparr>r_from = 0x7fffffffffffffff, r_to = 0x7fffffffffffffff, r_step = 1\<rparr>", THEN conjunct1]) simp_all

end
