(* ===== verification/Kai_Strings.thy ===== *)
theory Kai_Strings
  imports Kai_Decode "HOL-Library.Monad_Syntax"
begin

text \<open>
  The string and byte-block primitives of \<^verbatim>\<open>stage2/runtime/core_parse.h\<close>. A string is its bytes; an
  argument that is null or of another type is \<open>None\<close>. A trap (an index out of range, no Unicode
  scalar value) is \<open>None\<close> as well where the result is an option of the model; where the program itself gets an
  \<open>Option\<close> the text says so. The references the primitives consume are the business of \<open>Kai_Rc\<close>.
  \<open>strtoll\<close> is modelled as far as base 10 needs; \<open>strtod\<close> is left out.
\<close>

section \<open>Numbers\<close>

definition c_isspace :: "char \<Rightarrow> bool" where
  "c_isspace c = (ord_char c = 32 \<or> (9 \<le> ord_char c \<and> ord_char c \<le> 13))"

definition NUL :: char where "NUL = CHR 0x00"

text \<open>The number, the text after it and whether it was out of range; \<open>None\<close> when there is no digit.\<close>

definition strtoll_10 :: "string \<Rightarrow> (int \<times> string \<times> bool) option" where
  "strtoll_10 s0 =
     (let s = dropWhile c_isspace s0;
          neg = (s \<noteq> [] \<and> hd s = CHR ''-'');
          s = (if s \<noteq> [] \<and> hd s \<in> {CHR ''-'', CHR ''+''} then tl s else s);
          ds = takeWhile c_isdigit s;
          n = int (foldl (\<lambda>n c. n * 10 + (ord_char c - 48)) 0 ds);
          v = (if neg then - n else n);
          clamped = max (- (2 ^ 63)) (min (2 ^ 63 - 1) v)
      in if ds = [] then None else Some (clamped, dropWhile c_isdigit s, clamped \<noteq> v))"

text \<open>The program's option: the buffer is a C string, so \<open>strtoll\<close> stops at a zero byte.\<close>

definition kai_core_string_to_int :: "string option \<Rightarrow> i64 option" where
  "kai_core_string_to_int arg =
     (case arg of
        None \<Rightarrow> None
      | Some s \<Rightarrow>
          if s \<noteq> [] \<and> length s < 64 then
            (case strtoll_10 (takeWhile (\<lambda>c. c \<noteq> NUL) s) of
               None \<Rightarrow> None
             | Some (v, end, erange) \<Rightarrow> if end = [] \<and> \<not> erange then Some (word_of_int v) else None)
          else None)"

definition between :: "char \<Rightarrow> char \<Rightarrow> char \<Rightarrow> bool" where
  "between lo hi c = (ord_char lo \<le> ord_char c \<and> ord_char c \<le> ord_char hi)"

definition kai_radix_digit :: "char \<Rightarrow> int" where
  "kai_radix_digit c =
     int (if between (CHR ''0'') (CHR ''9'') c then ord_char c - 48
          else if between (CHR ''a'') (CHR ''z'') c then ord_char c - 97 + 10
          else if between (CHR ''A'') (CHR ''Z'') c then ord_char c - 65 + 10
          else 36)"

definition INT64_MIN :: int where "INT64_MIN = - (2 ^ 63)"

text \<open>C's division of a negative by a positive number: towards zero.\<close>

definition neg_div :: "int \<Rightarrow> int \<Rightarrow> int" where
  "neg_div a b = - (- a div b)"

fun radix_loop :: "int \<Rightarrow> int \<Rightarrow> string \<Rightarrow> int option" where
  "radix_loop radix acc [] = Some acc"
| "radix_loop radix acc (c # cs) =
     (let d = kai_radix_digit c
      in if d \<ge> radix \<or> acc < neg_div (INT64_MIN + d) radix then None
         else radix_loop radix (acc * radix - d) cs)"

definition kai_core_to_int_radix :: "string option \<Rightarrow> i64 \<Rightarrow> i64 option" where
  "kai_core_to_int_radix arg r =
     (let radix = sint r in
      case arg of
        None \<Rightarrow> None
      | Some p \<Rightarrow>
          if 2 \<le> radix \<and> radix \<le> 36 then
            let neg = (p \<noteq> [] \<and> hd p = CHR ''-'');
                i = (if p \<noteq> [] \<and> hd p \<in> {CHR ''-'', CHR ''+''} then 1 else 0)
            in if length p \<le> i then None
               else (case radix_loop radix 0 (drop i p) of
                       None \<Rightarrow> None
                     | Some acc \<Rightarrow> if neg then Some (word_of_int acc)
                                   else if acc = INT64_MIN then None else Some (word_of_int (- acc)))
          else None)"

definition DIGITS :: string where "DIGITS = ''0123456789abcdefghijklmnopqrstuvwxyz''"

text \<open>
  The digits are written from the end of the buffer of 72 bytes; \<open>m\<close> is not positive. A write
  before the start of the buffer is \<open>None\<close>.
\<close>

function digits_loop :: "int \<Rightarrow> int \<Rightarrow> string \<Rightarrow> string option" where
  "digits_loop radix m p =
     (if radix < 2 \<or> length p \<ge> 72 then None
      else let p = DIGITS ! nat (- m mod radix) # p;
               m = neg_div m radix
           in if m < 0 then digits_loop radix m p else Some p)"
  by pat_completeness auto
termination by (relation "measure (\<lambda>(radix, m, p). 72 - length p)") auto

definition kai_core_int_to_string_radix :: "i64 \<Rightarrow> i64 \<Rightarrow> string option option" where
  "kai_core_int_to_string_radix v r =
     (let n = sint v; radix = sint r
      in if radix < 2 \<or> radix > 36 then Some None
         else case digits_loop radix (if n < 0 then n else - n) [] of
                None \<Rightarrow> None
              | Some p \<Rightarrow>
                  if n < 0 then (if length p < 72 then Some (Some (CHR ''-'' # p)) else None)
                  else Some (Some p))"

section \<open>UTF-8\<close>

definition kai_utf8_seq_len :: "char \<Rightarrow> nat" where
  "kai_utf8_seq_len c =
     (let b0 = u8_of c
      in if b0 < 0x80 then 1
         else if b0 AND 0xE0 = 0xC0 then 2
         else if b0 AND 0xF0 = 0xE0 then 3
         else if b0 AND 0xF8 = 0xF0 then 4
         else 1)"

definition seq_step :: "string \<Rightarrow> nat \<Rightarrow> nat" where
  "seq_step s i = (let avail = length s - i; sq = kai_utf8_seq_len (s ! i) in if sq > avail then avail else sq)"

definition kai_core_string_cp_len :: "string option \<Rightarrow> i64 option \<Rightarrow> i64" where
  "kai_core_string_cp_len arg off =
     (case (arg, off) of
        (Some s, Some o64) \<Rightarrow>
          (let i = sint o64 in if 0 \<le> i \<and> nat i < length s then of_nat (seq_step s (nat i)) else 0)
      | _ \<Rightarrow> 0)"

fun cont_loop :: "nat \<Rightarrow> u32 \<Rightarrow> string \<Rightarrow> u32" where
  "cont_loop (Suc extra) v (b # bs) = cont_loop extra (push_bit 6 v OR (u8_of b AND 0x3F)) bs"
| "cont_loop extra v bs = v"

definition utf8_lead :: "u32 \<Rightarrow> u32 \<times> nat" where
  "utf8_lead b0 =
     (if b0 AND 0xE0 = 0xC0 then (b0 AND 0x1F, 1)
      else if b0 AND 0xF0 = 0xE0 then (b0 AND 0x0F, 2)
      else if b0 AND 0xF8 = 0xF0 then (b0 AND 0x07, 3)
      else (b0, 0))"

definition kai_core_string_cp_at :: "string option \<Rightarrow> i64 option \<Rightarrow> i64" where
  "kai_core_string_cp_at arg off =
     (case (arg, off) of
        (Some s, Some o64) \<Rightarrow>
          (let i = sint o64 in
           if 0 \<le> i \<and> nat i < length s then
             let b0 = u8_of (s ! nat i) in
             if b0 < 0x80 then ucast b0
             else
               let (v, extra) = utf8_lead b0;
                   v = cont_loop extra v (drop (nat i + 1) s);
                   v = (if v > 0x10FFFF \<or> (v \<ge> 0xD800 \<and> v \<le> 0xDFFF) then 0xFFFD else v)
               in ucast v
           else - 1)
      | _ \<Rightarrow> - 1)"

text \<open>Each sequence is copied in front of what was copied before it.\<close>

function reverse_loop :: "string \<Rightarrow> nat \<Rightarrow> string \<Rightarrow> string" where
  "reverse_loop src i dst =
     (if i < length src then
        let step = seq_step src i in reverse_loop src (i + step) (take step (drop i src) @ dst)
      else dst)"
  by pat_completeness auto
termination
  by (relation "measure (\<lambda>(src, i, dst). length src - i)")
     (auto simp: seq_step_def kai_utf8_seq_len_def Let_def)

definition kai_core_string_reverse :: "string option \<Rightarrow> string" where
  "kai_core_string_reverse arg = (case arg of None \<Rightarrow> [] | Some s \<Rightarrow> reverse_loop s 0 [])"

definition kai_core_char_at :: "string option \<Rightarrow> i64 option \<Rightarrow> u32 option" where
  "kai_core_char_at arg idx =
     (case (arg, idx) of
        (Some s, Some i) \<Rightarrow> if 0 \<le> sint i \<and> nat (sint i) < length s then Some (u8_of (s ! nat (sint i))) else None
      | _ \<Rightarrow> None)"

text \<open>A character value; an argument that is none counts as the replacement character.\<close>

definition kai_core_char_to_string :: "u32 option \<Rightarrow> string" where
  "kai_core_char_to_string c = kai_utf8_encode (case c of None \<Rightarrow> 0xFFFD | Some cp \<Rightarrow> cp)"

definition kai_core_char_to_int :: "u32 option \<Rightarrow> i64" where
  "kai_core_char_to_int c = (case c of None \<Rightarrow> 0 | Some cp \<Rightarrow> ucast cp)"

text \<open>\<open>None\<close> is the panic.\<close>

definition kai_core_int_to_char :: "i64 option \<Rightarrow> u32 option" where
  "kai_core_int_to_char n =
     (let cp = (case n of None \<Rightarrow> 0 | Some n \<Rightarrow> sint n)
      in if cp < 0 \<or> cp > 0x10FFFF \<or> (cp \<ge> 0xD800 \<and> cp \<le> 0xDFFF) then None else Some (word_of_int cp))"

definition fold_char :: "char \<Rightarrow> char \<Rightarrow> int \<Rightarrow> char \<Rightarrow> char" where
  "fold_char lo hi delta c = (if between lo hi c then char_of (of_char c + delta) else c)"

definition kai_string_fold_ascii :: "string option \<Rightarrow> char \<Rightarrow> char \<Rightarrow> int \<Rightarrow> string" where
  "kai_string_fold_ascii arg lo hi delta =
     (case arg of
        None \<Rightarrow> []
      | Some s \<Rightarrow>
          let i = length (takeWhile (\<lambda>c. \<not> between lo hi c) s)
          in if i = length s then s else take i s @ map (fold_char lo hi delta) (drop i s))"

definition kai_core_string_to_lower_ascii :: "string option \<Rightarrow> string" where
  "kai_core_string_to_lower_ascii s = kai_string_fold_ascii s (CHR ''A'') (CHR ''Z'') 32"

definition kai_core_string_to_upper_ascii :: "string option \<Rightarrow> string" where
  "kai_core_string_to_upper_ascii s = kai_string_fold_ascii s (CHR ''a'') (CHR ''z'') (- 32)"

section \<open>Searching and cutting\<close>

definition memchr :: "string \<Rightarrow> char \<Rightarrow> nat \<Rightarrow> nat \<Rightarrow> nat option" where
  "memchr s c from n = List.find (\<lambda>j. s ! j = c) [from..<from + n]"

lemma memchr_Some: "memchr s c from n = Some j \<Longrightarrow> from \<le> j \<and> j < from + n \<and> s ! j = c"
  by (auto simp: memchr_def find_Some_iff)

function find_loop :: "string \<Rightarrow> string \<Rightarrow> nat \<Rightarrow> nat \<Rightarrow> nat option" where
  "find_loop hay needle lim i =
     (if i \<le> lim then
        (case memchr hay (needle ! 0) i (lim - i + 1) of
           None \<Rightarrow> None
         | Some j \<Rightarrow>
             if take (length needle - 1) (drop (j + 1) hay) = drop 1 needle then Some j
             else find_loop hay needle lim (j + 1))
      else None)"
  by pat_completeness auto
termination
  by (relation "measure (\<lambda>(hay, needle, lim, i). Suc lim - i)") (auto dest: memchr_Some)

definition kai_mem_find :: "string \<Rightarrow> string \<Rightarrow> nat option" where
  "kai_mem_find hay needle =
     (if needle = [] then Some 0
      else if length hay < length needle then None
      else find_loop hay needle (length hay - length needle) 0)"

definition kai_str_find :: "string option \<Rightarrow> string option \<Rightarrow> int" where
  "kai_str_find s sub =
     (case (s, sub) of
        (Some s, Some sub) \<Rightarrow>
          if sub = [] then 0 else (case kai_mem_find s sub of None \<Rightarrow> - 1 | Some k \<Rightarrow> int k)
      | _ \<Rightarrow> - 1)"

definition kai_core_string_contains :: "string option \<Rightarrow> string option \<Rightarrow> bool" where
  "kai_core_string_contains s sub = (kai_str_find s sub \<ge> 0)"

definition kai_core_string_find :: "string option \<Rightarrow> string option \<Rightarrow> i64" where
  "kai_core_string_find s sub = word_of_int (kai_str_find s sub)"

text \<open>The pieces between the separators. The loop is for separators that are not empty.\<close>

lemma kai_mem_find_shorter: "kai_mem_find cur sep = Some hit \<Longrightarrow> sep \<noteq> [] \<Longrightarrow> length cur - (hit + length sep) < length cur"
  by (cases sep) (auto simp: kai_mem_find_def split: if_splits)

function split_loop :: "string \<Rightarrow> string \<Rightarrow> string list" where
  "split_loop sep cur =
     (case kai_mem_find cur sep of
        Some hit \<Rightarrow> if sep = [] then [] else take hit cur # split_loop sep (drop (hit + length sep) cur)
      | None \<Rightarrow> [cur])"
  by pat_completeness auto
termination
  by (relation "measure (\<lambda>(sep, cur). length cur)") (auto simp: kai_mem_find_shorter)

definition kai_core_string_split :: "string option \<Rightarrow> string option \<Rightarrow> string list" where
  "kai_core_string_split arg sep =
     (case arg of
        None \<Rightarrow> []
      | Some s \<Rightarrow> (case sep of None \<Rightarrow> [s] | Some p \<Rightarrow> if p = [] then [s] else split_loop p s))"

definition kai_core_string_slice :: "string option \<Rightarrow> i64 option \<Rightarrow> i64 option \<Rightarrow> string" where
  "kai_core_string_slice arg from len =
     (case arg of
        None \<Rightarrow> []
      | Some s \<Rightarrow>
          let f = (case from of None \<Rightarrow> 0 | Some f \<Rightarrow> max 0 (sint f));
              l = (case len of None \<Rightarrow> 0 | Some l \<Rightarrow> max 0 (sint l));
              f = min (nat f) (length s);
              avail = length s - f
          in take (min (nat l) avail) (drop f s))"

section \<open>Bytes\<close>

definition kai_core_int_to_byte_string :: "i64 option \<Rightarrow> string" where
  "kai_core_int_to_byte_string n = [char_of (nat ((case n of None \<Rightarrow> 0 | Some n \<Rightarrow> sint n) mod 256))]"

definition byte_n :: "i64 \<Rightarrow> nat \<Rightarrow> char" where
  "byte_n v i = char_of (unat (drop_bit (8 * i) v) mod 256)"

definition kai_core_int_to_le4 :: "i64 option \<Rightarrow> string" where
  "kai_core_int_to_le4 n = (let v = (case n of None \<Rightarrow> 0 | Some n \<Rightarrow> n) in map (byte_n v) [0..<4])"

definition kai_core_int_to_le8 :: "i64 option \<Rightarrow> string" where
  "kai_core_int_to_le8 n = (let v = (case n of None \<Rightarrow> 0 | Some n \<Rightarrow> n) in map (byte_n v) [0..<8])"

definition kai_core_string_byte_at_int_raw :: "string option \<Rightarrow> i64 \<Rightarrow> i64" where
  "kai_core_string_byte_at_int_raw arg idx =
     (case arg of
        None \<Rightarrow> - 1
      | Some s \<Rightarrow> if 0 \<le> sint idx \<and> nat (sint idx) < length s then of_nat (ord_char (s ! nat (sint idx))) else - 1)"

definition kai_core_string_byte_at_int :: "string option \<Rightarrow> i64 option \<Rightarrow> i64" where
  "kai_core_string_byte_at_int s i = kai_core_string_byte_at_int_raw s (case i of None \<Rightarrow> - 1 | Some i \<Rightarrow> i)"

text \<open>
  An array of bytes is the list of its bytes; \<open>None\<close> for an array is another type. A span is the
  offset it starts at; \<open>None\<close> is the trap.
\<close>

definition kai_bytes_int :: "i64 option \<Rightarrow> int" where
  "kai_bytes_int v = (case v of None \<Rightarrow> 0 | Some n \<Rightarrow> sint n)"

definition kai_bytes_span :: "string option \<Rightarrow> int \<Rightarrow> int \<Rightarrow> (string \<times> nat) option" where
  "kai_bytes_span a off n =
     (case a of
        None \<Rightarrow> None
      | Some bs \<Rightarrow>
          let len = int (length bs)
          in if off < 0 \<or> n < 0 \<or> off > len \<or> n > len - off then None else Some (bs, nat off))"

definition kai_bytes_width :: "i64 option \<Rightarrow> int option" where
  "kai_bytes_width w = (let n = kai_bytes_int w in if n < 0 \<or> n > 8 then None else Some n)"

definition write_at :: "string \<Rightarrow> nat \<Rightarrow> string \<Rightarrow> string" where
  "write_at d off bs = take off d @ bs @ drop (off + length bs) d"

definition kai_core_bytes_blit :: "string option \<Rightarrow> i64 option \<Rightarrow> string option \<Rightarrow> i64 option \<Rightarrow> i64 option \<Rightarrow> string option" where
  "kai_core_bytes_blit dst off src soff n = do {
     let len = kai_bytes_int n;
     (d, o1) \<leftarrow> kai_bytes_span dst (kai_bytes_int off) len;
     (s, o2) \<leftarrow> kai_bytes_span src (kai_bytes_int soff) len;
     Some (write_at d o1 (take (nat len) (drop o2 s))) }"

definition kai_core_bytes_put_le :: "string option \<Rightarrow> i64 option \<Rightarrow> i64 option \<Rightarrow> i64 option \<Rightarrow> string option" where
  "kai_core_bytes_put_le dst off v width = do {
     let x = word_of_int (kai_bytes_int v);
     w \<leftarrow> kai_bytes_width width;
     (d, o1) \<leftarrow> kai_bytes_span dst (kai_bytes_int off) w;
     Some (write_at d o1 (map (byte_n x) [0..<nat w])) }"

definition kai_core_bytes_get_le :: "string option \<Rightarrow> i64 option \<Rightarrow> i64 option \<Rightarrow> i64 option" where
  "kai_core_bytes_get_le src off width = do {
     w \<leftarrow> kai_bytes_width width;
     (s, o1) \<leftarrow> kai_bytes_span src (kai_bytes_int off) w;
     Some (foldl (\<lambda>acc i. push_bit 8 acc OR of_nat (ord_char (s ! (o1 + i)))) 0 (rev [0..<nat w])) }"

definition kai_core_bytes_put_string :: "string option \<Rightarrow> i64 option \<Rightarrow> string option \<Rightarrow> string option" where
  "kai_core_bytes_put_string dst off s = do {
     let bs = (case s of None \<Rightarrow> [] | Some bs \<Rightarrow> bs);
     (d, o1) \<leftarrow> kai_bytes_span dst (kai_bytes_int off) (int (length bs));
     Some (write_at d o1 bs) }"

definition kai_core_bytes_get_string :: "string option \<Rightarrow> i64 option \<Rightarrow> i64 option \<Rightarrow> string option" where
  "kai_core_bytes_get_string src off n = do {
     let len = kai_bytes_int n;
     (s, o1) \<leftarrow> kai_bytes_span src (kai_bytes_int off) len;
     Some (take (nat len) (drop o1 s)) }"

definition kai_fnv1a64 :: "string \<Rightarrow> i64" where
  "kai_fnv1a64 s = foldl (\<lambda>h c. (h XOR of_nat (ord_char c)) * 1099511628211) 1469598103934665603 s"

definition kai_core_string_hash :: "string option \<Rightarrow> i64" where
  "kai_core_string_hash s = kai_fnv1a64 (case s of None \<Rightarrow> [] | Some s \<Rightarrow> s)"

end
