(* ===== verification/Kai_Strings_Codec.thy ===== *)
theory Kai_Strings_Codec
  imports Kai_Strings
begin

text \<open>
  Round trips of the string primitives: code points through UTF-8, integers through digits in a
  radix and through little-endian bytes.
\<close>

section \<open>Code points\<close>

lemma cont_loop_fold: "cont_loop n v bs = foldl (\<lambda>v b. push_bit 6 v OR (u8_of b AND 0x3F)) v (take n bs)"
  by (induction n v bs rule: cont_loop.induct) simp_all

text \<open>What the lead byte announces is what the encoder wrote.\<close>

lemma kai_utf8_encode_length:
  assumes "scalar_value cp"
  shows "\<exists>b cs. kai_utf8_encode cp = b # cs \<and> kai_utf8_seq_len b = Suc (length cs)"
proof -
  have clamp: "\<not> (cp > 0x10FFFF \<or> (cp \<ge> 0xD800 \<and> cp \<le> 0xDFFF))"
    using assms by (auto simp: scalar_value_def)
  note enc = kai_utf8_encode_def [of cp, unfolded if_not_P [OF clamp] Let_def]
  consider (one) "unat cp < 0x80" | (two) "\<not> unat cp < 0x80" "unat cp < 0x800"
    | (three) "\<not> unat cp < 0x800" "unat cp < 0x10000"
    | (four) "\<not> unat cp < 0x10000" "unat cp \<le> 0x10FFFF"
    using clamp by (auto simp: word_le_nat_alt word_less_nat_alt)
  then show ?thesis
  proof cases
    case one
    then have "cp AND 0xFF = cp" by (rule ascii_byte)
    then show ?thesis using one by (simp add: enc word_less_nat_alt kai_utf8_seq_len_def)
  next
    case two
    then have d: "unat (drop_bit 6 cp) < 32" by (simp only: unat_drop) simp
    show ?thesis
      using two lead2 [OF d] by (simp add: enc word_less_nat_alt kai_utf8_seq_len_def del: drop_bit_eq_div)
  next
    case three
    then have d: "unat (drop_bit 12 cp) < 16" by (simp only: unat_drop) simp
    show ?thesis
      using three lead3 [OF d] by (simp add: enc word_less_nat_alt kai_utf8_seq_len_def del: drop_bit_eq_div)
  next
    case four
    then have d: "unat (drop_bit 18 cp) < 8" by (simp only: unat_drop) simp
    show ?thesis
      using four lead4 [OF d] by (simp add: enc word_less_nat_alt kai_utf8_seq_len_def del: drop_bit_eq_div)
  qed
qed

lemma decode_utf8_char_prefix:
  "kai_utf8_seq_len b = Suc (length cs) \<Longrightarrow> decode_utf8_char b (cs @ rest) = decode_utf8_char b cs"
  by (auto simp: decode_utf8_char_def kai_utf8_seq_len_def Let_def split: if_splits)

lemma decode_utf8_lead:
  "decode_utf8_char c rest = (if u8_of c < 0x80 then u8_of c else
     case utf8_lead (u8_of c) of (v, extra) \<Rightarrow> foldl (\<lambda>v b. push_bit 6 v OR (u8_of b AND 0x3F)) v (take extra rest))"
  by (simp add: decode_utf8_char_def utf8_lead_def Let_def)

lemma no_scalar: "(v > 0x10FFFF \<or> (v \<ge> 0xD800 \<and> v \<le> 0xDFFF)) \<longleftrightarrow> \<not> scalar_value v"
  by (auto simp: scalar_value_def)

lemma cp_at_decode:
  assumes "0 \<le> sint i" "nat (sint i) < length s"
    "scalar_value (decode_utf8_char (s ! nat (sint i)) (drop (nat (sint i) + 1) s))"
  shows "kai_core_string_cp_at (Some s) (Some i) = ucast (decode_utf8_char (s ! nat (sint i)) (drop (nat (sint i) + 1) s))"
  using assms
  unfolding kai_core_string_cp_at_def decode_utf8_lead cont_loop_fold Let_def no_scalar
  by (cases "u8_of (s ! nat (sint i)) < 0x80"; cases "utf8_lead (u8_of (s ! nat (sint i)))") simp_all

lemma sint_of_int64: "- (2 ^ 63) \<le> k \<Longrightarrow> k < 2 ^ 63 \<Longrightarrow> sint (word_of_int k :: i64) = k"
  by (simp add: sint_sbintrunc' signed_take_bit_int_eq_self)

lemma small_index: "n < 2 ^ 63 \<Longrightarrow> sint (of_nat n :: i64) = int n"
  using sint_of_int64 [of "int n"] by simp

text \<open>
  C40: At the first byte of an encoded code point the walk reads that code point and advances by
  its length, whatever stands before and after it.
\<close>

theorem kai_core_string_cp_walk:
  assumes "scalar_value cp" "length pre < 2 ^ 63" and s_def: "s = pre @ kai_utf8_encode cp @ post"
  shows "kai_core_string_cp_at (Some s) (Some (of_nat (length pre))) = ucast cp
    \<and> kai_core_string_cp_len (Some s) (Some (of_nat (length pre))) = of_nat (length (kai_utf8_encode cp))"
proof -
  obtain b cs where e: "kai_utf8_encode cp = b # cs" "decode_utf8_char b cs = cp"
    using decode_utf8_encode [OF assms(1)] by blast
  have len: "kai_utf8_seq_len b = Suc (length cs)" using kai_utf8_encode_length [OF assms(1)] e(1) by auto
  have i: "sint (of_nat (length pre) :: i64) = int (length pre)" by (rule small_index [OF assms(2)])
  have s: "s ! length pre = b" "drop (length pre + 1) s = cs @ post" "length pre < length s"
    by (simp_all add: s_def e(1) nth_append)
  have "decode_utf8_char b (cs @ post) = cp" using decode_utf8_char_prefix [OF len] e(2) by simp
  then have "kai_core_string_cp_at (Some s) (Some (of_nat (length pre))) = ucast cp"
    using cp_at_decode [of "of_nat (length pre)" s] i s assms(1) by simp
  moreover have "seq_step s (length pre) = Suc (length cs)"
    using s len by (simp add: seq_step_def s_def e(1))
  ultimately show ?thesis using i s e(1) by (simp add: kai_core_string_cp_len_def)
qed

lemma kai_core_string_cp_walk_witness:
  "kai_core_string_cp_at (Some (''ab'' @ kai_utf8_encode 0x20AC @ ''c'')) (Some (of_nat (length ''ab''))) = 0x20AC"
  using kai_core_string_cp_walk [where cp = "0x20AC" and pre = "''ab''" and post = "''c''", OF _ _ refl] by (simp add: scalar_value_def)

lemma reverse_loop_encoded:
  "list_all scalar_value cs \<Longrightarrow>
     reverse_loop (pre @ concat (map kai_utf8_encode cs)) (length pre) dst = concat (map kai_utf8_encode (rev cs)) @ dst"
proof (induction cs arbitrary: pre dst)
  case (Cons c cs)
  let ?s = "pre @ concat (map kai_utf8_encode (c # cs))"
  obtain b bs where e: "kai_utf8_encode c = b # bs" "kai_utf8_seq_len b = Suc (length bs)"
    using kai_utf8_encode_length [of c] Cons.prems by auto
  have step: "seq_step ?s (length pre) = length (b # bs)" using e by (simp add: seq_step_def)
  have "reverse_loop ?s (length pre) dst = reverse_loop ?s (length pre + length (b # bs)) ((b # bs) @ dst)"
    by (subst reverse_loop.simps) (simp only: step Let_def, simp add: e(1))
  also have "\<dots> = concat (map kai_utf8_encode (rev cs)) @ (b # bs) @ dst"
    using Cons.IH [of "pre @ b # bs" "(b # bs) @ dst"] Cons.prems e(1) by simp
  finally show ?case using e(1) by simp
qed simp

text \<open>A text is reversed by code points: their bytes keep their order.\<close>

theorem kai_core_string_reverse_encoded:
  assumes "list_all scalar_value cs"
  shows "kai_core_string_reverse (Some (concat (map kai_utf8_encode cs))) = concat (map kai_utf8_encode (rev cs))"
  using reverse_loop_encoded [OF assms, of "[]" "[]"] by (simp add: kai_core_string_reverse_def)

lemma kai_core_string_reverse_encoded_witness:
  "kai_core_string_reverse (Some (concat (map kai_utf8_encode [0x61, 0x20AC]))) = concat (map kai_utf8_encode [0x20AC, 0x61])"
  using kai_core_string_reverse_encoded [of "[0x61, 0x20AC]"] by (simp add: scalar_value_def)

section \<open>Integers in a radix\<close>

text \<open>The value of a text of digits, \<open>acc\<close> being that of the digits before it.\<close>

definition digits_from :: "int \<Rightarrow> int \<Rightarrow> string \<Rightarrow> int" where
  "digits_from radix acc ds = foldl (\<lambda>n c. n * radix + kai_radix_digit c) acc ds"

lemma digits_from_simps [simp]:
  "digits_from radix acc [] = acc"
  "digits_from radix acc (c # cs) = digits_from radix (acc * radix + kai_radix_digit c) cs"
  by (simp_all add: digits_from_def)

lemma kai_radix_digit_nonneg: "0 \<le> kai_radix_digit c"
  by (simp add: kai_radix_digit_def del: of_nat_diff)

lemma digits_from_mono: "0 \<le> acc \<Longrightarrow> 1 \<le> radix \<Longrightarrow> acc \<le> digits_from radix acc ds"
proof (induction ds arbitrary: acc)
  case (Cons c ds)
  have "acc * 1 \<le> acc * radix" using Cons.prems by (intro mult_left_mono) auto
  then have "acc \<le> acc * radix + kai_radix_digit c" using kai_radix_digit_nonneg [of c] by linarith
  then show ?case using Cons.IH [of "acc * radix + kai_radix_digit c"] Cons.prems by simp
qed simp

lemma zdiv_less:
  assumes q: "(0 :: int) < q"
  shows "m div q < n \<longleftrightarrow> m < n * q"
proof -
  have m: "m = q * (m div q) + m mod q" "0 \<le> m mod q" "m mod q < q" using q by simp_all
  show ?thesis
  proof (cases "m div q < n")
    case True
    then have "q * (m div q + 1) \<le> q * n" using q by (intro mult_left_mono) auto
    then have "m < n * q" using m by (simp only: distrib_left mult_1_right mult.commute [of n q])
    then show ?thesis using True by simp
  next
    case False
    then have "q * n \<le> q * (m div q)" using q by (intro mult_left_mono) auto
    then have "\<not> m < n * q" using m by (simp only: mult.commute [of n q])
    then show ?thesis using False by simp
  qed
qed

lemma overflow_test:
  assumes "0 < radix" "0 \<le> n" "0 \<le> d" "d \<le> 36"
  shows "- n < neg_div (INT64_MIN + d) radix \<longleftrightarrow> 2 ^ 63 < n * radix + d"
proof -
  have "- n < neg_div (INT64_MIN + d) radix \<longleftrightarrow> (2 ^ 63 - d) div radix < n"
    by (simp add: neg_div_def INT64_MIN_def)
  also have "\<dots> \<longleftrightarrow> 2 ^ 63 - d < n * radix"
    using zdiv_less [OF assms(1)] by simp
  finally show ?thesis by auto
qed

text \<open>The loop runs on the negative side and stops at the first digit that leaves 64 bits.\<close>

lemma radix_loop_value:
  assumes "2 \<le> radix" "radix \<le> 36"
  shows "0 \<le> n \<Longrightarrow> n \<le> 2 ^ 63 \<Longrightarrow> radix_loop radix (- n) ds =
    (if list_all (\<lambda>c. kai_radix_digit c < radix) ds \<and> digits_from radix n ds \<le> 2 ^ 63
     then Some (- digits_from radix n ds) else None)"
proof (induction ds arbitrary: n)
  case (Cons c ds)
  let ?d = "kai_radix_digit c"
  have d: "0 \<le> ?d" by (rule kai_radix_digit_nonneg)
  show ?case
  proof (cases "?d < radix")
    case True
    then have t: "- n < neg_div (INT64_MIN + ?d) radix \<longleftrightarrow> 2 ^ 63 < n * radix + ?d"
      using assms d Cons.prems by (intro overflow_test) auto
    have pos: "0 \<le> n * radix + ?d" using Cons.prems assms d by simp
    show ?thesis
    proof (cases "2 ^ 63 < n * radix + ?d")
      case False
      have "- n * radix - ?d = - (n * radix + ?d)" by simp
      then have "radix_loop radix (- n * radix - ?d) ds =
          (if list_all (\<lambda>c. kai_radix_digit c < radix) ds \<and> digits_from radix (n * radix + ?d) ds \<le> 2 ^ 63
           then Some (- digits_from radix (n * radix + ?d) ds) else None)"
        using Cons.IH [OF pos] False by (simp only: not_less)
      then show ?thesis using False True t by (simp add: Let_def)
    next
      case over: True
      then have "2 ^ 63 < digits_from radix (n * radix + ?d) ds"
        using digits_from_mono [of "n * radix + ?d" radix ds] pos assms by linarith
      then show ?thesis using over t True by (simp add: Let_def)
    qed
  qed (simp add: Let_def)
qed simp

lemma to_int_radix_value:
  assumes "2 \<le> sint r" "sint r \<le> 36"
  shows "kai_core_to_int_radix (Some s) r =
    (let neg = (s \<noteq> [] \<and> hd s = CHR ''-'');
         ds = (if s \<noteq> [] \<and> hd s \<in> {CHR ''-'', CHR ''+''} then tl s else s);
         v = (if neg then - digits_from (sint r) 0 ds else digits_from (sint r) 0 ds)
     in if ds \<noteq> [] \<and> list_all (\<lambda>c. kai_radix_digit c < sint r) ds \<and> - (2 ^ 63) \<le> v \<and> v < 2 ^ 63
        then Some (word_of_int v) else None)"
proof -
  have val: "radix_loop (sint r) 0 ds = (if list_all (\<lambda>c. kai_radix_digit c < sint r) ds \<and> digits_from (sint r) 0 ds \<le> 2 ^ 63
      then Some (- digits_from (sint r) 0 ds) else None)" for ds
    using radix_loop_value [OF assms, of 0 ds] by simp
  have pos: "0 \<le> digits_from (sint r) 0 ds" for ds using digits_from_mono [of 0 "sint r" ds] assms by simp
  have step: "kai_core_to_int_radix (Some s) r =
    (if ds = [] then None
     else if list_all (\<lambda>c. kai_radix_digit c < sint r) ds \<and> digits_from (sint r) 0 ds \<le> 2 ^ 63
     then if s \<noteq> [] \<and> hd s = CHR ''-'' then Some (word_of_int (- digits_from (sint r) 0 ds))
          else if digits_from (sint r) 0 ds = 2 ^ 63 then None else Some (word_of_int (digits_from (sint r) 0 ds))
     else None)"
    if "ds = (if s \<noteq> [] \<and> hd s \<in> {CHR ''-'', CHR ''+''} then tl s else s)" for ds
    using assms that val by (cases s) (simp_all add: kai_core_to_int_radix_def Let_def INT64_MIN_def del: radix_loop.simps)
  define ds where ds: "ds = (if s \<noteq> [] \<and> hd s \<in> {CHR ''-'', CHR ''+''} then tl s else s)"
  show ?thesis
    unfolding Let_def ds [symmetric] step [OF ds] using pos [of ds] by auto
qed

text \<open>
  What a numeral means, apart from the parser: the letters of either case stand for 10 to 35, and each
  digit counts for the power of the radix at its place. \<open>None\<close> is a character that is no digit of
  the radix.
\<close>

definition digit_meaning :: "char \<Rightarrow> nat option" where
  "digit_meaning = map_of (zip ''0123456789'' [0..<10]
     @ zip ''abcdefghijklmnopqrstuvwxyz'' [10..<36] @ zip ''ABCDEFGHIJKLMNOPQRSTUVWXYZ'' [10..<36])"

fun numeral_meaning :: "int \<Rightarrow> string \<Rightarrow> int option" where
  "numeral_meaning radix [] = Some 0"
| "numeral_meaning radix (c # cs) = do {
     d \<leftarrow> digit_meaning c;
     v \<leftarrow> numeral_meaning radix cs;
     if int d < radix then Some (int d * radix ^ length cs + v) else None }"

lemma digit_meaning_digit: "digit_meaning c = (if kai_radix_digit c < 36 then Some (nat (kai_radix_digit c)) else None)"
proof -
  have "list_all (\<lambda>c. digit_meaning c = (if kai_radix_digit c < 36 then Some (nat (kai_radix_digit c)) else None))
      (Enum.enum :: char list)"
    by code_simp
  then show ?thesis by (simp add: list_all_iff enum_UNIV)
qed

lemma numeral_meaning_digits:
  assumes "radix \<le> 36"
  shows "(case numeral_meaning radix ds of
      None \<Rightarrow> \<not> list_all (\<lambda>c. kai_radix_digit c < radix) ds
    | Some v \<Rightarrow> list_all (\<lambda>c. kai_radix_digit c < radix) ds \<and> (\<forall>acc. digits_from radix acc ds = acc * radix ^ length ds + v))"
proof (induction ds)
  case (Cons c ds)
  have "0 \<le> kai_radix_digit c" by (rule kai_radix_digit_nonneg)
  then show ?case using Cons assms
    by (cases "kai_radix_digit c < radix") (auto simp: digit_meaning_digit algebra_simps split: option.splits bind_splits)
qed simp

text \<open>
  C30: Parsing in a radix: an optional sign and at least one digit below the radix, letters in either
  case, give the number they denote, when 64 bits hold it; everything else is refused.
\<close>

theorem kai_core_to_int_radix_value:
  assumes "2 \<le> sint r" "sint r \<le> 36"
  shows "kai_core_to_int_radix (Some s) r =
    (let neg = (s \<noteq> [] \<and> hd s = CHR ''-'');
         ds = (if s \<noteq> [] \<and> hd s \<in> {CHR ''-'', CHR ''+''} then tl s else s)
     in if ds = [] then None
        else case numeral_meaning (sint r) ds of
               None \<Rightarrow> None
             | Some n \<Rightarrow> let v = (if neg then - n else n) in
                 if - (2 ^ 63) \<le> v \<and> v < 2 ^ 63 then Some (word_of_int v) else None)"
proof -
  define ds where "ds = (if s \<noteq> [] \<and> hd s \<in> {CHR ''-'', CHR ''+''} then tl s else s)"
  show ?thesis
    unfolding to_int_radix_value [OF assms] Let_def ds_def [symmetric]
    using numeral_meaning_digits [OF assms(2), of ds]
    by (auto split: option.splits)
qed

lemma kai_core_to_int_radix_value_witness: "kai_core_to_int_radix (Some ''-7F'') 16 = Some (- 127)"
  using kai_core_to_int_radix_value [of 16 "''-7F''"] by (simp add: digit_meaning_digit kai_radix_digit_def between_def)


text \<open>Writing: the digits of a number, and the buffer of 72 bytes is never overrun.\<close>

lemma kai_radix_digit_DIGITS:
  assumes "0 \<le> d" "d < 36"
  shows "kai_radix_digit (DIGITS ! nat d) = d" "DIGITS ! nat d \<noteq> CHR ''-''" "DIGITS ! nat d \<noteq> CHR ''+''"
proof -
  have "\<forall>k\<in>set [0..<36]. kai_radix_digit (DIGITS ! k) = int k \<and> DIGITS ! k \<noteq> CHR ''-'' \<and> DIGITS ! k \<noteq> CHR ''+''"
    by (simp add: upt_rec DIGITS_def kai_radix_digit_def between_def)
  from bspec [OF this, of "nat d"]
  show "kai_radix_digit (DIGITS ! nat d) = d" "DIGITS ! nat d \<noteq> CHR ''-''" "DIGITS ! nat d \<noteq> CHR ''+''"
    using assms by (simp_all add: nat_less_iff)
qed

lemma digits_from_append: "digits_from radix acc (xs @ ys) = digits_from radix (digits_from radix acc xs) ys"
  by (induction xs arbitrary: acc) simp_all

text \<open>What the writer leaves before \<open>p\<close>.\<close>

definition writes :: "int \<Rightarrow> int \<Rightarrow> nat \<Rightarrow> string \<Rightarrow> bool" where
  "writes radix n k ds \<longleftrightarrow> ds \<noteq> [] \<and> length ds \<le> k \<and> digits_from radix 0 ds = n
     \<and> list_all (\<lambda>c. kai_radix_digit c < radix \<and> c \<noteq> CHR ''-'' \<and> c \<noteq> CHR ''+'') ds"

lemma digits_loop_writes:
  assumes "2 \<le> radix" "radix \<le> 36"
  shows "0 \<le> n \<Longrightarrow> n < 2 ^ k \<Longrightarrow> 0 < k \<Longrightarrow> length p + k \<le> 72
    \<Longrightarrow> \<exists>ds. digits_loop radix (- n) p = Some (ds @ p) \<and> writes radix n k ds"
proof (induction k arbitrary: n p)
  case (Suc k)
  let ?c = "DIGITS ! nat (n mod radix)"
  have m: "0 \<le> n mod radix" "n mod radix < radix" using assms by simp_all
  note digit = kai_radix_digit_DIGITS [of "n mod radix"]
  have unfold: "digits_loop radix (- n) p = (if 0 < n div radix then digits_loop radix (- (n div radix)) (?c # p) else Some (?c # p))"
    using assms Suc.prems by (subst digits_loop.simps) (simp add: Let_def neg_div_def)
  show ?case
  proof (cases "0 < n div radix")
    case True
    have "n div radix \<le> n div 2" using assms Suc.prems by (intro zdiv_mono2) auto
    then have small: "n div radix < 2 ^ k" using Suc.prems(2) by simp
    then have "0 < k" using True by (cases k) auto
    then obtain ds where ds: "digits_loop radix (- (n div radix)) (?c # p) = Some (ds @ ?c # p)" "writes radix (n div radix) k ds"
      using Suc.IH [of "n div radix" "?c # p"] True small Suc.prems(4) by auto
    have "writes radix n (Suc k) (ds @ [?c])"
      using ds(2) digit m assms by (auto simp: writes_def digits_from_append)
    then show ?thesis using unfold True ds(1) by (intro exI [of _ "ds @ [?c]"]) simp
  next
    case False
    then have "n div radix = 0" using Suc.prems(1) assms by (simp add: order.antisym pos_imp_zdiv_nonneg_iff)
    then have "n mod radix = n" using div_mult_mod_eq [of n radix] by simp
    then have "writes radix n (Suc k) [?c]" using digit m assms by (auto simp: writes_def)
    then show ?thesis using unfold False by (intro exI [of _ "[?c]"]) simp
  qed
qed simp

text \<open>
  C29: Every 64-bit integer written in a radix from 2 to 36 fits the buffer of the writer and is read
  back in the same radix, the smallest integer included.
\<close>

theorem int_radix_roundtrip:
  assumes "2 \<le> sint r" "sint r \<le> 36"
  shows "\<exists>s. kai_core_int_to_string_radix v r = Some (Some s) \<and> kai_core_to_int_radix (Some s) r = Some v"
proof -
  let ?n = "\<bar>sint v\<bar>"
  have b: "- (2 ^ 63) \<le> sint v" "sint v < 2 ^ 63" using sint_ge [of v] sint_lt [of v] by simp_all
  then have "?n < 2 ^ 64" by simp
  then obtain ds where ds: "digits_loop (sint r) (- ?n) [] = Some ds" "writes (sint r) ?n 64 ds"
    using digits_loop_writes [OF assms, of ?n 64 "[]"] by (auto simp del: digits_loop.simps)
  have neg: "(if sint v < 0 then sint v else - sint v) = - ?n" by simp
  have hd: "ds \<noteq> []" "hd ds \<noteq> CHR ''-''" "hd ds \<noteq> CHR ''+''" "length ds < 72"
    using ds(2) by (cases ds; auto simp: writes_def)+
  define s where "s = (if sint v < 0 then CHR ''-'' # ds else ds)"
  have out: "kai_core_int_to_string_radix v r = Some (Some s)"
    using assms ds(1) hd(4) unfolding kai_core_int_to_string_radix_def Let_def neg by (simp add: s_def)
  have all: "list_all (\<lambda>c. kai_radix_digit c < sint r) ds" "digits_from (sint r) 0 ds = ?n"
    using ds(2) by (auto simp: writes_def list_all_iff)
  have "kai_core_to_int_radix (Some s) r = Some (word_of_int (sint v))"
    unfolding to_int_radix_value [OF assms] s_def using hd all b by (simp add: Let_def)
  then show ?thesis using out by simp
qed

lemma int_radix_roundtrip_witness:
  "\<exists>s. kai_core_int_to_string_radix (- 0x8000000000000000) 16 = Some (Some s)
    \<and> kai_core_to_int_radix (Some s) 16 = Some (- 0x8000000000000000)"
  by (rule int_radix_roundtrip) simp_all

section \<open>Little-endian bytes\<close>

lemma ord_byte_n: "of_nat (ord_char (byte_n v i)) = take_bit 8 (drop_bit (8 * i) v)"
proof -
  have "ord_char (byte_n v i) = unat (take_bit 8 (drop_bit (8 * i) v))"
    by (simp add: byte_n_def unsigned_take_bit_eq take_bit_nat_def)
  then show ?thesis by simp
qed

lemma gather_bytes:
  "foldr (\<lambda>i acc. push_bit 8 acc OR take_bit 8 (drop_bit (8 * i) v)) [k..<k + m] 0 = take_bit (8 * m) (drop_bit (8 * k) (v :: i64))"
proof (induction m arbitrary: k)
  case (Suc m)
  have "[k..<k + Suc m] = k # [Suc k..<Suc k + m]" by (simp add: upt_rec)
  then have "foldr (\<lambda>i acc. push_bit 8 acc OR take_bit 8 (drop_bit (8 * i) v)) [k..<k + Suc m] 0
      = push_bit 8 (take_bit (8 * m) (drop_bit (8 * Suc k) v)) OR take_bit 8 (drop_bit (8 * k) v)"
    using Suc.IH [of "Suc k"] by simp
  also have "\<dots> = take_bit (8 * Suc m) (drop_bit (8 * k) v)"
  proof (rule bit_eqI)
    fix n
    show "bit (push_bit 8 (take_bit (8 * m) (drop_bit (8 * Suc k) v)) OR take_bit 8 (drop_bit (8 * k) v)) n
        \<longleftrightarrow> bit (take_bit (8 * Suc m) (drop_bit (8 * k) v)) n"
      if "possible_bit TYPE(i64) n"
      using that by (cases "n < 8") (auto simp: bit_simps add.commute add.left_commute intro: arg_cong [where f = "bit v"])
  qed
  finally show ?case .
qed simp

lemma write_at_nth:
  assumes "off + length bs \<le> length d"
  shows "length (write_at d off bs) = length d"
    "i < length bs \<Longrightarrow> write_at d off bs ! (off + i) = bs ! i"
    "j < off \<or> off + length bs \<le> j \<Longrightarrow> j < length d \<Longrightarrow> write_at d off bs ! j = d ! j"
  using assms by (auto simp: write_at_def nth_append min_def)

lemma kai_bytes_span_Some: "kai_bytes_span (Some d) off n = Some (d', o1) \<longleftrightarrow>
    d' = d \<and> off = int o1 \<and> 0 \<le> n \<and> o1 + nat n \<le> length d"
  by (auto simp: kai_bytes_span_def Let_def)

text \<open>
  What \<open>bytes_put_le\<close> wrote, \<open>bytes_get_le\<close> reads back, cut to the width; the array keeps its
  length and its other bytes.
\<close>

theorem bytes_le_roundtrip:
  assumes "kai_core_bytes_put_le (Some d) off (Some v) (Some w) = Some d'"
  shows "kai_core_bytes_get_le (Some d') off (Some w) = Some (take_bit (8 * nat (sint w)) v)
    \<and> length d' = length d
    \<and> (\<forall>j<length d. int j < kai_bytes_int off \<or> kai_bytes_int off + sint w \<le> int j \<longrightarrow> d' ! j = d ! j)"
proof -
  have w: "0 \<le> sint w" "sint w \<le> 8" and width: "kai_bytes_width (Some w) = Some (sint w)"
    using assms by (auto simp: kai_core_bytes_put_le_def kai_bytes_width_def kai_bytes_int_def Let_def split: if_splits bind_splits)
  then obtain o1 where o1: "kai_bytes_int off = int o1" "o1 + nat (sint w) \<le> length d"
      "d' = write_at d o1 (map (byte_n v) [0..<nat (sint w)])"
    using assms by (auto simp: kai_core_bytes_put_le_def kai_bytes_int_def [of "Some v"] kai_bytes_span_Some Let_def split: bind_splits)
  let ?bs = "map (byte_n v) [0..<nat (sint w)]"
  have fits: "o1 + length ?bs \<le> length d" using o1(2) by simp
  note nth = write_at_nth [OF fits, folded o1(3)]
  have "kai_bytes_span (Some d') (kai_bytes_int off) (sint w) = Some (d', o1)"
    using w o1(1,2) nth(1) by (simp add: kai_bytes_span_Some)
  moreover have "foldr (\<lambda>i acc. push_bit 8 acc OR of_nat (ord_char (d' ! (o1 + i)))) [0..<nat (sint w)] 0
      = foldr (\<lambda>i acc. push_bit 8 acc OR take_bit 8 (drop_bit (8 * i) v)) [0..<nat (sint w)] 0"
    using nth(2) by (intro foldr_cong refl) (simp add: ord_byte_n)
  ultimately have "kai_core_bytes_get_le (Some d') off (Some w) = Some (take_bit (8 * nat (sint w)) v)"
    using width gather_bytes [of v 0 "nat (sint w)"]
    by (simp add: kai_core_bytes_get_le_def foldl_conv_foldr)
  moreover have "d' ! j = d ! j" if "int j < kai_bytes_int off \<or> kai_bytes_int off + sint w \<le> int j" "j < length d" for j
    using that o1(1) w(1) by (intro nth(3)) auto
  ultimately show ?thesis using nth(1) by blast
qed

lemma bytes_le_roundtrip_witness:
  "\<exists>d'. kai_core_bytes_put_le (Some (replicate 6 NUL)) (Some 1) (Some 0x1234) (Some 2) = Some d'
    \<and> kai_core_bytes_get_le (Some d') (Some 1) (Some 2) = Some (take_bit 16 0x1234)"
proof -
  have "\<exists>d'. kai_core_bytes_put_le (Some (replicate 6 NUL)) (Some 1) (Some 0x1234) (Some 2) = Some d'"
    by (simp add: kai_core_bytes_put_le_def kai_bytes_width_def kai_bytes_int_def kai_bytes_span_def)
  then show ?thesis using bytes_le_roundtrip [of "replicate 6 NUL" "Some 1" "0x1234" 2] by fastforce
qed

section \<open>A zero byte in a number\<close>

text \<open>
  \<open>string_to_int\<close> stops at a zero byte and takes what stands before it for the whole text.
\<close>

theorem string_to_int_nul:
  assumes "length s < 60"
  shows "kai_core_string_to_int (Some (''42'' @ NUL # s)) = Some 42"
  using assms
  by (simp add: kai_core_string_to_int_def strtoll_10_def NUL_def c_isspace_def c_isdigit_def Let_def)

lemma string_to_int_nul_witness: "kai_core_string_to_int (Some (''42'' @ NUL # ''xyz'')) = Some 42"
  by (rule string_to_int_nul) simp

end
