(* ===== verification/Kai_Value.thy ===== *)
theory Kai_Value
  imports "HOL-Library.Word" Kai_Ranges
begin

unbundle bit_operations_syntax

text \<open>
  The values the operators of the runtime read, \<^verbatim>\<open>stage2/runtime/types.h\<close> and \<^verbatim>\<open>ctors.h\<close>. A
  \<^verbatim>\<open>KaiValue *\<close> is null, an immediate word with its lowest bit set, or the address of a cell; a value
  is the tree of cells it reaches, each with its address, so that comparing pointers has a meaning.
  A double is its 64 bits, and the operations on doubles are a parameter. Reference counts are those
  of \<open>Kai_Rc\<close>.
\<close>

section \<open>Cells\<close>

type_synonym i64 = "64 word"
type_synonym bytes = "8 word list"

text \<open>Addresses: the static cells of the runtime, and the heap.\<close>

datatype addr = Heap nat | Singleton_unit | Singleton_true | Singleton_false | Singleton_nil
  | Char_cache "32 word" | Byte_cache "8 word"

text \<open>The cells that are compared by identity only.\<close>

datatype opaque = Closure | Ref | Cont | Seq
datatype handle = Fiber | Pid | Foreign

datatype scalar_tag = Tag_int | Tag_real | Tag_bool | Tag_char | Tag_byte

text \<open>A slot of a variant holds a pointer or a raw word, by the mask of its constructor.\<close>

datatype kval = Null | Imm i64 | Cell addr kbody
and kbody =
    Unit
  | Bool bool
  | Int_box i64
  | Real i64
  | Char "32 word"
  | Byte "8 word"
  | Int32 "32 word"
  | Uint32 "32 word"
  | Uint64 "64 word"
  | Int128 "128 word"
  | Str bytes
  | Nil
  | Cons kval kval
  | Range range
  | Record int "string list" "kval list"
  | Variant nat "kslot list"
  | Array "kval list"
  | Vec_boxed "kval list"
  | Vec_raw scalar_tag "i64 list"
  | Vec_rec "scalar_tag list" "i64 list list"
  | Opaque opaque
  | Handle handle nat
and kslot = Slot_ptr kval | Slot_raw i64

section \<open>Immediate integers\<close>

definition KAI_SMALLINT_MAX :: i64 where "KAI_SMALLINT_MAX = signed_drop_bit 1 0x7fffffffffffffff"
definition KAI_SMALLINT_MIN :: i64 where "KAI_SMALLINT_MIN = signed_drop_bit 1 0x8000000000000000"

definition kai_int_fits_immediate :: "i64 \<Rightarrow> bool" where
  "kai_int_fits_immediate n = (sint n \<ge> sint KAI_SMALLINT_MIN \<and> sint n \<le> sint KAI_SMALLINT_MAX)"

definition kai_tagged_int :: "i64 \<Rightarrow> kval" where
  "kai_tagged_int n = Imm (push_bit 1 n OR 1)"

fun kai_untag_int :: "i64 \<Rightarrow> i64" where
  "kai_untag_int w = signed_drop_bit 1 w"

text \<open>\<open>p\<close> is the address the allocator hands out when the number needs a box.\<close>

definition kai_int_big :: "nat \<Rightarrow> i64 \<Rightarrow> kval" where
  "kai_int_big p i = Cell (Heap p) (Int_box i)"

definition kai_int :: "nat \<Rightarrow> i64 \<Rightarrow> kval" where
  "kai_int p i = (if kai_int_fits_immediate i then kai_tagged_int i else kai_int_big p i)"

fun kai_is_int :: "kval \<Rightarrow> bool" where
  "kai_is_int (Imm w) = True"
| "kai_is_int (Cell p (Int_box i)) = True"
| "kai_is_int v = False"

text \<open>Only called on integers.\<close>

fun kai_intf :: "kval \<Rightarrow> i64" where
  "kai_intf (Imm w) = kai_untag_int w"
| "kai_intf (Cell p (Int_box i)) = i"
| "kai_intf v = 0"

section \<open>Constructors of the other scalars\<close>

definition kai_unit :: kval where "kai_unit = Cell Singleton_unit Unit"
definition kai_nil :: kval where "kai_nil = Cell Singleton_nil Nil"

definition kai_bool :: "bool \<Rightarrow> kval" where
  "kai_bool b = (if b then Cell Singleton_true (Bool True) else Cell Singleton_false (Bool False))"

definition kai_real :: "nat \<Rightarrow> i64 \<Rightarrow> kval" where "kai_real p r = Cell (Heap p) (Real r)"
definition kai_byte :: "8 word \<Rightarrow> kval" where "kai_byte n = Cell (Byte_cache n) (Byte n)"
definition kai_int32 :: "nat \<Rightarrow> 32 word \<Rightarrow> kval" where "kai_int32 p n = Cell (Heap p) (Int32 n)"
definition kai_uint32 :: "nat \<Rightarrow> 32 word \<Rightarrow> kval" where "kai_uint32 p n = Cell (Heap p) (Uint32 n)"
definition kai_uint64 :: "nat \<Rightarrow> 64 word \<Rightarrow> kval" where "kai_uint64 p n = Cell (Heap p) (Uint64 n)"
definition kai_int128 :: "nat \<Rightarrow> 128 word \<Rightarrow> kval" where "kai_int128 p n = Cell (Heap p) (Int128 n)"

definition kai_char :: "nat \<Rightarrow> 32 word \<Rightarrow> kval" where
  "kai_char p c = (if c \<le> 127 then Cell (Char_cache c) (Char c) else Cell (Heap p) (Char c))"

definition kai_op_truthy :: "kval \<Rightarrow> bool" where
  "kai_op_truthy v = (case v of Cell p (Bool b) \<Rightarrow> b | _ \<Rightarrow> False)"

section \<open>Head tags\<close>

text \<open>The key of a single-dispatch protocol; \<open>heads\<close> is the registered table from variant tags.\<close>

fun kai_head_tag :: "int list \<Rightarrow> kval \<Rightarrow> int" where
  "kai_head_tag heads (Imm w) = 3"
| "kai_head_tag heads Null = 0"
| "kai_head_tag heads (Cell p b) =
     (case b of
        Unit \<Rightarrow> 1 | Bool b \<Rightarrow> 2 | Int_box i \<Rightarrow> 3 | Real r \<Rightarrow> 4 | Char c \<Rightarrow> 5 | Str s \<Rightarrow> 6
      | Nil \<Rightarrow> 7 | Cons x xs \<Rightarrow> 7 | Range r \<Rightarrow> 7
      | Record h ns fs \<Rightarrow> h
      | Variant t ss \<Rightarrow> if t < length heads then heads ! t else 0
      | Array xs \<Rightarrow> 8
      | Vec_boxed xs \<Rightarrow> 14 | Vec_raw t xs \<Rightarrow> 14 | Vec_rec ts xs \<Rightarrow> 14
      | Opaque k \<Rightarrow> (if k = Closure then 10 else 0)
      | Handle k n \<Rightarrow> (case k of Fiber \<Rightarrow> 11 | Pid \<Rightarrow> 12 | Foreign \<Rightarrow> 0)
      | Byte n \<Rightarrow> 9
      | Int32 n \<Rightarrow> 3 | Uint32 n \<Rightarrow> 3 | Uint64 n \<Rightarrow> 3 | Int128 n \<Rightarrow> 3)"

section \<open>Outcomes\<close>

text \<open>An operator gives a value, aborts with a trap the program can be told of, or ends the program
  with a message; C may also leave it undefined.\<close>

datatype 'a outcome = Value 'a | Trap string | Exit string | Undefined

section \<open>Lists as cursors read them\<close>

fun seq_of :: "kval \<Rightarrow> kval seq" where
  "seq_of (Cell p (Cons x xs)) = Cons_cell (Item x) (seq_of xs)"
| "seq_of (Cell p (Range r)) = Range_cell r"
| "seq_of v = Nil_cell"

text \<open>What the cursor hands out: an element of a cell, or the next integer of a range.\<close>

fun item_val :: "nat \<Rightarrow> kval item \<Rightarrow> kval" where
  "item_val p (Item v) = v"
| "item_val p (Int_item i) = kai_int p i"

section \<open>The two representations of an integer\<close>

lemma fits_bounds: "kai_int_fits_immediate n \<longleftrightarrow> - (2 ^ 62) \<le> sint n \<and> sint n < 2 ^ 62"
  by (auto simp: kai_int_fits_immediate_def KAI_SMALLINT_MIN_def KAI_SMALLINT_MAX_def)

lemma top_bits_agree:
  assumes "- (2 ^ 62) \<le> sint n" "sint n < 2 ^ 62"
  shows "bit (n :: i64) 63 = bit n 62"
proof -
  have neg: "k div d = -1" if "- d \<le> k" "k < 0" "0 < d" for k d :: int
    using int_div_pos_eq [of k d "-1" "k + d"] that by simp
  have "bit (sint n) 63 = bit (sint n) 62"
  proof (cases "sint n < 0")
    case True
    then have "sint n div 2 ^ 63 = -1" "sint n div 2 ^ 62 = -1"
      using assms by (intro neg; simp)+
    then show ?thesis by (simp add: bit_iff_odd)
  next
    case False
    then have "sint n div 2 ^ 63 = 0" "sint n div 2 ^ 62 = 0"
      using assms by (intro div_pos_pos_trivial; simp)+
    then show ?thesis by (simp add: bit_iff_odd)
  qed
  then show ?thesis by (simp add: bit_sint_iff)
qed

lemma shift_back:
  assumes "- (2 ^ 62) \<le> sint n" "sint n < 2 ^ 62"
  shows "signed_drop_bit 1 (push_bit 1 n OR 1) = (n :: i64)"
proof (rule bit_word_eqI)
  fix i assume "i < LENGTH(64)"
  then consider "i = 63" | "i < 63" by fastforce
  then show "bit (signed_drop_bit 1 (push_bit 1 n OR 1)) i = bit n i"
  proof cases
    case 1
    then show ?thesis
      using top_bits_agree [OF assms]
      unfolding bit_signed_drop_bit_iff bit_or_iff bit_push_bit_iff bit_1_iff by simp
  next
    case 2
    then show ?thesis
      unfolding bit_signed_drop_bit_iff bit_or_iff bit_push_bit_iff bit_1_iff by simp
  qed
qed

theorem kai_intf_int [simp]: "kai_intf (kai_int p n) = n" "kai_is_int (kai_int p n)"
  using shift_back [of n] by (simp_all add: kai_int_def kai_tagged_int_def kai_int_big_def fits_bounds)

end
