(* ===== verification/Kai_Ops.thy ===== *)
theory Kai_Ops
  imports Kai_Value "HOL-Library.Signed_Division" "HOL-Library.List_Lexorder"
begin

text \<open>
  The operators of the language, \<^verbatim>\<open>stage2/runtime/core_ops_io.h\<close>: wrapping arithmetic on the integer
  types, division with its traps, the orderings, powers and negation. An argument \<open>p\<close> is the address
  of the box of the result.
\<close>

section \<open>The parameters\<close>

text \<open>The operations of IEEE doubles, on their bits.\<close>

record real_ops =
  r_add :: "i64 \<Rightarrow> i64 \<Rightarrow> i64"
  r_sub :: "i64 \<Rightarrow> i64 \<Rightarrow> i64"
  r_mul :: "i64 \<Rightarrow> i64 \<Rightarrow> i64"
  r_div :: "i64 \<Rightarrow> i64 \<Rightarrow> i64"
  r_neg :: "i64 \<Rightarrow> i64"
  r_one :: i64
  r_lt :: "i64 \<Rightarrow> i64 \<Rightarrow> bool"
  r_le :: "i64 \<Rightarrow> i64 \<Rightarrow> bool"
  r_eq :: "i64 \<Rightarrow> i64 \<Rightarrow> bool"

text \<open>The functions a program registered for \<open>Ord.cmp\<close> and \<open>Eq.eq\<close>, under the head tag.\<close>

type_synonym impls = "int \<Rightarrow> (kval \<Rightarrow> kval \<Rightarrow> kval) option"

section \<open>Pairs of operands\<close>

text \<open>What the tests on the two tags find: a pair of one type, or a mixed pair.\<close>

datatype operands = Ints i64 i64 | Reals i64 i64 | Chars "32 word" "32 word" | Bytes "8 word" "8 word"
  | Int32s "32 word" "32 word" | Uint32s "32 word" "32 word" | Uint64s "64 word" "64 word"
  | Int128s "128 word" "128 word" | Strs bytes bytes | Mixed

definition same_tag :: "kbody \<Rightarrow> kbody \<Rightarrow> operands" where
  "same_tag a b =
     (case a of
        Int_box x \<Rightarrow> (case b of Int_box y \<Rightarrow> Ints x y | _ \<Rightarrow> Mixed)
      | Real x \<Rightarrow> (case b of Real y \<Rightarrow> Reals x y | _ \<Rightarrow> Mixed)
      | Char x \<Rightarrow> (case b of Char y \<Rightarrow> Chars x y | _ \<Rightarrow> Mixed)
      | Byte x \<Rightarrow> (case b of Byte y \<Rightarrow> Bytes x y | _ \<Rightarrow> Mixed)
      | Int32 x \<Rightarrow> (case b of Int32 y \<Rightarrow> Int32s x y | _ \<Rightarrow> Mixed)
      | Uint32 x \<Rightarrow> (case b of Uint32 y \<Rightarrow> Uint32s x y | _ \<Rightarrow> Mixed)
      | Uint64 x \<Rightarrow> (case b of Uint64 y \<Rightarrow> Uint64s x y | _ \<Rightarrow> Mixed)
      | Int128 x \<Rightarrow> (case b of Int128 y \<Rightarrow> Int128s x y | _ \<Rightarrow> Mixed)
      | Str x \<Rightarrow> (case b of Str y \<Rightarrow> Strs x y | _ \<Rightarrow> Mixed)
      | _ \<Rightarrow> Mixed)"

definition operands_of :: "kval \<Rightarrow> kval \<Rightarrow> operands" where
  "operands_of a b =
     (if kai_is_int a \<and> kai_is_int b then Ints (kai_intf a) (kai_intf b)
      else case a of Cell p x \<Rightarrow> (case b of Cell q y \<Rightarrow> same_tag x y | _ \<Rightarrow> Mixed) | _ \<Rightarrow> Mixed)"

section \<open>Arithmetic\<close>

text \<open>C division and remainder of signed integers.\<close>

definition c_div :: "'a::len word \<Rightarrow> 'a word \<Rightarrow> 'a word" where
  "c_div a b = word_of_int (sint a sdiv sint b)"

definition c_mod :: "'a::len word \<Rightarrow> 'a word \<Rightarrow> 'a word" where
  "c_mod a b = word_of_int (sint a smod sint b)"

definition wrap_op :: "char \<Rightarrow> 'a::len word \<Rightarrow> 'a word \<Rightarrow> 'a word" where
  "wrap_op op x y = (if op = CHR ''+'' then x + y else if op = CHR ''-'' then x - y else x * y)"

fun kai_fixed_arith :: "nat \<Rightarrow> operands \<Rightarrow> char \<Rightarrow> kval option" where
  "kai_fixed_arith p (Bytes x y) op = Some (kai_byte (wrap_op op x y))"
| "kai_fixed_arith p (Int32s x y) op = Some (kai_int32 p (wrap_op op x y))"
| "kai_fixed_arith p (Uint32s x y) op = Some (kai_uint32 p (wrap_op op x y))"
| "kai_fixed_arith p (Uint64s x y) op = Some (kai_uint64 p (wrap_op op x y))"
| "kai_fixed_arith p (Int128s x y) op = Some (kai_int128 p (wrap_op op x y))"
| "kai_fixed_arith p ab op = None"

definition kai_op_arith :: "(i64 \<Rightarrow> i64 \<Rightarrow> i64) \<Rightarrow> char \<Rightarrow> nat \<Rightarrow> kval \<Rightarrow> kval \<Rightarrow> kval outcome" where
  "kai_op_arith real_op op p a b =
     (case operands_of a b of
        Ints x y \<Rightarrow> Value (kai_int p (wrap_op op x y))
      | Reals x y \<Rightarrow> Value (kai_real p (real_op x y))
      | ab \<Rightarrow> (case kai_fixed_arith p ab op of
                Some r \<Rightarrow> Value r
              | None \<Rightarrow> Exit (''kai: type mismatch in '' @ [op])))"

definition kai_op_add :: "real_ops \<Rightarrow> nat \<Rightarrow> kval \<Rightarrow> kval \<Rightarrow> kval outcome" where
  "kai_op_add R = kai_op_arith (r_add R) CHR ''+''"

definition kai_op_sub :: "real_ops \<Rightarrow> nat \<Rightarrow> kval \<Rightarrow> kval \<Rightarrow> kval outcome" where
  "kai_op_sub R = kai_op_arith (r_sub R) CHR ''-''"

definition kai_op_mul :: "real_ops \<Rightarrow> nat \<Rightarrow> kval \<Rightarrow> kval \<Rightarrow> kval outcome" where
  "kai_op_mul R = kai_op_arith (r_mul R) CHR ''*''"

section \<open>Division\<close>

definition INT64_MIN :: i64 where "INT64_MIN = 0x8000000000000000"

definition unless_zero :: "bool \<Rightarrow> string \<Rightarrow> 'a \<Rightarrow> 'a outcome" where
  "unless_zero zero msg r = (if zero then Trap msg else Value r)"

text \<open>The raw forms both backends use.\<close>

definition kai_idiv_chk :: "i64 \<Rightarrow> i64 \<Rightarrow> i64 outcome" where
  "kai_idiv_chk a b = (if b = 0 then Trap ''divide by zero''
     else if a = INT64_MIN \<and> b = -1 then Trap ''divide overflow'' else Value (c_div a b))"

definition kai_imod_chk :: "i64 \<Rightarrow> i64 \<Rightarrow> i64 outcome" where
  "kai_imod_chk a b = (if b = 0 then Trap ''mod by zero''
     else if a = INT64_MIN \<and> b = -1 then Trap ''divide overflow'' else Value (c_mod a b))"

definition kai_udiv_chk :: "i64 \<Rightarrow> i64 \<Rightarrow> i64 outcome" where
  "kai_udiv_chk a b = unless_zero (b = 0) ''divide by zero'' (a div b)"

definition kai_umod_chk :: "i64 \<Rightarrow> i64 \<Rightarrow> i64 outcome" where
  "kai_umod_chk a b = unless_zero (b = 0) ''mod by zero'' (a mod b)"

text \<open>The boxed forms.\<close>

fun kai_fixed_div :: "nat \<Rightarrow> operands \<Rightarrow> kval outcome option" where
  "kai_fixed_div p (Bytes x y) = Some (unless_zero (y = 0) ''divide by zero'' (kai_byte (x div y)))"
| "kai_fixed_div p (Int32s x y) =
     Some (unless_zero (y = 0) ''divide by zero'' (kai_int32 p (ucast (c_div (scast x :: i64) (scast y)))))"
| "kai_fixed_div p (Uint32s x y) = Some (unless_zero (y = 0) ''divide by zero'' (kai_uint32 p (x div y)))"
| "kai_fixed_div p (Uint64s x y) = Some (unless_zero (y = 0) ''divide by zero'' (kai_uint64 p (x div y)))"
| "kai_fixed_div p (Int128s x y) =
     Some (unless_zero (y = 0) ''divide by zero'' (kai_int128 p (if y = -1 then 0 - x else c_div x y)))"
| "kai_fixed_div p ab = None"

definition kai_op_div :: "real_ops \<Rightarrow> nat \<Rightarrow> kval \<Rightarrow> kval \<Rightarrow> kval outcome" where
  "kai_op_div R p a b =
     (case operands_of a b of
        Ints x y \<Rightarrow>
          if y = 0 then Trap ''divide by zero''
          else if x = INT64_MIN \<and> y = -1 then Trap ''divide overflow''
          else Value (kai_int p (c_div x y))
      | Reals x y \<Rightarrow> Value (kai_real p (r_div R x y))
      | ab \<Rightarrow> (case kai_fixed_div p ab of Some r \<Rightarrow> r | None \<Rightarrow> Exit ''kai: type mismatch in /''))"

definition kai_op_mod :: "nat \<Rightarrow> kval \<Rightarrow> kval \<Rightarrow> kval outcome" where
  "kai_op_mod p a b =
     (case operands_of a b of
        Ints x y \<Rightarrow>
          if y = 0 then Trap ''mod by zero''
          else if x = INT64_MIN \<and> y = -1 then Trap ''divide overflow''
          else Value (kai_int p (c_mod x y))
      | Bytes x y \<Rightarrow> unless_zero (y = 0) ''mod by zero'' (kai_byte (x mod y))
      | Int32s x y \<Rightarrow>
          unless_zero (y = 0) ''mod by zero'' (kai_int32 p (ucast (c_mod (scast x :: i64) (scast y))))
      | Uint32s x y \<Rightarrow> unless_zero (y = 0) ''mod by zero'' (kai_uint32 p (x mod y))
      | Uint64s x y \<Rightarrow> unless_zero (y = 0) ''mod by zero'' (kai_uint64 p (x mod y))
      | Int128s x y \<Rightarrow>
          unless_zero (y = 0) ''mod by zero'' (kai_int128 p (if y = -1 then 0 else c_mod x y))
      | _ \<Rightarrow> Exit ''kai: type mismatch in %'')"

section \<open>Negation\<close>

definition kai_op_neg :: "real_ops \<Rightarrow> nat \<Rightarrow> kval \<Rightarrow> kval outcome" where
  "kai_op_neg R p a =
     (if kai_is_int a then Value (kai_int p (0 - kai_intf a))
      else case a of
             Cell _ (Real r) \<Rightarrow> Value (kai_real p (r_neg R r))
           | Cell _ (Byte n) \<Rightarrow> Value (kai_byte (0 - n))
           | Cell _ (Int32 n) \<Rightarrow> Value (kai_int32 p (- n))
           | Cell _ (Uint32 n) \<Rightarrow> Value (kai_uint32 p (- n))
           | Cell _ (Uint64 n) \<Rightarrow> Value (kai_uint64 p (- n))
           | Cell _ (Int128 n) \<Rightarrow> Value (kai_int128 p (- n))
           | _ \<Rightarrow> Exit ''kai: type mismatch in unary -'')"

fun kai_op_boolnot :: "kval \<Rightarrow> kval outcome" where
  "kai_op_boolnot (Cell _ (Bool b)) = Value (kai_bool (\<not> b))"
| "kai_op_boolnot a = Exit ''kai: type mismatch in `not`''"

section \<open>Powers\<close>

text \<open>The loop from \<open>i = 0\<close> while \<open>i < e\<close>. The negation of the smallest exponent is undefined.\<close>

fun pow_loop :: "('a \<Rightarrow> 'a \<Rightarrow> 'a) \<Rightarrow> 'a \<Rightarrow> nat \<Rightarrow> 'a \<Rightarrow> 'a" where
  "pow_loop mul base 0 acc = acc"
| "pow_loop mul base (Suc n) acc = pow_loop mul base n (mul acc base)"

definition kai_op_pow_int :: "real_ops \<Rightarrow> nat \<Rightarrow> kval \<Rightarrow> kval \<Rightarrow> kval outcome" where
  "kai_op_pow_int R p a b =
     (if \<not> kai_is_int b then Exit ''kai: type mismatch in ^ (exponent must be Int)''
      else let e = kai_intf b
           in if kai_is_int a then
                Value (if sint e < 0 then kai_int p 0
                       else kai_int p (pow_loop (*) (kai_intf a) (nat (sint e)) 1))
              else case a of
                     Cell _ (Real base) \<Rightarrow>
                       if e = INT64_MIN then Undefined
                       else let k = (if sint e < 0 then - e else e);
                           acc = pow_loop (r_mul R) base (nat (sint k)) (r_one R)
                       in Value (kai_real p (if sint e < 0 then r_div R (r_one R) acc else acc))
                   | _ \<Rightarrow> Exit ''kai: type mismatch in ^'')"

section \<open>Orderings\<close>

fun memcmp :: "bytes \<Rightarrow> bytes \<Rightarrow> int" where
  "memcmp (x # xs) (y # ys) = (if x < y then -1 else if x > y then 1 else memcmp xs ys)"
| "memcmp xs ys = 0"

fun kai_fixed_lt :: "operands \<Rightarrow> bool option" where
  "kai_fixed_lt (Bytes x y) = Some (x < y)"
| "kai_fixed_lt (Int32s x y) = Some (sint x < sint y)"
| "kai_fixed_lt (Uint32s x y) = Some (x < y)"
| "kai_fixed_lt (Uint64s x y) = Some (x < y)"
| "kai_fixed_lt (Int128s x y) = Some (sint x < sint y)"
| "kai_fixed_lt ab = None"

fun kai_fixed_gt :: "operands \<Rightarrow> bool option" where
  "kai_fixed_gt (Bytes x y) = Some (x > y)"
| "kai_fixed_gt (Int32s x y) = Some (sint x > sint y)"
| "kai_fixed_gt (Uint32s x y) = Some (x > y)"
| "kai_fixed_gt (Uint64s x y) = Some (x > y)"
| "kai_fixed_gt (Int128s x y) = Some (sint x > sint y)"
| "kai_fixed_gt ab = None"

definition ord_dispatch :: "int list \<Rightarrow> impls \<Rightarrow> (int \<Rightarrow> bool) \<Rightarrow> string \<Rightarrow> kval \<Rightarrow> kval \<Rightarrow> kval outcome" where
  "ord_dispatch heads ord test msg a b =
     (case ord (kai_head_tag heads a) of
        Some f \<Rightarrow> Value (kai_bool (test (sint (kai_intf (f a b)))))
      | None \<Rightarrow> Exit msg)"

definition kai_op_lt :: "real_ops \<Rightarrow> int list \<Rightarrow> impls \<Rightarrow> kval \<Rightarrow> kval \<Rightarrow> kval outcome" where
  "kai_op_lt R heads ord a b =
     (case operands_of a b of
        Ints x y \<Rightarrow> Value (kai_bool (sint x < sint y))
      | Reals x y \<Rightarrow> Value (kai_bool (r_lt R x y))
      | Chars x y \<Rightarrow> Value (kai_bool (x < y))
      | Strs s t \<Rightarrow>
          let n = min (length s) (length t); c = memcmp (take n s) (take n t)
          in Value (kai_bool (if c \<noteq> 0 then c < 0 else length s < length t))
      | ab \<Rightarrow> (case kai_fixed_lt ab of
                Some r \<Rightarrow> Value (kai_bool r)
              | None \<Rightarrow> ord_dispatch heads ord (\<lambda>c. c < 0) ''kai: type mismatch in <'' a b))"

definition kai_op_gt :: "real_ops \<Rightarrow> int list \<Rightarrow> impls \<Rightarrow> kval \<Rightarrow> kval \<Rightarrow> kval outcome" where
  "kai_op_gt R heads ord a b =
     (case operands_of a b of
        Ints x y \<Rightarrow> Value (kai_bool (sint x > sint y))
      | Reals x y \<Rightarrow> Value (kai_bool (r_lt R y x))
      | Chars x y \<Rightarrow> Value (kai_bool (x > y))
      | Strs s t \<Rightarrow>
          let n = min (length s) (length t); c = memcmp (take n s) (take n t)
          in Value (kai_bool (if c \<noteq> 0 then c > 0 else length s > length t))
      | ab \<Rightarrow> (case kai_fixed_gt ab of
                Some r \<Rightarrow> Value (kai_bool r)
              | None \<Rightarrow> ord_dispatch heads ord (\<lambda>c. c > 0) ''kai: type mismatch in >'' a b))"

definition kai_real_cmp :: "real_ops \<Rightarrow> kval \<Rightarrow> kval \<Rightarrow> bool \<Rightarrow> bool option" where
  "kai_real_cmp R a b le =
     (case operands_of a b of Reals x y \<Rightarrow> Some (if le then r_le R x y else r_le R y x) | _ \<Rightarrow> None)"

fun not_outcome :: "kval outcome \<Rightarrow> kval outcome" where
  "not_outcome (Value g) = Value (kai_bool (\<not> kai_op_truthy g))"
| "not_outcome (Trap s) = Trap s"
| "not_outcome (Exit s) = Exit s"
| "not_outcome Undefined = Undefined"

definition kai_op_le :: "real_ops \<Rightarrow> int list \<Rightarrow> impls \<Rightarrow> kval \<Rightarrow> kval \<Rightarrow> kval outcome" where
  "kai_op_le R heads ord a b =
     (case kai_real_cmp R a b True of Some r \<Rightarrow> Value (kai_bool r) | None \<Rightarrow> not_outcome (kai_op_gt R heads ord a b))"

definition kai_op_ge :: "real_ops \<Rightarrow> int list \<Rightarrow> impls \<Rightarrow> kval \<Rightarrow> kval \<Rightarrow> kval outcome" where
  "kai_op_ge R heads ord a b =
     (case kai_real_cmp R a b False of Some r \<Rightarrow> Value (kai_bool r) | None \<Rightarrow> not_outcome (kai_op_lt R heads ord a b))"

end
