(* ===== verification/Kai_Ops_Spec.thy ===== *)
theory Kai_Ops_Spec
  imports Kai_Ops
begin

text \<open>
  What the operators of \<open>Kai_Ops\<close> compute: exact arithmetic reduced to the width, truncated division
  with its traps, and on every ordered type the order of a key.
\<close>

section \<open>Words of a width\<close>

lemma sint_of: "sint (word_of_int k :: i64) = signed_take_bit 63 k"
  by (simp add: sint_sbintrunc')

lemma sint_add64: "sint (x + y :: i64) = signed_take_bit 63 (sint x + sint y)"
  by (simp add: sint_word_ariths)

lemma sint_sub64: "sint (x - y :: i64) = signed_take_bit 63 (sint x - sint y)"
  by (simp add: sint_word_ariths)

lemma sint_mul64: "sint (x * y :: i64) = signed_take_bit 63 (sint x * sint y)"
  by (simp add: sint_word_ariths)

lemma sint_pow64: "sint (x ^ n :: i64) = signed_take_bit 63 (sint x ^ n)"
proof -
  have "x ^ n = word_of_int (sint x ^ n)" by (induction n) (simp_all add: wi_hom_mult [symmetric])
  then show ?thesis by (metis sint_of)
qed

section \<open>Powers\<close>

lemma pow_loop_power: "pow_loop (*) base n acc = acc * base ^ n"
  for base :: "'a::comm_monoid_mult"
  by (induction n arbitrary: acc) (simp_all add: ac_simps)

text \<open>
  C37: On integers in any representation, immediate or boxed, the operators give an integer, and it is
  the exact sum, difference, product, power or opposite reduced to 64 bits; a negative exponent gives
  0. No integer makes them stop.
\<close>

theorem int_arithmetic:
  assumes "kai_is_int a" "kai_is_int b"
  defines "x \<equiv> sint (kai_intf a)" and "y \<equiv> sint (kai_intf b)"
  shows "\<exists>s d m e n. kai_op_add R p a b = Value s \<and> kai_op_sub R p a b = Value d
    \<and> kai_op_mul R p a b = Value m \<and> kai_op_pow_int R p a b = Value e \<and> kai_op_neg R p a = Value n
    \<and> (\<forall>v\<in>{s, d, m, e, n}. kai_is_int v)
    \<and> sint (kai_intf s) = signed_take_bit 63 (x + y)
    \<and> sint (kai_intf d) = signed_take_bit 63 (x - y)
    \<and> sint (kai_intf m) = signed_take_bit 63 (x * y)
    \<and> sint (kai_intf e) = (if y < 0 then 0 else signed_take_bit 63 (x ^ nat y))
    \<and> sint (kai_intf n) = signed_take_bit 63 (- x)"
  using assms(1,2) sint_sub64 [of 0 "kai_intf a"]
  by (simp add: kai_op_add_def kai_op_sub_def kai_op_mul_def kai_op_arith_def operands_of_def wrap_op_def
      kai_op_pow_int_def kai_op_neg_def Let_def pow_loop_power sint_add64 sint_sub64 sint_mul64 sint_pow64
      x_def y_def)

lemma int_arithmetic_witness:
  "\<forall>R. \<exists>s d m e n. kai_op_add R 0 (kai_int 1 0x7fffffffffffffff) (kai_int 2 1) = Value s
    \<and> kai_op_sub R 0 (kai_int 1 0x7fffffffffffffff) (kai_int 2 1) = Value d
    \<and> kai_op_mul R 0 (kai_int 1 0x7fffffffffffffff) (kai_int 2 1) = Value m
    \<and> kai_op_pow_int R 0 (kai_int 1 0x7fffffffffffffff) (kai_int 2 1) = Value e
    \<and> kai_op_neg R 0 (kai_int 1 0x7fffffffffffffff) = Value n
    \<and> sint (kai_intf s) = - (2 ^ 63)"
  apply (rule allI)
  subgoal for R
    using int_arithmetic [of "kai_int 1 0x7fffffffffffffff" "kai_int 2 1" R 0]
    by (auto simp: signed_take_bit_eq_take_bit_minus)
  done

section \<open>Division\<close>

lemma smod_bound: "b \<noteq> 0 \<Longrightarrow> \<bar>a smod b\<bar> < \<bar>b\<bar>" for a b :: int
  using smod_int_range [of b a] by auto

lemma smod_sgn: "a smod b = 0 \<or> sgn (a smod b) = sgn a" for a b :: int
proof (cases "b = 0")
  case False
  then have "0 \<le> \<bar>a\<bar> mod \<bar>b\<bar>" by simp
  then consider "\<bar>a\<bar> mod \<bar>b\<bar> = 0" | "sgn (\<bar>a\<bar> mod \<bar>b\<bar>) = 1" by fastforce
  then show ?thesis by cases (simp_all add: signed_modulo_int_def sgn_mult)
qed (simp add: mult_sgn_abs)

lemma sdiv_bounds:
  fixes x y N :: int
  assumes "0 < N" "- N \<le> x" "x < N" "y \<noteq> -1 \<or> x \<noteq> - N"
  shows "- N \<le> x sdiv y \<and> x sdiv y < N"
proof (cases "x = - N \<and> y < 0")
  case True
  then have "2 \<le> \<bar>y\<bar>" using assms(4) by auto
  then have "N div \<bar>y\<bar> < N" using assms(1) int_div_less_self by auto
  moreover have "0 \<le> N div \<bar>y\<bar>" using assms(1) True by (simp add: pos_imp_zdiv_nonneg_iff)
  ultimately show ?thesis using True assms(1) by (simp add: signed_divide_int_def sgn_if)
next
  case False
  have r: "- \<bar>x\<bar> \<le> x sdiv y" "x sdiv y \<le> \<bar>x\<bar>" using sdiv_int_range [of x y] by auto
  show ?thesis
  proof (cases "x = - N")
    case True
    then have "0 \<le> y" using False by simp
    then have "x sdiv y \<le> 0"
      using True assms(1) by (cases "y = 0") (simp_all add: signed_divide_int_def sgn_if pos_imp_zdiv_nonneg_iff)
    then show ?thesis using r True assms(1) by simp
  qed (use r assms in linarith)
qed

lemma sdiv_fits:
  fixes x y :: "'a::len word"
  assumes "sint y \<noteq> -1 \<or> sint x \<noteq> - (2 ^ (LENGTH('a) - 1))"
  shows "sint (c_div x y) = sint x sdiv sint y"
proof -
  have "- (2 ^ (LENGTH('a) - 1)) \<le> sint x sdiv sint y \<and> sint x sdiv sint y < 2 ^ (LENGTH('a) - 1)"
    using assms by (intro sdiv_bounds sint_ge sint_lt) simp_all
  then show ?thesis by (simp add: c_div_def sint_sbintrunc' signed_take_bit_int_eq_self)
qed

lemma smod_fits:
  fixes x y :: "'a::len word"
  assumes "sint y \<noteq> 0"
  shows "sint (c_mod x y) = sint x smod sint y"
proof -
  have "\<bar>sint y\<bar> \<le> 2 ^ (LENGTH('a) - 1)" using sint_ge [of y] sint_lt [of y] by auto
  then have "\<bar>sint x smod sint y\<bar> < 2 ^ (LENGTH('a) - 1)" using smod_bound [OF assms, of "sint x"] by simp
  then show ?thesis by (simp add: c_mod_def sint_sbintrunc' signed_take_bit_int_eq_self)
qed

lemma not_overflow:
  assumes "\<not> (x = INT64_MIN \<and> y = -1)"
  shows "sint (y :: i64) \<noteq> -1 \<or> sint (x :: i64) \<noteq> - (2 ^ (LENGTH(64) - 1))"
proof -
  have "sint INT64_MIN = - (2 ^ (LENGTH(64) - 1))" "sint (-1 :: i64) = -1" by (simp_all add: INT64_MIN_def)
  then show ?thesis using assms by (metis signed_word_eqI)
qed

text \<open>
  C27: Division of integers, boxed and raw alike, stops at a zero divisor and at the one quotient 64 bits
  cannot hold; otherwise quotient and remainder are those of the division that rounds towards zero.
\<close>

theorem int_division:
  assumes "kai_is_int a" "kai_is_int b"
  defines "x \<equiv> kai_intf a" and "y \<equiv> kai_intf b"
  shows "if y = 0 \<or> x = INT64_MIN \<and> y = -1
    then (\<exists>s t. kai_op_div R p a b = Trap s \<and> kai_op_mod p a b = Trap t
      \<and> kai_idiv_chk x y = Trap s \<and> kai_imod_chk x y = Trap t)
    else (\<exists>q r. kai_op_div R p a b = Value q \<and> kai_op_mod p a b = Value r \<and> kai_is_int q \<and> kai_is_int r
      \<and> kai_idiv_chk x y = Value (kai_intf q) \<and> kai_imod_chk x y = Value (kai_intf r)
      \<and> sint x = sint (kai_intf q) * sint y + sint (kai_intf r)
      \<and> \<bar>sint (kai_intf r)\<bar> < \<bar>sint y\<bar>
      \<and> (sint (kai_intf r) = 0 \<or> sgn (sint (kai_intf r)) = sgn (sint x)))"
proof (cases "y = 0 \<or> x = INT64_MIN \<and> y = -1")
  case True
  then show ?thesis
    using assms by (auto simp: kai_op_div_def kai_op_mod_def operands_of_def kai_idiv_chk_def kai_imod_chk_def)
next
  case False
  then have d: "sint (c_div x y) = sint x sdiv sint y" and r: "sint (c_mod x y) = sint x smod sint y" and nz: "sint y \<noteq> 0"
    using sdiv_fits [OF not_overflow, of x y] smod_fits [of y x] by (auto simp: sint_zero_iff)
  show ?thesis
    using False assms nz sdiv_mult_smod_eq [of "sint x" "sint y"] smod_bound [OF nz, of "sint x"] smod_sgn [of "sint x" "sint y"]
    by (simp add: kai_op_div_def kai_op_mod_def operands_of_def kai_idiv_chk_def kai_imod_chk_def
        d [unfolded x_def y_def] r [unfolded x_def y_def])
qed

lemma int_division_witness:
  "\<forall>R. \<exists>q r. kai_op_div R 0 (kai_int 1 (-7)) (kai_int 2 2) = Value q \<and> kai_op_mod 0 (kai_int 1 (-7)) (kai_int 2 2) = Value r
    \<and> -7 = sint (kai_intf q) * 2 + sint (kai_intf r)"
  apply (rule allI)
  subgoal for R
    using int_division [of "kai_int 1 (-7)" "kai_int 2 2" R 0]
    by (auto simp: INT64_MIN_def)
  done

section \<open>Orderings\<close>

lemma memcmp_take:
  "memcmp (take n s) (take n t) = c \<Longrightarrow> n = min (length s) (length t) \<Longrightarrow>
   (if c \<noteq> 0 then c < 0 else length s < length t) = (s < t)
   \<and> (if c \<noteq> 0 then c > 0 else length s > length t) = (t < s)"
  for s t :: bytes
proof (induction s arbitrary: t n)
  case Nil
  then show ?case by (cases t) auto
next
  case (Cons x xs)
  show ?case
  proof (cases t)
    case Nil
    then show ?thesis using Cons.prems by auto
  next
    case (Cons y ys)
    then show ?thesis
      using Cons.prems Cons.IH [of "min (length xs) (length ys)" ys] by (cases "x = y") (auto split: if_splits)
  qed
qed

text \<open>The order of the values of a type, as words of integers in the lexicographic order.\<close>

fun order_key :: "kval \<Rightarrow> (nat \<times> int list) option" where
  "order_key (Imm w) = Some (0, [sint (kai_untag_int w)])"
| "order_key Null = None"
| "order_key (Cell p b) =
     (case b of
        Int_box i \<Rightarrow> Some (0, [sint i])
      | Char c \<Rightarrow> Some (1, [uint c])
      | Byte n \<Rightarrow> Some (2, [uint n])
      | Int32 n \<Rightarrow> Some (3, [sint n])
      | Uint32 n \<Rightarrow> Some (4, [uint n])
      | Uint64 n \<Rightarrow> Some (5, [uint n])
      | Int128 n \<Rightarrow> Some (6, [sint n])
      | Str s \<Rightarrow> Some (7, map uint s)
      | _ \<Rightarrow> None)"

lemma map_uint_less: "map uint s < map uint t \<longleftrightarrow> s < t" for s t :: bytes
proof (induction s arbitrary: t)
  case Nil
  show ?case by (cases t) simp_all
next
  case (Cons x s)
  show ?case using Cons.IH by (cases t) (auto simp: word_less_def dest: unsigned_word_eqI)
qed

lemma key_cases [consumes 1, case_names int char byte int32 uint32 uint64 int128 str]:
  assumes "order_key a = Some (t, x)"
  obtains (int) "kai_is_int a" "t = 0" "x = [sint (kai_intf a)]"
    | (char) p c where "a = Cell p (Char c)" "t = 1" "x = [uint c]"
    | (byte) p n where "a = Cell p (Byte n)" "t = 2" "x = [uint n]"
    | (int32) p n where "a = Cell p (Int32 n)" "t = 3" "x = [sint n]"
    | (uint32) p n where "a = Cell p (Uint32 n)" "t = 4" "x = [uint n]"
    | (uint64) p n where "a = Cell p (Uint64 n)" "t = 5" "x = [uint n]"
    | (int128) p n where "a = Cell p (Int128 n)" "t = 6" "x = [sint n]"
    | (str) p s where "a = Cell p (Str s)" "t = 7" "x = map uint s"
proof (cases a)
  case (Cell p b)
  then show ?thesis using assms by (cases b) (auto intro: that)
qed (use assms that in auto)

lemma truthy_bool [simp]: "kai_op_truthy (kai_bool b) = b"
  by (simp add: kai_op_truthy_def kai_bool_def)

lemmas comparison_defs = kai_op_lt_def kai_op_gt_def kai_op_le_def kai_op_ge_def kai_real_cmp_def
  operands_of_def same_tag_def not_less [symmetric, where 'a = "int list"]

text \<open>
  C26: On the ordered types the four comparisons give the total order of one key: integers and characters
  by their value in any representation, strings byte by byte with a prefix first.
\<close>

theorem comparisons_total_order:
  assumes "order_key a = Some (t, x)" "order_key b = Some (t, y)"
  shows "kai_op_lt R heads ord a b = Value (kai_bool (x < y))
    \<and> kai_op_gt R heads ord a b = Value (kai_bool (y < x))
    \<and> kai_op_le R heads ord a b = Value (kai_bool (x \<le> y))
    \<and> kai_op_ge R heads ord a b = Value (kai_bool (y \<le> x))"
  using assms(1)
proof (cases rule: key_cases)
  case int
  with assms(2) show ?thesis
    by (cases rule: key_cases) (auto simp: comparison_defs)
next
  case char
  with assms(2) show ?thesis
    by (cases rule: key_cases) (auto simp: comparison_defs word_less_def)
next
  case byte
  with assms(2) show ?thesis
    by (cases rule: key_cases) (auto simp: comparison_defs word_less_def)
next
  case int32
  with assms(2) show ?thesis
    by (cases rule: key_cases) (auto simp: comparison_defs)
next
  case uint32
  with assms(2) show ?thesis
    by (cases rule: key_cases) (auto simp: comparison_defs word_less_def)
next
  case uint64
  with assms(2) show ?thesis
    by (cases rule: key_cases) (auto simp: comparison_defs word_less_def)
next
  case int128
  with assms(2) show ?thesis
    by (cases rule: key_cases) (auto simp: comparison_defs)
next
  case (str p s)
  with assms(2) obtain q t where "b = Cell q (Str t)" "y = map uint t"
    by (cases rule: key_cases) auto
  with str show ?thesis
    using memcmp_take [OF refl refl, of s t]
    by (auto simp: comparison_defs Let_def map_uint_less)
qed

lemma comparisons_total_order_witness:
  "\<forall>R heads ord. kai_op_lt R heads ord (Cell (Heap 0) (Str [1, 2])) (Cell (Heap 1) (Str [1, 3])) = Value (kai_bool True)
    \<and> kai_op_ge R heads ord (Cell (Heap 0) (Str [1, 2])) (Cell (Heap 1) (Str [1, 3])) = Value (kai_bool False)"
  by (intro allI) (simp add: comparisons_total_order [of _ 7 "[1, 2]" _ "[1, 3]"])

end
