(* ===== verification/Kai_Int128.thy ===== *)
theory Kai_Int128
  imports Kai_Value
begin

text \<open>
  Reading and printing 128-bit integers, \<^verbatim>\<open>stage2/runtime/ctors.h\<close>. A C string is the list of its
  bytes before the terminating zero. The negation of the smallest 128-bit integer is undefined in C.
\<close>

section \<open>Definitions\<close>

definition i128_digit :: "8 word \<Rightarrow> 128 word option" where
  "i128_digit c =
     (if c \<ge> 48 \<and> c \<le> 57 then Some (ucast (c - 48))
      else if c \<ge> 97 \<and> c \<le> 102 then Some (ucast c - 97 + 10)
      else if c \<ge> 65 \<and> c \<le> 70 then Some (ucast c - 65 + 10)
      else None)"

fun i128_digits :: "128 word \<Rightarrow> bytes \<Rightarrow> 128 word \<Rightarrow> 128 word" where
  "i128_digits base [] acc = acc"
| "i128_digits base (c # cs) acc =
     (if c = 95 then i128_digits base cs acc
      else case i128_digit c of
             Some d \<Rightarrow> i128_digits base cs (acc * base + d)
           | None \<Rightarrow> acc)"

definition i128_base :: "bytes \<Rightarrow> 128 word \<times> bytes" where
  "i128_base s =
     (case s of
        c0 # c1 # cs \<Rightarrow>
          if c0 = 48 \<and> (c1 = 120 \<or> c1 = 88) then (16, cs)
          else if c0 = 48 \<and> (c1 = 98 \<or> c1 = 66) then (2, cs)
          else (10, s)
      | _ \<Rightarrow> (10, s))"

definition kai_i128_parse :: "bytes \<Rightarrow> 128 word outcome" where
  "kai_i128_parse s =
     (let (neg, s) = (case s of c # cs \<Rightarrow> if c = 45 then (True, cs) else (False, s) | [] \<Rightarrow> (False, s));
          (base, s) = i128_base s;
          acc = i128_digits base s 0
      in if neg then (if acc = push_bit 127 1 then Undefined else Value (- acc)) else Value acc)"

text \<open>The digits are written from the end of the buffer towards its start; a write before the start is
  \<open>None\<close>. \<open>room\<close> is the number of bytes left.\<close>

fun i128_write :: "nat \<Rightarrow> nat \<Rightarrow> bytes \<Rightarrow> (nat \<times> bytes) option" where
  "i128_write 0 mag out = None"
| "i128_write (Suc room) mag out =
     (let out = of_nat (48 + mag mod 10) # out
      in if mag div 10 = 0 then Some (room, out) else i128_write room (mag div 10) out)"

definition kai_i128_to_decimal :: "128 word \<Rightarrow> nat \<Rightarrow> bytes option" where
  "kai_i128_to_decimal v buflen =
     (let mag = (if sint v < 0 then - (v + 1) + 1 else v)
      in case i128_write (buflen - 1) (unat mag) [] of
           None \<Rightarrow> None
         | Some (room, out) \<Rightarrow>
             if sint v < 0 then (if room = 0 then None else Some (45 # out)) else Some out)"

section \<open>Digits\<close>

lemma digit_of_nat: "d < 10 \<Longrightarrow> i128_digit (of_nat (48 + d)) = Some (of_nat d) \<and> of_nat (48 + d) \<noteq> (95 :: 8 word)
  \<and> of_nat (48 + d) \<noteq> (45 :: 8 word) \<and> of_nat (48 + d) \<noteq> (120 :: 8 word) \<and> of_nat (48 + d) \<noteq> (88 :: 8 word)
  \<and> of_nat (48 + d) \<noteq> (98 :: 8 word) \<and> of_nat (48 + d) \<noteq> (66 :: 8 word)"
proof -
  assume "d < 10"
  then have "d \<in> {0, 1, 2, 3, 4, 5, 6, 7, 8, 9}" by auto
  then show ?thesis by (elim insertE emptyE) (simp_all add: i128_digit_def)
qed

definition is_digits :: "bytes \<Rightarrow> bool" where
  "is_digits s \<longleftrightarrow> (\<forall>c\<in>set s. \<exists>d<10. c = of_nat (48 + d))"

lemma read_digit:
  "d < 10 \<Longrightarrow> i128_digits base (of_nat (48 + d) # rest) acc = i128_digits base rest (acc * base + of_nat d)"
  using digit_of_nat [of d] by simp

text \<open>What the writer leaves in the buffer: the digits of the number, most significant first.\<close>

lemma write_digits:
  assumes "mag < 10 ^ room" "0 < room"
  shows "\<exists>left ds. i128_write room mag out = Some (left, ds @ out) \<and> is_digits ds \<and> ds \<noteq> []
    \<and> left + length ds = room \<and> (\<forall>k>0. mag < 10 ^ k \<longrightarrow> length ds \<le> k)
    \<and> (\<forall>rest acc. i128_digits 10 (ds @ rest) acc = i128_digits 10 rest (acc * 10 ^ length ds + of_nat mag))"
  using assms
proof (induction room arbitrary: mag out)
  case (Suc room)
  let ?c = "of_nat (48 + mag mod 10) :: 8 word"
  have c: "i128_digits 10 (?c # rest) acc = i128_digits 10 rest (acc * 10 + of_nat (mag mod 10))" for rest acc
    by (rule read_digit) simp
  have isc: "is_digits [?c]" by (auto simp: is_digits_def intro!: exI [of _ "mag mod 10"])
  show ?case
  proof (cases "mag div 10 = 0")
    case True
    then have "mag mod 10 = mag" by (simp add: div_eq_0_iff)
    with True c isc show ?thesis by (intro exI [of _ room] exI [of _ "[?c]"]) auto
  next
    case False
    then have r: "0 < room" using Suc.prems by (cases room) auto
    have "mag div 10 < 10 ^ room" using Suc.prems(1) by (simp add: less_mult_imp_div_less)
    from Suc.IH [OF this r, of "?c # out"] obtain left ds where
      ih: "i128_write room (mag div 10) (?c # out) = Some (left, ds @ ?c # out)" "is_digits ds" "ds \<noteq> []"
        "left + length ds = room" "\<forall>k>0. mag div 10 < 10 ^ k \<longrightarrow> length ds \<le> k"
        "\<And>rest acc. i128_digits 10 (ds @ rest) acc = i128_digits 10 rest (acc * 10 ^ length ds + of_nat (mag div 10))"
      by blast
    have len: "length (ds @ [?c]) \<le> k" if "0 < k" "mag < 10 ^ k" for k
    proof (cases k)
      case (Suc j)
      then have "mag div 10 < 10 ^ j" using that by (simp add: less_mult_imp_div_less)
      moreover have "0 < j" using Suc that False by (cases j) auto
      ultimately show ?thesis using ih(5) Suc by auto
    qed (use that in simp)
    have num: "(of_nat mag :: 128 word) = of_nat (mag div 10) * 10 + of_nat (mag mod 10)"
      by (metis div_mult_mod_eq of_nat_add of_nat_mult of_nat_numeral)
    have "i128_digits 10 ((ds @ [?c]) @ rest) acc
        = i128_digits 10 rest (acc * 10 ^ length (ds @ [?c]) + of_nat mag)" for rest acc
      by (simp only: append_assoc append_Cons append_Nil ih(6) c num) (simp add: algebra_simps)
    then show ?thesis
      using False ih(1,2,4) isc len
      by (intro exI [of _ left] exI [of _ "ds @ [?c]"]) (auto simp: is_digits_def)
  qed
qed simp

lemma digits_not_special:
  assumes "is_digits (c # cs)"
  shows "c \<noteq> 45" "i128_base (c # cs) = (10, c # cs)"
proof -
  show "c \<noteq> 45" using assms digit_of_nat by (auto simp: is_digits_def)
  have "e \<noteq> 120 \<and> e \<noteq> 88 \<and> e \<noteq> 98 \<and> e \<noteq> 66" if "e \<in> set cs" for e
    using assms that digit_of_nat by (fastforce simp: is_digits_def)
  then show "i128_base (c # cs) = (10, c # cs)" by (auto simp: i128_base_def split: list.splits)
qed

lemma parse_digits:
  assumes "is_digits ds" "ds \<noteq> []"
  shows "kai_i128_parse ds = Value (i128_digits 10 ds 0)"
    and "kai_i128_parse (45 # ds) = (let acc = i128_digits 10 ds 0 in if acc = push_bit 127 1 then Undefined else Value (- acc))"
  using assms digits_not_special by (cases ds; simp add: kai_i128_parse_def Let_def)+

text \<open>
  C31: A 128-bit integer is printed within the 44 bytes its callers give, and the text is read back as the
  same integer; but reading the smallest one negates 2^127, which C leaves undefined.
\<close>

theorem i128_text_roundtrip:
  "\<exists>s. kai_i128_to_decimal v 44 = Some s \<and> length s \<le> 40
     \<and> kai_i128_parse s = (if v = push_bit 127 1 then Undefined else Value v)"
proof -
  define mag where "mag = (if sint v < 0 then - v else v)"
  have "unat mag < 2 ^ 128" using unsigned_less [of mag, where 'a = nat] by simp
  then have small: "unat mag < 10 ^ 39" by simp
  then have "unat mag < 10 ^ 43" by simp
  from write_digits [OF this, of "[]"] obtain left ds where w: "i128_write 43 (unat mag) [] = Some (left, ds)"
      "is_digits ds" "ds \<noteq> []" "left + length ds = 43" "\<forall>k>0. unat mag < 10 ^ k \<longrightarrow> length ds \<le> k"
      "i128_digits 10 ds 0 = mag"
    by (auto dest: spec [of _ "[]"])
  have len: "length ds \<le> 39" using w(5) small by simp
  then have "left \<noteq> 0" using w(4) by simp
  moreover have "- (v + 1) + 1 = - v" by simp
  ultimately have d: "kai_i128_to_decimal v 44 = Some (if sint v < 0 then 45 # ds else ds)"
    using w(1) by (cases "sint v < 0") (simp_all add: kai_i128_to_decimal_def mag_def)
  have min: "sint (push_bit 127 1 :: 128 word) < 0" by simp
  have "kai_i128_parse (if sint v < 0 then 45 # ds else ds) = (if v = push_bit 127 1 then Undefined else Value v)"
  proof (cases "sint v < 0")
    case True
    have "- v = push_bit 127 1 \<longleftrightarrow> v = - push_bit 127 1" by (metis minus_minus)
    moreover have "(- push_bit 127 1 :: 128 word) = push_bit 127 1" by simp
    ultimately show ?thesis using True parse_digits(2) [OF w(2,3)] w(6) by (simp add: mag_def Let_def)
  next
    case False
    then have "v \<noteq> push_bit 127 1" using min by auto
    then show ?thesis using False parse_digits(1) [OF w(2,3)] w(6) by (simp add: mag_def)
  qed
  then show ?thesis using d len by auto
qed

end
