(* ===== verification/Kai_Eq.thy ===== *)
theory Kai_Eq
  imports Kai_Ops Kai_Slots "HOL-Library.Monad_Syntax"
begin

text \<open>
  Structural equality, \<open>kai_op_eq\<close> and \<open>kai_vec_eq\<close> of \<^verbatim>\<open>stage2/runtime/vec_ops.h\<close>. The comparison
  recurses on pointers; its first argument bounds the depth of the recursion and the turns of the
  loops, and a comparison that needs more, or reads a slot against its mask, is \<open>None\<close>.
\<close>

section \<open>Definitions\<close>

text \<open>\<open>a == b\<close> on two pointers, and the tags for which that settles the matter.\<close>

fun same_ptr :: "kval \<Rightarrow> kval \<Rightarrow> bool" where
  "same_ptr Null b = (b = Null)"
| "same_ptr (Imm w) b = (b = Imm w)"
| "same_ptr (Cell p x) b = (case b of Cell q y \<Rightarrow> p = q | _ \<Rightarrow> False)"

fun holds_real :: "kval \<Rightarrow> bool" where
  "holds_real (Cell p x) =
     (case x of Real r \<Rightarrow> True | Cons y ys \<Rightarrow> True | Variant t ss \<Rightarrow> True | Record h ns fs \<Rightarrow> True
      | Vec_boxed xs \<Rightarrow> True | Vec_raw t xs \<Rightarrow> True | Vec_rec ts xs \<Rightarrow> True | Array xs \<Rightarrow> True
      | _ \<Rightarrow> False)"
| "holds_real v = False"

text \<open>The loops over fields and elements, which run to the length of the first.\<close>

fun all_eq :: "('a \<Rightarrow> 'b \<Rightarrow> bool option) \<Rightarrow> 'a list \<Rightarrow> 'b list \<Rightarrow> bool option" where
  "all_eq eq [] ys = Some True"
| "all_eq eq (x # xs) [] = None"
| "all_eq eq (x # xs) (y # ys) = do { e \<leftarrow> eq x y; if e then all_eq eq xs ys else Some False }"

definition ptr_eq :: "(kval \<Rightarrow> kval \<Rightarrow> bool option) \<Rightarrow> kslot \<Rightarrow> kslot \<Rightarrow> bool option" where
  "ptr_eq eq s t = (case (s, t) of (Slot_ptr v, Slot_ptr w) \<Rightarrow> eq v w | _ \<Rightarrow> None)"

definition raw_eq :: "(i64 \<Rightarrow> i64 \<Rightarrow> bool) \<Rightarrow> kslot \<Rightarrow> kslot \<Rightarrow> bool option" where
  "raw_eq eq s t = (case (s, t) of (Slot_raw v, Slot_raw w) \<Rightarrow> Some (eq v w) | _ \<Rightarrow> None)"

definition slot_eq :: "real_ops \<Rightarrow> 32 word \<Rightarrow> (kval \<Rightarrow> kval \<Rightarrow> bool option) \<Rightarrow> nat \<times> kslot \<Rightarrow> kslot \<Rightarrow> bool option" where
  "slot_eq R m eq is t =
     (let (i, s) = is; k = kai_var_slot_kind m i
      in if 16 \<le> i then None
         else if k = KAI_VAR_SLOT_PTR then ptr_eq eq s t
         else if k = KAI_VAR_SLOT_INT \<or> k = KAI_VAR_SLOT_ENUM then raw_eq (=) s t
         else if k = KAI_VAR_SLOT_REAL then raw_eq (r_eq R) s t
         else Some True)"

definition variant_eq :: "real_ops \<Rightarrow> (nat \<Rightarrow> 64 word) \<Rightarrow> (kval \<Rightarrow> kval \<Rightarrow> bool option)
    \<Rightarrow> nat \<Rightarrow> kslot list \<Rightarrow> nat \<Rightarrow> kslot list \<Rightarrow> bool option" where
  "variant_eq R masks eq t ss u ts =
     (let m = kai_slot_mask_of masks t; m' = kai_slot_mask_of masks u
      in if t \<noteq> u then Some False
         else if length ss \<noteq> length ts then Some False
         else if m = 0 \<and> m' = 0 then all_eq (ptr_eq eq) ss ts
         else if m \<noteq> m' then Some False
         else all_eq (slot_eq R m eq) (enumerate 0 ss) ts)"

text \<open>Words of a raw block, of which those under a real tag are compared as doubles. \<open>tags\<close> repeats for
  every element.\<close>

definition words_eq :: "real_ops \<Rightarrow> scalar_tag list \<Rightarrow> i64 list \<Rightarrow> i64 list \<Rightarrow> bool option" where
  "words_eq R tags xs ys =
     (if Tag_real \<notin> set tags then all_eq (\<lambda>x y. Some (x = y)) xs ys
      else all_eq (\<lambda>(w, x) y. Some (if tags ! (w mod length tags) = Tag_real then r_eq R x y else x = y))
             (enumerate 0 xs) ys)"

definition vec_len :: "kbody \<Rightarrow> nat option" where
  "vec_len v = (case v of Vec_boxed xs \<Rightarrow> Some (length xs) | Vec_raw t xs \<Rightarrow> Some (length xs)
     | Vec_rec ts xs \<Rightarrow> Some (length xs) | _ \<Rightarrow> None)"

definition kai_vec_eq :: "real_ops \<Rightarrow> (kval \<Rightarrow> kval \<Rightarrow> bool option) \<Rightarrow> kbody \<Rightarrow> kbody \<Rightarrow> bool option" where
  "kai_vec_eq R eq a b =
     (if vec_len a \<noteq> vec_len b then Some False
      else if vec_len a = Some 0 then Some True
      else case (a, b) of
             (Vec_boxed xs, Vec_boxed ys) \<Rightarrow> all_eq eq xs ys
           | (Vec_raw t xs, Vec_raw u ys) \<Rightarrow> words_eq R [t] xs ys
           | (Vec_rec ts xs, Vec_rec us ys) \<Rightarrow> words_eq R ts (concat xs) (concat ys)
           | _ \<Rightarrow> Some False)"

text \<open>The spine of a list is a loop.\<close>

definition cons_of :: "kval \<Rightarrow> (kval \<times> kval) option" where
  "cons_of v = (case v of Cell p (Cons x xs) \<Rightarrow> Some (x, xs) | _ \<Rightarrow> None)"

lemma cons_of_Some [simp]: "cons_of v = Some (x, xs) \<longleftrightarrow> (\<exists>p. v = Cell p (Cons x xs))"
  by (auto simp: cons_of_def split: kval.splits kbody.splits)

function eq_spine :: "(kval \<Rightarrow> kval \<Rightarrow> bool option) \<Rightarrow> kval \<times> kval \<Rightarrow> kval \<times> kval \<Rightarrow> bool option" where
  "eq_spine eq (x, xs) (y, ys) = do {
     e \<leftarrow> eq x y;
     if \<not> e then Some False
     else case cons_of xs of
            None \<Rightarrow> eq xs ys
          | Some a \<Rightarrow> (case cons_of ys of None \<Rightarrow> eq xs ys | Some b \<Rightarrow> eq_spine eq a b) }"
  by pat_completeness auto
termination
  by (relation "measure (\<lambda>(eq, (x, xs), b). size xs)") auto

text \<open>Two cursors side by side; the boxes of large integers on the two sides have addresses of their own.\<close>

fun eq_seq :: "(kval \<Rightarrow> kval \<Rightarrow> bool option) \<Rightarrow> nat \<Rightarrow> nat \<Rightarrow> kval seq_it \<Rightarrow> kval seq_it \<Rightarrow> bool option" where
  "eq_seq eq p 0 ia ib = None"
| "eq_seq eq p (Suc n) ia ib =
     (case (kai_seq_it_next ia, kai_seq_it_next ib) of
        ((Some x, ia), (Some y, ib)) \<Rightarrow> do {
          e \<leftarrow> eq (item_val p x) (item_val (Suc p) y);
          if e then eq_seq eq p n ia ib else Some False }
      | ((x, ia), (y, ib)) \<Rightarrow> Some (x = None \<and> y = None))"

definition is_seq :: "kbody \<Rightarrow> bool" where
  "is_seq b = (case b of Range r \<Rightarrow> True | Cons x xs \<Rightarrow> True | Nil \<Rightarrow> True | _ \<Rightarrow> False)"

definition is_range :: "kbody \<Rightarrow> bool" where
  "is_range b = (case b of Range r \<Rightarrow> True | _ \<Rightarrow> False)"

record eq_env =
  reals :: real_ops
  masks :: "nat \<Rightarrow> 64 word"
  heads :: "int list"
  eqs :: impls
  fresh :: nat

definition bodies_eq :: "eq_env \<Rightarrow> (kval \<Rightarrow> kval \<Rightarrow> bool option) \<Rightarrow> kval \<Rightarrow> kval \<Rightarrow> kbody \<Rightarrow> kbody \<Rightarrow> bool option" where
  "bodies_eq E eq a b x y =
     (case x of
        Unit \<Rightarrow> Some (y = Unit)
      | Bool b \<Rightarrow> Some (y = Bool b)
      | Int_box i \<Rightarrow> Some (case y of Int_box j \<Rightarrow> i = j | _ \<Rightarrow> False)
      | Real r \<Rightarrow> Some (case y of Real s \<Rightarrow> r_eq (reals E) r s | _ \<Rightarrow> False)
      | Char c \<Rightarrow> Some (y = Char c)
      | Byte n \<Rightarrow> Some (y = Byte n)
      | Int32 n \<Rightarrow> Some (y = Int32 n)
      | Uint32 n \<Rightarrow> Some (y = Uint32 n)
      | Uint64 n \<Rightarrow> Some (y = Uint64 n)
      | Int128 n \<Rightarrow> Some (y = Int128 n)
      | Str s \<Rightarrow> Some (y = Str s)
      | Nil \<Rightarrow> Some (y = Nil)
      | Cons v vs \<Rightarrow> (case y of Cons w ws \<Rightarrow> eq_spine eq (v, vs) (w, ws) | _ \<Rightarrow> Some False)
      | Range r \<Rightarrow> Some True
      | Variant t ss \<Rightarrow> (case y of
            Variant u ts \<Rightarrow> (case eqs E (kai_head_tag (heads E) a) of
                Some f \<Rightarrow> Some (kai_op_truthy (f a b))
              | None \<Rightarrow> variant_eq (reals E) (masks E) eq t ss u ts)
          | _ \<Rightarrow> Some False)
      | Record h ns fs \<Rightarrow> (case y of
            Record h' ns' gs \<Rightarrow> (case eqs E (kai_head_tag (heads E) a) of
                Some f \<Rightarrow> Some (kai_op_truthy (f a b))
              | None \<Rightarrow> if length fs \<noteq> length gs then Some False else all_eq eq fs gs)
          | _ \<Rightarrow> Some False)
      | Array vs \<Rightarrow> (case y of
            Array ws \<Rightarrow> if length vs \<noteq> length ws then Some False else all_eq eq vs ws
          | _ \<Rightarrow> Some False)
      | Opaque k \<Rightarrow> Some False
      | Handle k n \<Rightarrow> Some (y = Handle k n)
      | _ \<Rightarrow> if vec_len y = None then Some False else kai_vec_eq (reals E) eq x y)"

fun kai_op_eq :: "eq_env \<Rightarrow> nat \<Rightarrow> kval \<Rightarrow> kval \<Rightarrow> bool option" where
  "kai_op_eq E 0 a b = None"
| "kai_op_eq E (Suc n) a b =
     (if same_ptr a b \<and> \<not> holds_real a then Some True
      else case (a, b) of
             (Cell p x, Cell q y) \<Rightarrow>
               if is_range x \<or> is_range y
               then (if \<not> is_seq x \<or> \<not> is_seq y then Some False
                     else eq_seq (kai_op_eq E n) (fresh E) n (kai_seq_it_init (seq_of a)) (kai_seq_it_init (seq_of b)))
               else bodies_eq E (kai_op_eq E n) a b x y
           | (Imm v, w) \<Rightarrow> Some (kai_is_int a \<and> kai_is_int b \<and> kai_intf a = kai_intf b)
           | (v, Imm w) \<Rightarrow> Some (kai_is_int a \<and> kai_is_int b \<and> kai_intf a = kai_intf b)
           | _ \<Rightarrow> Some False)"

definition kai_op_eq_v :: "eq_env \<Rightarrow> nat \<Rightarrow> kval \<Rightarrow> kval \<Rightarrow> kval option" where
  "kai_op_eq_v E n a b = map_option kai_bool (kai_op_eq E n a b)"

definition kai_op_ne_v :: "eq_env \<Rightarrow> nat \<Rightarrow> kval \<Rightarrow> kval \<Rightarrow> kval option" where
  "kai_op_ne_v E n a b = map_option (kai_bool \<circ> Not) (kai_op_eq E n a b)"

end
