(* ===== verification/Kai_Eq_Spec.thy ===== *)
theory Kai_Eq_Spec
  imports Kai_Eq
begin

text \<open>
  Structural equality against a reference: a value denotes a term that knows nothing of immediates,
  boxes, lazy ranges, slot masks and vector blocks, and on two values of one type the runtime compares
  the terms. Types are those of the language, a sum type given by the table of its constructors.
\<close>

section \<open>The terms values denote\<close>

datatype atom = A_null | A_unit | A_bool bool | A_int i64 | A_char "32 word" | A_byte "8 word"
  | A_int32 "32 word" | A_uint32 "32 word" | A_uint64 "64 word" | A_int128 "128 word" | A_str bytes
  | A_same opaque addr | A_handle handle nat

datatype sem = S_atom atom | S_real i64 | S_list "sem list" | S_record "sem list"
  | S_variant nat "sem list" | S_array "sem list" | S_vec "sem list"

text \<open>Equal terms, doubles by the comparison of doubles.\<close>

fun sem_eq :: "real_ops \<Rightarrow> sem \<Rightarrow> sem \<Rightarrow> bool" where
  "sem_eq R (S_atom x) b = (b = S_atom x)"
| "sem_eq R (S_real x) b = (case b of S_real y \<Rightarrow> r_eq R x y | _ \<Rightarrow> False)"
| "sem_eq R (S_list xs) b = (case b of S_list ys \<Rightarrow> list_all2 (sem_eq R) xs ys | _ \<Rightarrow> False)"
| "sem_eq R (S_record xs) b = (case b of S_record ys \<Rightarrow> list_all2 (sem_eq R) xs ys | _ \<Rightarrow> False)"
| "sem_eq R (S_variant t xs) b = (case b of S_variant u ys \<Rightarrow> t = u \<and> list_all2 (sem_eq R) xs ys | _ \<Rightarrow> False)"
| "sem_eq R (S_array xs) b = (case b of S_array ys \<Rightarrow> list_all2 (sem_eq R) xs ys | _ \<Rightarrow> False)"
| "sem_eq R (S_vec xs) b = (case b of S_vec ys \<Rightarrow> list_all2 (sem_eq R) xs ys | _ \<Rightarrow> False)"

fun scalar :: "scalar_tag \<Rightarrow> i64 \<Rightarrow> sem" where
  "scalar Tag_int w = S_atom (A_int w)"
| "scalar Tag_real w = S_real w"
| "scalar Tag_bool w = S_atom (A_bool (w \<noteq> 0))"
| "scalar Tag_char w = S_atom (A_char (ucast w))"
| "scalar Tag_byte w = S_atom (A_byte (ucast w))"

fun list_part :: "sem \<Rightarrow> sem list" where
  "list_part (S_list xs) = xs"
| "list_part s = []"

fun den :: "(nat \<Rightarrow> 64 word) \<Rightarrow> kval \<Rightarrow> sem"
  and den_body :: "(nat \<Rightarrow> 64 word) \<Rightarrow> addr \<Rightarrow> kbody \<Rightarrow> sem"
  and den_slots :: "(nat \<Rightarrow> 64 word) \<Rightarrow> 32 word \<Rightarrow> nat \<Rightarrow> kslot list \<Rightarrow> sem list"
  and den_all :: "(nat \<Rightarrow> 64 word) \<Rightarrow> kval list \<Rightarrow> sem list" where
  "den m Null = S_atom A_null"
| "den m (Imm w) = S_atom (A_int (kai_untag_int w))"
| "den m (Cell p b) = den_body m p b"
| "den_body m p Unit = S_atom A_unit"
| "den_body m p (Bool b) = S_atom (A_bool b)"
| "den_body m p (Int_box i) = S_atom (A_int i)"
| "den_body m p (Real r) = S_real r"
| "den_body m p (Char c) = S_atom (A_char c)"
| "den_body m p (Byte n) = S_atom (A_byte n)"
| "den_body m p (Int32 n) = S_atom (A_int32 n)"
| "den_body m p (Uint32 n) = S_atom (A_uint32 n)"
| "den_body m p (Uint64 n) = S_atom (A_uint64 n)"
| "den_body m p (Int128 n) = S_atom (A_int128 n)"
| "den_body m p (Str s) = S_atom (A_str s)"
| "den_body m p Nil = S_list []"
| "den_body m p (Cons x xs) = S_list (den m x # list_part (den m xs))"
| "den_body m p (Range r) = S_list (map (\<lambda>k. S_atom (A_int (word_of_int k))) (ints r))"
| "den_body m p (Record h ns fs) = S_record (den_all m fs)"
| "den_body m p (Variant t ss) = S_variant t (den_slots m (kai_slot_mask_of m t) 0 ss)"
| "den_body m p (Array xs) = S_array (den_all m xs)"
| "den_body m p (Vec_boxed xs) = S_vec (den_all m xs)"
| "den_body m p (Vec_raw t ws) = S_vec (map (scalar t) ws)"
| "den_body m p (Vec_rec ts rows) = S_vec (map (\<lambda>row. S_record (map2 scalar ts row)) rows)"
| "den_body m p (Opaque k) = S_atom (A_same k p)"
| "den_body m p (Handle k n) = S_atom (A_handle k n)"
| "den_slots m k i [] = []"
| "den_slots m k i (s # ss) =
     (case s of
        Slot_ptr v \<Rightarrow> den m v
      | Slot_raw w \<Rightarrow> if kai_var_slot_kind k i = KAI_VAR_SLOT_REAL then S_real w
                     else if kai_var_slot_kind k i = KAI_VAR_SLOT_ENUM then S_variant (unat w) []
                     else S_atom (A_int w)) # den_slots m k (Suc i) ss"
| "den_all m [] = []"
| "den_all m (v # vs) = den m v # den_all m vs"

text \<open>The cells and list elements of a value: what a comparison may have to visit.\<close>

fun weight :: "kval \<Rightarrow> nat"
  and weight_body :: "kbody \<Rightarrow> nat"
  and weight_slots :: "kslot list \<Rightarrow> nat"
  and weight_all :: "kval list \<Rightarrow> nat" where
  "weight Null = 1"
| "weight (Imm w) = 1"
| "weight (Cell p b) = Suc (Suc (weight_body b))"
| "weight_body (Cons x xs) = weight x + weight xs"
| "weight_body (Range r) = turns r"
| "weight_body (Record h ns fs) = weight_all fs"
| "weight_body (Variant t ss) = weight_slots ss"
| "weight_body (Array xs) = weight_all xs"
| "weight_body (Vec_boxed xs) = weight_all xs"
| "weight_body b = 0"
| "weight_slots [] = 0"
| "weight_slots (s # ss) = (case s of Slot_ptr v \<Rightarrow> weight v | Slot_raw w \<Rightarrow> 0) + weight_slots ss"
| "weight_all [] = 0"
| "weight_all (v # vs) = weight v + weight_all vs"

section \<open>Values of a type\<close>

datatype ty = T_unit | T_bool | T_int | T_real | T_char | T_byte | T_int32 | T_uint32 | T_uint64 | T_int128
  | T_str | T_list ty | T_sum nat | T_record "ty list" | T_array ty | T_vec ty | T_opaque opaque | T_handle handle

fun scalar_ty :: "scalar_tag \<Rightarrow> ty" where
  "scalar_ty Tag_int = T_int" | "scalar_ty Tag_real = T_real" | "scalar_ty Tag_bool = T_bool"
| "scalar_ty Tag_char = T_char" | "scalar_ty Tag_byte = T_byte"

text \<open>The words that stand for a scalar in a vector block.\<close>

fun scalar_word :: "scalar_tag \<Rightarrow> i64 \<Rightarrow> bool" where
  "scalar_word Tag_bool w = (w \<le> 1)"
| "scalar_word Tag_char w = (w < 2 ^ 32)"
| "scalar_word Tag_byte w = (w < 2 ^ 8)"
| "scalar_word t w = True"

text \<open>The types whose vectors hold raw scalars, and those whose vectors hold records of scalars.\<close>

definition raw_ty :: "ty \<Rightarrow> bool" where "raw_ty t \<longleftrightarrow> t \<in> range scalar_ty"
definition rec_ty :: "ty \<Rightarrow> bool" where
  "rec_ty t \<longleftrightarrow> (\<exists>ts. t = T_record (map scalar_ty ts) \<and> ts \<noteq> [] \<and> length ts \<le> 8)"

text \<open>A value of a type in the heap \<open>M\<close>, with the constructors \<open>C\<close> of the sum types. A slot of a variant
  is laid out by the mask of its tag, and the block of a vector that has an element by its type.\<close>

inductive typed :: "(addr \<Rightarrow> kbody option) \<Rightarrow> (nat \<Rightarrow> nat \<Rightarrow> ty list option) \<Rightarrow> (nat \<Rightarrow> 64 word) \<Rightarrow> ty \<Rightarrow> kval \<Rightarrow> bool"
  and body_ty :: "(addr \<Rightarrow> kbody option) \<Rightarrow> (nat \<Rightarrow> nat \<Rightarrow> ty list option) \<Rightarrow> (nat \<Rightarrow> 64 word) \<Rightarrow> ty \<Rightarrow> kbody \<Rightarrow> bool"
  and slot_ty :: "(addr \<Rightarrow> kbody option) \<Rightarrow> (nat \<Rightarrow> nat \<Rightarrow> ty list option) \<Rightarrow> (nat \<Rightarrow> 64 word) \<Rightarrow> 32 word \<Rightarrow> ty \<Rightarrow> kslot \<Rightarrow> bool"
  for M C m where
  "typed M C m T_int (Imm w)"
| "M p = Some b \<Longrightarrow> body_ty M C m t b \<Longrightarrow> typed M C m t (Cell p b)"
| "body_ty M C m T_unit Unit"
| "body_ty M C m T_bool (Bool b)"
| "body_ty M C m T_int (Int_box i)"
| "body_ty M C m T_real (Real r)"
| "body_ty M C m T_char (Char c)"
| "body_ty M C m T_byte (Byte n)"
| "body_ty M C m T_int32 (Int32 j)"
| "body_ty M C m T_uint32 (Uint32 u)"
| "body_ty M C m T_uint64 (Uint64 ul)"
| "body_ty M C m T_int128 (Int128 ll)"
| "body_ty M C m T_str (Str s)"
| "body_ty M C m (T_list t) Nil"
| "typed M C m t x \<Longrightarrow> typed M C m (T_list t) xs \<Longrightarrow> body_ty M C m (T_list t) (Cons x xs)"
| "inside r \<Longrightarrow> body_ty M C m (T_list T_int) (Range r)"
| "length fs = length ts \<Longrightarrow> \<forall>i<length fs. typed M C m (ts ! i) (fs ! i) \<Longrightarrow> body_ty M C m (T_record ts) (Record h ns fs)"
| "C k tag = Some ts \<Longrightarrow> length ss = length ts \<Longrightarrow> kai_slot_mask_of m tag = 0 \<or> length ss \<le> 16 \<Longrightarrow>
     \<forall>i<length ss. slot_ty M C m (kai_var_slot_kind (kai_slot_mask_of m tag) i) (ts ! i) (ss ! i) \<Longrightarrow>
     body_ty M C m (T_sum k) (Variant tag ss)"
| "\<forall>x\<in>set xs. typed M C m t x \<Longrightarrow> body_ty M C m (T_array t) (Array xs)"
| "\<forall>x\<in>set xs. typed M C m t x \<Longrightarrow> xs = [] \<or> \<not> raw_ty t \<and> \<not> rec_ty t \<Longrightarrow> body_ty M C m (T_vec t) (Vec_boxed xs)"
| "\<forall>w\<in>set ws. scalar_word st w \<Longrightarrow> body_ty M C m (T_vec (scalar_ty st)) (Vec_raw st ws)"
| "\<forall>row\<in>set rows. length row = length sts \<and> list_all2 scalar_word sts row \<Longrightarrow> sts \<noteq> [] \<Longrightarrow> length sts \<le> 8 \<Longrightarrow>
     body_ty M C m (T_vec (T_record (map scalar_ty sts))) (Vec_rec sts rows)"
| "body_ty M C m (T_opaque oc) (Opaque oc)"
| "body_ty M C m (T_handle hc) (Handle hc hn)"
| "typed M C m t v \<Longrightarrow> slot_ty M C m KAI_VAR_SLOT_PTR t (Slot_ptr v)"
| "slot_ty M C m KAI_VAR_SLOT_INT T_int (Slot_raw w)"
| "slot_ty M C m KAI_VAR_SLOT_REAL T_real (Slot_raw w)"
| "C k (unat w) = Some [] \<Longrightarrow> slot_ty M C m KAI_VAR_SLOT_ENUM (T_sum k) (Slot_raw w)"

inductive_simps typed_simps [simp]:
  "typed M C m t Null" "typed M C m t (Imm w)" "typed M C m t (Cell p b)"

inductive_simps body_simps [simp]:
  "body_ty M C m t Unit"
  "body_ty M C m t (Bool b)"
  "body_ty M C m t (Int_box i)"
  "body_ty M C m t (Real r)"
  "body_ty M C m t (Char c)"
  "body_ty M C m t (Byte n)"
  "body_ty M C m t (Int32 j)"
  "body_ty M C m t (Uint32 u)"
  "body_ty M C m t (Uint64 ul)"
  "body_ty M C m t (Int128 ll)"
  "body_ty M C m t (Str s)"
  "body_ty M C m t Nil"
  "body_ty M C m t (Cons x xs)"
  "body_ty M C m t (Range r)"
  "body_ty M C m t (Record h ns fs)"
  "body_ty M C m t (Variant tag ss)"
  "body_ty M C m t (Array xs)"
  "body_ty M C m t (Vec_boxed xs)"
  "body_ty M C m t (Vec_raw st ws)"
  "body_ty M C m t (Vec_rec sts rows)"
  "body_ty M C m t (Opaque oc)"
  "body_ty M C m t (Handle hc hn)"

inductive_simps slot_simps:
  "slot_ty M C m k t (Slot_ptr v)" "slot_ty M C m k t (Slot_raw w)"

lemma scalar_ty_inject [simp]: "scalar_ty s = scalar_ty t \<longleftrightarrow> s = t"
  by (cases s; cases t) simp_all

lemma scalar_ty_not_record [simp]: "scalar_ty st \<noteq> T_record ts" "T_record ts \<noteq> scalar_ty st"
  by (cases st; simp)+

lemma map_scalar_ty_inject [simp]: "map scalar_ty ss = map scalar_ty ts \<longleftrightarrow> ss = ts"
  by (rule inj_map_eq_map) (simp add: inj_def)

section \<open>Lists\<close>

text \<open>What an element of the cursor denotes.\<close>

fun item_den :: "(nat \<Rightarrow> 64 word) \<Rightarrow> kval item \<Rightarrow> sem" where
  "item_den m (Item v) = den m v"
| "item_den m (Int_item i) = S_atom (A_int i)"

fun item_ty :: "(addr \<Rightarrow> kbody option) \<Rightarrow> (nat \<Rightarrow> nat \<Rightarrow> ty list option) \<Rightarrow> (nat \<Rightarrow> 64 word) \<Rightarrow> ty \<Rightarrow> kval item \<Rightarrow> bool" where
  "item_ty M C m t (Item v) = typed M C m t v"
| "item_ty M C m t (Int_item i) = (t = T_int)"

fun item_weight :: "kval item \<Rightarrow> nat" where
  "item_weight (Item v) = weight v"
| "item_weight (Int_item i) = 1"

lemma typed_list:
  assumes "typed M C m (T_list t) v"
  shows "wf_seq (seq_of v) \<and> den m v = S_list (map (item_den m) (elems (seq_of v)))
    \<and> (\<forall>x\<in>set (elems (seq_of v)). item_ty M C m t x \<and> item_weight x < weight v)
    \<and> length (elems (seq_of v)) < weight v"
  using assms
proof (induction v rule: seq_of.induct)
  case (1 p x xs)
  then show ?case by fastforce
next
  case (2 p r)
  then show ?case by (auto simp: ints_def)
qed auto

section \<open>Comparing\<close>

lemma all_eq_nth:
  assumes "length xs = length ys" "\<forall>i<length xs. eq (xs ! i) (ys ! i) = Some (P i)"
  shows "all_eq eq xs ys = Some (\<forall>i<length xs. P i)"
  using assms
proof (induction xs ys arbitrary: P rule: list_induct2)
  case (Cons x xs y ys)
  then have "eq x y = Some (P 0)" "all_eq eq xs ys = Some (\<forall>i<length xs. P (Suc i))" by fastforce+
  then show ?case by (auto simp: less_Suc_eq_0_disj)
qed simp

text \<open>Two integers, whatever their representation.\<close>

lemma eq_ints:
  assumes "kai_is_int a" "kai_is_int b" "same_ptr a b \<longrightarrow> kai_intf a = kai_intf b"
  shows "kai_op_eq E (Suc n) a b = Some (kai_intf a = kai_intf b)"
proof (cases a)
  case (Imm w)
  then show ?thesis using assms by (cases b) auto
next
  case (Cell p x)
  then obtain i where x: "x = Int_box i" using assms(1) by (cases x) auto
  show ?thesis
  proof (cases b)
    case (Cell q y)
    then obtain j where "y = Int_box j" using assms(2) by (cases y) auto
    then show ?thesis using assms(3) x Cell \<open>a = Cell p x\<close> by (auto simp: is_range_def bodies_eq_def)
  qed (use assms x \<open>a = Cell p x\<close> in auto)
qed (use assms in simp)

lemma typed_int:
  assumes "typed M C m T_int v"
  shows "kai_is_int v \<and> den m v = S_atom (A_int (kai_intf v)) \<and> (\<forall>p b. v = Cell p b \<longrightarrow> M p = Some b)"
proof (cases v)
  case (Cell p b)
  then show ?thesis using assms by (cases b) auto
qed (use assms in auto)

lemma same_typed:
  assumes "same_ptr a b" "typed M C m t a" "typed M C m u b"
  shows "a = b"
proof (cases a)
  case (Cell p x)
  then obtain y where "b = Cell p y" using assms(1) by (auto split: kval.splits)
  then show ?thesis using assms(2,3) Cell by simp
qed (use assms(1) in simp_all)

lemma kai_int_ptr: "kai_int p i = Cell q b \<Longrightarrow> q = Heap p \<and> b = Int_box i"
  by (auto simp: kai_int_def kai_tagged_int_def kai_int_big_def split: if_splits)

text \<open>Elements handed out by two cursors.\<close>

lemma eq_seq_all:
  assumes "it_ok ia" "it_ok ib" "length (it_rest ia) < n"
    "\<forall>x\<in>set (it_rest ia). \<forall>y\<in>set (it_rest ib). eq (item_val p x) (item_val (Suc p) y) = Some (f x y)"
  shows "eq_seq eq p n ia ib = Some (list_all2 f (it_rest ia) (it_rest ib))"
  using assms
proof (induction n arbitrary: ia ib)
  case (Suc n)
  have a: "steps_to (kai_seq_it_next ia) (it_rest ia)" and b: "steps_to (kai_seq_it_next ib) (it_rest ib)"
    using Suc.prems kai_seq_it_next_steps by blast+
  show ?case
  proof (cases "it_rest ia")
    case Nil
    then show ?thesis using a b
      by (cases "it_rest ib") (auto simp: steps_to_def split: prod.splits option.splits)
  next
    case (Cons x xs)
    then obtain ia' where ia': "kai_seq_it_next ia = (Some x, ia')" "it_ok ia'" "it_rest ia' = xs"
      using a by (auto simp: steps_to_def)
    show ?thesis
    proof (cases "it_rest ib")
      case Nil
      then show ?thesis using b ia' Cons by (auto simp: steps_to_def split: prod.splits)
    next
      case (Cons y ys)
      then obtain ib' where ib': "kai_seq_it_next ib = (Some y, ib')" "it_ok ib'" "it_rest ib' = ys"
        using b by (auto simp: steps_to_def)
      have "eq_seq eq p n ia' ib' = Some (list_all2 f (it_rest ia') (it_rest ib'))"
        using Suc.prems ia' ib' Cons \<open>it_rest ia = x # xs\<close> by (intro Suc.IH) auto
      then show ?thesis using Suc.prems(4) ia' ib' Cons \<open>it_rest ia = x # xs\<close> by simp
    qed
  qed
qed simp

lemma init_rest [simp]: "it_rest (kai_seq_it_init s) = elems s" "it_ok (kai_seq_it_init s) = wf_seq s"
  by (simp_all add: kai_seq_it_init_def it_rest_def it_ok_def)

lemma weight_pos: "0 < weight v"
  by (cases v) simp_all

lemma weight_all_nth: "i < length xs \<Longrightarrow> weight (xs ! i) \<le> weight_all xs"
  by (induction xs arbitrary: i) (auto simp: nth_Cons' intro: le_trans trans_le_add2)

lemma weight_slots_nth: "i < length ss \<Longrightarrow> ss ! i = Slot_ptr v \<Longrightarrow> weight v \<le> weight_slots ss"
proof (induction ss arbitrary: i)
  case (Cons s ss)
  then show ?case by (cases i) (auto intro: trans_le_add2)
qed simp

lemma den_all_map [simp]: "den_all m xs = map (den m) xs"
  by (induction xs) simp_all

definition slot_den :: "(nat \<Rightarrow> 64 word) \<Rightarrow> 32 word \<Rightarrow> kslot \<Rightarrow> sem" where
  "slot_den m k s = (case s of
     Slot_ptr v \<Rightarrow> den m v
   | Slot_raw w \<Rightarrow> if k = KAI_VAR_SLOT_REAL then S_real w
                  else if k = KAI_VAR_SLOT_ENUM then S_variant (unat w) [] else S_atom (A_int w))"

lemma den_slots_length [simp]: "length (den_slots m k i ss) = length ss"
  by (induction ss arbitrary: i) simp_all

lemma den_slots_nth: "j < length ss \<Longrightarrow> den_slots m k i ss ! j = slot_den m (kai_var_slot_kind k (i + j)) (ss ! j)"
  by (induction ss arbitrary: i j) (auto simp: nth_Cons' slot_den_def split: kslot.splits)

section \<open>One level of the recursion\<close>

text \<open>A comparison that is right on values up to a weight.\<close>

definition agrees :: "(addr \<Rightarrow> kbody option) \<Rightarrow> (nat \<Rightarrow> nat \<Rightarrow> ty list option) \<Rightarrow> eq_env
    \<Rightarrow> (kval \<Rightarrow> kval \<Rightarrow> bool option) \<Rightarrow> nat \<Rightarrow> bool" where
  "agrees M C E eq W \<longleftrightarrow> (\<forall>t a b. typed M C (masks E) t a \<longrightarrow> typed M C (masks E) t b \<longrightarrow> weight a + weight b \<le> W \<longrightarrow>
     eq a b = Some (sem_eq (reals E) (den (masks E) a) (den (masks E) b)))"

lemma agreesD:
  "agrees M C E eq W \<Longrightarrow> typed M C (masks E) t a \<Longrightarrow> typed M C (masks E) t b \<Longrightarrow> weight a + weight b \<le> W \<Longrightarrow>
     eq a b = Some (sem_eq (reals E) (den (masks E) a) (den (masks E) b))"
  by (simp add: agrees_def)

lemma spine_agrees:
  assumes "agrees M C E eq W" "typed M C (masks E) t (fst a)" "typed M C (masks E) t (fst b)"
    "typed M C (masks E) (T_list t) (snd a)" "typed M C (masks E) (T_list t) (snd b)"
    "weight (fst a) + weight (snd a) + weight (fst b) + weight (snd b) \<le> W"
  shows "eq_spine eq a b = Some (sem_eq (reals E) (S_list (den (masks E) (fst a) # list_part (den (masks E) (snd a))))
    (S_list (den (masks E) (fst b) # list_part (den (masks E) (snd b)))))"
  using assms
proof (induction eq a b rule: eq_spine.induct)
  case (1 eq x xs y ys)
  have x: "eq x y = Some (sem_eq (reals E) (den (masks E) x) (den (masks E) y))"
    using agreesD [OF 1(2), of t x y] 1 by simp
  have xs: "eq xs ys = Some (sem_eq (reals E) (den (masks E) xs) (den (masks E) ys))"
    using agreesD [OF 1(2), of "T_list t" xs ys] 1 by simp
  note [simp del] = eq_spine.simps
  have l: "\<exists>l. den (masks E) v = S_list l" if "typed M C (masks E) (T_list t) v" for v
    using typed_list [OF that] by blast
  obtain lx ly where l: "den (masks E) xs = S_list lx" "den (masks E) ys = S_list ly"
    using l 1(5,6) by fastforce
  show ?case
  proof (cases "cons_of xs = None \<or> cons_of ys = None")
    case True
    then show ?thesis using x xs l by (subst eq_spine.simps) (auto simp: cons_of_def split: option.splits)
  next
    case False
    then obtain u us v vs p q where c: "xs = Cell p (Cons u us)" "ys = Cell q (Cons v vs)"
      by (metis cons_of_Some not_None_eq surj_pair)
    have "eq_spine eq (u, us) (v, vs) = Some (sem_eq (reals E) (S_list lx) (S_list ly))"
      if "sem_eq (reals E) (den (masks E) x) (den (masks E) y)"
      using 1(1) [of True "(u, us)" "(v, vs)"] 1(2-) c l x that by (auto simp: cons_of_def)
    then show ?thesis using x c l by (subst eq_spine.simps) (auto simp: cons_of_def)
  qed
qed

lemma items_agree:
  assumes "agrees M C E (kai_op_eq E n) n" "0 < n" "M (Heap p) = None" "M (Heap (Suc p)) = None"
    "item_ty M C (masks E) t x" "item_ty M C (masks E) t y" "item_weight x + item_weight y \<le> n"
  shows "kai_op_eq E n (item_val p x) (item_val (Suc p) y)
    = Some (sem_eq (reals E) (item_den (masks E) x) (item_den (masks E) y))"
proof (cases "\<exists>v w. x = Item v \<and> y = Item w")
  case True
  then show ?thesis using agreesD [OF assms(1)] assms by auto
next
  case False
  then have t: "t = T_int" using assms(5,6) by (cases x; cases y) auto
  have v: "kai_is_int (item_val k z) \<and> item_den (masks E) z = S_atom (A_int (kai_intf (item_val k z)))
      \<and> (\<forall>q b. item_val k z = Cell q b \<longrightarrow> M q = Some b \<or> (\<exists>i. z = Int_item i \<and> q = Heap k))"
    if "item_ty M C (masks E) T_int z" for k z
    using that typed_int kai_int_ptr by (cases z) fastforce+
  obtain n' where n: "n = Suc n'" using assms(2) by (cases n) auto
  have "same_ptr (item_val p x) (item_val (Suc p) y) \<longrightarrow> kai_intf (item_val p x) = kai_intf (item_val (Suc p) y)"
  proof
    assume s: "same_ptr (item_val p x) (item_val (Suc p) y)"
    show "kai_intf (item_val p x) = kai_intf (item_val (Suc p) y)"
    proof (cases "item_val p x")
      case (Cell q b)
      then obtain b' where "item_val (Suc p) y = Cell q b'" using s by (auto split: kval.splits)
      then show ?thesis using v [of x p] v [of y "Suc p"] assms(3-6) t Cell False by auto
    qed (use s in auto)
  qed
  then show ?thesis
    using eq_ints [of "item_val p x" "item_val (Suc p) y" E n'] v [of x p] v [of y "Suc p"] assms(5,6) t n by auto
qed

section \<open>Vectors of raw words\<close>

lemma word_le_1: "u \<le> 1 \<Longrightarrow> u = 0 \<or> u = (1 :: i64)"
  unfolding word_le_nat_alt word_unat_eq_iff by auto

lemma ucast_inject:
  assumes "unat v < 2 ^ LENGTH('b)" "unat w < 2 ^ LENGTH('b)" "(ucast v :: 'b::len word) = ucast w"
  shows "v = (w :: i64)"
proof -
  have "unat (ucast u :: 'b word) = unat u" if "unat u < 2 ^ LENGTH('b)" for u :: i64
    using that by (simp add: unsigned_ucast_eq unsigned_take_bit_eq take_bit_nat_eq_self)
  then show ?thesis using assms by (metis word_unat_eq_iff)
qed

lemma scalar_inject:
  assumes "scalar_word st v" "scalar_word st w" "st \<noteq> Tag_real"
  shows "scalar st v = scalar st w \<longleftrightarrow> v = w"
proof (cases st)
  case Tag_bool
  then show ?thesis using assms word_le_1 [of v] word_le_1 [of w] by auto
next
  case Tag_char
  then show ?thesis using assms ucast_inject [of v w, where 'b = 32] by (auto simp: word_less_nat_alt)
next
  case Tag_byte
  then show ?thesis using assms ucast_inject [of v w, where 'b = 8] by (auto simp: word_less_nat_alt)
qed (use assms in auto)

text \<open>The comparison of a word under its tag.\<close>

definition word_eq :: "real_ops \<Rightarrow> scalar_tag \<Rightarrow> i64 \<Rightarrow> i64 \<Rightarrow> bool" where
  "word_eq R st v w = (if st = Tag_real then r_eq R v w else v = w)"

lemma word_eq_scalar:
  "scalar_word st v \<Longrightarrow> scalar_word st w \<Longrightarrow> word_eq R st v w = sem_eq R (scalar st v) (scalar st w)"
  using scalar_inject [of st v w] by (cases st) (auto simp: word_eq_def)

lemma words_eq_nth:
  assumes "length xs = length ys" "tags \<noteq> []"
  shows "words_eq R tags xs ys = Some (\<forall>i<length xs. word_eq R (tags ! (i mod length tags)) (xs ! i) (ys ! i))"
proof (cases "Tag_real \<in> set tags")
  case True
  then show ?thesis
    using assms by (simp add: words_eq_def, subst all_eq_nth [where P = "\<lambda>i. word_eq R (tags ! (i mod length tags)) (xs ! i) (ys ! i)"])
      (auto simp: word_eq_def nth_enumerate_eq)
next
  case False
  have "tags ! (i mod length tags) \<noteq> Tag_real" for i
    using False assms(2) by (metis length_greater_0_conv mod_less_divisor nth_mem)
  then show ?thesis
    using False assms by (simp add: words_eq_def word_eq_def all_eq_nth [where P = "\<lambda>i. xs ! i = ys ! i"])
qed

lemma concat_nth:
  "\<forall>row\<in>set rows. length row = k \<Longrightarrow> i < length rows \<Longrightarrow> j < k \<Longrightarrow> concat rows ! (i * k + j) = rows ! i ! j"
proof (induction rows arbitrary: i)
  case (Cons row rows)
  then show ?case by (cases i) (auto simp: nth_append add.assoc)
qed simp

lemma length_concat_rows: "\<forall>row\<in>set rows. length row = k \<Longrightarrow> length (concat rows) = length rows * k"
  by (induction rows) auto

lemma all_words:
  fixes k n :: nat
  assumes "0 < k"
  shows "(\<forall>w<n * k. P (w div k) (w mod k)) \<longleftrightarrow> (\<forall>i<n. \<forall>j<k. P i j)"
proof
  assume a: "\<forall>w<n * k. P (w div k) (w mod k)"
  show "\<forall>i<n. \<forall>j<k. P i j"
  proof (intro allI impI)
    fix i j assume "i < n" "j < k"
    moreover have "Suc i * k \<le> n * k" using \<open>i < n\<close> by (intro mult_le_mono1) simp
    ultimately have "i * k + j < n * k" by simp
    with a \<open>j < k\<close> show "P i j" by fastforce
  qed
qed (use assms in \<open>auto simp: less_mult_imp_div_less\<close>)

lemma rows_eq:
  assumes "length rows = length rows'" "sts \<noteq> []"
    "\<forall>row\<in>set rows. length row = length sts \<and> list_all2 scalar_word sts row"
    "\<forall>row\<in>set rows'. length row = length sts \<and> list_all2 scalar_word sts row"
  shows "words_eq R sts (concat rows) (concat rows')
    = Some (\<forall>i<length rows. sem_eq R (S_record (map2 scalar sts (rows ! i))) (S_record (map2 scalar sts (rows' ! i))))"
proof -
  let ?k = "length sts"
  have len: "length (concat rows) = length rows * ?k" "length (concat rows') = length rows * ?k"
    using assms length_concat_rows by metis+
  have elem: "concat xs ! w = xs ! (w div ?k) ! (w mod ?k)"
    if "\<forall>row\<in>set xs. length row = ?k \<and> list_all2 scalar_word sts row" "w < length xs * ?k" for xs w
    using concat_nth [of xs ?k "w div ?k" "w mod ?k"] that assms(2)
    by (simp add: less_mult_imp_div_less)
  have "words_eq R sts (concat rows) (concat rows')
    = Some (\<forall>w<length rows * ?k. word_eq R (sts ! (w mod ?k)) (rows ! (w div ?k) ! (w mod ?k)) (rows' ! (w div ?k) ! (w mod ?k)))"
    using len elem assms by (simp add: words_eq_nth)
  also have "\<dots> = Some (\<forall>i<length rows. \<forall>j<?k. word_eq R (sts ! j) (rows ! i ! j) (rows' ! i ! j))"
    using assms(2) by (simp only: option.inject) (rule all_words, simp)
  also have "\<dots> = Some (\<forall>i<length rows. sem_eq R (S_record (map2 scalar sts (rows ! i))) (S_record (map2 scalar sts (rows' ! i))))"
  proof -
    have "(\<forall>j<?k. word_eq R (sts ! j) (rows ! i ! j) (rows' ! i ! j))
        = sem_eq R (S_record (map2 scalar sts (rows ! i))) (S_record (map2 scalar sts (rows' ! i)))"
      if i: "i < length rows" for i
    proof -
      have r: "length (rows ! i) = ?k" "length (rows' ! i) = ?k" "list_all2 scalar_word sts (rows ! i)"
          "list_all2 scalar_word sts (rows' ! i)"
        using assms(1,3,4) i by simp_all
      then show ?thesis
        by (simp add: list_all2_conv_all_nth) (metis (no_types, lifting) word_eq_scalar)
    qed
    then show ?thesis by simp
  qed
  finally show ?thesis .
qed

section \<open>Bodies\<close>

lemma slot_kinds: "KAI_VAR_SLOT_PTR \<noteq> KAI_VAR_SLOT_INT" "KAI_VAR_SLOT_PTR \<noteq> KAI_VAR_SLOT_REAL"
  "KAI_VAR_SLOT_PTR \<noteq> KAI_VAR_SLOT_ENUM" "KAI_VAR_SLOT_INT \<noteq> KAI_VAR_SLOT_REAL"
  "KAI_VAR_SLOT_INT \<noteq> KAI_VAR_SLOT_ENUM" "KAI_VAR_SLOT_REAL \<noteq> KAI_VAR_SLOT_ENUM"
  by (simp_all add: KAI_VAR_SLOT_PTR_def KAI_VAR_SLOT_INT_def KAI_VAR_SLOT_REAL_def KAI_VAR_SLOT_ENUM_def)

lemma kind_0: "kai_var_slot_kind 0 i = KAI_VAR_SLOT_PTR"
  by (simp add: kai_var_slot_kind_def KAI_VAR_SLOT_PTR_def)

lemma slots_agree:
  assumes "agrees M C E eq W" "slot_ty M C (masks E) k t s" "slot_ty M C (masks E) k t u"
    "\<forall>v w. s = Slot_ptr v \<longrightarrow> u = Slot_ptr w \<longrightarrow> weight v + weight w \<le> W"
  shows "k = KAI_VAR_SLOT_PTR \<longrightarrow> ptr_eq eq s u = Some (sem_eq (reals E) (slot_den (masks E) k s) (slot_den (masks E) k u))"
    and "i < 16 \<longrightarrow> k = kai_var_slot_kind m i \<longrightarrow>
      slot_eq (reals E) m eq (i, s) u = Some (sem_eq (reals E) (slot_den (masks E) k s) (slot_den (masks E) k u))"
proof -
  have p: "ptr_eq eq s u = Some (sem_eq (reals E) (slot_den (masks E) k s) (slot_den (masks E) k u))"
    if "k = KAI_VAR_SLOT_PTR"
    using assms that slot_kinds agreesD [OF assms(1), of t]
    by (cases s; cases u) (auto simp: slot_simps ptr_eq_def slot_den_def)
  then show "k = KAI_VAR_SLOT_PTR \<longrightarrow> ptr_eq eq s u = Some (sem_eq (reals E) (slot_den (masks E) k s) (slot_den (masks E) k u))"
    by simp
  show "i < 16 \<longrightarrow> k = kai_var_slot_kind m i \<longrightarrow>
      slot_eq (reals E) m eq (i, s) u = Some (sem_eq (reals E) (slot_den (masks E) k s) (slot_den (masks E) k u))"
  proof (intro impI)
    assume i: "i < 16" "k = kai_var_slot_kind m i"
    show "slot_eq (reals E) m eq (i, s) u = Some (sem_eq (reals E) (slot_den (masks E) k s) (slot_den (masks E) k u))"
    proof (cases "k = KAI_VAR_SLOT_PTR")
      case True
      then show ?thesis using p i by (simp add: slot_eq_def)
    next
      case False
      then show ?thesis
        using i assms(2,3) slot_kinds slot_kinds [symmetric]
        by (cases s; cases u) (auto simp: slot_simps slot_eq_def raw_eq_def slot_den_def word_unat_eq_iff)
    qed
  qed
qed

lemma variants_agree:
  assumes "agrees M C E eq W" "body_ty M C (masks E) t (Variant g ss)" "body_ty M C (masks E) t (Variant h ts)"
    "weight_slots ss + weight_slots ts \<le> W"
  shows "variant_eq (reals E) (masks E) eq g ss h ts
    = Some (sem_eq (reals E) (den_body (masks E) p (Variant g ss)) (den_body (masks E) q (Variant h ts)))"
proof (cases "g = h")
  case True
  let ?m = "kai_slot_mask_of (masks E) h"
  have len: "length ss = length ts" and small: "?m = 0 \<or> length ss \<le> 16"
    using assms(2,3) True by auto
  have slot: "\<exists>t. slot_ty M C (masks E) (kai_var_slot_kind ?m i) t (ss ! i)
      \<and> slot_ty M C (masks E) (kai_var_slot_kind ?m i) t (ts ! i)" if "i < length ss" for i
    using assms(2,3) True that by auto
  have w: "\<forall>v w. ss ! i = Slot_ptr v \<longrightarrow> ts ! i = Slot_ptr w \<longrightarrow> weight v + weight w \<le> W" if "i < length ss" for i
    using weight_slots_nth [of i ss] weight_slots_nth [of i ts] that len assms(4) by fastforce
  define P where "P = (\<lambda>i. sem_eq (reals E) (slot_den (masks E) (kai_var_slot_kind ?m i) (ss ! i))
    (slot_den (masks E) (kai_var_slot_kind ?m i) (ts ! i)))"
  have "variant_eq (reals E) (masks E) eq g ss h ts = Some (\<forall>i<length ss. P i)"
  proof (cases "?m = 0")
    case True
    have "ptr_eq eq (ss ! i) (ts ! i) = Some (P i)" if "i < length ss" for i
      using slot [OF that] slots_agree(1) [OF assms(1) _ _ w [OF that]] True by (auto simp: P_def kind_0)
    then show ?thesis using \<open>g = h\<close> True len all_eq_nth [of ss ts "ptr_eq eq" P]
      by (simp add: variant_eq_def Let_def)
  next
    case False
    have "slot_eq (reals E) ?m eq (i, ss ! i) (ts ! i) = Some (P i)" if "i < length ss" for i
      using slot [OF that] slots_agree(2) [OF assms(1) _ _ w [OF that], of _ _ i ?m] False small that
      by (auto simp: P_def)
    then show ?thesis using \<open>g = h\<close> False len
      by (simp add: variant_eq_def Let_def all_eq_nth [where P = P] nth_enumerate_eq)
  qed
  moreover have "sem_eq (reals E) (den_body (masks E) p (Variant g ss)) (den_body (masks E) q (Variant h ts)) = (\<forall>i<length ss. P i)"
    using True len by (simp add: list_all2_conv_all_nth den_slots_nth P_def)
  ultimately show ?thesis by simp
qed (simp add: variant_eq_def)

lemma vectors_agree:
  assumes "agrees M C E eq W" "body_ty M C (masks E) (T_vec t) x" "body_ty M C (masks E) (T_vec t) y"
    "weight_body x + weight_body y \<le> W" "vec_len x \<noteq> None" "vec_len y \<noteq> None"
  shows "kai_vec_eq (reals E) eq x y = Some (sem_eq (reals E) (den_body (masks E) p x) (den_body (masks E) q y))"
proof -
  have len: "\<exists>xs. den_body (masks E) p v = S_vec xs \<and> vec_len v = Some (length xs)" if "vec_len v \<noteq> None" for v p
    using that by (cases v) (simp_all add: vec_len_def)
  show ?thesis
  proof (cases "vec_len x \<noteq> vec_len y \<or> vec_len x = Some 0")
    case True
    then show ?thesis
      using len [OF assms(5), of p] len [OF assms(6), of q]
      by (auto simp: kai_vec_eq_def list_all2_lengthD dest: list_all2_lengthD)
  next
    case False
    then have n: "vec_len x = vec_len y" "vec_len x \<noteq> Some 0" by auto
    show ?thesis
    proof (cases x)
      case (Vec_boxed xs)
      then obtain ys where y: "y = Vec_boxed ys"
        using n assms(2,3,6) by (cases y) (auto simp: vec_len_def raw_ty_def rec_ty_def)
      have e: "eq (xs ! i) (ys ! i) = Some (sem_eq (reals E) (den (masks E) (xs ! i)) (den (masks E) (ys ! i)))" if "i < length xs" for i
        using agreesD [OF assms(1), of t "xs ! i" "ys ! i"] that Vec_boxed y n assms(2,3,4)
          weight_all_nth [of i xs] weight_all_nth [of i ys] by (auto simp: vec_len_def)
      then show ?thesis
        using Vec_boxed y n all_eq_nth [of xs ys eq "\<lambda>i. sem_eq (reals E) (den (masks E) (xs ! i)) (den (masks E) (ys ! i))"]
        by (simp add: kai_vec_eq_def vec_len_def list_all2_conv_all_nth)
    next
      case (Vec_raw st xs)
      then obtain ys where y: "y = Vec_raw st ys"
        using n assms(2,3,6) by (cases y) (auto simp: vec_len_def raw_ty_def rec_ty_def)
      then show ?thesis using Vec_raw n assms(2,3) word_eq_scalar
        by (auto simp: kai_vec_eq_def vec_len_def words_eq_nth list_all2_conv_all_nth)
    next
      case (Vec_rec sts xs)
      then obtain ys where y: "y = Vec_rec sts ys"
        using n assms(2,3,6) by (cases y) (auto simp: vec_len_def raw_ty_def rec_ty_def)
      have l: "length xs = length ys" using n Vec_rec y by (simp add: vec_len_def)
      have t: "sts \<noteq> []" "\<forall>row\<in>set xs. length row = length sts \<and> list_all2 scalar_word sts row"
          "\<forall>row\<in>set ys. length row = length sts \<and> list_all2 scalar_word sts row"
        using assms(2,3) Vec_rec y by auto
      then show ?thesis using Vec_rec y n l rows_eq [OF l t, of "reals E"]
        by (simp add: kai_vec_eq_def vec_len_def list_all2_conv_all_nth)
    qed (use assms(5) in \<open>simp_all add: vec_len_def\<close>)
  qed
qed

lemma elements_agree:
  assumes "agrees M C E eq W" "length xs = length ys"
    "\<forall>i<length xs. \<exists>t. typed M C (masks E) t (xs ! i) \<and> typed M C (masks E) t (ys ! i)"
    "weight_all xs + weight_all ys \<le> W"
  shows "all_eq eq xs ys = Some (list_all2 (sem_eq (reals E)) (map (den (masks E)) xs) (map (den (masks E)) ys))"
proof -
  have "eq (xs ! i) (ys ! i) = Some (sem_eq (reals E) (den (masks E) (xs ! i)) (den (masks E) (ys ! i)))"
    if "i < length xs" for i
    using agreesD [OF assms(1)] assms(2-) that weight_all_nth [of i xs] weight_all_nth [of i ys] by fastforce
  then show ?thesis
    using assms(2) all_eq_nth [of xs ys eq "\<lambda>i. sem_eq (reals E) (den (masks E) (xs ! i)) (den (masks E) (ys ! i))"]
    by (simp add: list_all2_conv_all_nth)
qed

lemma bodies_agree:
  assumes "agrees M C E eq W" "body_ty M C (masks E) t x" "body_ty M C (masks E) t y"
    "weight_body x + weight_body y \<le> W" "eqs E = (\<lambda>k. None)" "\<not> is_range x" "\<not> is_range y"
    "p \<noteq> q \<or> holds_real (Cell p x)"
  shows "bodies_eq E eq a b x y = Some (sem_eq (reals E) (den_body (masks E) p x) (den_body (masks E) q y))"
proof (cases x)
  case (Cons v vs)
  then obtain l where t: "t = T_list l" "typed M C (masks E) l v" "typed M C (masks E) (T_list l) vs" using assms(2) by auto
  show ?thesis
  proof (cases y)
    case (Cons w ws)
    then show ?thesis
      using spine_agrees [OF assms(1), of l "(v, vs)" "(w, ws)"] t assms(3,4) \<open>x = kbody.Cons v vs\<close>
      by (simp add: bodies_eq_def)
  qed (use Cons t assms(3,7) in \<open>simp_all add: bodies_eq_def is_range_def\<close>)
next
  case (Record h ns fs)
  then obtain ts h' ns' gs where t: "t = T_record ts" "y = Record h' ns' gs"
    using assms(2,3) by (cases y) auto
  have "\<exists>t. typed M C (masks E) t (fs ! i) \<and> typed M C (masks E) t (gs ! i)" if "i < length fs" for i
    using t Record assms(2,3) that by (intro exI [of _ "ts ! i"]) auto
  then show ?thesis
    using t Record assms(2-5) elements_agree [OF assms(1), of fs gs] by (auto simp: bodies_eq_def)
next
  case (Variant g ss)
  then obtain k h ts where "t = T_sum k" "y = Variant h ts" using assms(2,3) by (cases y) auto
  then show ?thesis
    using Variant assms(2-5) variants_agree [OF assms(1), of t g ss h ts p q] by (auto simp: bodies_eq_def)
next
  case (Array xs)
  then obtain u ys where t: "t = T_array u" "y = Array ys" using assms(2,3) by (cases y) auto
  have "list_all2 f (map g xs) (map g ys) \<longrightarrow> length xs = length ys" for f :: "sem \<Rightarrow> sem \<Rightarrow> bool" and g
    by (auto dest: list_all2_lengthD)
  moreover have "\<forall>i<length xs. \<exists>t. typed M C (masks E) t (xs ! i) \<and> typed M C (masks E) t (ys ! i)"
    if "length xs = length ys"
    using t Array assms(2,3) that by (intro allI impI exI [of _ u]) auto
  ultimately show ?thesis
    using t Array assms(2-4) elements_agree [OF assms(1), of xs ys] by (auto simp: bodies_eq_def)
next
  case (Vec_boxed xs)
  then show ?thesis
    using assms vectors_agree [OF assms(1), of _ x y p q] by (cases y) (auto simp: bodies_eq_def vec_len_def)
next
  case (Vec_raw st xs)
  then show ?thesis
    using assms vectors_agree [OF assms(1), of _ x y p q] by (cases y) (auto simp: bodies_eq_def vec_len_def)
next
  case (Vec_rec sts xs)
  then show ?thesis
    using assms vectors_agree [OF assms(1), of _ x y p q] by (cases y) (auto simp: bodies_eq_def vec_len_def)
qed (use assms(2,3,6-8) in \<open>cases y; auto simp: bodies_eq_def is_range_def\<close>)+

lemma shortcut_equal: "\<not> holds_real (Cell p x) \<Longrightarrow> sem_eq R (den_body m p x) (den_body m p x)"
  by (cases x) (auto simp: list_all2_conv_all_nth)

lemma op_eq_agrees:
  assumes "M (Heap (fresh E)) = None" "M (Heap (Suc (fresh E))) = None" "eqs E = (\<lambda>k. None)"
  shows "agrees M C E (kai_op_eq E n) n"
proof (induction n)
  case 0
  then show ?case using weight_pos by (simp add: agrees_def)
next
  case (Suc n)
  show ?case unfolding agrees_def
  proof (intro allI impI)
    fix t a b
    assume a: "typed M C (masks E) t a" and b: "typed M C (masks E) t b" and w: "weight a + weight b \<le> Suc n"
    let ?d = "den (masks E)"
    show "kai_op_eq E (Suc n) a b = Some (sem_eq (reals E) (?d a) (?d b))"
    proof (cases "t = T_int")
      case True
      have "same_ptr a b \<longrightarrow> kai_intf a = kai_intf b"
        using same_typed [OF _ a b] by blast
      then show ?thesis
        using eq_ints [of a b E n] typed_int [of M C "masks E" a] typed_int [of M C "masks E" b] a b True
        by (simp del: kai_op_eq.simps) (rule eq_commute)
    next
      case False
      then obtain p x q y where c: "a = Cell p x" "b = Cell q y" using a b by (cases a; cases b) auto
      have x: "M p = Some x" "body_ty M C (masks E) t x" and y: "M q = Some y" "body_ty M C (masks E) t y"
        using a b c by auto
      show ?thesis
      proof (cases "p = q \<and> \<not> holds_real a")
        case True
        then show ?thesis using c x y shortcut_equal [of p x "reals E" "masks E"] by auto
      next
        case nos: False
        show ?thesis
        proof (cases "is_range x \<or> is_range y")
          case True
          then have t: "t = T_list T_int" using x y by (auto simp: is_range_def split: kbody.splits)
          then have seq: "is_seq x" "is_seq y"
            using x y by (cases x; simp add: is_seq_def; cases y; simp add: is_seq_def)+
          note la = typed_list [OF a [unfolded t]] and lb = typed_list [OF b [unfolded t]]
          have wn: "weight a \<le> n" "weight b \<le> n" "0 < n" using w c by auto
          have "eq_seq (kai_op_eq E n) (fresh E) n (kai_seq_it_init (seq_of a)) (kai_seq_it_init (seq_of b))
            = Some (list_all2 (\<lambda>x y. sem_eq (reals E) (item_den (masks E) x) (item_den (masks E) y)) (elems (seq_of a)) (elems (seq_of b)))"
          proof (subst eq_seq_all)
            show "\<forall>u\<in>set (it_rest (kai_seq_it_init (seq_of a))). \<forall>v\<in>set (it_rest (kai_seq_it_init (seq_of b))).
              kai_op_eq E n (item_val (fresh E) u) (item_val (Suc (fresh E)) v)
              = Some (sem_eq (reals E) (item_den (masks E) u) (item_den (masks E) v))"
            proof (intro ballI)
              fix u v assume uv: "u \<in> set (it_rest (kai_seq_it_init (seq_of a)))" "v \<in> set (it_rest (kai_seq_it_init (seq_of b)))"
              then have "item_weight u < weight a" "item_weight v < weight b" "item_ty M C (masks E) T_int u" "item_ty M C (masks E) T_int v"
                using la lb by auto
              then show "kai_op_eq E n (item_val (fresh E) u) (item_val (Suc (fresh E)) v)
                  = Some (sem_eq (reals E) (item_den (masks E) u) (item_den (masks E) v))"
                using items_agree [OF Suc.IH wn(3) assms(1,2)] w by simp
            qed
          qed (use la lb wn in auto)
          then show ?thesis
            using True seq nos c la lb by (auto simp: list_all2_map1 list_all2_map2)
        next
          case False
          have "weight_body x + weight_body y \<le> n" using w c by simp
          then show ?thesis
            using bodies_agree [OF Suc.IH x(2) y(2) _ assms(3), of p q a b] False nos c by auto
        qed
      qed
    qed
  qed
qed



end
