(* ===== verification/Kai_Vec.thy ===== *)
theory Kai_Vec
  imports Kai_Value "HOL-Library.Multiset"
begin

text \<open>
  Vectors, \<^verbatim>\<open>stage2/runtime/perceus_vec.h\<close> and \<^verbatim>\<open>vec_ops.h\<close>: growable blocks that hold raw words where the
  element type allows it, written in place when nobody else holds the vector and copied first
  otherwise, and slices that share the block of their owner. A heap maps addresses to the vector cells;
  the elements are the values of \<open>Kai_Value\<close>, and \<open>held\<close> is the multiset of all references to element
  cells there are. A block is counted in words of 8 bytes. Functions that may make a cell take the
  address \<open>p\<close> or \<open>q\<close> the allocator would hand out, \<open>at\<close> those of boxes. Counters of the trace are left out.
\<close>

section \<open>Cells and blocks\<close>

datatype unit8 = Garbage | Bits i64 | Pointer kval

text \<open>The prefix of a block: how it stores its elements, and for records their type tag and columns.\<close>

datatype meta = Pending | Boxed | Raw scalar_tag | Rec int "(string \<times> scalar_tag) list"

fun stride :: "meta \<Rightarrow> nat" where
  "stride Pending = 0"
| "stride Boxed = 1"
| "stride (Raw t) = 1"
| "stride (Rec h cols) = length cols"

definition KAI_VEC_REC_MAX :: nat where "KAI_VEC_REC_MAX = 8"

text \<open>The block belongs to an owner; a view has the owner and the offset of its first word in it.\<close>

record vec =
  v_rc :: int
  v_len :: nat
  v_cap :: nat
  v_view :: "nat option"
  v_off :: nat
  v_meta :: meta
  v_block :: "unit8 list"

record vheap =
  nodes :: "nat \<Rightarrow> vec option"
  held :: "kval multiset"

text \<open>A \<^verbatim>\<open>KaiValue *\<close> where a vector is expected; \<open>Other\<close> is null, an immediate or another cell.\<close>

datatype vref = Node nat | Other

fun andthen :: "'a outcome \<Rightarrow> ('a \<Rightarrow> 'b outcome) \<Rightarrow> 'b outcome" where
  "andthen (Value x) f = f x"
| "andthen (Trap s) f = Trap s"
| "andthen (Exit s) f = Exit s"
| "andthen Undefined f = Undefined"

definition opt :: "'a option \<Rightarrow> 'a outcome" where
  "opt x = (case x of None \<Rightarrow> Undefined | Some y \<Rightarrow> Value y)"

definition kai_vec_meta :: "vheap \<Rightarrow> vec \<Rightarrow> meta option" where
  "kai_vec_meta h v = (case v_view v of None \<Rightarrow> Some (v_meta v) | Some w \<Rightarrow> map_option v_meta (nodes h w))"

text \<open>The words from the first element on.\<close>

definition kai_vec_elems :: "vheap \<Rightarrow> vec \<Rightarrow> unit8 list option" where
  "kai_vec_elems h v =
     (case v_view v of None \<Rightarrow> Some (v_block v) | Some w \<Rightarrow> map_option (\<lambda>ow. drop (v_off v) (v_block ow)) (nodes h w))"

definition load :: "unit8 list \<Rightarrow> nat \<Rightarrow> nat \<Rightarrow> unit8 list outcome" where
  "load b k n = (if k + n \<le> length b then Value (take n (drop k b)) else Undefined)"

text \<open>Only owners are written.\<close>

definition store :: "nat \<Rightarrow> nat \<Rightarrow> unit8 list \<Rightarrow> vheap \<Rightarrow> vheap outcome" where
  "store p k us h =
     (case nodes h p of
        None \<Rightarrow> Undefined
      | Some v \<Rightarrow>
          if v_view v = None \<and> k + length us \<le> length (v_block v)
          then Value (h\<lparr>nodes := (nodes h)(p \<mapsto> v\<lparr>v_block := take k (v_block v) @ us @ drop (k + length us) (v_block v)\<rparr>)\<rparr>)
          else Undefined)"

section \<open>References\<close>

definition ref_of :: "kval \<Rightarrow> kval multiset" where
  "ref_of x = (case x of Cell p b \<Rightarrow> {#x#} | _ \<Rightarrow> {#})"

definition mint :: "kval \<Rightarrow> vheap \<Rightarrow> vheap" where
  "mint x h = h\<lparr>held := held h + ref_of x\<rparr>"

definition elem_incref :: "kval \<Rightarrow> vheap \<Rightarrow> vheap outcome" where
  "elem_incref x h = (if ref_of x \<subseteq># held h then Value (mint x h) else Undefined)"

definition elem_decref :: "kval \<Rightarrow> vheap \<Rightarrow> vheap outcome" where
  "elem_decref x h = (if ref_of x \<subseteq># held h then Value (h\<lparr>held := held h - ref_of x\<rparr>) else Undefined)"

fun pointers :: "unit8 list \<Rightarrow> kval list outcome" where
  "pointers [] = Value []"
| "pointers (u # us) = (case u of Pointer x \<Rightarrow> andthen (pointers us) (\<lambda>xs. Value (x # xs)) | _ \<Rightarrow> Undefined)"

fun each :: "('a \<Rightarrow> vheap \<Rightarrow> vheap outcome) \<Rightarrow> 'a list \<Rightarrow> vheap \<Rightarrow> vheap outcome" where
  "each f [] h = Value h"
| "each f (x # xs) h = andthen (f x h) (each f xs)"

text \<open>The release of a vector: an owner gives back its elements, a view its owner, who is no view.\<close>

definition free_block :: "vec \<Rightarrow> vheap \<Rightarrow> vheap outcome" where
  "free_block v h =
     (if v_meta v = Boxed then andthen (pointers (take (v_len v) (v_block v))) (\<lambda>xs. each elem_decref xs h)
      else Value h)"

fun kai_vec_decref :: "nat \<Rightarrow> nat \<Rightarrow> vheap \<Rightarrow> vheap outcome" where
  "kai_vec_decref 0 p h = Undefined"
| "kai_vec_decref (Suc n) p h =
     (case nodes h p of
        None \<Rightarrow> Undefined
      | Some v \<Rightarrow>
          if v_rc v \<noteq> 1 then Value (h\<lparr>nodes := (nodes h)(p \<mapsto> v\<lparr>v_rc := v_rc v - 1\<rparr>)\<rparr>)
          else andthen (case v_view v of None \<Rightarrow> free_block v h | Some w \<Rightarrow> kai_vec_decref n w h)
                 (\<lambda>h. Value (h\<lparr>nodes := (nodes h)(p := None)\<rparr>)))"

abbreviation vec_decref :: "nat \<Rightarrow> vheap \<Rightarrow> vheap outcome" where
  "vec_decref \<equiv> kai_vec_decref 2"

definition vec_incref :: "nat \<Rightarrow> vheap \<Rightarrow> vheap outcome" where
  "vec_incref p h = andthen (opt (nodes h p)) (\<lambda>v. Value (h\<lparr>nodes := (nodes h)(p \<mapsto> v\<lparr>v_rc := v_rc v + 1\<rparr>)\<rparr>))"

section \<open>Elements\<close>

fun kai_vec_scalar_tag :: "kval \<Rightarrow> scalar_tag option" where
  "kai_vec_scalar_tag Null = None"
| "kai_vec_scalar_tag (Imm w) = Some Tag_int"
| "kai_vec_scalar_tag (Cell p b) =
     (case b of Int_box i \<Rightarrow> Some Tag_int | Real r \<Rightarrow> Some Tag_real | Bool b \<Rightarrow> Some Tag_bool
      | Char c \<Rightarrow> Some Tag_char | Byte n \<Rightarrow> Some Tag_byte | _ \<Rightarrow> None)"

text \<open>Only called on values of the tag.\<close>

definition kai_vec_scalar_bits :: "kval \<Rightarrow> scalar_tag \<Rightarrow> i64" where
  "kai_vec_scalar_bits x t =
     (case t of
        Tag_int \<Rightarrow> kai_intf x
      | Tag_real \<Rightarrow> (case x of Cell p (Real r) \<Rightarrow> r | _ \<Rightarrow> 0)
      | Tag_bool \<Rightarrow> (case x of Cell p (Bool b) \<Rightarrow> of_bool b | _ \<Rightarrow> 0)
      | Tag_char \<Rightarrow> (case x of Cell p (Char c) \<Rightarrow> ucast c | _ \<Rightarrow> 0)
      | Tag_byte \<Rightarrow> (case x of Cell p (Byte n) \<Rightarrow> ucast n | _ \<Rightarrow> 0))"

text \<open>A boolean goes through a C \<^verbatim>\<open>int\<close>.\<close>

definition kai_vec_scalar_box :: "nat \<Rightarrow> scalar_tag \<Rightarrow> i64 \<Rightarrow> kval" where
  "kai_vec_scalar_box p t b =
     (case t of
        Tag_int \<Rightarrow> kai_int p b
      | Tag_real \<Rightarrow> kai_real p b
      | Tag_bool \<Rightarrow> kai_bool (ucast b \<noteq> (0 :: 32 word))
      | Tag_char \<Rightarrow> kai_char p (ucast b)
      | Tag_byte \<Rightarrow> kai_byte (ucast b))"

definition kai_vec_classify :: "kval \<Rightarrow> meta" where
  "kai_vec_classify x =
     (case kai_vec_scalar_tag x of
        Some t \<Rightarrow> Raw t
      | None \<Rightarrow>
          (case x of
             Cell p (Record h ns fs) \<Rightarrow>
               if 0 < length fs \<and> length fs \<le> KAI_VEC_REC_MAX \<and> None \<notin> set (map kai_vec_scalar_tag fs)
               then Rec h (zip ns (map (\<lambda>f. the (kai_vec_scalar_tag f)) fs)) else Boxed
           | _ \<Rightarrow> Boxed))"

text \<open>The field of a name, looked for at the place of its column first.\<close>

definition column :: "string list \<Rightarrow> nat \<Rightarrow> string \<Rightarrow> nat option" where
  "column ns i name =
     (if i < length ns \<and> ns ! i = name then Some i else List.find (\<lambda>k. ns ! k = name) [0..<length ns])"

fun rec_image :: "string list \<Rightarrow> kval list \<Rightarrow> nat \<Rightarrow> (string \<times> scalar_tag) list \<Rightarrow> unit8 list outcome" where
  "rec_image ns fs i [] = Value []"
| "rec_image ns fs i ((name, t) # cols) =
     (case column ns i name of
        None \<Rightarrow> Trap ''vec: record shape mismatch''
      | Some j \<Rightarrow>
          if kai_vec_scalar_tag (fs ! j) \<noteq> Some t then Trap ''vec: record shape mismatch''
          else andthen (rec_image ns fs (Suc i) cols) (\<lambda>us. Value (Bits (kai_vec_scalar_bits (fs ! j) t) # us)))"

text \<open>The words an element is stored as.\<close>

definition elem_image :: "meta \<Rightarrow> kval \<Rightarrow> unit8 list outcome" where
  "elem_image m x =
     (case m of
        Raw t \<Rightarrow>
          if kai_vec_scalar_tag x \<noteq> Some t then Trap ''vec: element shape mismatch''
          else Value [Bits (kai_vec_scalar_bits x t)]
      | Rec h cols \<Rightarrow>
          (case x of
             Cell p (Record h' ns fs) \<Rightarrow>
               if length fs \<noteq> length cols then Trap ''vec: record shape mismatch'' else rec_image ns fs 0 cols
           | _ \<Rightarrow> Trap ''vec: record shape mismatch'')
      | Boxed \<Rightarrow> Value [Pointer x]
      | Pending \<Rightarrow> Value [Pointer x])"

definition consume_elem :: "meta \<Rightarrow> kval \<Rightarrow> vheap \<Rightarrow> vheap outcome" where
  "consume_elem m x h = (case m of Raw t \<Rightarrow> elem_decref x h | Rec tag cols \<Rightarrow> elem_decref x h | _ \<Rightarrow> Value h)"

definition kai_vec_write_elem :: "meta \<Rightarrow> nat \<Rightarrow> nat \<Rightarrow> kval \<Rightarrow> vheap \<Rightarrow> vheap outcome" where
  "kai_vec_write_elem m p k x h =
     andthen (elem_image m x) (\<lambda>us. andthen (store p k us h) (consume_elem m x))"

fun bits_of :: "unit8 list \<Rightarrow> i64 list outcome" where
  "bits_of [] = Value []"
| "bits_of (u # us) = (case u of Bits w \<Rightarrow> andthen (bits_of us) (\<lambda>ws. Value (w # ws)) | _ \<Rightarrow> Undefined)"

definition kai_vec_read_elem :: "(nat \<Rightarrow> nat) \<Rightarrow> meta \<Rightarrow> unit8 list \<Rightarrow> vheap \<Rightarrow> (kval \<times> vheap) outcome" where
  "kai_vec_read_elem at m us h =
     (let give = (\<lambda>x. Value (x, mint x h)) in
      case m of
        Raw t \<Rightarrow> andthen (bits_of us) (\<lambda>ws. give (kai_vec_scalar_box (at 0) t (hd ws)))
      | Rec tag cols \<Rightarrow> andthen (bits_of us) (\<lambda>ws.
          let fs = map (\<lambda>i. kai_vec_scalar_box (at (Suc i)) (snd (cols ! i)) (ws ! i)) [0..<length cols]
          in give (Cell (Heap (at 0)) (Record tag (map fst cols) fs)))
      | _ \<Rightarrow> (case us of [Pointer x] \<Rightarrow> andthen (elem_incref x h) (\<lambda>h. Value (x, h)) | _ \<Rightarrow> Undefined))"

section \<open>Making vectors\<close>

definition kai_vec_alloc :: "nat \<Rightarrow> nat \<Rightarrow> nat \<Rightarrow> meta \<Rightarrow> vheap \<Rightarrow> vheap" where
  "kai_vec_alloc p len cap m h =
     h\<lparr>nodes := (nodes h)(p \<mapsto> \<lparr>v_rc = 1, v_len = len, v_cap = cap, v_view = None, v_off = 0, v_meta = m,
                                v_block = replicate (cap * stride m) Garbage\<rparr>)\<rparr>"

text \<open>The image of the first element, copied behind itself.\<close>

definition copy_image :: "nat \<Rightarrow> nat \<Rightarrow> nat \<Rightarrow> vheap \<Rightarrow> vheap outcome" where
  "copy_image p s n h =
     andthen (opt (nodes h p)) (\<lambda>v. andthen (load (v_block v) 0 s) (\<lambda>us.
       each (\<lambda>i. store p (i * s) us) [1..<n] h))"

definition kai_vec_make :: "nat \<Rightarrow> i64 \<Rightarrow> kval \<Rightarrow> vheap \<Rightarrow> (nat \<times> vheap) outcome" where
  "kai_vec_make p len init h =
     (let n = nat (sint len);
          m = (if 0 < n then kai_vec_classify init else Pending);
          h = kai_vec_alloc p n n m h
      in if sint len < 0 then Exit ''kai: vec_make: negative length''
         else if n = 0 then Value (p, h)
         else if m = Boxed
         then andthen (each (\<lambda>i h. andthen (elem_incref init h) (store p i [Pointer init])) [0..<n] h)
                (\<lambda>h. Value (p, h))
         else andthen (elem_incref init h) (\<lambda>h. andthen (kai_vec_write_elem m p 0 init h)
                (\<lambda>h. andthen (copy_image p (stride m) n h) (\<lambda>h. Value (p, h)))))"

definition kai_vec_empty :: "nat \<Rightarrow> vheap \<Rightarrow> nat \<times> vheap" where
  "kai_vec_empty p h = (p, kai_vec_alloc p 0 0 Pending h)"

definition kai_vec_reserve_impl :: "nat \<Rightarrow> i64 \<Rightarrow> vheap \<Rightarrow> nat \<times> vheap" where
  "kai_vec_reserve_impl p n h = (p, kai_vec_alloc p 0 (nat (sint n)) Pending h)"

section \<open>Copy on write\<close>

definition kai_vec_clone :: "nat \<Rightarrow> vec \<Rightarrow> nat \<Rightarrow> vheap \<Rightarrow> vheap outcome" where
  "kai_vec_clone q v cap h =
     andthen (opt (kai_vec_meta h v)) (\<lambda>m. andthen (opt (kai_vec_elems h v)) (\<lambda>b.
       andthen (load b 0 (v_len v * stride m)) (\<lambda>us.
         andthen (store q 0 us (kai_vec_alloc q (v_len v) (max cap (v_len v)) m h)) (\<lambda>h.
           if m = Boxed then andthen (pointers us) (\<lambda>xs. each elem_incref xs h) else Value h))))"

definition kai_vec_ensure_unique :: "nat \<Rightarrow> nat \<Rightarrow> nat \<Rightarrow> vheap \<Rightarrow> (nat \<times> vheap) outcome" where
  "kai_vec_ensure_unique q p need_cap h =
     andthen (opt (nodes h p)) (\<lambda>v.
       if v_view v \<noteq> None \<or> v_rc v \<noteq> 1
       then andthen (kai_vec_clone q v need_cap h) (\<lambda>h. andthen (vec_decref p h) (\<lambda>h. Value (q, h)))
       else Value (p, h))"

definition kai_vec_grow_cap :: "nat \<Rightarrow> nat \<Rightarrow> vheap \<Rightarrow> vheap outcome" where
  "kai_vec_grow_cap p ncap h =
     andthen (opt (nodes h p)) (\<lambda>v.
       let size = ncap * stride (v_meta v)
       in Value (h\<lparr>nodes := (nodes h)(p \<mapsto> v\<lparr>v_cap := ncap,
            v_block := take size (v_block v) @ replicate (size - length (v_block v)) Garbage\<rparr>)\<rparr>))"

section \<open>Reading and writing\<close>

text \<open>The text of the trap shows the index and the length.\<close>

definition out_of_range :: string where "out_of_range = ''index out of range''"

definition kai_vec_bounds :: "vref \<Rightarrow> i64 \<Rightarrow> vheap \<Rightarrow> (nat \<times> vec) outcome" where
  "kai_vec_bounds r i h =
     (case r of
        Other \<Rightarrow> Exit ''not a vec''
      | Node p \<Rightarrow> andthen (opt (nodes h p)) (\<lambda>v.
          if sint i < 0 \<or> sint i \<ge> int (v_len v) then Trap out_of_range else Value (p, v)))"

definition kai_fixed_vec_idx :: "i64 \<Rightarrow> i64 \<Rightarrow> i64 outcome" where
  "kai_fixed_vec_idx i n = (if sint i < 0 \<or> sint i \<ge> sint n then Trap out_of_range else Value i)"

definition kai_vec_get_impl :: "(nat \<Rightarrow> nat) \<Rightarrow> vref \<Rightarrow> i64 \<Rightarrow> vheap \<Rightarrow> (kval \<times> vheap) outcome" where
  "kai_vec_get_impl at r i h =
     andthen (kai_vec_bounds r i h) (\<lambda>(p, v). andthen (opt (kai_vec_meta h v)) (\<lambda>m.
       andthen (opt (kai_vec_elems h v)) (\<lambda>b. andthen (load b (unat i * stride m) (stride m)) (\<lambda>us.
         kai_vec_read_elem at m us h))))"

definition kai_vec_set_impl :: "nat \<Rightarrow> vref \<Rightarrow> i64 \<Rightarrow> kval \<Rightarrow> vheap \<Rightarrow> (nat \<times> vheap) outcome" where
  "kai_vec_set_impl q r i x h =
     andthen (kai_vec_bounds r i h) (\<lambda>(p, v). andthen (kai_vec_ensure_unique q p (v_cap v) h) (\<lambda>(p, h).
       andthen (opt (nodes h p)) (\<lambda>v.
         let m = v_meta v; k = unat i * stride m
         in if m = Boxed
            then andthen (load (v_block v) k 1) (\<lambda>us. andthen (pointers us) (\<lambda>old.
                   andthen (kai_vec_write_elem m p k x h) (\<lambda>h. andthen (each elem_decref old h) (\<lambda>h. Value (p, h)))))
            else andthen (kai_vec_write_elem m p k x h) (\<lambda>h. Value (p, h)))))"

text \<open>Room for one more: twice the capacity, at least 4.\<close>

definition push_cap :: "nat \<Rightarrow> nat \<Rightarrow> nat" where
  "push_cap len cap = (if len \<ge> cap then max 4 (max (cap * 2) (len + 1)) else cap)"

definition set_meta :: "nat \<Rightarrow> meta \<Rightarrow> vheap \<Rightarrow> vheap" where
  "set_meta p m h = h\<lparr>nodes := (nodes h)(p := map_option (v_meta_update (\<lambda>_. m)) (nodes h p))\<rparr>"

definition set_len :: "nat \<Rightarrow> nat \<Rightarrow> vheap \<Rightarrow> vheap" where
  "set_len p n h = h\<lparr>nodes := (nodes h)(p := map_option (v_len_update (\<lambda>_. n)) (nodes h p))\<rparr>"

text \<open>A block with room for one more, in the layout of its elements; \<open>m\<close> is the layout a first element asks for.\<close>

definition make_room :: "nat \<Rightarrow> nat \<Rightarrow> meta outcome \<Rightarrow> vheap \<Rightarrow> (meta \<times> vheap) outcome" where
  "make_room p len m h =
     andthen (opt (nodes h p)) (\<lambda>v.
       if v_meta v = Pending
       then andthen m (\<lambda>m. andthen (kai_vec_grow_cap p (max 4 (v_cap v)) (set_meta p m h)) (\<lambda>h. Value (m, h)))
       else if len = v_cap v
       then andthen (kai_vec_grow_cap p (max 4 (v_cap v * 2)) h) (\<lambda>h. Value (v_meta v, h))
       else Value (v_meta v, h))"

definition kai_vec_push_impl :: "nat \<Rightarrow> vref \<Rightarrow> kval \<Rightarrow> vheap \<Rightarrow> (nat \<times> vheap) outcome" where
  "kai_vec_push_impl q r x h =
     (case r of
        Other \<Rightarrow> Exit ''kai: vec_push: not a vec''
      | Node p \<Rightarrow> andthen (opt (nodes h p)) (\<lambda>v.
          let len = v_len v
          in andthen (kai_vec_ensure_unique q p (push_cap len (v_cap v)) h) (\<lambda>(p, h).
               andthen (make_room p len (Value (kai_vec_classify x)) h) (\<lambda>(m, h).
                 andthen (kai_vec_write_elem m p (len * stride m) x h) (\<lambda>h. Value (p, set_len p (len + 1) h))))))"

section \<open>Records that are never boxed\<close>

text \<open>The fused forms move the fields of a record literal into the block and out of it.\<close>

fun fields_image :: "(string \<times> scalar_tag) list \<Rightarrow> kval list \<Rightarrow> unit8 list outcome" where
  "fields_image [] [] = Value []"
| "fields_image ((name, t) # cols) (x # xs) =
     (if kai_vec_scalar_tag x \<noteq> Some t then Trap ''vec: record shape mismatch''
      else andthen (fields_image cols xs) (\<lambda>us. Value (Bits (kai_vec_scalar_bits x t) # us)))"
| "fields_image cols xs = Trap ''vec: record shape mismatch''"

definition kai_vec_store_rec_fields :: "meta \<Rightarrow> nat \<Rightarrow> nat \<Rightarrow> kval list \<Rightarrow> vheap \<Rightarrow> vheap outcome" where
  "kai_vec_store_rec_fields m p k xs h =
     (case m of
        Rec tag cols \<Rightarrow>
          if length cols \<noteq> length xs then Trap ''vec: record shape mismatch''
          else andthen (fields_image cols xs) (\<lambda>us. andthen (store p k us h) (each elem_decref xs))
      | _ \<Rightarrow> Trap ''vec: record shape mismatch'')"

definition fields_meta :: "string list \<Rightarrow> kval list \<Rightarrow> meta outcome" where
  "fields_meta names xs =
     (if length xs < 1 \<or> length xs > KAI_VEC_REC_MAX \<or> None \<in> set (map kai_vec_scalar_tag xs)
      then Trap ''vec: record shape mismatch''
      else Value (Rec 0 (zip names (map (\<lambda>x. the (kai_vec_scalar_tag x)) xs))))"

definition kai_vec_push_rec_raw :: "nat \<Rightarrow> vref \<Rightarrow> kval list \<Rightarrow> string list \<Rightarrow> vheap \<Rightarrow> (nat \<times> vheap) outcome" where
  "kai_vec_push_rec_raw q r xs names h =
     (case r of
        Other \<Rightarrow> Exit ''kai: vec_push: not a vec''
      | Node p \<Rightarrow> andthen (opt (nodes h p)) (\<lambda>v.
          let len = v_len v
          in andthen (kai_vec_ensure_unique q p (push_cap len (v_cap v)) h) (\<lambda>(p, h).
               andthen (make_room p len (fields_meta names xs) h) (\<lambda>(m, h).
                 andthen (kai_vec_store_rec_fields m p (len * stride m) xs h) (\<lambda>h. Value (p, set_len p (len + 1) h))))))"

text \<open>A trap on the index pays the references of the call; nothing is returned then.\<close>

definition kai_vec_set_rec_raw :: "nat \<Rightarrow> vref \<Rightarrow> i64 \<Rightarrow> kval list \<Rightarrow> vheap \<Rightarrow> (nat \<times> vheap) outcome" where
  "kai_vec_set_rec_raw q r i xs h =
     andthen (kai_vec_bounds r i h) (\<lambda>(p, v). andthen (kai_vec_ensure_unique q p (v_cap v) h) (\<lambda>(p, h).
       andthen (opt (nodes h p)) (\<lambda>v.
         andthen (kai_vec_store_rec_fields (v_meta v) p (unat i * stride (v_meta v)) xs h) (\<lambda>h. Value (p, h)))))"

section \<open>Raw payloads\<close>

text \<open>The block a raw write may touch in place.\<close>

definition kai_vec_inplace_meta :: "vref \<Rightarrow> vheap \<Rightarrow> (nat \<times> vec) option" where
  "kai_vec_inplace_meta r h =
     (case r of
        Other \<Rightarrow> None
      | Node p \<Rightarrow> (case nodes h p of
                     Some v \<Rightarrow> if v_view v = None \<and> v_rc v = 1 then Some (p, v) else None
                   | None \<Rightarrow> None))"

text \<open>A box of a raw word the caller passes on; \<open>b\<close> is its address.\<close>

definition box_of :: "nat \<Rightarrow> scalar_tag \<Rightarrow> i64 \<Rightarrow> vheap \<Rightarrow> kval \<times> vheap" where
  "box_of b t w h = (let x = kai_vec_scalar_box b t w in (x, mint x h))"

definition kai_vec_push_bits :: "nat \<Rightarrow> nat \<Rightarrow> vref \<Rightarrow> i64 \<Rightarrow> scalar_tag \<Rightarrow> vheap \<Rightarrow> (nat \<times> vheap) outcome" where
  "kai_vec_push_bits q b r w t h =
     (let slow = (let (x, h) = box_of b t w h in kai_vec_push_impl q r x h) in
      case kai_vec_inplace_meta r h of
        Some (p, v) \<Rightarrow>
          if v_meta v = Raw t \<and> v_len v < v_cap v
          then andthen (store p (v_len v) [Bits w] h) (\<lambda>h. Value (p, set_len p (v_len v + 1) h))
          else slow
      | None \<Rightarrow> slow)"

definition kai_vec_set_bits :: "nat \<Rightarrow> nat \<Rightarrow> vref \<Rightarrow> i64 \<Rightarrow> i64 \<Rightarrow> scalar_tag \<Rightarrow> vheap \<Rightarrow> (nat \<times> vheap) outcome" where
  "kai_vec_set_bits q b r i w t h =
     (let slow = (let (x, h) = box_of b t w h in kai_vec_set_impl q r i x h) in
      case kai_vec_inplace_meta r h of
        Some (p, v) \<Rightarrow>
          if v_meta v = Raw t \<and> unat i < v_len v
          then andthen (store p (unat i) [Bits w] h) (\<lambda>h. Value (p, h))
          else slow
      | None \<Rightarrow> slow)"

text \<open>A raw read; \<open>t\<close> is the payload the caller expects.\<close>

definition kai_vec_scalar_at :: "vref \<Rightarrow> i64 \<Rightarrow> scalar_tag \<Rightarrow> vheap \<Rightarrow> i64 outcome" where
  "kai_vec_scalar_at r i t h =
     (case r of
        Other \<Rightarrow> Exit ''not a vec''
      | Node p \<Rightarrow> andthen (opt (nodes h p)) (\<lambda>v. andthen (opt (kai_vec_meta h v)) (\<lambda>m.
          andthen (opt (kai_vec_elems h v)) (\<lambda>b.
            if v_len v \<noteq> 0 \<and> m \<noteq> Raw t then Trap ''vec: element shape mismatch''
            else if unat i \<ge> v_len v then Trap out_of_range
            else andthen (load b (unat i) 1) (\<lambda>us. andthen (bits_of us) (\<lambda>ws. Value (hd ws)))))))"

section \<open>Slices\<close>

definition INT64_MAX :: i64 where "INT64_MAX = 0x7fffffffffffffff"

definition kai_vec_slice_impl :: "nat \<Rightarrow> vref \<Rightarrow> i64 \<Rightarrow> i64 \<Rightarrow> vheap \<Rightarrow> (nat \<times> vheap) outcome" where
  "kai_vec_slice_impl q r start slen h =
     (case r of
        Other \<Rightarrow> Exit ''kai: vec_slice: not a vec''
      | Node p \<Rightarrow> andthen (opt (nodes h p)) (\<lambda>v.
          let len = int (v_len v); s = nat (sint start); n = nat (sint slen) in
          if sint start < 0 \<or> sint slen < 0 \<or> sint start > len \<or> sint slen > len - sint start
          then Trap ''slice out of range''
          else if n = 0 then andthen (vec_decref p h) (\<lambda>h. Value (kai_vec_empty q h))
          else andthen (opt (kai_vec_meta h v)) (\<lambda>m.
            case v_view v of
              Some w \<Rightarrow>
                if v_rc v = 1
                then Value (p, h\<lparr>nodes := (nodes h)(p \<mapsto> v\<lparr>v_off := v_off v + s * stride m, v_len := n, v_cap := n\<rparr>)\<rparr>)
                else let view = \<lparr>v_rc = 1, v_len = n, v_cap = n, v_view = Some w, v_off = v_off v + s * stride m,
                                 v_meta = Pending, v_block = []\<rparr>
                     in andthen (vec_incref w (h\<lparr>nodes := (nodes h)(q \<mapsto> view)\<rparr>))
                          (\<lambda>h. andthen (vec_decref p h) (\<lambda>h. Value (q, h)))
            | None \<Rightarrow>
                let view = \<lparr>v_rc = 1, v_len = n, v_cap = n, v_view = Some p, v_off = s * stride m,
                            v_meta = Pending, v_block = []\<rparr>
                in Value (q, h\<lparr>nodes := (nodes h)(q \<mapsto> view)\<rparr>))))"

definition kai_vec_tail_from_impl :: "nat \<Rightarrow> vref \<Rightarrow> i64 \<Rightarrow> vheap \<Rightarrow> (nat \<times> vheap) outcome" where
  "kai_vec_tail_from_impl q r start h =
     (case r of
        Other \<Rightarrow> Exit ''kai: vec_slice: not a vec''
      | Node p \<Rightarrow> andthen (opt (nodes h p)) (\<lambda>v.
          if int (v_len v) - sint start > sint INT64_MAX then Undefined
          else kai_vec_slice_impl q r start (word_of_int (int (v_len v) - sint start)) h))"

section \<open>From a list\<close>

text \<open>Walks the list twice, for its length and for its elements; \<open>n\<close> bounds the turns, \<open>q\<close> gives the boxes
  of large integers. The reference on the list is the caller's.\<close>

fun list_len :: "kval \<Rightarrow> nat" where
  "list_len (Cell p (Cons x xs)) = Suc (list_len xs)"
| "list_len (Cell p (Range r)) = (if kai_range_is_empty r then 0 else unat (kai_range_len r))"
| "list_len v = 0"

definition push_item :: "nat \<Rightarrow> nat \<Rightarrow> kval item \<Rightarrow> (nat \<times> vheap) outcome \<Rightarrow> (nat \<times> vheap) outcome" where
  "push_item q b it acc =
     andthen acc (\<lambda>(p, h). let x = item_val b it in kai_vec_push_impl q (Node p) x (mint x h))"

definition kai_vec_from_list_impl :: "nat \<Rightarrow> nat \<Rightarrow> nat \<Rightarrow> nat \<Rightarrow> kval \<Rightarrow> vheap \<Rightarrow> (nat \<times> vheap) outcome option" where
  "kai_vec_from_list_impl p q b n xs h =
     walk n (push_item q b) (seq_of xs) (Value (p, kai_vec_alloc p 0 (list_len xs) Pending h))"

end
