(* ===== verification/Kai_Vec_Elem.thy ===== *)
theory Kai_Vec_Elem
  imports Kai_Vec Kai_Eq_Spec
begin

text \<open>
  The rows of a block of words, what a row of a layout denotes, and the way of an element into a row
  and out of it.
\<close>

section \<open>The rows of a block\<close>

definition rows :: "nat \<Rightarrow> nat \<Rightarrow> 'a list \<Rightarrow> 'a list list" where
  "rows s n us = map (\<lambda>i. take s (drop (i * s) us)) [0..<n]"

lemma length_rows [simp]: "length (rows s n us) = n"
  by (simp add: rows_def)

lemma nth_rows [simp]: "i < n \<Longrightarrow> rows s n us ! i = take s (drop (i * s) us)"
  by (simp add: rows_def)

lemma rows_0 [simp]: "rows s 0 us = []"
  by (simp add: rows_def)

lemma row_inside: "i < n \<Longrightarrow> i * s + s \<le> n * (s :: nat)"
  by (metis Suc_leI add.commute mult_Suc mult_le_mono1)

lemma rows_prefix:
  assumes "take (n * s) us = take (n * s) vs"
  shows "rows s n us = rows s n vs"
proof (rule nth_equalityI)
  fix i assume "i < length (rows s n us)"
  then have i: "i * s + s \<le> n * s" "i < n" using row_inside by auto
  have "take s (drop (i * s) us) = take s (drop (i * s) (take (n * s) us))" for us :: "'a list"
    using i by (simp add: drop_take min_absorb1)
  then show "rows s n us ! i = rows s n vs ! i" using assms i by (metis nth_rows)
qed simp

lemma rows_Suc: "rows s (Suc n) us = rows s n us @ [take s (drop (n * s) us)]"
  by (simp add: rows_def)

lemma rows_snoc:
  assumes "n * s \<le> length us" "length r = s"
  shows "rows s (Suc n) (take (n * s) us @ r @ vs) = rows s n us @ [r]"
  using assms rows_prefix [of n s "take (n * s) us @ r @ vs" us] by (simp add: rows_Suc)

lemma rows_update:
  assumes "n * s \<le> length us" "length r = s" "i < n"
  shows "rows s n (take (i * s) us @ r @ drop (i * s + s) us) = (rows s n us)[i := r]"
proof (rule nth_equalityI)
  fix j assume "j < length (rows s n (take (i * s) us @ r @ drop (i * s + s) us))"
  then have j: "j < n" by simp
  have L: "i * s + s \<le> length us" "j * s + s \<le> length us" using row_inside [OF assms(3), of s] row_inside [OF j, of s] assms(1) by auto
  consider "j = i" | "j < i" | "i < j" by linarith
  then show "rows s n (take (i * s) us @ r @ drop (i * s + s) us) ! j = (rows s n us)[i := r] ! j"
  proof cases
    case 1
    then show ?thesis using j assms L by simp
  next
    case 2
    then have "j * s + s \<le> i * s" using row_inside by blast
    then show ?thesis using 2 j L by (simp add: drop_take min_absorb1)
  next
    case 3
    then have "i * s + s \<le> j * s" using row_inside by blast
    then show ?thesis using 3 j L assms(2) by (simp add: min_absorb2)
  qed
qed simp

lemma rows_drop:
  assumes "k + n \<le> m"
  shows "rows s n (drop (k * s) us) = take n (drop k (rows s m us))"
  by (rule nth_equalityI) (use assms in \<open>auto simp: algebra_simps\<close>)

lemma concat_rows: "n * s \<le> length us \<Longrightarrow> concat (rows s n us) = take (n * s) us"
proof (induction n)
  case (Suc n)
  then have "concat (rows s (Suc n) us) = take (n * s) us @ take s (drop (n * s) us)" by (simp add: rows_Suc)
  also have "\<dots> = take (n * s + s) us" by (simp only: take_add)
  finally show ?case by (simp add: add.commute)
qed simp

section \<open>Layouts and elements\<close>

fun row_ok :: "meta \<Rightarrow> unit8 list \<Rightarrow> bool" where
  "row_ok Pending us = False"
| "row_ok Boxed us = (\<exists>x. us = [Pointer x])"
| "row_ok (Raw t) us = (\<exists>w. us = [Bits w] \<and> scalar_word t w)"
| "row_ok (Rec tag cols) us = (\<exists>ws. us = map Bits ws \<and> list_all2 scalar_word (map snd cols) ws)"

fun layout_ok :: "meta \<Rightarrow> bool" where
  "layout_ok (Rec tag cols) = (cols \<noteq> [] \<and> length cols \<le> KAI_VEC_REC_MAX)"
| "layout_ok m = True"

text \<open>The term a row denotes.\<close>

fun word_of :: "unit8 \<Rightarrow> i64" where
  "word_of (Bits w) = w"
| "word_of u = 0"

fun row_den :: "(nat \<Rightarrow> 64 word) \<Rightarrow> meta \<Rightarrow> unit8 list \<Rightarrow> sem" where
  "row_den M (Raw t) us = scalar t (word_of (hd us))"
| "row_den M (Rec tag cols) us = S_record (map2 scalar (map snd cols) (map word_of us))"
| "row_den M m us = (case hd us of Pointer x \<Rightarrow> den M x | _ \<Rightarrow> S_atom A_null)"

definition row_refs :: "unit8 \<Rightarrow> kval multiset" where
  "row_refs u = (case u of Pointer x \<Rightarrow> ref_of x | _ \<Rightarrow> {#})"

fun names_ok :: "kval \<Rightarrow> bool" where
  "names_ok (Cell p (Record tag ns fs)) = (length ns = length fs)"
| "names_ok v = True"

text \<open>What a vector of a layout may hold: all elements of a vector have the shape of the first.\<close>

fun same_layout :: "meta \<Rightarrow> meta \<Rightarrow> bool" where
  "same_layout (Rec tag cols) m = (case m of Rec tag' cols' \<Rightarrow> cols' = cols | _ \<Rightarrow> False)"
| "same_layout k m = (m = k)"

definition storable :: "meta \<Rightarrow> kval \<Rightarrow> bool" where
  "storable m x \<longleftrightarrow> names_ok x \<and> (m = Pending \<or> m = Boxed \<or> same_layout (kai_vec_classify x) m)"

lemma andthen_Value [simp]: "andthen m f = Value y \<longleftrightarrow> (\<exists>x. m = Value x \<and> f x = Value y)"
  by (cases m) simp_all

lemma scalar_bits:
  assumes "kai_vec_scalar_tag x = Some t"
  shows "scalar t (kai_vec_scalar_bits x t) = den M x" "scalar_word t (kai_vec_scalar_bits x t)"
proof -
  have c: "(ucast c :: i64) < 2 ^ 32" for c :: "32 word"
    using unsigned_less [of c, where ?'a = nat] by (simp add: word_less_nat_alt unsigned_ucast_eq take_bit_nat_eq_self)
  have n: "(ucast n :: i64) < 2 ^ 8" for n :: "8 word"
    using unsigned_less [of n, where ?'a = nat] by (simp add: word_less_nat_alt unsigned_ucast_eq take_bit_nat_eq_self)
  have u: "ucast (ucast c :: i64) = c" for c :: "32 word" by (rule bit_word_eqI) (simp add: bit_ucast_iff)
  have v: "ucast (ucast n :: i64) = n" for n :: "8 word" by (rule bit_word_eqI) (simp add: bit_ucast_iff)
  show "scalar t (kai_vec_scalar_bits x t) = den M x" "scalar_word t (kai_vec_scalar_bits x t)"
    using assms c n by (cases x; auto simp: kai_vec_scalar_bits_def u v split: kbody.splits)+
qed

lemma rec_image_all:
  assumes "length ns = length fs" "None \<notin> set (map kai_vec_scalar_tag fs)" "n \<le> length fs"
  shows "rec_image ns fs (length fs - n) (drop (length fs - n) (zip ns (map (\<lambda>f. the (kai_vec_scalar_tag f)) fs)))
    = Value (drop (length fs - n) (map (\<lambda>f. Bits (kai_vec_scalar_bits f (the (kai_vec_scalar_tag f)))) fs))"
  using assms(3)
proof (induction n)
  case (Suc n)
  let ?i = "length fs - Suc n"
  have i: "?i < length fs" "Suc ?i = length fs - n" using Suc.prems by auto
  have "kai_vec_scalar_tag (fs ! ?i) = Some (the (kai_vec_scalar_tag (fs ! ?i)))"
    using assms(2) nth_mem [OF i(1)] by (metis image_eqI list.set_map option.collapse)
  moreover have "drop ?i (zip ns (map (\<lambda>f. the (kai_vec_scalar_tag f)) fs))
      = (ns ! ?i, the (kai_vec_scalar_tag (fs ! ?i))) # drop (length fs - n) (zip ns (map (\<lambda>f. the (kai_vec_scalar_tag f)) fs))"
    using i assms(1) by (subst Cons_nth_drop_Suc [symmetric]) auto
  moreover have "column ns ?i (ns ! ?i) = Some ?i" using i assms(1) by (simp add: column_def)
  ultimately show ?case using Suc.IH Suc.prems i
    by (subst (2) Cons_nth_drop_Suc [symmetric]) auto
qed simp

lemma elem_image_storable:
  assumes "storable m x" "m \<noteq> Pending"
  obtains us where "elem_image m x = Value us" "row_ok m us" "length us = stride m" "layout_ok m" "row_den M m us = den M x"
    "(\<Sum>u\<leftarrow>us. row_refs u) = (if m = Boxed then ref_of x else {#})"
proof (cases "m = Boxed")
  case True
  then show thesis using that [of "[Pointer x]"] by (simp add: elem_image_def row_refs_def)
next
  case False
  then have m: "same_layout (kai_vec_classify x) m" "names_ok x" using assms by (auto simp: storable_def)
  show thesis
  proof (cases "kai_vec_scalar_tag x")
    case (Some t)
    then have "m = Raw t" using m by (simp add: kai_vec_classify_def)
    then show thesis
      using that [of "[Bits (kai_vec_scalar_bits x t)]"] Some scalar_bits [OF Some] by (simp add: elem_image_def row_refs_def)
  next
    case None
    then obtain p tag ns fs where x: "x = Cell p (Record tag ns fs)" "0 < length fs" "length fs \<le> KAI_VEC_REC_MAX"
        "None \<notin> set (map kai_vec_scalar_tag fs)"
      using m(1) False by (auto simp: kai_vec_classify_def split: kval.splits kbody.splits if_splits)
    have ns: "length ns = length fs" using m(2) x(1) by simp
    let ?tags = "map (\<lambda>f. the (kai_vec_scalar_tag f)) fs"
    let ?ws = "map (\<lambda>f. kai_vec_scalar_bits f (the (kai_vec_scalar_tag f))) fs"
    obtain tag' where c: "m = Rec tag' (zip ns ?tags)"
      using m(1) x None by (auto simp: kai_vec_classify_def split: meta.splits)
    have "elem_image m x = Value (map Bits ?ws)"
      using rec_image_all [OF ns x(4), of "length fs"] ns by (simp add: elem_image_def c x(1) o_def)
    moreover have each: "kai_vec_scalar_tag f = Some (the (kai_vec_scalar_tag f))" if "f \<in> set fs" for f
      using x(4) that by (auto simp: image_iff)
    have "row_ok m (map Bits ?ws)"
      using ns by (auto simp: c list_all2_map1 list_all2_map2 list.rel_refl_strong intro!: exI [of _ ?ws] list.rel_refl_strong scalar_bits(2) each)
    moreover have "row_den M m (map Bits ?ws) = den M x"
      unfolding c x(1) by (simp add: den_all_map, rule nth_equalityI) (use ns scalar_bits(1) each in auto)
    moreover have "(\<Sum>u\<leftarrow>map Bits ?ws. row_refs u) = {#}" by (simp add: row_refs_def o_def)
    moreover have "length (map Bits ?ws) = stride m" "layout_ok m" using ns x(2,3) by (auto simp: c)
    ultimately show thesis using that [of "map Bits ?ws"] False by presburger
  qed
qed

lemma storable_classify: "names_ok x \<Longrightarrow> storable (kai_vec_classify x) x" "kai_vec_classify x \<noteq> Pending"
proof -
  show c: "kai_vec_classify x \<noteq> Pending"
    by (auto simp: kai_vec_classify_def split: option.splits kval.splits kbody.splits)
  show "names_ok x \<Longrightarrow> storable (kai_vec_classify x) x"
    by (cases "kai_vec_classify x") (auto simp: storable_def)
qed

lemma den_scalar_box:
  assumes "scalar_word t w"
  shows "den M (kai_vec_scalar_box p t w) = scalar t w"
proof -
  have "w = 0 \<or> w = 1" if "t = Tag_bool" using that assms by (auto simp: word_le_nat_alt word_unat_eq_iff le_Suc_eq)
  moreover have "den M (kai_int p w) = S_atom (A_int w)"
    using kai_intf_int(1) [of p w] by (auto simp: kai_int_def kai_tagged_int_def kai_int_big_def)
  ultimately show ?thesis
    using assms by (cases t) (auto simp: kai_vec_scalar_box_def kai_real_def kai_bool_def kai_char_def kai_byte_def)
qed

lemma bits_of_map [simp]: "bits_of (map Bits ws) = Value ws"
  by (induction ws) simp_all

lemma read_elem_row:
  assumes "row_ok m us" "layout_ok m" "(\<Sum>u\<leftarrow>us. row_refs u) \<subseteq># held h"
  obtains x where "kai_vec_read_elem at m us h = Value (x, mint x h)" "den M x = row_den M m us"
proof (cases m)
  case (Raw t)
  then show thesis using assms that den_scalar_box by (auto simp: kai_vec_read_elem_def Let_def)
next
  case (Rec tag cols)
  then obtain ws where ws: "us = map Bits ws" "list_all2 scalar_word (map snd cols) ws" using assms(1) by auto
  have len: "length ws = length cols" using list_all2_lengthD [OF ws(2)] by simp
  have "map (den M) (map (\<lambda>i. kai_vec_scalar_box (at (Suc i)) (snd (cols ! i)) (ws ! i)) [0..<length cols])
      = map2 scalar (map snd cols) ws"
    by (rule nth_equalityI) (use len ws(2) in \<open>auto simp: den_scalar_box list_all2_conv_all_nth\<close>)
  then show thesis using that Rec ws(1) by (simp add: kai_vec_read_elem_def den_all_map o_def)
next
  case Boxed
  then show thesis using assms that by (auto simp: kai_vec_read_elem_def elem_incref_def row_refs_def)
qed (use assms in simp)

end
