(* ===== verification/Kai_Vec_Spec.thy ===== *)
theory Kai_Vec_Spec
  imports Kai_Vec_Elem
begin

text \<open>
  Vectors are values: an operation gives the vector that the list operation on its elements gives, and
  no other reference to a vector sees a difference, whether the block was written in place, copied,
  moved or shared by a slice. \<open>vecs_ok R hand h\<close> says that the count of every vector is the number of
  references in the multiset \<open>R\<close> and of its views, that blocks hold what their layout says, and that the
  references to elements are those of \<open>hand\<close> and one for each element of a block of pointers.
\<close>

section \<open>The elements of a vector\<close>

definition home :: "(nat \<Rightarrow> vec option) \<Rightarrow> vec \<Rightarrow> (vec \<times> nat) option" where
  "home N v = (case v_view v of None \<Rightarrow> Some (v, 0) | Some w \<Rightarrow> map_option (\<lambda>ow. (ow, v_off v)) (N w))"

definition shown :: "(nat \<Rightarrow> vec option) \<Rightarrow> nat \<Rightarrow> (meta \<times> unit8 list list) option" where
  "shown N p = Option.bind (N p) (\<lambda>v. map_option
     (\<lambda>(ow, k). (v_meta ow, rows (stride (v_meta ow)) (v_len v) (drop k (v_block ow)))) (home N v))"

definition vec_den :: "(nat \<Rightarrow> 64 word) \<Rightarrow> vheap \<Rightarrow> nat \<Rightarrow> sem list option" where
  "vec_den M h p = map_option (\<lambda>(m, rs). map (row_den M m) rs) (shown (nodes h) p)"

definition vec_meta :: "vheap \<Rightarrow> nat \<Rightarrow> meta" where
  "vec_meta h p = fst (the (shown (nodes h) p))"

section \<open>The invariant\<close>

definition owner_ok :: "vec \<Rightarrow> bool" where
  "owner_ok v \<longleftrightarrow> length (v_block v) = v_cap v * stride (v_meta v) \<and> v_len v \<le> v_cap v
     \<and> (v_meta v = Pending \<longrightarrow> v_len v = 0) \<and> layout_ok (v_meta v)
     \<and> (\<forall>us\<in>set (rows (stride (v_meta v)) (v_len v) (v_block v)). row_ok (v_meta v) us)"

definition view_ok :: "(nat \<Rightarrow> vec option) \<Rightarrow> vec \<Rightarrow> nat \<Rightarrow> bool" where
  "view_ok N v w \<longleftrightarrow> (\<exists>ow k. N w = Some ow \<and> v_view ow = None \<and> v_off v = k * stride (v_meta ow)
     \<and> k + v_len v \<le> v_len ow \<and> 0 < v_len v)"

definition node_ok :: "(nat \<Rightarrow> vec option) \<Rightarrow> vec \<Rightarrow> bool" where
  "node_ok N v = (case v_view v of None \<Rightarrow> owner_ok v | Some w \<Rightarrow> view_ok N v w)"

definition boxed :: "vec \<Rightarrow> kval multiset" where
  "boxed v = (if v_view v = None then \<Sum>u\<leftarrow>take (v_len v * stride (v_meta v)) (v_block v). row_refs u else {#})"

definition viewed :: "vec \<Rightarrow> nat multiset" where
  "viewed v = (case v_view v of None \<Rightarrow> {#} | Some w \<Rightarrow> {#w#})"

definition tally :: "(vec \<Rightarrow> 'a multiset) \<Rightarrow> (nat \<Rightarrow> vec option) \<Rightarrow> 'a multiset" where
  "tally f N = (\<Sum>p\<in>dom N. f (the (N p)))"

definition vecs_ok :: "nat multiset \<Rightarrow> kval multiset \<Rightarrow> vheap \<Rightarrow> bool" where
  "vecs_ok R hand h \<longleftrightarrow> finite (dom (nodes h)) \<and> set_mset R \<subseteq> dom (nodes h)
     \<and> (\<forall>p v. nodes h p = Some v \<longrightarrow> node_ok (nodes h) v \<and> v_rc v = int (count (R + tally viewed (nodes h)) p) \<and> 0 < v_rc v)
     \<and> held h = hand + tally boxed (nodes h)"

lemma tally_upd:
  assumes "finite (dom N)"
  shows "tally f (N(p := x)) + (case N p of None \<Rightarrow> {#} | Some v \<Rightarrow> f v) = tally f N + (case x of None \<Rightarrow> {#} | Some v \<Rightarrow> f v)"
proof -
  have rest: "(\<Sum>q\<in>dom N - {p}. f (the ((N(p := x)) q))) = (\<Sum>q\<in>dom N - {p}. f (the (N q)))"
    by (rule sum.cong) auto
  have "tally f N = (case N p of None \<Rightarrow> {#} | Some v \<Rightarrow> f v) + (\<Sum>q\<in>dom N - {p}. f (the (N q)))"
    unfolding tally_def using assms by (cases "N p") (auto simp: sum.remove [of "dom N" p] domI intro!: sum.cong)
  moreover have "tally f (N(p := x)) = (case x of None \<Rightarrow> {#} | Some v \<Rightarrow> f v) + (\<Sum>q\<in>dom N - {p}. f (the (N q)))"
    unfolding tally_def rest [symmetric] using assms
    by (cases x) (simp_all add: sum.insert_remove)
  ultimately show ?thesis by (simp add: ac_simps)
qed

lemma tally_part: "finite (dom N) \<Longrightarrow> N p = Some v \<Longrightarrow> f v \<subseteq># tally f N"
  using tally_upd [of N f p None] by (simp add: mset_subset_eq_add_right flip: mset_subset_eq_exists_conv) (metis mset_subset_eq_add_right)

lemma vecs_okD:
  assumes "vecs_ok R hand h"
  shows "finite (dom (nodes h))" "r \<in># R \<Longrightarrow> nodes h r \<noteq> None" "nodes h p = Some v \<Longrightarrow> node_ok (nodes h) v"
    "nodes h p = Some v \<Longrightarrow> v_rc v = int (count (R + tally viewed (nodes h)) p)" "nodes h p = Some v \<Longrightarrow> 0 < v_rc v"
    "held h = hand + tally boxed (nodes h)"
proof -
  show "finite (dom (nodes h))" "held h = hand + tally boxed (nodes h)" "r \<in># R \<Longrightarrow> nodes h r \<noteq> None"
    using assms by (auto simp: vecs_ok_def)
  show "nodes h p = Some v \<Longrightarrow> node_ok (nodes h) v" "nodes h p = Some v \<Longrightarrow> 0 < v_rc v"
    "nodes h p = Some v \<Longrightarrow> v_rc v = int (count (R + tally viewed (nodes h)) p)"
    using assms unfolding vecs_ok_def by blast+
qed

lemma only_one:
  assumes "vecs_ok (add_mset p R) hand h" "nodes h p = Some v" "v_rc v = 1"
  shows "p \<notin># R" "nodes h q = Some u \<Longrightarrow> v_view u \<noteq> Some p"
proof -
  have c: "count R p = 0" "count (tally viewed (nodes h)) p = 0"
    using vecs_okD(4) [OF assms(1,2)] assms(3) by auto
  then show "p \<notin># R" by (simp add: not_in_iff)
  assume "nodes h q = Some u"
  from tally_part [OF vecs_okD(1) [OF assms(1)] this, of viewed] c(2)
  show "v_view u \<noteq> Some p" by (auto simp: viewed_def count_eq_zero_iff)
qed

lemma node_ok_other [simp]: "v_view v \<noteq> Some p \<Longrightarrow> node_ok (N(p := x)) v = node_ok N v"
  by (auto simp: node_ok_def view_ok_def split: option.splits)

lemma shown_other:
  "r \<noteq> p \<Longrightarrow> (\<And>v. N r = Some v \<Longrightarrow> v_view v \<noteq> Some p) \<Longrightarrow> shown (N(p := x)) r = shown N r"
  by (cases "N r") (auto simp: shown_def home_def split: option.splits)

section \<open>Steps on one cell\<close>

text \<open>A cell nobody else sees is changed.\<close>

lemma ok_update:
  assumes ok: "vecs_ok (add_mset p R) hand0 h" and v: "nodes h p = Some v" "v_rc v = 1"
    and v': "v_rc v' = 1" "v_view v' = v_view v" "node_ok (nodes h) v'"
    and h': "nodes h' = (nodes h)(p \<mapsto> v')" "held h' + hand0 + boxed v = held h + hand + boxed v'"
  shows "vecs_ok (add_mset p R) hand h'" "r \<in># R \<Longrightarrow> shown (nodes h') r = shown (nodes h) r"
proof -
  note one = only_one [OF ok v]
  have fin: "finite (dom (nodes h))" using vecs_okD(1) [OF ok] .
  have "viewed v' = viewed v" using v'(2) by (simp add: viewed_def)
  then have views: "tally viewed (nodes h') = tally viewed (nodes h)"
    using tally_upd [OF fin, of viewed p "Some v'"] v by (simp add: h'(1))
  have "held h' + hand0 + boxed v = hand0 + tally boxed (nodes h) + hand + boxed v'"
    using h'(2) vecs_okD(6) [OF ok] by simp
  also have "\<dots> = hand0 + hand + (tally boxed (nodes h') + boxed v)"
    using tally_upd [OF fin, of boxed p "Some v'"] v by (simp add: h'(1) ac_simps)
  finally have held: "held h' = hand + tally boxed (nodes h')" by (simp add: ac_simps)
  have "node_ok (nodes h') u \<and> v_rc u = int (count (add_mset p R + tally viewed (nodes h')) q) \<and> 0 < v_rc u"
    if "nodes h' q = Some u" for q u
  proof (cases "q = p")
    case True
    then have "u = v'" using that by (simp add: h'(1))
    then show ?thesis
      using True v' vecs_okD(4) [OF ok v(1)] v one(2) [OF v(1)] views by (simp add: h'(1))
  next
    case False
    then have "nodes h q = Some u" using that by (simp add: h'(1))
    then show ?thesis using vecs_okD(3-5) [OF ok] one(2) views by (auto simp: h'(1))
  qed
  moreover have "finite (dom (nodes h'))" "set_mset (add_mset p R) \<subseteq> dom (nodes h')"
    using fin vecs_okD(2) [OF ok] by (auto simp: h'(1))
  ultimately show "vecs_ok (add_mset p R) hand h'"
    using held unfolding vecs_ok_def by blast
  show "shown (nodes h') r = shown (nodes h) r" if "r \<in># R"
    using that one by (auto simp: h'(1) intro: shown_other)
qed

text \<open>A new cell.\<close>

lemma no_views_of_none:
  assumes "vecs_ok R hand h" "nodes h p = None"
  shows "p \<notin># R" "nodes h q = Some u \<Longrightarrow> v_view u \<noteq> Some p" "count (tally viewed (nodes h)) p = 0"
proof -
  show "p \<notin># R" using vecs_okD(2) [OF assms(1)] assms(2) by blast
  show a: "nodes h q = Some u \<Longrightarrow> v_view u \<noteq> Some p" for q u
    using vecs_okD(3) [OF assms(1), of q u] assms(2) by (auto simp: node_ok_def view_ok_def)
  have "p \<notin># viewed (the (nodes h q))" if "q \<in> dom (nodes h)" for q
    using a that by (auto simp: viewed_def split: option.splits)
  then show "count (tally viewed (nodes h)) p = 0"
    by (auto simp: tally_def count_sum not_in_iff)
qed

lemma ok_new:
  assumes ok: "vecs_ok (R + viewed v) hand0 h" and q: "nodes h q = None"
    and v: "v_rc v = 1" "node_ok (nodes h) v"
    and h': "nodes h' = (nodes h)(q \<mapsto> v)" "held h' + hand0 = held h + hand + boxed v"
  shows "vecs_ok (add_mset q R) hand h'" "r \<noteq> q \<Longrightarrow> shown (nodes h') r = shown (nodes h) r"
proof -
  note none = no_views_of_none [OF ok q]
  have self: "v_view v \<noteq> Some q" using v(2) q by (auto simp: node_ok_def view_ok_def)
  have fin: "finite (dom (nodes h))" using vecs_okD(1) [OF ok] .
  have views: "tally viewed (nodes h') = tally viewed (nodes h) + viewed v"
    using tally_upd [OF fin, of viewed q "Some v"] q by (simp add: h'(1))
  have "held h' + hand0 = hand0 + tally boxed (nodes h) + hand + boxed v"
    using h'(2) vecs_okD(6) [OF ok] by simp
  then have held: "held h' = hand + tally boxed (nodes h')"
    using tally_upd [OF fin, of boxed q "Some v"] q by (simp add: h'(1) ac_simps)
  have zero: "count R q = 0" "count (viewed v) q = 0" using none(1) by (simp_all add: not_in_iff)
  have "node_ok (nodes h') u \<and> v_rc u = int (count (add_mset q R + tally viewed (nodes h')) r) \<and> 0 < v_rc u"
    if "nodes h' r = Some u" for r u
  proof (cases "r = q")
    case True
    then have "u = v" using that by (simp add: h'(1))
    then show ?thesis using True v self none(3) zero views by (simp add: h'(1))
  next
    case False
    then have "nodes h r = Some u" using that by (simp add: h'(1))
    then show ?thesis using False vecs_okD(3-5) [OF ok] none(2) views by (auto simp: h'(1) ac_simps)
  qed
  moreover have "finite (dom (nodes h'))" "set_mset (add_mset q R) \<subseteq> dom (nodes h')"
    using fin vecs_okD(2) [OF ok] by (auto simp: h'(1))
  ultimately show "vecs_ok (add_mset q R) hand h'"
    using held unfolding vecs_ok_def by blast
  show "shown (nodes h') r = shown (nodes h) r" if "r \<noteq> q"
    using that none(2) by (auto simp: h'(1) intro: shown_other)
qed

section \<open>Releasing a vector\<close>

lemma each_decref:
  "(\<Sum>x\<leftarrow>xs. ref_of x) \<subseteq># held h \<Longrightarrow> each elem_decref xs h = Value (h\<lparr>held := held h - (\<Sum>x\<leftarrow>xs. ref_of x)\<rparr>)"
proof (induction xs arbitrary: h)
  case (Cons x xs)
  then obtain Y where "held h = ref_of x + (\<Sum>x\<leftarrow>xs. ref_of x) + Y" by (auto simp: mset_subset_eq_exists_conv)
  then have "ref_of x \<subseteq># held h" "(\<Sum>x\<leftarrow>xs. ref_of x) \<subseteq># held h - ref_of x" by (simp_all add: add.assoc)
  then show ?case using Cons.IH [of "h\<lparr>held := held h - ref_of x\<rparr>"] by (simp add: elem_decref_def diff_diff_add)
qed simp

lemma each_incref:
  "(\<And>x. x \<in> set xs \<Longrightarrow> ref_of x \<subseteq># held h) \<Longrightarrow> each elem_incref xs h = Value (h\<lparr>held := held h + (\<Sum>x\<leftarrow>xs. ref_of x)\<rparr>)"
proof (induction xs arbitrary: h)
  case (Cons x xs)
  have "each elem_incref xs (mint x h) = Value ((mint x h)\<lparr>held := held (mint x h) + (\<Sum>x\<leftarrow>xs. ref_of x)\<rparr>)"
    by (rule Cons.IH) (use Cons.prems in \<open>auto simp: mint_def intro: subset_mset.add_increasing2\<close>)
  moreover have "elem_incref x h = Value (mint x h)" using Cons.prems by (simp add: elem_incref_def)
  ultimately show ?case by (simp add: mint_def add.assoc)
qed simp

lemma pointers_map [simp]: "pointers (map Pointer xs) = Value xs"
  by (induction xs) simp_all

lemma sum_concat: "(\<Sum>u\<leftarrow>concat rs. (f u :: 'b multiset)) = (\<Sum>r\<leftarrow>rs. \<Sum>u\<leftarrow>r. f u)"
  by (induction rs) simp_all

lemma sum_none: "(\<And>x. x \<in> set xs \<Longrightarrow> f x = {#}) \<Longrightarrow> (\<Sum>x\<leftarrow>xs. f x) = {#}"
  by (induction xs) simp_all

lemma boxed_rows:
  assumes "owner_ok v" "v_view v = None"
  shows "boxed v = (\<Sum>r\<leftarrow>rows (stride (v_meta v)) (v_len v) (v_block v). \<Sum>u\<leftarrow>r. row_refs u)"
proof -
  have "v_len v * stride (v_meta v) \<le> length (v_block v)" using assms(1) by (simp add: owner_ok_def)
  then show ?thesis using assms(2) by (simp add: boxed_def sum_concat flip: concat_rows)
qed

lemma row_refs_raw: "row_ok m us \<Longrightarrow> m \<noteq> Boxed \<Longrightarrow> (\<Sum>u\<leftarrow>us. row_refs u) = {#}"
  by (cases m) (auto simp: row_refs_def o_def)

lemma boxed_raw: "owner_ok v \<Longrightarrow> v_view v = None \<Longrightarrow> v_meta v \<noteq> Boxed \<Longrightarrow> boxed v = {#}"
  unfolding boxed_rows by (rule sum_none) (auto simp: owner_ok_def row_refs_raw)

lemma sum_refs_pointers: "(\<Sum>u\<leftarrow>map Pointer xs. row_refs u) = (\<Sum>x\<leftarrow>xs. ref_of x)"
  by (simp add: row_refs_def o_def)

lemma all_pointers:
  assumes "\<And>i. i < n \<Longrightarrow> \<exists>x. take 1 (drop i us) = [Pointer x]" "n \<le> length us"
  shows "\<exists>xs. take n us = map Pointer xs"
  using assms
proof (induction n)
  case (Suc n)
  then obtain xs where "take n us = map Pointer xs" by auto
  moreover obtain x where "take 1 (drop n us) = [Pointer x]" using Suc.prems(1) by blast
  ultimately have "take (n + 1) us = map Pointer (xs @ [x])" by (simp only: take_add map_append) simp
  then show ?case by (metis Suc_eq_plus1)
qed simp

lemma boxed_pointers:
  assumes "owner_ok v" "v_view v = None" "v_meta v = Boxed"
  obtains xs where "take (v_len v) (v_block v) = map Pointer xs" "boxed v = (\<Sum>x\<leftarrow>xs. ref_of x)"
proof -
  have rows: "row_ok Boxed us" if "us \<in> set (rows 1 (v_len v) (v_block v))" for us
    using assms(1,3) that by (simp add: owner_ok_def)
  have "\<exists>x. take 1 (drop i (v_block v)) = [Pointer x]" if "i < v_len v" for i
    using rows [of "rows 1 (v_len v) (v_block v) ! i"] that by (simp add: nth_mem del: nth_rows) simp
  moreover have "v_len v \<le> length (v_block v)" using assms(1,3) by (simp add: owner_ok_def)
  ultimately obtain xs where "take (v_len v) (v_block v) = map Pointer xs" using all_pointers by blast
  then show thesis using that assms(2,3) by (simp add: boxed_def row_refs_def o_def)
qed

lemma node_ok_rc [simp]: "N p = Some v \<Longrightarrow> node_ok (N(p \<mapsto> v\<lparr>v_rc := r\<rparr>)) u = node_ok N u"
  by (auto simp: node_ok_def view_ok_def split: option.splits)

lemma own_rc [simp]: "node_ok N (v\<lparr>v_rc := r\<rparr>) = node_ok N v" "boxed (v\<lparr>v_rc := r\<rparr>) = boxed v" "viewed (v\<lparr>v_rc := r\<rparr>) = viewed v"
  by (auto simp: node_ok_def view_ok_def owner_ok_def boxed_def viewed_def split: option.splits)

lemma shown_rc: "N p = Some v \<Longrightarrow> shown (N(p \<mapsto> v\<lparr>v_rc := r\<rparr>)) q = shown N q"
  by (auto simp: shown_def home_def split: option.splits bind_splits)

lemma ok_drop:
  assumes ok: "vecs_ok (add_mset p R) hand h" and v: "nodes h p = Some v" "v_rc v \<noteq> 1"
    and h': "nodes h' = (nodes h)(p \<mapsto> v\<lparr>v_rc := v_rc v - 1\<rparr>)" "held h' = held h"
  shows "vecs_ok R hand h'"
proof -
  have fin: "finite (dom (nodes h))" using vecs_okD(1) [OF ok] .
  have t: "tally viewed (nodes h') = tally viewed (nodes h)" "tally boxed (nodes h') = tally boxed (nodes h)"
    using tally_upd [OF fin, of viewed p "Some (v\<lparr>v_rc := v_rc v - 1\<rparr>)"] tally_upd [OF fin, of boxed p "Some (v\<lparr>v_rc := v_rc v - 1\<rparr>)"] v(1)
    by (simp_all add: h'(1))
  have "node_ok (nodes h') u \<and> v_rc u = int (count (R + tally viewed (nodes h')) q) \<and> 0 < v_rc u"
    if u: "nodes h' q = Some u" for q u
  proof (cases "q = p")
    case True
    then have "u = v\<lparr>v_rc := v_rc v - 1\<rparr>" using u by (simp add: h'(1))
    then show ?thesis using True v vecs_okD(3-5) [OF ok v(1)] t by (simp add: h'(1))
  next
    case False
    then have q: "nodes h q = Some u" using u by (simp add: h'(1))
    have "node_ok (nodes h') u" "v_rc u = int (count (R + tally viewed (nodes h')) q)"
      using False q vecs_okD(3,4) [OF ok q] v t by (simp_all add: h'(1))
    then show ?thesis using vecs_okD(5) [OF ok q] by blast
  qed
  moreover have "finite (dom (nodes h'))" "set_mset R \<subseteq> dom (nodes h')"
    using fin vecs_okD(2) [OF ok] by (auto simp: h'(1))
  moreover have "held h' = hand + tally boxed (nodes h')" using vecs_okD(6) [OF ok] t h'(2) by simp
  ultimately show ?thesis unfolding vecs_ok_def by blast
qed

lemma ok_remove:
  assumes ok: "vecs_ok (add_mset p R) hand h" and v: "nodes h p = Some v" "v_rc v = 1"
    and h': "nodes h' = (nodes h)(p := None)" "held h' + boxed v = held h"
  shows "vecs_ok (R + viewed v) hand h'"
proof -
  note one = only_one [OF ok v]
  have fin: "finite (dom (nodes h))" using vecs_okD(1) [OF ok] .
  have t: "tally viewed (nodes h') + viewed v = tally viewed (nodes h)" "tally boxed (nodes h') + boxed v = tally boxed (nodes h)"
    using tally_upd [OF fin, of viewed p None] tally_upd [OF fin, of boxed p None] v(1) by (simp_all add: h'(1))
  have "held h' + boxed v = hand + tally boxed (nodes h') + boxed v"
    using vecs_okD(6) [OF ok] t(2) h'(2) by (simp add: add.assoc)
  then have held: "held h' = hand + tally boxed (nodes h')" by simp
  have "node_ok (nodes h') u \<and> v_rc u = int (count ((R + viewed v) + tally viewed (nodes h')) q) \<and> 0 < v_rc u"
    if u: "nodes h' q = Some u" for q u
  proof -
    have "nodes h q = Some u" "q \<noteq> p" using u by (auto simp: h'(1) split: if_splits)
    then have "node_ok (nodes h') u" "v_rc u = int (count ((R + viewed v) + tally viewed (nodes h')) q)"
      using vecs_okD(3,4) [OF ok] one(2) t(1) [symmetric] by (simp_all add: h'(1))
    then show ?thesis using vecs_okD(5) [OF ok \<open>nodes h q = Some u\<close>] by blast
  qed
  moreover have "set_mset (viewed v) \<subseteq> dom (nodes h')"
    using vecs_okD(3) [OF ok v(1)] one(2) [OF v(1)] by (auto simp: viewed_def node_ok_def view_ok_def h'(1) split: option.splits)
  then have "set_mset (R + viewed v) \<subseteq> dom (nodes h')" "finite (dom (nodes h'))"
    using fin vecs_okD(2) [OF ok] one(1) by (auto simp: h'(1))
  ultimately show ?thesis using held unfolding vecs_ok_def by blast
qed

text \<open>What stays of the other cells.\<close>

definition keeps :: "(nat \<Rightarrow> vec option) \<Rightarrow> (nat \<Rightarrow> vec option) \<Rightarrow> bool" where
  "keeps N N' \<longleftrightarrow> (\<forall>q v'. N' q = Some v' \<longrightarrow> (\<exists>v r. N q = Some v \<and> v' = v\<lparr>v_rc := r\<rparr> \<and> r \<le> v_rc v))"

lemma keepsD: "keeps N N' \<Longrightarrow> N' q = Some v' \<Longrightarrow> \<exists>v r. N q = Some v \<and> v' = v\<lparr>v_rc := r\<rparr> \<and> r \<le> v_rc v"
  by (simp add: keeps_def)

lemma keeps_None: "keeps N N' \<Longrightarrow> N q = None \<Longrightarrow> N' q = None"
  by (cases "N' q") (auto dest: keepsD)

lemma keeps_trans: "keeps N N' \<Longrightarrow> keeps N' N'' \<Longrightarrow> keeps N N''"
  unfolding keeps_def by fastforce

lemma keeps_steps: "keeps N (N(p := None))" "N p = Some v \<Longrightarrow> keeps N (N(p \<mapsto> v\<lparr>v_rc := v_rc v - 1\<rparr>))"
proof -
  have same: "\<exists>r. v = v\<lparr>v_rc := r\<rparr> \<and> r \<le> v_rc v" for v by (rule exI [of _ "v_rc v"]) simp
  show "keeps N (N(p := None))"
    using same unfolding keeps_def by auto
  show "N p = Some v \<Longrightarrow> keeps N (N(p \<mapsto> v\<lparr>v_rc := v_rc v - 1\<rparr>))"
    using same unfolding keeps_def by auto
qed

lemma keeps_shown:
  assumes k: "keeps N N'" and r: "N' r = Some v'" "node_ok N' v'"
  shows "shown N' r = shown N r"
proof -
  obtain v k where v: "N r = Some v" "v' = v\<lparr>v_rc := k\<rparr>" using keepsD [OF k r(1)] by blast
  show ?thesis
  proof (cases "v_view v'")
    case None
    then show ?thesis using r v by (auto simp: shown_def home_def)
  next
    case (Some w)
    then obtain ow where ow: "N' w = Some ow" using r(2) by (auto simp: node_ok_def view_ok_def)
    then obtain ow0 s where "N w = Some ow0" "ow = ow0\<lparr>v_rc := s\<rparr>" using keepsD [OF k] by blast
    then show ?thesis using r v ow Some by (auto simp: shown_def home_def)
  qed
qed

lemma free_block_ok:
  assumes "owner_ok v" "v_view v = None" "boxed v \<subseteq># held h"
  shows "free_block v h = Value (h\<lparr>held := held h - boxed v\<rparr>)"
proof (cases "v_meta v = Boxed")
  case True
  obtain xs where "take (v_len v) (v_block v) = map Pointer xs" "boxed v = (\<Sum>x\<leftarrow>xs. ref_of x)"
    using boxed_pointers [OF assms(1,2) True] .
  then show ?thesis using True assms(3) each_decref by (simp add: free_block_def)
qed (use assms boxed_raw in \<open>simp add: free_block_def\<close>)

text \<open>The release of an owner looks at its own cell only.\<close>

lemma decref_owner:
  assumes ok: "vecs_ok (add_mset w R) hand h" and w: "nodes h w = Some ow" "v_view ow = None"
  obtains X H where
    "\<And>n g. nodes g w = nodes h w \<Longrightarrow> held g = held h \<Longrightarrow>
       kai_vec_decref (Suc n) w g = Value (g\<lparr>held := H, nodes := (nodes g)(w := X)\<rparr>)"
    "vecs_ok R hand (h\<lparr>held := H, nodes := (nodes h)(w := X)\<rparr>)" "keeps (nodes h) ((nodes h)(w := X))"
proof (cases "v_rc ow = 1")
  case False
  let ?X = "Some (ow\<lparr>v_rc := v_rc ow - 1\<rparr>)"
  show thesis
  proof (rule that)
    show "vecs_ok R hand (h\<lparr>held := held h, nodes := (nodes h)(w := ?X)\<rparr>)"
      by (rule ok_drop [OF ok w(1) False]) simp_all
  qed (use w False keeps_steps(2) in simp_all)
next
  case True
  have own: "owner_ok ow" using vecs_okD(3) [OF ok w(1)] w(2) by (simp add: node_ok_def)
  have "boxed ow \<subseteq># held h"
    using tally_part [OF vecs_okD(1) [OF ok] w(1), of boxed] vecs_okD(6) [OF ok] by (simp add: subset_mset.add_increasing)
  then show thesis
    using that [where H = "held h - boxed ow" and X = None] ok_remove [OF ok w(1) True, of "h\<lparr>held := held h - boxed ow, nodes := (nodes h)(w := None)\<rparr>"]
      free_block_ok [OF own w(2)] w True keeps_steps(1) by (simp add: viewed_def)
qed

lemma vec_decref_ok:
  assumes ok: "vecs_ok (add_mset p R) hand h"
  obtains h' where "vec_decref p h = Value h'" "vecs_ok R hand h'" "keeps (nodes h) (nodes h')"
proof -
  obtain v where v: "nodes h p = Some v" using vecs_okD(2) [OF ok] by force
  show thesis
  proof (cases "v_view v = None \<or> v_rc v \<noteq> 1")
    case True
    show thesis
    proof (cases "v_view v = None")
      case True
      obtain X H where XH: "\<And>n g. nodes g p = nodes h p \<Longrightarrow> held g = held h \<Longrightarrow>
           kai_vec_decref (Suc n) p g = Value (g\<lparr>held := H, nodes := (nodes g)(p := X)\<rparr>)"
          "vecs_ok R hand (h\<lparr>held := H, nodes := (nodes h)(p := X)\<rparr>)" "keeps (nodes h) ((nodes h)(p := X))"
        using decref_owner [OF ok v True] by blast
      then show thesis using that [of "h\<lparr>held := H, nodes := (nodes h)(p := X)\<rparr>"] by (simp add: numeral_2_eq_2)
    next
      case False
      then have rc: "v_rc v \<noteq> 1" using \<open>v_view v = None \<or> v_rc v \<noteq> 1\<close> by auto
      show thesis
        using that [of "h\<lparr>nodes := (nodes h)(p \<mapsto> v\<lparr>v_rc := v_rc v - 1\<rparr>)\<rparr>"] ok_drop [OF ok v rc] v rc keeps_steps(2)
        by (simp add: numeral_2_eq_2)
    qed
  next
    case False
    then obtain w where w: "v_view v = Some w" "v_rc v = 1" by auto
    let ?g = "h\<lparr>nodes := (nodes h)(p := None)\<rparr>"
    have "boxed v = {#}" "viewed v = {#w#}" using w by (simp_all add: boxed_def viewed_def)
    then have okg: "vecs_ok (add_mset w R) hand ?g" using ok_remove [OF ok v w(2), of ?g] by simp
    obtain ow where ow: "nodes h w = Some ow" "v_view ow = None"
      using vecs_okD(3) [OF ok v] w(1) by (auto simp: node_ok_def view_ok_def)
    have ne: "w \<noteq> p" using ow v w(1) by auto
    then have owg: "nodes ?g w = Some ow" using ow by simp
    obtain X H where XH: "\<And>n g. nodes g w = nodes ?g w \<Longrightarrow> held g = held ?g \<Longrightarrow>
         kai_vec_decref (Suc n) w g = Value (g\<lparr>held := H, nodes := (nodes g)(w := X)\<rparr>)"
        "vecs_ok R hand (?g\<lparr>held := H, nodes := (nodes ?g)(w := X)\<rparr>)" "keeps (nodes ?g) ((nodes ?g)(w := X))"
      using decref_owner [OF okg owg ow(2)] by blast
    have "vec_decref p h = Value (h\<lparr>held := H, nodes := (nodes h)(w := X, p := None)\<rparr>)"
      using XH(1) [of h 0] v w ne by (simp add: numeral_2_eq_2)
    moreover have N: "(nodes ?g)(w := X) = (nodes h)(w := X, p := None)" using ne by (simp add: fun_upd_twist)
    have "keeps (nodes h) ((nodes h)(w := X, p := None))"
      using keeps_trans [OF keeps_steps(1) [of "nodes h" p]] XH(3) N by simp
    moreover have "vecs_ok R hand (h\<lparr>held := H, nodes := (nodes h)(w := X, p := None)\<rparr>)" using XH(2) N by simp
    ultimately show thesis using that [of "h\<lparr>held := H, nodes := (nodes h)(w := X, p := None)\<rparr>"] by simp
  qed
qed

lemma keeps_all_shown: "vecs_ok R hand h' \<Longrightarrow> keeps (nodes h) (nodes h') \<Longrightarrow> r \<in># R \<Longrightarrow> shown (nodes h') r = shown (nodes h) r"
proof -
  assume a: "vecs_ok R hand h'" "keeps (nodes h) (nodes h')" "r \<in># R"
  obtain v' where "nodes h' r = Some v'" using vecs_okD(2) [OF a(1,3)] by blast
  then show ?thesis using keeps_shown [OF a(2)] vecs_okD(3) [OF a(1)] by blast
qed

section \<open>Copy on write\<close>

lemma meta_home: "kai_vec_meta h v = map_option (\<lambda>(ow, k). v_meta ow) (home (nodes h) v)"
  and elems_home: "kai_vec_elems h v = map_option (\<lambda>(ow, k). drop k (v_block ow)) (home (nodes h) v)"
  by (auto simp: kai_vec_meta_def kai_vec_elems_def home_def option.map_comp o_def split: option.splits)

text \<open>The words behind a live vector, its own or in the block of its owner.\<close>

lemma home_ok:
  assumes ok: "vecs_ok R hand h" and v: "nodes h p = Some v"
  obtains ow k where "home (nodes h) v = Some (ow, k * stride (v_meta ow))" "owner_ok ow" "v_view ow = None"
    "k + v_len v \<le> v_len ow" "\<exists>w. nodes h w = Some ow"
    "shown (nodes h) p = Some (v_meta ow, rows (stride (v_meta ow)) (v_len v) (drop (k * stride (v_meta ow)) (v_block ow)))"
    "v_view v = None \<Longrightarrow> ow = v \<and> k = 0"
proof (cases "v_view v")
  case None
  then show thesis using that [of v 0] v vecs_okD(3) [OF ok v] by (auto simp: home_def node_ok_def shown_def)
next
  case (Some w)
  then obtain ow k where ow: "nodes h w = Some ow" "v_view ow = None" "v_off v = k * stride (v_meta ow)" "k + v_len v \<le> v_len ow"
    using vecs_okD(3) [OF ok v] by (auto simp: node_ok_def view_ok_def)
  then show thesis using that [of ow k] Some v vecs_okD(3) [OF ok ow(1)] by (auto simp: home_def node_ok_def shown_def)
qed

lemma elem_part: "x \<in> set xs \<Longrightarrow> f x \<subseteq># (\<Sum>x\<leftarrow>xs. f x :: 'b multiset)"
  by (induction xs) (auto intro: subset_mset.add_increasing)

lemma boxed_held:
  assumes "vecs_ok R hand h" "nodes h w = Some ow" "v_view ow = None" "u \<in> set (take (v_len ow * stride (v_meta ow)) (v_block ow))"
  shows "row_refs u \<subseteq># held h"
proof -
  have "row_refs u \<subseteq># boxed ow" using elem_part [OF assms(4), of row_refs] assms(3) by (simp add: boxed_def)
  also have "\<dots> \<subseteq># tally boxed (nodes h)" by (rule tally_part [OF vecs_okD(1) [OF assms(1)] assms(2)])
  also have "\<dots> \<subseteq># held h" by (simp add: vecs_okD(6) [OF assms(1)])
  finally show ?thesis .
qed

lemma clone_ok:
  assumes ok: "vecs_ok R hand h" and v: "nodes h p = Some v" and q: "nodes h q = None"
    and sh: "shown (nodes h) p = Some (m, rs)"
  obtains h' c where "kai_vec_clone q v cap h = Value h'" "vecs_ok (add_mset q R) hand h'"
    "nodes h' = (nodes h)(q \<mapsto> c)" "v_rc c = 1" "v_view c = None" "v_len c = v_len v" "v_cap c = max cap (v_len v)" "v_meta c = m"
    "shown (nodes h') q = Some (m, rs)" "\<And>r. r \<noteq> q \<Longrightarrow> shown (nodes h') r = shown (nodes h) r"
proof -
  obtain ow k w where ow: "home (nodes h) v = Some (ow, k * stride (v_meta ow))" "owner_ok ow" "v_view ow = None"
      "k + v_len v \<le> v_len ow" "nodes h w = Some ow"
      "shown (nodes h) p = Some (v_meta ow, rows (stride (v_meta ow)) (v_len v) (drop (k * stride (v_meta ow)) (v_block ow)))"
    using home_ok [OF ok v] by metis
  let ?s = "stride m" and ?n = "v_len v" and ?cap = "max cap (v_len v)"
  have m: "v_meta ow = m" using ow(6) sh by simp
  let ?b = "drop (k * ?s) (v_block ow)"
  let ?us = "take (?n * ?s) ?b"
  have rs: "rs = rows ?s ?n ?b" using ow(6) sh m by simp
  have bl: "v_len ow * ?s \<le> length (v_block ow)" using ow(2) m by (simp add: owner_ok_def)
  have "(k + ?n) * ?s \<le> v_len ow * ?s" using ow(4) by (rule mult_le_mono1)
  then have len: "?n * ?s \<le> length ?b" "k * ?s + ?n * ?s \<le> v_len ow * ?s" using bl by (simp_all add: add_mult_distrib)
  define c where "c = \<lparr>v_rc = 1, v_len = ?n, v_cap = ?cap, v_view = None, v_off = 0, v_meta = m,
      v_block = ?us @ drop (?n * ?s) (replicate (?cap * ?s) Garbage)\<rparr>"
  have blk: "length (v_block c) = ?cap * ?s" using len(1) by (simp add: c_def nat_mult_max_left)
  have tk: "take (?n * ?s) (v_block c) = ?us" using len(1) by (simp add: c_def)
  then have rows: "rows ?s ?n (v_block c) = rs" unfolding rs by (rule rows_prefix)
  have sub: "rs = take ?n (drop k (rows ?s (v_len ow) (v_block ow)))" unfolding rs by (rule rows_drop) (use ow(4) in simp)
  then have "set rs \<subseteq> set (rows ?s (v_len ow) (v_block ow))" by (metis order.trans set_drop_subset set_take_subset)
  then have own: "owner_ok c" using ow(2,4) m blk rows by (auto simp: owner_ok_def c_def)
  have store: "store q 0 ?us (kai_vec_alloc q ?n ?cap m h) = Value (h\<lparr>nodes := (nodes h)(q \<mapsto> c)\<rparr>)"
    using len(1) by (simp add: store_def kai_vec_alloc_def c_def nat_mult_max_left)
  define h' where "h' = h\<lparr>held := held h + boxed c, nodes := (nodes h)(q \<mapsto> c)\<rparr>"
  have "kai_vec_clone q v cap h = Value h'"
  proof (cases "m = Boxed")
    case True
    obtain xs where xs: "take (v_len c) (v_block c) = map Pointer xs" "boxed c = (\<Sum>x\<leftarrow>xs. ref_of x)"
      using boxed_pointers [OF own] True by (auto simp: c_def)
    then have us: "?us = map Pointer xs" using tk True by (simp add: c_def)
    have "ref_of x \<subseteq># held h" if "x \<in> set xs" for x
    proof -
      have "Pointer x \<in> set ?us" unfolding us using that by simp
      also have "?us = drop (k * ?s) (take (k * ?s + ?n * ?s) (v_block ow))" by (simp add: drop_take)
      finally have "Pointer x \<in> set (take (v_len ow * ?s) (v_block ow))"
        using set_drop_subset set_take_subset_set_take [OF len(2)] by (metis subsetD)
      then show ?thesis using boxed_held [OF ok ow(5,3)] m by (force simp: row_refs_def)
    qed
    then have "each elem_incref xs (h\<lparr>nodes := (nodes h)(q \<mapsto> c)\<rparr>) = Value h'"
      using each_incref [of xs "h\<lparr>nodes := (nodes h)(q \<mapsto> c)\<rparr>"] xs(2) by (simp add: h'_def)
    then show ?thesis
      using ow(1) m len(1) store us True by (simp add: kai_vec_clone_def meta_home elems_home opt_def load_def)
  next
    case False
    then have "boxed c = {#}" using boxed_raw [OF own] by (simp add: c_def)
    then show ?thesis
      using ow(1) m len(1) store False by (simp add: kai_vec_clone_def meta_home elems_home opt_def load_def h'_def)
  qed
  moreover have "node_ok (nodes h) c" "viewed c = {#}" using own by (simp_all add: node_ok_def viewed_def c_def)
  then have "vecs_ok (add_mset q R) hand h'" "\<And>r. r \<noteq> q \<Longrightarrow> shown (nodes h') r = shown (nodes h) r"
    using ok_new [of R c hand h q h' hand] ok q by (simp_all add: c_def h'_def)
  moreover have "shown (nodes h') q = Some (m, rs)" using rows by (simp add: h'_def shown_def home_def c_def)
  ultimately show thesis using that [of h' c] by (simp add: h'_def c_def)
qed

text \<open>After the decision the vector is an owner nobody else sees.\<close>

lemma ensure_unique_ok:
  assumes ok: "vecs_ok (add_mset p R) hand h" and v: "nodes h p = Some v" and q: "nodes h q = None"
    and sh: "shown (nodes h) p = Some (m, rs)"
  obtains p' h' c where "kai_vec_ensure_unique q p need h = Value (p', h')" "vecs_ok (add_mset p' R) hand h'"
    "nodes h' p' = Some c" "v_rc c = 1" "v_view c = None" "v_len c = v_len v" "v_meta c = m"
    "v_cap c = v_cap v \<or> v_cap c = max need (v_len v)"
    "shown (nodes h') p' = Some (m, rs)" "\<And>r. r \<in># R \<Longrightarrow> shown (nodes h') r = shown (nodes h) r"
proof (cases "v_view v \<noteq> None \<or> v_rc v \<noteq> 1")
  case True
  obtain g c where g: "kai_vec_clone q v need h = Value g" "vecs_ok (add_mset q (add_mset p R)) hand g"
      "nodes g = (nodes h)(q \<mapsto> c)" "v_rc c = 1" "v_view c = None" "v_len c = v_len v" "v_cap c = max need (v_len v)" "v_meta c = m"
      "shown (nodes g) q = Some (m, rs)" "\<And>r. r \<noteq> q \<Longrightarrow> shown (nodes g) r = shown (nodes h) r"
    using clone_ok [OF ok v q sh] by metis
  have "vecs_ok (add_mset p (add_mset q R)) hand g" using g(2) by (simp add: add_mset_commute)
  then obtain h' where h': "vec_decref p g = Value h'" "vecs_ok (add_mset q R) hand h'" "keeps (nodes g) (nodes h')"
    by (rule vec_decref_ok)
  have shown: "shown (nodes h') r = shown (nodes g) r" if "r \<in># add_mset q R" for r
    using keeps_all_shown [OF h'(2,3) that] .
  obtain c' where c': "nodes h' q = Some c'" using vecs_okD(2) [OF h'(2)] by force
  obtain k where k: "c' = c\<lparr>v_rc := k\<rparr>" "k \<le> v_rc c" using keepsD [OF h'(3) c'] g(3) by auto
  then have "c' = c" using vecs_okD(5) [OF h'(2) c'] g(4) by simp
  moreover have "r \<noteq> q" if "r \<in># R" for r using vecs_okD(2) [OF ok, of r] that q by auto
  ultimately show thesis
    using that [of q h' c] g h' c' v True shown by (auto simp: kai_vec_ensure_unique_def opt_def)
next
  case False
  then show thesis
    using that [of p h v] ok v sh
    by (auto simp: kai_vec_ensure_unique_def opt_def shown_def home_def)
qed

end
