(* ===== verification/Kai_Vec_Main.thy ===== *)
theory Kai_Vec_Main
  imports Kai_Vec_Spec
begin

text \<open>
  The operations on vectors against the operations on lists: \<open>vec_den\<close> is the list of terms a vector
  denotes. Each theorem says that the operation returns, that the counts are right afterwards, which
  list the result denotes, and that every other reference sees the list it saw.
\<close>

lemma sint_nonneg: "0 \<le> sint (i :: i64) \<Longrightarrow> sint i = int (unat i)"
proof -
  assume "0 \<le> sint i"
  then have "\<not> bit i 63" using bit_last_iff [of i] by simp
  then have "signed_take_bit 63 (uint i) = take_bit 63 (uint i)"
    by (simp add: signed_take_bit_eq_if_positive bit_uint_iff)
  moreover have "take_bit 63 (uint i) = uint i"
  proof (rule bit_eqI)
    fix n
    show "bit (take_bit 63 (uint i)) n = bit (uint i) n"
      using \<open>\<not> bit i 63\<close> by (cases "n = 63") (auto simp: bit_take_bit_iff bit_uint_iff not_less)
  qed
  ultimately show ?thesis by (simp add: sint_uint)
qed

section \<open>Writing rows\<close>

text \<open>The cell with some words of its block overwritten.\<close>

lemma store_eq:
  assumes "nodes h p = Some c" "v_view c = None" "k + length us \<le> length (v_block c)"
  shows "store p k us h = Value (h\<lparr>nodes := (nodes h)(p \<mapsto> c\<lparr>v_block := take k (v_block c) @ us @ drop (k + length us) (v_block c)\<rparr>)\<rparr>)"
  using assms by (simp add: store_def)

lemma write_ok:
  assumes ok: "vecs_ok (add_mset p R) hand0 h" and c: "nodes h p = Some c" "v_rc c = 1" "v_view c = None"
    and sh: "shown (nodes h) p = Some (m, rs)"
    and c': "v_rc c' = 1" "v_view c' = None" "v_meta c' = m" "length (v_block c') = length (v_block c)" "v_cap c' = v_cap c"
    and rs': "rows (stride m) (v_len c') (v_block c') = rs'" "\<And>us. us \<in> set rs' \<Longrightarrow> row_ok m us" "length rs' \<le> v_cap c" "m \<noteq> Pending"
    and h': "nodes h' = (nodes h)(p \<mapsto> c')"
      "held h' + hand0 + (\<Sum>r\<leftarrow>rs. \<Sum>u\<leftarrow>r. row_refs u) = held h + hand + (\<Sum>r\<leftarrow>rs'. \<Sum>u\<leftarrow>r. row_refs u)"
  shows "vecs_ok (add_mset p R) hand h'" "shown (nodes h') p = Some (m, rs')"
    "\<And>r. r \<in># R \<Longrightarrow> shown (nodes h') r = shown (nodes h) r"
proof -
  have m: "v_meta c = m" "rs = rows (stride m) (v_len c) (v_block c)" using sh c by (auto simp: shown_def home_def)
  have own: "owner_ok c" using vecs_okD(3) [OF ok c(1)] c(3) by (simp add: node_ok_def)
  have len: "length rs' = v_len c'" using rs'(1) by auto
  have own': "owner_ok c'" using own c' rs' len m by (auto simp: owner_ok_def)
  have b: "boxed c = (\<Sum>r\<leftarrow>rs. \<Sum>u\<leftarrow>r. row_refs u)" "boxed c' = (\<Sum>r\<leftarrow>rs'. \<Sum>u\<leftarrow>r. row_refs u)"
    using boxed_rows [OF own c(3)] boxed_rows [OF own' c'(2)] m rs'(1) c'(3) by simp_all
  have n: "node_ok (nodes h) c'" using own' c'(2) by (simp add: node_ok_def)
  have v: "v_view c' = v_view c" using c(3) c'(2) by simp
  have H: "held h' + hand0 + boxed c = held h + hand + boxed c'" using h'(2) b by simp
  show "vecs_ok (add_mset p R) hand h'" "\<And>r. r \<in># R \<Longrightarrow> shown (nodes h') r = shown (nodes h) r"
    by (rule ok_update [OF ok c(1,2) c'(1) v n h'(1) H], assumption?)+
  show "shown (nodes h') p = Some (m, rs')" using h'(1) c' rs'(1) by (simp add: shown_def home_def)
qed

text \<open>Room for one more.\<close>

lemma make_room_ok:
  assumes ok: "vecs_ok (add_mset p R) hand h" and c: "nodes h p = Some c" "v_rc c = 1" "v_view c = None"
    and sh: "shown (nodes h) p = Some (m, rs)" and m0: "m = Pending \<Longrightarrow> m0 = Value m1 \<and> m1 \<noteq> Pending \<and> layout_ok m1"
  defines "m' \<equiv> (if m = Pending then m1 else m)"
  obtains h' c' where "make_room p (v_len c) m0 h = Value (m', h')" "vecs_ok (add_mset p R) hand h'" "held h' = held h"
    "nodes h' p = Some c'" "v_rc c' = 1" "v_view c' = None" "v_len c' = v_len c" "v_meta c' = m'" "v_len c' < v_cap c'"
    "shown (nodes h') p = Some (m', rs)" "\<And>r. r \<in># R \<Longrightarrow> shown (nodes h') r = shown (nodes h) r"
proof -
  have m: "v_meta c = m" "rs = rows (stride m) (v_len c) (v_block c)" using sh c by (auto simp: shown_def home_def)
  have own: "owner_ok c" using vecs_okD(3) [OF ok c(1)] c(3) by (simp add: node_ok_def)
  have blk: "length (v_block c) = v_cap c * stride m" "v_len c \<le> v_cap c" using own m by (simp_all add: owner_ok_def)
  show thesis
  proof (cases "m \<noteq> Pending \<and> v_len c \<noteq> v_cap c")
    case True
    then show thesis using that [of h c] ok c sh m blk by (auto simp: make_room_def opt_def m'_def)
  next
    case False
    define ncap where "ncap = (if m = Pending then max 4 (v_cap c) else max 4 (v_cap c * 2))"
    define c' where "c' = c\<lparr>v_meta := m', v_cap := ncap,
        v_block := take (ncap * stride m') (v_block c) @ replicate (ncap * stride m' - length (v_block c)) Garbage\<rparr>"
    let ?h = "h\<lparr>nodes := (nodes h)(p \<mapsto> c')\<rparr>"
    have room: "make_room p (v_len c) m0 h = Value (m', ?h)"
      using c m m0 False by (auto simp: make_room_def opt_def kai_vec_grow_cap_def set_meta_def Let_def c'_def ncap_def m'_def)
    have lt: "v_len c < ncap" using False blk(2) own m by (auto simp: ncap_def owner_ok_def)
    have pending: "v_len c = 0" "rs = []" "v_block c = []" if "m = Pending"
      using that own m blk(1) by (auto simp: owner_ok_def)
    have short: "length (v_block c) \<le> ncap * stride m'"
    proof (cases "m = Pending")
      case False
      then have "v_cap c \<le> ncap" by (auto simp: ncap_def)
      then show ?thesis using False by (simp add: blk(1) m'_def)
    qed (use pending in simp)
    then have block: "v_block c' = v_block c @ replicate (ncap * stride m' - length (v_block c)) Garbage" by (simp add: c'_def)
    have rows: "rows (stride m') (v_len c) (v_block c') = rs"
    proof (cases "m = Pending")
      case False
      then have "v_len c * stride m' \<le> length (v_block c)" using blk by (simp add: m'_def)
      then show ?thesis using False m(2) by (simp add: block m'_def) (rule rows_prefix, simp)
    qed (use pending in simp)
    have own': "owner_ok c'"
      using own m m0 lt rows short pending by (auto simp: owner_ok_def block m'_def) (auto simp: c'_def m'_def)
    have n: "node_ok (nodes h) c'" "boxed c' = boxed c" "v_view c' = v_view c" "v_rc c' = 1"
      using own' c boxed_rows [OF own' ] boxed_rows [OF own c(3)] rows m by (simp_all add: node_ok_def c'_def)
    have "nodes ?h = (nodes h)(p \<mapsto> c')" "held ?h + hand + boxed c = held h + hand + boxed c'" by (simp_all add: n(2))
    note w = ok_update [OF ok c(1,2) n(4,3,1) this]
    moreover have "shown (nodes ?h) p = Some (m', rs)" using rows c by (simp add: shown_def home_def c'_def)
    ultimately show thesis using that [of ?h c'] room c lt w by (simp add: c'_def)
  qed
qed

section \<open>Appending\<close>

text \<open>An owner with one reference.\<close>

definition sole :: "vheap \<Rightarrow> nat \<Rightarrow> bool" where
  "sole h p \<longleftrightarrow> (\<exists>c. nodes h p = Some c \<and> v_rc c = 1 \<and> v_view c = None)"

text \<open>A row of the layout in the next free place, with the accounts of \<open>H\<close>.\<close>

lemma append_row:
  assumes ok: "vecs_ok (add_mset p R) hand0 h" and c: "nodes h p = Some c" "v_rc c = 1" "v_view c = None"
    and sh: "shown (nodes h) p = Some (m, rs)" and room: "v_len c < v_cap c" "m \<noteq> Pending"
    and us: "row_ok m us" "length us = stride m"
    and H: "H + hand0 = held h + hand + (\<Sum>u\<leftarrow>us. row_refs u)"
  obtains g where "store p (v_len c * stride m) us h = Value g" "held g = held h"
    "vecs_ok (add_mset p R) hand (set_len p (v_len c + 1) (g\<lparr>held := H\<rparr>))"
    "shown (nodes (set_len p (v_len c + 1) (g\<lparr>held := H\<rparr>))) p = Some (m, rs @ [us])"
    "\<And>r. r \<in># R \<Longrightarrow> shown (nodes (set_len p (v_len c + 1) (g\<lparr>held := H\<rparr>))) r = shown (nodes h) r"
    "sole (set_len p (v_len c + 1) (g\<lparr>held := H\<rparr>)) p"
proof -
  have m: "v_meta c = m" "rs = rows (stride m) (v_len c) (v_block c)" using sh c by (auto simp: shown_def home_def)
  have own: "owner_ok c" using vecs_okD(3) [OF ok c(1)] c(3) by (simp add: node_ok_def)
  have blk: "length (v_block c) = v_cap c * stride m" using own m by (simp add: owner_ok_def)
  have fits: "v_len c * stride m + stride m \<le> length (v_block c)" using row_inside [OF room(1)] by (simp add: blk)
  define b where "b = take (v_len c * stride m) (v_block c) @ us @ drop (v_len c * stride m + length us) (v_block c)"
  define g where "g = h\<lparr>nodes := (nodes h)(p \<mapsto> c\<lparr>v_block := b\<rparr>)\<rparr>"
  let ?c' = "c\<lparr>v_block := b, v_len := v_len c + 1\<rparr>" and ?h' = "set_len p (v_len c + 1) (g\<lparr>held := H\<rparr>)"
  have rows': "rows (stride m) (v_len ?c') (v_block ?c') = rs @ [us]"
    using rows_snoc [of "v_len c" "stride m" "v_block c" us] fits us(2) m(2) by (simp add: b_def)
  have ok': "row_ok m r" if "r \<in> set (rs @ [us])" for r
    using that us(1) own m by (auto simp: owner_ok_def)
  have n': "nodes ?h' = (nodes h)(p \<mapsto> ?c')" "held ?h' = H" by (simp_all add: set_len_def g_def)
  have acc: "held ?h' + hand0 + (\<Sum>r\<leftarrow>rs. \<Sum>u\<leftarrow>r. row_refs u) = held h + hand + (\<Sum>r\<leftarrow>rs @ [us]. \<Sum>u\<leftarrow>r. row_refs u)"
    using H n'(2) by (simp add: ac_simps)
  have "length (rs @ [us]) \<le> v_cap c" using room(1) m(2) by simp
  note w = write_ok [OF ok c sh _ _ _ _ _ rows' ok' this room(2) n'(1) acc]
  have "store p (v_len c * stride m) us h = Value g"
    using store_eq [OF c(1,3), of "v_len c * stride m" us] fits us(2) by (simp add: g_def b_def)
  moreover have "length b = length (v_block c)" using fits us(2) by (simp add: b_def)
  moreover have "sole ?h' p" using n'(1) c by (simp add: sole_def)
  ultimately show thesis using that [of g] w c m(1) by (simp add: g_def)
qed

text \<open>What a call gives when it returns: the counts are right, the result denotes \<open>ss\<close>, and every other
  reference sees the list it saw.\<close>

definition gives :: "(nat \<Rightarrow> 64 word) \<Rightarrow> nat multiset \<Rightarrow> kval multiset \<Rightarrow> vheap \<Rightarrow> sem list \<Rightarrow> (nat \<times> vheap) outcome \<Rightarrow> bool" where
  "gives M R hand h ss out \<longleftrightarrow> (\<exists>p' h'. out = Value (p', h') \<and> vecs_ok (add_mset p' R) hand h' \<and> vec_den M h' p' = Some ss
     \<and> (\<forall>r\<in>#R. vec_den M h' r = vec_den M h r))"

lemma hand_held: "vecs_ok R (hand + A) h \<Longrightarrow> A \<subseteq># held h"
  by (simp add: vecs_okD(6) subset_mset.add_increasing2 subset_mset.add_increasing)

lemma shown_ex:
  assumes "vecs_ok (add_mset p R) hand h"
  obtains v m rs where "nodes h p = Some v" "shown (nodes h) p = Some (m, rs)" "vec_meta h p = m"
proof -
  obtain v where v: "nodes h p = Some v" using vecs_okD(2) [OF assms] by force
  obtain m rs where "shown (nodes h) p = Some (m, rs)" using home_ok [OF assms v] by blast
  then show thesis using that v by (simp add: vec_meta_def)
qed

lemma shown_meta: "shown N p = Some (m, rs) \<Longrightarrow> N p = Some v \<Longrightarrow> v_view v = None \<Longrightarrow> m = v_meta v"
  by (auto simp: shown_def home_def)

text \<open>Where an append leaves its vector.\<close>

definition lands :: "meta \<Rightarrow> vheap \<Rightarrow> nat \<Rightarrow> (nat \<times> vheap) outcome \<Rightarrow> bool" where
  "lands m h p out \<longleftrightarrow> (\<forall>p' h'. out = Value (p', h') \<longrightarrow> vec_meta h' p' = m \<and> sole h' p' \<and> (sole h p \<longrightarrow> p' = p))"

text \<open>The common part of all appends: \<open>wr\<close> puts the row \<open>us\<close> into a free place and pays the references \<open>A\<close>.\<close>

definition puts_row :: "kval multiset \<Rightarrow> unit8 list \<Rightarrow> (nat \<Rightarrow> nat \<Rightarrow> vheap \<Rightarrow> vheap outcome) \<Rightarrow> bool" where
  "puts_row A us wr \<longleftrightarrow> (\<forall>p k h g. A \<subseteq># held h \<longrightarrow> store p k us h = Value g \<longrightarrow> held g = held h \<longrightarrow>
     wr p k h = Value (g\<lparr>held := held h + (\<Sum>u\<leftarrow>us. row_refs u) - A\<rparr>))"

lemma push_row:
  fixes cap :: nat
  assumes ok: "vecs_ok (add_mset p R) (hand + A) h" and q: "nodes h q = None" and v: "nodes h p = Some v"
    and sh: "shown (nodes h) p = Some (m, rs)" and m0: "m = Pending \<Longrightarrow> m0 = Value m1 \<and> m1 \<noteq> Pending \<and> layout_ok m1"
    and m': "m' = (if m = Pending then m1 else m)" and us: "row_ok m' us" "length us = stride m'" and wr: "puts_row A us (wr m')"
    and ss: "vec_den M h p = Some ss"
  defines "out \<equiv> andthen (kai_vec_ensure_unique q p cap h) (\<lambda>(p, h). andthen (make_room p (v_len v) m0 h) (\<lambda>(m, h).
         andthen (wr m p (v_len v * stride m) h) (\<lambda>h. Value (p, set_len p (v_len v + 1) h))))"
  shows "gives M R hand h (ss @ [row_den M m' us]) out" and "lands m' h p out"
proof -
  obtain p1 h1 c where u: "kai_vec_ensure_unique q p cap h = Value (p1, h1)"
      "vecs_ok (add_mset p1 R) (hand + A) h1" "nodes h1 p1 = Some c" "v_rc c = 1" "v_view c = None" "v_len c = v_len v"
      "v_meta c = m" "shown (nodes h1) p1 = Some (m, rs)" "\<And>r. r \<in># R \<Longrightarrow> shown (nodes h1) r = shown (nodes h) r"
    using ensure_unique_ok [OF ok v q sh] by metis
  obtain h2 c2 where r: "make_room p1 (v_len v) m0 h1 = Value (m', h2)"
      "vecs_ok (add_mset p1 R) (hand + A) h2" "held h2 = held h1" "nodes h2 p1 = Some c2" "v_rc c2 = 1" "v_view c2 = None"
      "v_len c2 = v_len v" "v_meta c2 = m'" "v_len c2 < v_cap c2" "shown (nodes h2) p1 = Some (m', rs)"
      "\<And>r. r \<in># R \<Longrightarrow> shown (nodes h2) r = shown (nodes h1) r"
    using make_room_ok [OF u(2-5,8) m0] unfolding u(6) m' [symmetric] by blast
  have np: "m' \<noteq> Pending" using m0 m' by (cases "m = Pending") auto
  let ?H = "held h2 + (\<Sum>u\<leftarrow>us. row_refs u) - A"
  have A: "A \<subseteq># held h2" by (rule hand_held [OF r(2)])
  then have "?H + A = held h2 + (\<Sum>u\<leftarrow>us. row_refs u)" by (simp add: subset_mset.add_increasing2)
  then have H: "?H + (hand + A) = held h2 + hand + (\<Sum>u\<leftarrow>us. row_refs u)" by (simp add: ac_simps)
  obtain g where g: "store p1 (v_len c2 * stride m') us h2 = Value g" "held g = held h2"
      "vecs_ok (add_mset p1 R) hand (set_len p1 (v_len c2 + 1) (g\<lparr>held := ?H\<rparr>))"
      "shown (nodes (set_len p1 (v_len c2 + 1) (g\<lparr>held := ?H\<rparr>))) p1 = Some (m', rs @ [us])"
      "\<And>r. r \<in># R \<Longrightarrow> shown (nodes (set_len p1 (v_len c2 + 1) (g\<lparr>held := ?H\<rparr>))) r = shown (nodes h2) r"
      "sole (set_len p1 (v_len c2 + 1) (g\<lparr>held := ?H\<rparr>)) p1"
    using append_row [OF r(2,4-6,10,9) np us H] by blast
  have wr': "wr m' p1 (v_len c2 * stride m') h2 = Value (g\<lparr>held := ?H\<rparr>)"
    using wr A g(1,2) unfolding puts_row_def by blast
  moreover have "map (row_den M m') rs = ss"
  proof (cases "m = Pending")
    case True
    have "rs = []" using u(2,3,5,7,8) True vecs_okD(3) [OF u(2,3)] by (auto simp: shown_def home_def node_ok_def owner_ok_def)
    then show ?thesis using ss sh by (simp add: vec_den_def)
  qed (use ss sh m' in \<open>simp add: vec_den_def\<close>)
  ultimately show "gives M R hand h (ss @ [row_den M m' us]) out"
    using u(1,9) r(1,7,11) g(3-5) by (auto simp: gives_def vec_den_def out_def)
  have "p1 = p" if "sole h p"
    using that u(1) by (auto simp: sole_def kai_vec_ensure_unique_def opt_def)
  then show "lands m' h p out" using u(1) r(1,7) g(4,6) wr' by (simp add: lands_def vec_meta_def out_def)
qed

lemma puts_elem:
  assumes "storable m x" "m \<noteq> Pending" "elem_image m x = Value us"
  shows "puts_row (ref_of x) us (\<lambda>p k. kai_vec_write_elem m p k x)"
proof -
  have "(\<Sum>u\<leftarrow>us. row_refs u) = (if m = Boxed then ref_of x else {#})"
    by (rule elem_image_storable [OF assms(1,2)]) (use assms(3) in simp)
  then show ?thesis
    using assms(2,3) by (cases m) (auto simp: puts_row_def kai_vec_write_elem_def consume_elem_def elem_decref_def)
qed

lemma layout_classify: "names_ok x \<Longrightarrow> layout_ok (kai_vec_classify x)"
  using elem_image_storable [OF storable_classify] by metis

lemma push_ok:
  assumes ok: "vecs_ok (add_mset p R) (hand + ref_of x) h" and q: "nodes h q = None"
    and x: "storable (vec_meta h p) x" and ss: "vec_den M h p = Some ss"
  shows "gives M R hand h (ss @ [den M x]) (kai_vec_push_impl q (Node p) x h)"
    "lands (if vec_meta h p = Pending then kai_vec_classify x else vec_meta h p) h p (kai_vec_push_impl q (Node p) x h)"
proof -
  obtain v m rs where v: "nodes h p = Some v" "shown (nodes h) p = Some (m, rs)" "vec_meta h p = m"
    using shown_ex [OF ok] .
  define m' where "m' = (if m = Pending then kai_vec_classify x else m)"
  have m0: "m = Pending \<Longrightarrow> Value (kai_vec_classify x) = Value (kai_vec_classify x)
      \<and> kai_vec_classify x \<noteq> Pending \<and> layout_ok (kai_vec_classify x)"
    using storable_classify(2) layout_classify x by (simp add: storable_def)
  have st: "storable m' x" "m' \<noteq> Pending"
    using x v(3) storable_classify by (auto simp: storable_def m'_def)
  obtain us where us: "elem_image m' x = Value us" "row_ok m' us" "length us = stride m'" "row_den M m' us = den M x"
    using elem_image_storable [OF st] by metis
  have "puts_row (ref_of x) us (\<lambda>p k. kai_vec_write_elem m' p k x)" by (rule puts_elem [OF st us(1)])
  note r = push_row [where wr = "\<lambda>m p k. kai_vec_write_elem m p k x", OF ok q v(1,2) m0 m'_def us(2,3) this ss]
  show "gives M R hand h (ss @ [den M x]) (kai_vec_push_impl q (Node p) x h)"
    using r(1) us(4) v(1) by (simp add: kai_vec_push_impl_def opt_def Let_def)
  show "lands (if vec_meta h p = Pending then kai_vec_classify x else vec_meta h p) h p (kai_vec_push_impl q (Node p) x h)"
  proof -
    have "lands m' h p (kai_vec_push_impl q (Node p) x h)" using r(2) v(1) by (simp add: kai_vec_push_impl_def opt_def Let_def)
    then show ?thesis by (simp only: m'_def v(3))
  qed
qed

text \<open>
  C9: Appending to a vector, whoever else holds it: with an element of the shape of the others the call
  returns, the references to vectors and elements are all accounted for, the result is the old list
  with the element at its end, and every other reference still sees what it saw.
\<close>

theorem kai_vec_push_impl_appends:
  assumes "vecs_ok (add_mset p R) (hand + ref_of x) h" "nodes h q = None" "storable (vec_meta h p) x" "vec_den M h p = Some ss"
  shows "gives M R hand h (ss @ [den M x]) (kai_vec_push_impl q (Node p) x h)"
  using push_ok(1) [OF assms] .

section \<open>Appending raw payloads\<close>

lemma box_scalar_tag: "kai_vec_scalar_tag (kai_vec_scalar_box b t w) = Some t"
  by (cases t) (auto simp: kai_vec_scalar_box_def kai_int_def kai_tagged_int_def kai_int_big_def kai_real_def kai_bool_def kai_char_def kai_byte_def)

lemma names_ok_scalar: "kai_vec_scalar_tag x = Some t \<Longrightarrow> names_ok x"
  by (cases x rule: names_ok.cases) simp_all

lemma box_storable:
  assumes "m = Pending \<or> m = Boxed \<or> m = Raw t"
  shows "storable m (kai_vec_scalar_box b t w)"
  using assms box_scalar_tag [of b t w] names_ok_scalar [OF box_scalar_tag [of b t w]] by (auto simp: storable_def kai_vec_classify_def)

lemma mint_same [simp]: "nodes (mint x h) = nodes h" "vec_den M (mint x h) = vec_den M h" "vec_meta (mint x h) = vec_meta h"
  by (simp_all add: mint_def vec_den_def vec_meta_def fun_eq_iff)

lemma mint_ok:
  assumes "vecs_ok R hand h"
  shows "vecs_ok R (hand + ref_of x) (mint x h)"
proof -
  have "held (mint x h) = hand + ref_of x + tally boxed (nodes h)" using vecs_okD(6) [OF assms] by (simp add: mint_def ac_simps)
  then show ?thesis using assms unfolding vecs_ok_def mint_same(1) by blast
qed

lemma gives_mint [simp]: "gives M R hand (mint x h) ss r = gives M R hand h ss r"
  by (simp add: gives_def)

lemma den_scalar [simp]: "scalar_word t w \<Longrightarrow> den M (kai_vec_scalar_box b t w) = scalar t w"
  by (rule den_scalar_box)

text \<open>The fast path of a raw append and the way through a box give the same vector.\<close>

theorem kai_vec_push_bits_appends:
  assumes ok: "vecs_ok (add_mset p R) hand h" and q: "nodes h q = None" and w: "scalar_word t w"
    and m: "vec_meta h p = Pending \<or> vec_meta h p = Boxed \<or> vec_meta h p = Raw t" and ss: "vec_den M h p = Some ss"
  shows "gives M R hand h (ss @ [scalar t w]) (kai_vec_push_bits q b (Node p) w t h)"
proof -
  let ?x = "kai_vec_scalar_box b t w"
  obtain v k rs where v: "nodes h p = Some v" "shown (nodes h) p = Some (k, rs)" "vec_meta h p = k"
    using shown_ex [OF ok] .
  have slow: "gives M R hand h (ss @ [scalar t w]) (kai_vec_push_impl q (Node p) ?x (mint ?x h))"
    using push_ok(1) [OF mint_ok [OF ok, of ?x], of q M ss] q box_storable [OF m, of b w] ss w by simp
  show ?thesis
  proof (cases "v_view v = None \<and> v_rc v = 1 \<and> v_meta v = Raw t \<and> v_len v < v_cap v")
    case True
    then have sh: "shown (nodes h) p = Some (Raw t, rs)" using v(2) shown_meta [OF v(2,1)] by simp
    have "held h + hand = held h + hand + (\<Sum>u\<leftarrow>[Bits w]. row_refs u)" by (simp add: row_refs_def)
    then obtain g where g: "store p (v_len v * stride (Raw t)) [Bits w] h = Value g" "held g = held h"
        "vecs_ok (add_mset p R) hand (set_len p (v_len v + 1) (g\<lparr>held := held h\<rparr>))"
        "shown (nodes (set_len p (v_len v + 1) (g\<lparr>held := held h\<rparr>))) p = Some (Raw t, rs @ [[Bits w]])"
        "\<And>r. r \<in># R \<Longrightarrow> shown (nodes (set_len p (v_len v + 1) (g\<lparr>held := held h\<rparr>))) r = shown (nodes h) r"
      using append_row [OF ok v(1) _ _ sh, of "[Bits w]" "held h" hand] True w by auto
    have "g\<lparr>held := held h\<rparr> = g" using g(2) by (cases g) simp
    note g' = g(3-5) [unfolded this]
    show ?thesis
      using True v(1) g(1) g' ss v(2) sh
      by (auto simp: kai_vec_push_bits_def kai_vec_inplace_meta_def gives_def vec_den_def)
  next
    case False
    then show ?thesis
      using slow v(1) by (auto simp: kai_vec_push_bits_def kai_vec_inplace_meta_def box_of_def Let_def)
  qed
qed

section \<open>Replacing\<close>

lemma sum_update:
  "i < length rs \<Longrightarrow> (\<Sum>r\<leftarrow>rs[i := us]. f r) + f (rs ! i) = (\<Sum>r\<leftarrow>rs. f r) + (f us :: 'b multiset)"
proof (induction rs arbitrary: i)
  case (Cons r rs)
  then show ?case by (cases i) (simp_all add: ac_simps)
qed simp

lemma write_row:
  assumes ok: "vecs_ok (add_mset p R) hand0 h" and c: "nodes h p = Some c" "v_rc c = 1" "v_view c = None"
    and sh: "shown (nodes h) p = Some (m, rs)" and i: "i < v_len c"
    and us: "row_ok m us" "length us = stride m"
    and H: "H + hand0 + (\<Sum>u\<leftarrow>rs ! i. row_refs u) = held h + hand + (\<Sum>u\<leftarrow>us. row_refs u)"
  obtains g where "store p (i * stride m) us h = Value g" "held g = held h"
    "vecs_ok (add_mset p R) hand (g\<lparr>held := H\<rparr>)" "shown (nodes g) p = Some (m, rs[i := us])"
    "\<And>r. r \<in># R \<Longrightarrow> shown (nodes g) r = shown (nodes h) r"
proof -
  have m: "v_meta c = m" "rs = rows (stride m) (v_len c) (v_block c)" using sh c by (auto simp: shown_def home_def)
  have own: "owner_ok c" using vecs_okD(3) [OF ok c(1)] c(3) by (simp add: node_ok_def)
  have blk: "v_len c * stride m \<le> length (v_block c)" using own m by (simp add: owner_ok_def)
  have fits: "i * stride m + stride m \<le> length (v_block c)" using row_inside [OF i, of "stride m"] blk by linarith
  define b where "b = take (i * stride m) (v_block c) @ us @ drop (i * stride m + length us) (v_block c)"
  define g where "g = h\<lparr>nodes := (nodes h)(p \<mapsto> c\<lparr>v_block := b\<rparr>)\<rparr>"
  let ?c' = "c\<lparr>v_block := b\<rparr>" and ?h' = "g\<lparr>held := H\<rparr>"
  have rows': "rows (stride m) (v_len ?c') (v_block ?c') = rs[i := us]"
    using rows_update [OF blk us(2) i] us(2) m(2) by (simp add: b_def)
  have ok': "row_ok m r" if "r \<in> set (rs[i := us])" for r
    using that us(1) own m set_update_subset_insert [of rs i us] by (auto simp: owner_ok_def)
  have n': "nodes ?h' = (nodes h)(p \<mapsto> ?c')" by (simp add: g_def)
  let ?f = "\<lambda>r. \<Sum>u\<leftarrow>r. row_refs u"
  have li: "i < length rs" using i m(2) by simp
  have "(held ?h' + hand0 + (\<Sum>r\<leftarrow>rs. ?f r)) + ?f (rs ! i) = (H + hand0 + ?f (rs ! i)) + (\<Sum>r\<leftarrow>rs. ?f r)" by (simp add: ac_simps)
  also have "\<dots> = held h + hand + ((\<Sum>r\<leftarrow>rs. ?f r) + ?f us)" unfolding H by (simp add: ac_simps)
  also have "\<dots> = (held h + hand + (\<Sum>r\<leftarrow>rs[i := us]. ?f r)) + ?f (rs ! i)" using sum_update [OF li, of ?f us] by (simp add: ac_simps)
  finally have acc: "held ?h' + hand0 + (\<Sum>r\<leftarrow>rs. ?f r) = held h + hand + (\<Sum>r\<leftarrow>rs[i := us]. ?f r)" by simp
  have len: "length (rs[i := us]) \<le> v_cap c" "m \<noteq> Pending" using own m i by (auto simp: owner_ok_def)
  note w = write_ok [OF ok c sh _ _ _ _ _ rows' ok' len n' acc]
  have "store p (i * stride m) us h = Value g"
    using store_eq [OF c(1,3), of "i * stride m" us] fits us(2) by (simp add: g_def b_def)
  moreover have "length b = length (v_block c)" using fits us(2) by (simp add: b_def)
  ultimately show thesis using that [of g] w c m(1) by (simp add: g_def)
qed

text \<open>The index as C reads it.\<close>

lemma index_ok: "0 \<le> sint (i :: i64) \<Longrightarrow> sint i < int n \<Longrightarrow> unat i < n \<and> nat (sint i) = unat i"
  using sint_nonneg [of i] by (metis nat_int of_nat_less_iff)

lemma bounds_ok:
  "nodes h p = Some v \<Longrightarrow> 0 \<le> sint i \<Longrightarrow> sint i < int (v_len v) \<Longrightarrow> kai_vec_bounds (Node p) i h = Value (p, v)"
  by (simp add: kai_vec_bounds_def opt_def)

lemma den_length:
  assumes "vecs_ok R hand h" "nodes h p = Some v" "shown (nodes h) p = Some (m, rs)" "vec_den M h p = Some ss"
  shows "length rs = v_len v" "ss = map (row_den M m) rs" "length ss = v_len v"
proof -
  show "length rs = v_len v" using assms(2,3) by (auto simp: shown_def)
  then show "ss = map (row_den M m) rs" "length ss = v_len v" using assms(3,4) by (auto simp: vec_den_def)
qed

lemma row_at:
  assumes "owner_ok c" "nodes h p = Some c" "v_view c = None" "shown (nodes h) p = Some (m, rs)" "i < length rs"
  shows "row_ok m (rs ! i)"
proof -
  have "v_meta c = m" "rs = rows (stride m) (v_len c) (v_block c)" using assms(2-4) by (auto simp: shown_def home_def)
  then show ?thesis using assms(1) nth_mem [OF assms(5)] unfolding owner_ok_def by metis
qed

text \<open>The references of a row are held.\<close>

lemma row_held:
  assumes ok: "vecs_ok (add_mset p R) (hand + A) h" and c: "nodes h p = Some c" "v_view c = None"
    and sh: "shown (nodes h) p = Some (m, rs)" and i: "i < length rs"
  shows "(\<Sum>u\<leftarrow>rs ! i. row_refs u) + A \<subseteq># held h"
proof -
  have m: "v_meta c = m" "rs = rows (stride m) (v_len c) (v_block c)" using sh c by (auto simp: shown_def home_def)
  have own: "owner_ok c" using vecs_okD(3) [OF ok c(1)] c(2) by (simp add: node_ok_def)
  have "(\<Sum>u\<leftarrow>rs ! i. row_refs u) \<subseteq># boxed c"
    unfolding boxed_rows [OF own c(2)] m(1) m(2) [symmetric] using elem_part [OF nth_mem [OF i], of "\<lambda>r. \<Sum>u\<leftarrow>r. row_refs u"] .
  also have "\<dots> \<subseteq># tally boxed (nodes h)" by (rule tally_part [OF vecs_okD(1) [OF ok] c(1)])
  finally show ?thesis using vecs_okD(6) [OF ok] by (simp add: subset_mset.add_mono add.commute add.left_commute subset_mset.add_increasing)
qed

lemma set_ok:
  assumes ok: "vecs_ok (add_mset p R) (hand + ref_of x) h" and q: "nodes h q = None"
    and x: "storable (vec_meta h p) x" and ss: "vec_den M h p = Some ss" and i: "0 \<le> sint i" "sint i < int (length ss)"
  shows "gives M R hand h (ss[nat (sint i) := den M x]) (kai_vec_set_impl q (Node p) i x h)"
proof -
  obtain v m rs where v: "nodes h p = Some v" "shown (nodes h) p = Some (m, rs)" "vec_meta h p = m"
    using shown_ex [OF ok] .
  note len = den_length [OF ok v(1,2) ss]
  have i': "unat i < v_len v" "nat (sint i) = unat i" using index_ok [OF i] len(3) by auto
  have bounds: "kai_vec_bounds (Node p) i h = Value (p, v)" using bounds_ok [OF v(1)] i len(3) by simp
  obtain p1 h1 c where u: "kai_vec_ensure_unique q p (v_cap v) h = Value (p1, h1)"
      "vecs_ok (add_mset p1 R) (hand + ref_of x) h1" "nodes h1 p1 = Some c" "v_rc c = 1" "v_view c = None" "v_len c = v_len v"
      "v_meta c = m" "shown (nodes h1) p1 = Some (m, rs)" "\<And>r. r \<in># R \<Longrightarrow> shown (nodes h1) r = shown (nodes h) r"
    using ensure_unique_ok [OF ok v(1) q v(2)] by metis
  have own: "owner_ok c" using vecs_okD(3) [OF u(2,3)] u(5) by (simp add: node_ok_def)
  have np: "m \<noteq> Pending" using own u(6,7) i'(1) by (auto simp: owner_ok_def)
  have st: "storable m x" using x v(3) by simp
  obtain us where us: "elem_image m x = Value us" "row_ok m us" "length us = stride m" "row_den M m us = den M x"
      "(\<Sum>u\<leftarrow>us. row_refs u) = (if m = Boxed then ref_of x else {#})"
    using elem_image_storable [OF st np, where M = M] by blast
  let ?i = "unat i"
  let ?old = "\<Sum>u\<leftarrow>rs ! ?i. row_refs u"
  let ?H = "held h1 + (\<Sum>u\<leftarrow>us. row_refs u) - ref_of x - ?old"
  have sub: "?old + ref_of x \<subseteq># held h1" by (rule row_held [OF u(2,3,5,8)]) (use i' len in simp)
  then obtain Y where Y: "held h1 = Y + (?old + ref_of x)" by (metis subset_mset.diff_add)
  have H: "?H + (hand + ref_of x) + ?old = held h1 + hand + (\<Sum>u\<leftarrow>us. row_refs u)"
    unfolding Y by (simp add: ac_simps)
  have lt: "?i < v_len c" using i' u(6) by simp
  obtain g where g: "store p1 (?i * stride m) us h1 = Value g" "held g = held h1"
      "vecs_ok (add_mset p1 R) hand (g\<lparr>held := ?H\<rparr>)" "shown (nodes g) p1 = Some (m, rs[?i := us])"
      "\<And>r. r \<in># R \<Longrightarrow> shown (nodes g) r = shown (nodes h1) r"
    using write_row [OF u(2-5,8) lt us(2,3) H] by blast
  have "kai_vec_set_impl q (Node p) i x h = Value (p1, g\<lparr>held := ?H\<rparr>)"
  proof (cases "m = Boxed")
    case True
    have "rs = rows 1 (v_len c) (v_block c)" using u(3,5,8) True by (auto simp: shown_def home_def)
    then have row: "rs ! ?i = take 1 (drop ?i (v_block c))" using lt by simp
    have "row_ok m (rs ! ?i)" using row_at [OF own u(3,5,8)] i' len by simp
    then obtain y where y: "rs ! ?i = [Pointer y]" using True by auto
    have "?i + 1 \<le> length (v_block c)" using own lt True u(7) by (simp add: owner_ok_def)
    then have ld: "load (v_block c) ?i 1 = Value [Pointer y]" using row y by (simp add: load_def)
    have "?old \<subseteq># held h1" using sub by (meson mset_subset_eq_add_left subset_mset.order_trans)
    then have "ref_of y \<subseteq># held h1" using y by (simp add: row_refs_def)
    then have "each elem_decref [y] g = Value (g\<lparr>held := ?H\<rparr>)"
      using g(2) us(5) True y by (simp add: elem_decref_def row_refs_def)
    then show ?thesis
      using bounds u(1,3,7) True ld us(1) g(1) by (simp add: kai_vec_set_impl_def opt_def kai_vec_write_elem_def consume_elem_def)
  next
    case False
    have "?old = {#}" using row_refs_raw [OF row_at [OF own u(3,5,8)] False] i' len by simp
    moreover have "kai_vec_write_elem m p1 (?i * stride m) x h1 = Value (g\<lparr>held := held h1 + (\<Sum>u\<leftarrow>us. row_refs u) - ref_of x\<rparr>)"
      using puts_elem [OF st np us(1)] g(1,2) hand_held [OF u(2)] unfolding puts_row_def by blast
    ultimately show ?thesis
      using bounds u(1,3,7) False by (simp add: kai_vec_set_impl_def opt_def Let_def)
  qed
  moreover have "vec_den M (g\<lparr>held := ?H\<rparr>) p1 = Some (ss[nat (sint i) := den M x])"
    using g(4) us(4) len(2) i'(2) by (simp add: vec_den_def map_update)
  ultimately show ?thesis using g(3,5) u(9) by (auto simp: gives_def vec_den_def)
qed

text \<open>
  C15: Writing an element of a vector, whoever else holds it: within the range the call returns the old
  list with that element replaced, gives back the reference of the one it replaced, and every other
  reference to this or any vector still sees what it saw.
\<close>

theorem kai_vec_set_impl_updates:
  assumes "vecs_ok (add_mset p R) (hand + ref_of x) h" "nodes h q = None" "storable (vec_meta h p) x"
    "vec_den M h p = Some ss" "0 \<le> sint i" "sint i < int (length ss)"
  shows "gives M R hand h (ss[nat (sint i) := den M x]) (kai_vec_set_impl q (Node p) i x h)"
  using set_ok [OF assms] .

section \<open>Reading\<close>

lemma home_row:
  assumes ok: "vecs_ok R hand h" and v: "nodes h p = Some v" and sh: "shown (nodes h) p = Some (m, rs)" and i: "i < v_len v"
  obtains b where "kai_vec_meta h v = Some m" "kai_vec_elems h v = Some b" "load b (i * stride m) (stride m) = Value (rs ! i)"
    "row_ok m (rs ! i)" "layout_ok m" "(\<Sum>u\<leftarrow>rs ! i. row_refs u) \<subseteq># held h"
proof -
  obtain ow k w where ow: "home (nodes h) v = Some (ow, k * stride (v_meta ow))" "owner_ok ow" "v_view ow = None"
      "k + v_len v \<le> v_len ow" "nodes h w = Some ow"
      "shown (nodes h) p = Some (v_meta ow, rows (stride (v_meta ow)) (v_len v) (drop (k * stride (v_meta ow)) (v_block ow)))"
    using home_ok [OF ok v] by metis
  let ?s = "stride m" and ?b = "drop (k * stride m) (v_block ow)"
  have m: "v_meta ow = m" "rs = rows ?s (v_len v) ?b" using ow(6) sh by auto
  have blk: "v_len ow * ?s \<le> length (v_block ow)" using ow(2) m(1) by (simp add: owner_ok_def)
  have ki: "k + i < v_len ow" using ow(4) i by simp
  have len: "k * ?s + (i * ?s + ?s) \<le> length (v_block ow)" using row_inside [OF ki, of ?s] blk by (simp add: add_mult_distrib)
  have row: "rs ! i = rows ?s (v_len ow) (v_block ow) ! (k + i)" using i ki by (simp add: m(2) algebra_simps)
  then have ok_row: "row_ok m (rs ! i)" using ow(2) ki m(1) nth_mem [of "k + i" "rows ?s (v_len ow) (v_block ow)"]
    unfolding owner_ok_def by (metis length_rows)
  have "(\<Sum>u\<leftarrow>rs ! i. row_refs u) \<subseteq># boxed ow"
    unfolding boxed_rows [OF ow(2,3)] m(1) row using elem_part [OF nth_mem, of "k + i" "rows ?s (v_len ow) (v_block ow)" "\<lambda>r. \<Sum>u\<leftarrow>r. row_refs u"] ki by simp
  also have "\<dots> \<subseteq># tally boxed (nodes h)" by (rule tally_part [OF vecs_okD(1) [OF ok] ow(5)])
  also have "\<dots> \<subseteq># held h" by (simp add: vecs_okD(6) [OF ok])
  finally have held: "(\<Sum>u\<leftarrow>rs ! i. row_refs u) \<subseteq># held h" .
  have "load ?b (i * ?s) ?s = Value (rs ! i)" using len i by (simp add: load_def m(2))
  then show thesis using that [of ?b] ow(1,2) m(1) ok_row held by (simp add: meta_home elems_home owner_ok_def)
qed

text \<open>
  C24: Reading an element: within the range the call returns a value that denotes the element at the
  index, with a reference of its own, whatever layout the block has; outside the range it traps, and
  nothing else is ever its outcome.
\<close>

theorem kai_vec_get_impl_reads:
  assumes ok: "vecs_ok (add_mset p R) hand h" and ss: "vec_den M h p = Some ss"
  shows "if 0 \<le> sint i \<and> sint i < int (length ss)
    then \<exists>x h'. kai_vec_get_impl at (Node p) i h = Value (x, h') \<and> den M x = ss ! nat (sint i)
      \<and> vecs_ok (add_mset p R) (hand + ref_of x) h' \<and> nodes h' = nodes h
    else kai_vec_get_impl at (Node p) i h = Trap out_of_range"
proof -
  obtain v m rs where v: "nodes h p = Some v" "shown (nodes h) p = Some (m, rs)" "vec_meta h p = m"
    using shown_ex [OF ok] .
  note len = den_length [OF ok v(1,2) ss]
  show ?thesis
  proof (cases "0 \<le> sint i \<and> sint i < int (length ss)")
    case True
    then have i: "unat i < v_len v" "nat (sint i) = unat i" using index_ok [of i "length ss"] len(3) by auto
    obtain b where b: "kai_vec_meta h v = Some m" "kai_vec_elems h v = Some b" "load b (unat i * stride m) (stride m) = Value (rs ! unat i)"
        "row_ok m (rs ! unat i)" "layout_ok m" "(\<Sum>u\<leftarrow>rs ! unat i. row_refs u) \<subseteq># held h"
      using home_row [OF ok v(1,2) i(1)] .
    obtain x where x: "kai_vec_read_elem at m (rs ! unat i) h = Value (x, mint x h)" "den M x = row_den M m (rs ! unat i)"
      using read_elem_row [OF b(4-6), where at = at and M = M] .
    have "kai_vec_get_impl at (Node p) i h = Value (x, mint x h)"
      using bounds_ok [OF v(1)] True len(3) b(1-3) x(1) by (simp add: kai_vec_get_impl_def opt_def)
    moreover have "den M x = ss ! nat (sint i)" using x(2) i len by simp
    ultimately show ?thesis using True mint_ok [OF ok] by simp
  next
    case False
    then show ?thesis using v(1) len(3) by (auto simp: kai_vec_get_impl_def kai_vec_bounds_def opt_def not_less)
  qed
qed

section \<open>A heap with a shared vector\<close>

text \<open>Two integers, held twice.\<close>

definition two_ints :: vec where
  "two_ints = \<lparr>v_rc = 2, v_len = 2, v_cap = 2, v_view = None, v_off = 0, v_meta = Raw Tag_int, v_block = [Bits 1, Bits 2]\<rparr>"

definition shared_heap :: vheap where
  "shared_heap = \<lparr>nodes = [0 \<mapsto> two_ints], held = {#}\<rparr>"

lemma two_ints_ok: "owner_ok two_ints" "v_view two_ints = None" "boxed two_ints = {#}" "viewed two_ints = {#}" "v_rc two_ints = 2"
  by (simp_all add: two_ints_def owner_ok_def rows_def upt_rec boxed_def viewed_def row_refs_def)

lemma shared_ok: "vecs_ok {#0, 0#} {#} shared_heap"
  using two_ints_ok by (simp add: vecs_ok_def shared_heap_def node_ok_def tally_def)

lemma shared_den: "vec_den M shared_heap 0 = Some [S_atom (A_int 1), S_atom (A_int 2)]" "vec_meta shared_heap 0 = Raw Tag_int"
  "nodes shared_heap (Suc 0) = None"
  by (simp_all add: vec_den_def vec_meta_def shown_def home_def shared_heap_def two_ints_def rows_def upt_rec)

lemma three: "kai_untag_int 7 = 3" "ref_of (Imm 7) = {#}" "storable (Raw Tag_int) (Imm 7)"
proof -
  have "signed_drop_bit 1 (7 :: i64) = 3" by code_simp
  then show "kai_untag_int 7 = 3" by simp
qed (simp_all add: ref_of_def storable_def kai_vec_classify_def)

lemma kai_vec_push_impl_appends_witness:
  "gives (\<lambda>_. 0) {#0#} {#} shared_heap [S_atom (A_int 1), S_atom (A_int 2), S_atom (A_int 3)] (kai_vec_push_impl 1 (Node 0) (Imm 7) shared_heap)"
  using kai_vec_push_impl_appends [of 0 "{#0#}" "{#}" "Imm 7" shared_heap 1 "\<lambda>_. 0"] shared_ok shared_den three by simp

lemma kai_vec_set_impl_updates_witness:
  "gives (\<lambda>_. 0) {#0#} {#} shared_heap [S_atom (A_int 3), S_atom (A_int 2)] (kai_vec_set_impl 1 (Node 0) 0 (Imm 7) shared_heap)"
  using kai_vec_set_impl_updates [of 0 "{#0#}" "{#}" "Imm 7" shared_heap 1 "\<lambda>_. 0" _ 0] shared_ok shared_den three by simp

lemma kai_vec_get_impl_reads_witness:
  "\<exists>x h'. kai_vec_get_impl id (Node 0) 1 shared_heap = Value (x, h') \<and> den (\<lambda>_. 0) x = S_atom (A_int 2) \<and> nodes h' = nodes shared_heap"
  using kai_vec_get_impl_reads [of 0 "{#0#}" "{#}" shared_heap "\<lambda>_. 0" _ 1 id] shared_ok shared_den by fastforce

lemma kai_vec_push_bits_appends_witness:
  "gives (\<lambda>_. 0) {#0#} {#} shared_heap [S_atom (A_int 1), S_atom (A_int 2), S_atom (A_int 9)] (kai_vec_push_bits 1 5 (Node 0) 9 Tag_int shared_heap)"
  using kai_vec_push_bits_appends [of 0 "{#0#}" "{#}" shared_heap 1 Tag_int 9 "\<lambda>_. 0" _ 5] shared_ok shared_den by simp

end
