(* ===== verification/Kai_Vec_List.thy ===== *)
theory Kai_Vec_List
  imports Kai_Vec_Main
begin

text \<open>
  Slices, vectors of copies, raw payloads, record literals and vectors of lists, against the operations on
  lists as in \<open>Kai_Vec_Main\<close>.
\<close>

section \<open>Slices\<close>

lemma ok_incref:
  assumes ok: "vecs_ok R hand h" and v: "nodes h w = Some v"
    and h': "nodes h' = (nodes h)(w \<mapsto> v\<lparr>v_rc := v_rc v + 1\<rparr>)" "held h' = held h"
  shows "vecs_ok (add_mset w R) hand h'"
proof -
  have fin: "finite (dom (nodes h))" using vecs_okD(1) [OF ok] .
  have t: "tally viewed (nodes h') = tally viewed (nodes h)" "tally boxed (nodes h') = tally boxed (nodes h)"
    using tally_upd [OF fin, of viewed w "Some (v\<lparr>v_rc := v_rc v + 1\<rparr>)"] tally_upd [OF fin, of boxed w "Some (v\<lparr>v_rc := v_rc v + 1\<rparr>)"] v
    by (simp_all add: h'(1))
  have "node_ok (nodes h') u \<and> v_rc u = int (count (add_mset w R + tally viewed (nodes h')) r) \<and> 0 < v_rc u"
    if u: "nodes h' r = Some u" for r u
  proof (cases "r = w")
    case True
    then have "u = v\<lparr>v_rc := v_rc v + 1\<rparr>" using u by (simp add: h'(1))
    then show ?thesis using True v vecs_okD(3-5) [OF ok v] t by (simp add: h'(1))
  next
    case False
    then have r: "nodes h r = Some u" using u by (simp add: h'(1))
    have "node_ok (nodes h') u" "v_rc u = int (count (add_mset w R + tally viewed (nodes h')) r)"
      using False r vecs_okD(3,4) [OF ok r] v t by (simp_all add: h'(1))
    then show ?thesis using vecs_okD(5) [OF ok r] by blast
  qed
  moreover have "finite (dom (nodes h'))" "set_mset (add_mset w R) \<subseteq> dom (nodes h')"
    using fin vecs_okD(2) [OF ok] by (auto simp: h'(1))
  moreover have "held h' = hand + tally boxed (nodes h')" using vecs_okD(6) [OF ok] t h'(2) by simp
  ultimately show ?thesis unfolding vecs_ok_def by blast
qed

lemma givesI:
  assumes "out = Value (p', h')" "vecs_ok (add_mset p' R) hand h'" "shown (nodes h') p' = Some (m, rs)" "map (row_den M m) rs = ss"
    "\<And>r. r \<in># R \<Longrightarrow> shown (nodes h') r = shown (nodes h) r"
  shows "gives M R hand h ss out"
  using assms by (auto simp: gives_def vec_den_def)

lemma empty_ok:
  assumes "vecs_ok R hand h" "nodes h q = None"
  shows "gives M R hand h [] (Value (kai_vec_empty q h))"
proof -
  define v where "v = \<lparr>v_rc = 1, v_len = 0, v_cap = 0, v_view = None, v_off = 0, v_meta = Pending, v_block = []\<rparr>"
  let ?h = "kai_vec_alloc q 0 0 Pending h"
  have h: "nodes ?h = (nodes h)(q \<mapsto> v)" "held ?h = held h" by (simp_all add: kai_vec_alloc_def v_def)
  have v: "v_rc v = 1" "node_ok (nodes h) v" "viewed v = {#}" "boxed v = {#}"
    by (simp_all add: v_def node_ok_def owner_ok_def viewed_def boxed_def)
  have R: "r \<noteq> q" if "r \<in># R" for r using vecs_okD(2) [OF assms(1) that] assms(2) by auto
  note n = ok_new [of R v hand h q ?h hand] 
  show ?thesis
    by (rule givesI [of _ q ?h _ _ Pending "[]"]) (use n assms v h R in \<open>simp_all add: kai_vec_empty_def shown_def home_def v_def\<close>)
qed

lemma gives_after:
  assumes "gives M R hand h' ss out" "vecs_ok R hand h'" "\<And>r. r \<in># R \<Longrightarrow> shown (nodes h') r = shown (nodes h) r"
  shows "gives M R hand h ss out"
  using assms by (auto simp: gives_def vec_den_def)

lemma slice_rows:
  assumes "rs = rows S n (drop (k * S) b)" "s + l \<le> n"
  shows "rows S l (drop (k * S + s * S) b) = take l (drop s rs)"
  using rows_drop [OF assms(2), of S "drop (k * S) b"] assms(1) by (simp add: add.commute)

lemma slice_ok:
  assumes ok: "vecs_ok (add_mset p R) hand h" and q: "nodes h q = None" and ss: "vec_den M h p = Some ss"
    and rng: "0 \<le> sint start" "0 \<le> sint slen" "sint start + sint slen \<le> int (length ss)"
  shows "gives M R hand h (take (nat (sint slen)) (drop (nat (sint start)) ss)) (kai_vec_slice_impl q (Node p) start slen h)"
proof -
  obtain v m rs where v: "nodes h p = Some v" "shown (nodes h) p = Some (m, rs)" "vec_meta h p = m"
    using shown_ex [OF ok] .
  note len = den_length [OF ok v(1,2) ss]
  define s n where "s = nat (sint start)" and "n = nat (sint slen)"
  have sn: "s + n \<le> v_len v" "sint slen = int n" using rng len(3) by (auto simp: s_def n_def)
  have guard: "\<not> (sint start < 0 \<or> sint slen < 0 \<or> sint start > int (v_len v) \<or> sint slen > int (v_len v) - sint start)"
    using rng len(3) by auto
  have out: "map (row_den M m) (take n (drop s rs)) = take n (drop s ss)" using len(2) by (simp add: take_map drop_map)
  obtain ow k w0 where ow: "home (nodes h) v = Some (ow, k * stride (v_meta ow))" "owner_ok ow" "v_view ow = None"
      "k + v_len v \<le> v_len ow" "nodes h w0 = Some ow"
      "shown (nodes h) p = Some (v_meta ow, rows (stride (v_meta ow)) (v_len v) (drop (k * stride (v_meta ow)) (v_block ow)))"
      "v_view v = None \<Longrightarrow> ow = v \<and> k = 0"
    using home_ok [OF ok v(1)] by metis
  have m: "v_meta ow = m" "rs = rows (stride m) (v_len v) (drop (k * stride m) (v_block ow))" using ow(6) v(2) by auto
  note sl = slice_rows [OF m(2) sn(1)]
  have meta: "kai_vec_meta h v = Some m" using ow(1) m(1) by (simp add: meta_home)
  show ?thesis
  proof (cases "n = 0")
    case True
    obtain h' where h': "vec_decref p h = Value h'" "vecs_ok R hand h'" "keeps (nodes h) (nodes h')"
      using vec_decref_ok [OF ok] .
    have "gives M R hand h' [] (Value (kai_vec_empty q h'))" by (rule empty_ok [OF h'(2) keeps_None [OF h'(3) q]])
    then have "gives M R hand h [] (Value (kai_vec_empty q h'))"
      using gives_after h'(2) keeps_all_shown [OF h'(2,3)] by blast
    then show ?thesis using True v(1) guard h'(1) by (simp add: kai_vec_slice_impl_def opt_def Let_def s_def n_def)
  next
    case False
    then have n: "0 < n" by simp
    have R: "r \<noteq> q" if "r \<in># add_mset p R" for r using vecs_okD(2) [OF ok that] q by auto
    show ?thesis
    proof (cases "v_view v")
      case None
      let ?view = "\<lparr>v_rc = 1, v_len = n, v_cap = n, v_view = Some p, v_off = s * stride m, v_meta = Pending, v_block = []\<rparr>"
      let ?h = "h\<lparr>nodes := (nodes h)(q \<mapsto> ?view)\<rparr>"
      have o: "ow = v" "k = 0" using ow(7) [OF None] by auto
      have view: "viewed ?view = {#p#}" "boxed ?view = {#}" "node_ok (nodes h) ?view"
        using v(1) None o sn(1) n m(1) by (auto simp: viewed_def boxed_def node_ok_def view_ok_def)
      have "p \<noteq> q" using v(1) q by auto
      then have "shown (nodes ?h) q = Some (m, take n (drop s rs))"
        using v(1) o m(1) sl by (simp add: shown_def home_def)
      moreover have "kai_vec_slice_impl q (Node p) start slen h = Value (q, ?h)"
        using v(1) guard n meta None by (simp add: kai_vec_slice_impl_def opt_def Let_def flip: s_def n_def)
      moreover note ok_new [of R ?view hand h q ?h hand]
      ultimately show ?thesis
        using givesI [of _ q ?h R hand m "take n (drop s rs)" M] ok q view out R by (simp flip: s_def n_def)
    next
      case (Some w)
      then have w: "nodes h w = Some ow" "v_off v = k * stride m" using ow(1) m(1) by (auto simp: home_def)
      show ?thesis
      proof (cases "v_rc v = 1")
        case True
        let ?v' = "v\<lparr>v_off := v_off v + s * stride m, v_len := n, v_cap := n\<rparr>"
        let ?h = "h\<lparr>nodes := (nodes h)(p \<mapsto> ?v')\<rparr>"
        have "view_ok (nodes h) ?v' w"
          using w ow(3,4) sn(1) n m(1) unfolding view_ok_def by (intro exI [of _ ow] exI [of _ "k + s"]) (simp add: add_mult_distrib)
        then have v': "node_ok (nodes h) ?v'" "boxed ?v' = boxed v" using Some by (simp_all add: node_ok_def boxed_def)
        have "w \<noteq> p" using w(1) ow(3) v(1) Some by auto
        then have "shown (nodes ?h) p = Some (m, take n (drop s rs))"
          using w Some m(1) sl by (simp add: shown_def home_def)
        moreover have "kai_vec_slice_impl q (Node p) start slen h = Value (p, ?h)"
          using v(1) guard n meta Some True by (simp add: kai_vec_slice_impl_def opt_def Let_def flip: s_def n_def)
        moreover note ok_update [OF ok v(1) True _ _ v'(1), of ?h hand]
        ultimately show ?thesis
          using givesI [of _ p ?h R hand m "take n (drop s rs)" M] v' out True by (simp flip: s_def n_def)
      next
        case False
        let ?view = "\<lparr>v_rc = 1, v_len = n, v_cap = n, v_view = Some w, v_off = v_off v + s * stride m, v_meta = Pending, v_block = []\<rparr>"
        let ?ow = "ow\<lparr>v_rc := v_rc ow + 1\<rparr>"
        let ?h1 = "h\<lparr>nodes := (nodes h)(w \<mapsto> ?ow)\<rparr>" and ?h2 = "h\<lparr>nodes := (nodes h)(w \<mapsto> ?ow, q \<mapsto> ?view)\<rparr>"
        have wq: "w \<noteq> q" using w(1) q by auto
        have ok1: "vecs_ok (add_mset p R + {#w#}) hand ?h1" using ok_incref [OF ok w(1), of ?h1] by simp
        have "view_ok (nodes ?h1) ?view w"
          using w ow(3,4) sn(1) n m(1) unfolding view_ok_def by (intro exI [of _ ?ow] exI [of _ "k + s"]) (simp add: add_mult_distrib)
        then have view: "node_ok (nodes ?h1) ?view" "viewed ?view = {#w#}" "boxed ?view = {#}"
          by (simp_all add: node_ok_def viewed_def boxed_def)
        have ok2: "vecs_ok (add_mset q (add_mset p R)) hand ?h2"
          "\<And>r. r \<noteq> q \<Longrightarrow> shown (nodes ?h2) r = shown (nodes ?h1) r"
          using ok_new [of "add_mset p R" ?view hand ?h1 q ?h2 hand] ok1 q wq view by simp_all
        have sh2: "shown (nodes ?h2) q = Some (m, take n (drop s rs))"
          using w m(1) wq sl by (simp add: shown_def home_def)
        have "vecs_ok (add_mset p (add_mset q R)) hand ?h2" using ok2(1) by (simp add: add_mset_commute)
        then obtain h3 where h3: "vec_decref p ?h2 = Value h3" "vecs_ok (add_mset q R) hand h3" "keeps (nodes ?h2) (nodes h3)"
          by (rule vec_decref_ok)
        note k3 = keeps_all_shown [OF h3(2,3)]
        have "vec_incref w (h\<lparr>nodes := (nodes h)(q \<mapsto> ?view)\<rparr>) = Value ?h2"
          using w(1) wq by (simp add: vec_incref_def opt_def fun_upd_twist)
        then have "kai_vec_slice_impl q (Node p) start slen h = Value (q, h3)"
          using v(1) guard n meta Some False h3(1) by (simp add: kai_vec_slice_impl_def opt_def Let_def flip: s_def n_def)
        moreover have "shown (nodes h3) r = shown (nodes h) r" if "r \<in># R" for r
          using k3 [of r] ok2(2) [of r] R [of r] that shown_rc [of "nodes h" w ow] w(1) by simp
        moreover have "shown (nodes h3) q = Some (m, take n (drop s rs))" using k3 [of q] sh2 by simp
        ultimately show ?thesis
          using givesI [of _ q h3 R hand m "take n (drop s rs)" M] h3(2) out by (simp flip: s_def n_def)
      qed
    qed
  qed
qed

text \<open>
  C14: A slice is the part of the list it names and shares the block of its owner: the owner lives as long
  as the slice, every other reference sees what it saw, and writing through the slice later copies.
\<close>

theorem kai_vec_slice_impl_slices:
  assumes "vecs_ok (add_mset p R) hand h" "nodes h q = None" "vec_den M h p = Some ss"
    "0 \<le> sint start" "0 \<le> sint slen" "sint start + sint slen \<le> int (length ss)"
  shows "gives M R hand h (take (nat (sint slen)) (drop (nat (sint start)) ss)) (kai_vec_slice_impl q (Node p) start slen h)"
  using slice_ok [OF assms] .

section \<open>Making a vector\<close>

lemma drop_replicate: "length us = s \<Longrightarrow> i \<le> n \<Longrightarrow> drop (i * s) (concat (replicate n us)) = concat (replicate (n - i) us)"
proof (induction i arbitrary: n)
  case (Suc i)
  then obtain k where "n = Suc k" by (cases n) auto
  then show ?case using Suc by simp
qed simp

lemma rows_replicate: "length us = s \<Longrightarrow> rows s n (concat (replicate n us)) = replicate n us"
proof (rule nth_equalityI)
  fix i assume s: "length us = s" and "i < length (rows s n (concat (replicate n us)))"
  then have i: "i < n" by simp
  then obtain k where "n - i = Suc k" by (metis Suc_diff_Suc)
  then show "rows s n (concat (replicate n us)) ! i = replicate n us ! i"
    using s i drop_replicate [of us s i n] by simp
qed simp

text \<open>The first \<open>i\<close> of \<open>n\<close> rows are filled, and \<open>k\<close> references have been made.\<close>

definition filled :: "nat \<Rightarrow> vec \<Rightarrow> unit8 list \<Rightarrow> nat \<Rightarrow> kval multiset \<Rightarrow> vheap \<Rightarrow> nat \<Rightarrow> nat \<Rightarrow> vheap" where
  "filled p c us n A h i k = h\<lparr>held := held h + repeat_mset k A,
     nodes := (nodes h)(p \<mapsto> c\<lparr>v_block := concat (replicate i us) @ replicate ((n - i) * length us) Garbage\<rparr>)\<rparr>"

lemma store_filled:
  assumes "v_view c = None" "i < n" "s = length us"
  shows "store p (i * s) us (filled p c us n A h i k) = Value (filled p c us n A h (Suc i) k)"
proof -
  have len: "length (concat (replicate i us)) = i * s" by (simp add: assms(3) length_concat sum_list_replicate)
  have more: "(n - i) * s = s + (n - Suc i) * s" using assms(2) by (metis Suc_diff_Suc mult_Suc)
  have "concat (replicate (Suc i) us) = concat (replicate i us) @ us" by (simp flip: replicate_append_same)
  then show ?thesis
    using assms(1,3) len more by (simp add: store_def filled_def)
qed

lemma each_append: "each f (xs @ ys) h = andthen (each f xs h) (each f ys)"
proof (induction xs arbitrary: h)
  case (Cons x xs)
  then show ?case by (cases "f x h") simp_all
qed simp

lemma fill_loop:
  assumes step: "\<And>i. i < n \<Longrightarrow> f i (filled p c us n A h i (k i)) = Value (filled p c us n A h (Suc i) (k (Suc i)))" and "a \<le> b" "b \<le> n"
  shows "each f [a..<b] (filled p c us n A h a (k a)) = Value (filled p c us n A h b (k b))"
  using assms(2,3)
proof (induction b)
  case (Suc b)
  show ?case
  proof (cases "a = Suc b")
    case False
    then have "each f [a..<b] (filled p c us n A h a (k a)) = Value (filled p c us n A h b (k b))" using Suc by simp
    then show ?thesis using step [of b] Suc.prems False by (simp add: each_append)
  qed simp
qed simp

lemma filled_ok:
  assumes ok: "vecs_ok R hand h" and p: "nodes h p = None"
    and c: "v_rc c = 1" "v_view c = None" "v_len c = n" "v_cap c = n" "v_meta c = m"
    and us: "row_ok m us" "length us = stride m" "layout_ok m" "m \<noteq> Pending" and A: "repeat_mset k A = repeat_mset n (\<Sum>u\<leftarrow>us. row_refs u)"
  shows "gives M R hand h (replicate n (row_den M m us)) (Value (p, filled p c us n A h n k))"
proof -
  let ?c = "c\<lparr>v_block := concat (replicate n us)\<rparr>"
  have h': "nodes (filled p c us n A h n k) = (nodes h)(p \<mapsto> ?c)" "held (filled p c us n A h n k) = held h + repeat_mset k A"
    by (simp_all add: filled_def)
  have rows: "rows (stride m) n (concat (replicate n us)) = replicate n us" by (rule rows_replicate [OF us(2)])
  have own: "owner_ok ?c" using c us rows by (simp add: owner_ok_def length_concat sum_list_replicate)
  have "(\<Sum>r\<leftarrow>replicate j us. \<Sum>u\<leftarrow>r. row_refs u) = repeat_mset j (\<Sum>u\<leftarrow>us. row_refs u)" for j
    by (induction j) simp_all
  then have b: "boxed ?c = repeat_mset k A" using boxed_rows [OF own] c rows A by simp
  have n: "node_ok (nodes h) ?c" "viewed ?c = {#}" using own c(2) by (simp_all add: node_ok_def viewed_def)
  have R: "r \<noteq> p" if "r \<in># R" for r using vecs_okD(2) [OF ok that] p by auto
  have sh: "shown ((nodes h)(p \<mapsto> ?c)) p = Some (m, replicate n us)" using c rows by (simp add: shown_def home_def)
  note w = ok_new [of R ?c hand h p "filled p c us n A h n k" hand]
  show ?thesis
    by (rule givesI [of _ p "filled p c us n A h n k" R hand m "replicate n us"]) (use w ok p n c b h' R sh in \<open>simp_all add: add.commute add.left_commute\<close>)
qed

lemma make_ok:
  assumes ok: "vecs_ok R hand h" and p: "nodes h p = None" and x: "ref_of x \<subseteq># hand" "names_ok x" and len: "0 \<le> sint l"
  shows "gives M R hand h (replicate (nat (sint l)) (den M x)) (kai_vec_make p l x h)"
proof (cases "nat (sint l) = 0")
  case True
  then show ?thesis using empty_ok [OF ok p] len by (simp add: kai_vec_make_def kai_vec_empty_def Let_def)
next
  case False
  define n m where "n = nat (sint l)" and "m = kai_vec_classify x"
  have st: "storable m x" "m \<noteq> Pending" unfolding m_def using storable_classify x(2) by auto
  obtain us where us: "elem_image m x = Value us" "row_ok m us" "length us = stride m" "layout_ok m" "row_den M m us = den M x"
      "(\<Sum>u\<leftarrow>us. row_refs u) = (if m = Boxed then ref_of x else {#})"
    using elem_image_storable [OF st, where M = M] by blast
  define c where "c = \<lparr>v_rc = 1, v_len = n, v_cap = n, v_view = None, v_off = 0, v_meta = m, v_block = replicate (n * stride m) Garbage\<rparr>"
  let ?F = "filled p c us n (ref_of x) h"
  have c: "v_rc c = 1" "v_view c = None" "v_len c = n" "v_cap c = n" "v_meta c = m" by (simp_all add: c_def)
  have start: "kai_vec_alloc p n n m h = ?F 0 0" using us(3) by (simp add: kai_vec_alloc_def filled_def c_def)
  have held: "ref_of x \<subseteq># held (?F i k)" for i k
    using x(1) vecs_okD(6) [OF ok] by (simp add: filled_def subset_mset.add_increasing2)
  have inc: "elem_incref x (?F i k) = Value (?F i (Suc k))" for i k
    using held by (simp add: elem_incref_def mint_def filled_def add.commute add.left_commute)
  have "\<exists>k. kai_vec_make p l x h = Value (p, ?F n k) \<and> repeat_mset k (ref_of x) = repeat_mset n (\<Sum>u\<leftarrow>us. row_refs u)"
  proof (cases "m = Boxed")
    case True
    then have "us = [Pointer x]" using us(1) by (simp add: elem_image_def)
    then have "each (\<lambda>i h. andthen (elem_incref x h) (store p i [Pointer x])) [0..<n] (?F 0 0) = Value (?F n n)"
      using fill_loop [of n "\<lambda>i h. andthen (elem_incref x h) (store p i [Pointer x])" p c us "ref_of x" h "\<lambda>i. i" 0 n]
        inc store_filled [OF c(2), of _ n 1 us p] by simp
    then have "kai_vec_make p l x h = Value (p, ?F n n)"
      using False len start True by (simp add: kai_vec_make_def Let_def flip: n_def m_def)
    then show ?thesis using True us(6) by auto
  next
    case False
    have w: "kai_vec_write_elem m p 0 x (?F 0 1) = Value (?F 1 0)"
    proof -
      have "store p 0 us (?F 0 1) = Value (?F 1 1)"
        using store_filled [OF c(2), of 0 n "stride m" us p "ref_of x" h 1] us(3) \<open>nat (sint l) \<noteq> 0\<close> by (simp add: n_def)
      moreover have hg: "held (?F 1 1) = held (?F 0 1)" by (simp add: filled_def)
      ultimately have "kai_vec_write_elem m p 0 x (?F 0 1) = Value ((?F 1 1)\<lparr>held := held (?F 0 1) + (\<Sum>u\<leftarrow>us. row_refs u) - ref_of x\<rparr>)"
        using puts_elem [OF st us(1)] held [of 0 1] hg unfolding puts_row_def by blast
      then show ?thesis using False us(6) by (simp add: filled_def)
    qed
    have ld: "load (concat (replicate 1 us) @ replicate ((n - 1) * length us) Garbage) 0 (stride m) = Value us"
      using us(3) by (simp add: load_def)
    have "each (\<lambda>i. store p (i * stride m) us) [1..<n] (?F 1 0) = Value (?F n 0)"
      by (rule fill_loop [where k = "\<lambda>i. 0"]) (use store_filled [OF c(2) _ us(3) [symmetric]] \<open>nat (sint l) \<noteq> 0\<close> in \<open>simp_all add: n_def\<close>)
    moreover have "nodes (?F 1 0) p = Some (c\<lparr>v_block := concat (replicate 1 us) @ replicate ((n - 1) * length us) Garbage\<rparr>)"
      by (simp add: filled_def)
    ultimately have "copy_image p (stride m) n (?F 1 0) = Value (?F n 0)" using ld by (simp add: copy_image_def opt_def)
    then have "kai_vec_make p l x h = Value (p, ?F n 0)"
      using \<open>nat (sint l) \<noteq> 0\<close> len start False inc [of 0 0] w by (simp add: kai_vec_make_def Let_def flip: n_def m_def)
    then show ?thesis using False us(6) by auto
  qed
  then obtain k where k: "kai_vec_make p l x h = Value (p, ?F n k)" "repeat_mset k (ref_of x) = repeat_mset n (\<Sum>u\<leftarrow>us. row_refs u)" by blast
  show ?thesis using filled_ok [OF ok p c us(2,3,4) st(2) k(2), where M = M] k(1) us(5) by (simp add: n_def)
qed

text \<open>
  A vector of copies of one value: a length that is not negative gives that many elements that denote
  the value, in the layout its shape asks for, with a reference for each where the block holds pointers;
  a negative length ends the program.
\<close>

theorem kai_vec_make_copies:
  assumes "vecs_ok R hand h" "nodes h p = None" "ref_of x \<subseteq># hand" "names_ok x"
  shows "if 0 \<le> sint l then gives M R hand h (replicate (nat (sint l)) (den M x)) (kai_vec_make p l x h)
    else kai_vec_make p l x h = Exit ''kai: vec_make: negative length''"
  using make_ok [OF assms] by (simp add: kai_vec_make_def Let_def)

section \<open>Replacing raw payloads\<close>

text \<open>The write in place and the write through a box give the same vector.\<close>

theorem kai_vec_set_bits_updates:
  assumes ok: "vecs_ok (add_mset p R) hand h" and q: "nodes h q = None" and w: "scalar_word t w"
    and m: "vec_meta h p = Boxed \<or> vec_meta h p = Raw t" and ss: "vec_den M h p = Some ss"
    and i: "0 \<le> sint i" "sint i < int (length ss)"
  shows "gives M R hand h (ss[nat (sint i) := scalar t w]) (kai_vec_set_bits q b (Node p) i w t h)"
proof -
  let ?x = "kai_vec_scalar_box b t w"
  obtain v k rs where v: "nodes h p = Some v" "shown (nodes h) p = Some (k, rs)" "vec_meta h p = k"
    using shown_ex [OF ok] .
  note len = den_length [OF ok v(1,2) ss]
  have slow: "gives M R hand h (ss[nat (sint i) := scalar t w]) (kai_vec_set_impl q (Node p) i ?x (mint ?x h))"
    using set_ok [OF mint_ok [OF ok, of ?x], of q M ss i] q box_storable [of "vec_meta h p" t b w] m ss w i by simp
  have i': "unat i < v_len v" "nat (sint i) = unat i" using index_ok [OF i] len(3) by auto
  show ?thesis
  proof (cases "v_view v = None \<and> v_rc v = 1 \<and> v_meta v = Raw t")
    case True
    then have sh: "shown (nodes h) p = Some (Raw t, rs)" using v(2) shown_meta [OF v(2,1)] by simp
    have own: "owner_ok v" using vecs_okD(3) [OF ok v(1)] True by (simp add: node_ok_def)
    have "(\<Sum>u\<leftarrow>rs ! unat i. row_refs u) = {#}"
      using row_refs_raw [OF row_at [OF own v(1) _ sh]] True i' len(1) by simp
    then have H: "held h + hand + (\<Sum>u\<leftarrow>rs ! unat i. row_refs u) = held h + hand + (\<Sum>u\<leftarrow>[Bits w]. row_refs u)"
      by (simp add: row_refs_def)
    obtain g where g: "store p (unat i * stride (Raw t)) [Bits w] h = Value g" "held g = held h"
        "vecs_ok (add_mset p R) hand (g\<lparr>held := held h\<rparr>)" "shown (nodes g) p = Some (Raw t, rs[unat i := [Bits w]])"
        "\<And>r. r \<in># R \<Longrightarrow> shown (nodes g) r = shown (nodes h) r"
      using write_row [OF ok v(1) _ _ sh i'(1) _ _ H] True w by auto
    have "g\<lparr>held := held h\<rparr> = g" using g(2) by (cases g) simp
    note g' = g(3) [unfolded this]
    have "kai_vec_set_bits q b (Node p) i w t h = Value (p, g)"
      using True v(1) g(1) i'(1) by (simp add: kai_vec_set_bits_def kai_vec_inplace_meta_def)
    moreover have "map (row_den M (Raw t)) (rs[unat i := [Bits w]]) = ss[nat (sint i) := scalar t w]"
    proof -
      have "k = Raw t" using v(2) sh by simp
      then show ?thesis using len(2) i'(2) by (simp add: map_update)
    qed
    ultimately show ?thesis using g' g(4,5) by (intro givesI)
  next
    case False
    then show ?thesis
      using slow v(1) by (auto simp: kai_vec_set_bits_def kai_vec_inplace_meta_def box_of_def Let_def)
  qed
qed

section \<open>Records that are never boxed\<close>

lemma fields_image_ok:
  assumes "map kai_vec_scalar_tag xs = map (\<lambda>c. Some (snd c)) cols"
  obtains us where "fields_image cols xs = Value us" "row_ok (Rec tag cols) us" "length us = length cols"
    "row_den M (Rec tag cols) us = S_record (map (den M) xs)" "(\<Sum>u\<leftarrow>us. row_refs u) = {#}"
proof -
  have "\<exists>us. fields_image cols xs = Value us \<and> row_ok (Rec tag cols) us \<and> length us = length cols
     \<and> row_den M (Rec tag cols) us = S_record (map (den M) xs) \<and> (\<Sum>u\<leftarrow>us. row_refs u) = {#}"
    using assms
  proof (induction cols xs rule: fields_image.induct)
    case (2 name t cols x xs)
    then have x: "kai_vec_scalar_tag x = Some t" by simp
    obtain us where us: "fields_image cols xs = Value us" "row_ok (Rec tag cols) us" "length us = length cols"
        "row_den M (Rec tag cols) us = S_record (map (den M) xs)" "(\<Sum>u\<leftarrow>us. row_refs u) = {#}"
      using 2 by auto
    obtain ws where "us = map Bits ws" "list_all2 scalar_word (map snd cols) ws" using us(2) by auto
    then show ?case
      using us x scalar_bits [OF x]
      by (auto simp: row_refs_def intro!: exI [of _ "kai_vec_scalar_bits x t # ws"])
  qed simp_all
  then show thesis using that by blast
qed

lemma fields_meta_ok:
  assumes "length names = length xs" "xs \<noteq> []" "length xs \<le> KAI_VEC_REC_MAX" "None \<notin> set (map kai_vec_scalar_tag xs)"
  defines "cols \<equiv> zip names (map (\<lambda>x. the (kai_vec_scalar_tag x)) xs)"
  shows "fields_meta names xs = Value (Rec 0 cols)" "map kai_vec_scalar_tag xs = map (\<lambda>c. Some (snd c)) cols" "cols \<noteq> []" "length cols \<le> KAI_VEC_REC_MAX"
proof -
  show "fields_meta names xs = Value (Rec 0 cols)" using assms by (auto simp: fields_meta_def Suc_le_eq not_less)
  show "cols \<noteq> []" "length cols \<le> KAI_VEC_REC_MAX" using assms by auto
  have "map (\<lambda>c. Some (snd c)) cols = map Some (map snd cols)" by simp
  also have "\<dots> = map (\<lambda>x. Some (the (kai_vec_scalar_tag x))) xs" using assms(1) by (simp add: cols_def)
  also have "\<dots> = map kai_vec_scalar_tag xs" using assms(4) by (auto simp: image_iff)
  finally show "map kai_vec_scalar_tag xs = map (\<lambda>c. Some (snd c)) cols" by simp
qed

text \<open>What the columns of a vector must be for the fields of a literal.\<close>

definition columns_fit :: "meta \<Rightarrow> string list \<Rightarrow> kval list \<Rightarrow> bool" where
  "columns_fit m names xs \<longleftrightarrow>
     (case m of
        Pending \<Rightarrow> length names = length xs \<and> xs \<noteq> [] \<and> length xs \<le> KAI_VEC_REC_MAX \<and> None \<notin> set (map kai_vec_scalar_tag xs)
      | Rec tag cols \<Rightarrow> map kai_vec_scalar_tag xs = map (\<lambda>c. Some (snd c)) cols
      | _ \<Rightarrow> False)"

lemma puts_fields:
  assumes "fields_image cols xs = Value us" "length cols = length xs" "(\<Sum>u\<leftarrow>us. row_refs u) = {#}"
  shows "puts_row (\<Sum>x\<leftarrow>xs. ref_of x) us (\<lambda>p k. kai_vec_store_rec_fields (Rec tag cols) p k xs)"
  unfolding puts_row_def
proof (intro allI impI)
  fix p k h g assume "(\<Sum>x\<leftarrow>xs. ref_of x) \<subseteq># held h" "store p k us h = Value g" "held g = held h"
  then show "kai_vec_store_rec_fields (Rec tag cols) p k xs h = Value (g\<lparr>held := held h + (\<Sum>u\<leftarrow>us. row_refs u) - (\<Sum>x\<leftarrow>xs. ref_of x)\<rparr>)"
    using assms each_decref [of xs g] by (simp add: kai_vec_store_rec_fields_def)
qed

text \<open>
  The fused append of a record literal, whose record is never built: the vector gets an element that
  denotes the record of the fields, and the reference of each field is paid.
\<close>

theorem kai_vec_push_rec_raw_appends:
  assumes ok: "vecs_ok (add_mset p R) (hand + (\<Sum>x\<leftarrow>xs. ref_of x)) h" and q: "nodes h q = None"
    and m: "columns_fit (vec_meta h p) names xs" and ss: "vec_den M h p = Some ss"
  shows "gives M R hand h (ss @ [S_record (map (den M) xs)]) (kai_vec_push_rec_raw q (Node p) xs names h)"
proof -
  obtain v k rs where v: "nodes h p = Some v" "shown (nodes h) p = Some (k, rs)" "vec_meta h p = k"
    using shown_ex [OF ok] .
  obtain tag cols where k: "(if k = Pending then Rec 0 (zip names (map (\<lambda>x. the (kai_vec_scalar_tag x)) xs)) else k) = Rec tag cols"
      "map kai_vec_scalar_tag xs = map (\<lambda>c. Some (snd c)) cols"
    using m v(3) fields_meta_ok(2) [of names xs] by (cases k) (auto simp: columns_fit_def)
  have m0: "k = Pending \<Longrightarrow> fields_meta names xs = Value (Rec tag cols) \<and> Rec tag cols \<noteq> Pending \<and> layout_ok (Rec tag cols)"
    using m v(3) k(1) fields_meta_ok [of names xs] by (auto simp: columns_fit_def)
  obtain us where us: "fields_image cols xs = Value us" "row_ok (Rec tag cols) us" "length us = length cols"
      "row_den M (Rec tag cols) us = S_record (map (den M) xs)" "(\<Sum>u\<leftarrow>us. row_refs u) = {#}"
    using fields_image_ok [OF k(2)] .
  have "length cols = length xs" using k(2) by (metis length_map)
  then have wr: "puts_row (\<Sum>x\<leftarrow>xs. ref_of x) us (\<lambda>p k. kai_vec_store_rec_fields (Rec tag cols) p k xs)"
    by (rule puts_fields [OF us(1) _ us(5)])
  have k': "Rec tag cols = (if k = Pending then Rec tag cols else k)" using k(1) by (auto split: if_splits)
  from push_row(1) [where wr = "\<lambda>m p k. kai_vec_store_rec_fields m p k xs", OF ok q v(1,2) m0 k' us(2) _ wr ss]
  show ?thesis using us(3,4) v(1) by (simp add: kai_vec_push_rec_raw_def opt_def Let_def)
qed

section \<open>A vector of a list\<close>

text \<open>Elements of one shape.\<close>

definition one_shape :: "kval list \<Rightarrow> bool" where
  "one_shape xs \<longleftrightarrow> (\<forall>x\<in>set xs. names_ok x) \<and> (\<forall>x\<in>set xs. \<forall>y\<in>set xs. same_layout (kai_vec_classify x) (kai_vec_classify y))"

lemma push_anywhere: "sole h p \<Longrightarrow> kai_vec_push_impl q (Node p) x h = kai_vec_push_impl q' (Node p) x h"
  by (auto simp: sole_def kai_vec_push_impl_def kai_vec_ensure_unique_def opt_def Let_def)

lemma sole_mint [simp]: "sole (mint x h) p = sole h p"
  by (simp add: sole_def)

lemma push_next:
  assumes ok: "vecs_ok (add_mset p R) hand h" "sole h p" and x: "storable (vec_meta h p) x" and ss: "vec_den M h p = Some ss"
  obtains h' where "kai_vec_push_impl q (Node p) x (mint x h) = Value (p, h')" "vecs_ok (add_mset p R) hand h'" "sole h' p"
    "vec_den M h' p = Some (ss @ [den M x])" "\<And>r. r \<in># R \<Longrightarrow> vec_den M h' r = vec_den M h r"
    "vec_meta h' p = (if vec_meta h p = Pending then kai_vec_classify x else vec_meta h p)"
proof -
  obtain q' where q': "nodes h q' = None"
    using vecs_okD(1) [OF ok(1)] ex_new_if_finite [OF infinite_UNIV_nat] by blast
  have P: "vecs_ok (add_mset p R) (hand + ref_of x) (mint x h)" "nodes (mint x h) q' = None"
    "storable (vec_meta (mint x h) p) x" "vec_den M (mint x h) p = Some ss"
    using mint_ok [OF ok(1)] q' x ss by simp_all
  note r = push_ok [OF P]
  obtain p' h' where g: "kai_vec_push_impl q' (Node p) x (mint x h) = Value (p', h')" "vecs_ok (add_mset p' R) hand h'"
      "vec_den M h' p' = Some (ss @ [den M x])" "\<And>r. r \<in># R \<Longrightarrow> vec_den M h' r = vec_den M h r"
    using r(1) by (auto simp: gives_def)
  have "vec_meta h' p' = (if vec_meta h p = Pending then kai_vec_classify x else vec_meta h p)" "sole h' p'" "p' = p"
    using r(2) g(1) ok(2) unfolding lands_def sole_mint mint_same by blast+
  moreover have "kai_vec_push_impl q (Node p) x (mint x h) = kai_vec_push_impl q' (Node p) x (mint x h)"
    using push_anywhere ok(2) by simp
  ultimately show thesis using that g by simp
qed

lemma push_all:
  assumes "vecs_ok (add_mset p R) hand h" "sole h p" "vec_den M h p = Some ss" "one_shape (map (item_val b) xs)"
    "vec_meta h p = Pending \<or> (\<forall>x\<in>set xs. storable (vec_meta h p) (item_val b x))"
  shows "gives M R hand h (ss @ map (\<lambda>x. den M (item_val b x)) xs) (fold (push_item q b) xs (Value (p, h)))"
  using assms
proof (induction xs arbitrary: h ss)
  case Nil
  then show ?case by (simp add: gives_def)
next
  case (Cons x xs)
  let ?x = "item_val b x"
  have names: "names_ok ?x" using Cons.prems(4) by (simp add: one_shape_def)
  have st: "storable (vec_meta h p) ?x" using Cons.prems(5) names by (auto simp: storable_def)
  obtain h' where h': "kai_vec_push_impl q (Node p) ?x (mint ?x h) = Value (p, h')" "vecs_ok (add_mset p R) hand h'" "sole h' p"
      "vec_den M h' p = Some (ss @ [den M ?x])" "\<And>r. r \<in># R \<Longrightarrow> vec_den M h' r = vec_den M h r"
      "vec_meta h' p = (if vec_meta h p = Pending then kai_vec_classify ?x else vec_meta h p)"
    using push_next [OF Cons.prems(1,2) st Cons.prems(3)] by blast
  have "storable (vec_meta h' p) (item_val b y)" if "y \<in> set xs" for y
    using Cons.prems(4,5) h'(6) that by (auto simp: one_shape_def storable_def)
  moreover have "one_shape (map (item_val b) xs)" using Cons.prems(4) by (simp add: one_shape_def)
  ultimately have "gives M R hand h' ((ss @ [den M ?x]) @ map (\<lambda>x. den M (item_val b x)) xs) (fold (push_item q b) xs (Value (p, h')))"
    using Cons.IH [OF h'(2-4)] by blast
  moreover have "push_item q b x (Value (p, h)) = Value (p, h')" using h'(1) by (simp add: push_item_def Let_def)
  ultimately show ?case using h'(5) by (auto simp: gives_def)
qed

lemma item_val_den: "den M (item_val b x) = item_den M x"
  using den_scalar_box [of Tag_int _ M b] by (cases x) (simp_all add: kai_vec_scalar_box_def)


section \<open>Tails and raw reads\<close>

lemma tail_ok:
  assumes ok: "vecs_ok (add_mset p R) hand h" and q: "nodes h q = None" and ss: "vec_den M h p = Some ss"
    and start: "0 \<le> sint start" "sint start \<le> int (length ss)" and small: "int (length ss) < 2 ^ 63"
  shows "gives M R hand h (drop (nat (sint start)) ss) (kai_vec_tail_from_impl q (Node p) start h)"
proof -
  obtain v m rs where v: "nodes h p = Some v" "shown (nodes h) p = Some (m, rs)" "vec_meta h p = m"
    using shown_ex [OF ok] .
  have len: "length ss = v_len v" by (rule den_length(3) [OF ok v(1,2) ss])
  define n where "n = int (v_len v) - sint start"
  have n: "0 \<le> n" "n \<le> sint INT64_MAX" "n < 2 ^ 63" "sint start + n = int (length ss)"
    using start small len by (simp_all add: n_def INT64_MAX_def)
  have "sint (word_of_int n :: i64) = n" using n(1,3) by (simp add: signed_of_int signed_take_bit_int_eq_self)
  then have "gives M R hand h (take (nat n) (drop (nat (sint start)) ss)) (kai_vec_slice_impl q (Node p) start (word_of_int n) h)"
    using slice_ok [OF ok q ss start(1), of "word_of_int n"] n by simp
  moreover have "take (nat n) (drop (nat (sint start)) ss) = drop (nat (sint start)) ss" using n(1,4) start by simp
  moreover have "kai_vec_tail_from_impl q (Node p) start h = kai_vec_slice_impl q (Node p) start (word_of_int n) h"
    using v(1) n(2) by (simp add: kai_vec_tail_from_impl_def opt_def n_def)
  ultimately show ?thesis by simp
qed

lemma scalar_at_ok:
  assumes ok: "vecs_ok (add_mset p R) hand h" and ss: "vec_den M h p = Some ss" and m: "vec_meta h p = Raw t"
    and i: "0 \<le> sint i" "sint i < int (length ss)"
  obtains w where "kai_vec_scalar_at (Node p) i t h = Value w" "ss ! nat (sint i) = scalar t w"
proof -
  obtain v rs where v: "nodes h p = Some v" "shown (nodes h) p = Some (Raw t, rs)"
    using shown_ex [OF ok] m by metis
  note len = den_length [OF ok v ss]
  have i': "unat i < v_len v" "nat (sint i) = unat i" using index_ok [OF i] len(3) by auto
  obtain b where b: "kai_vec_meta h v = Some (Raw t)" "kai_vec_elems h v = Some b"
      "load b (unat i * stride (Raw t)) (stride (Raw t)) = Value (rs ! unat i)" "row_ok (Raw t) (rs ! unat i)"
    using home_row [OF ok v i'(1)] by metis
  obtain w where "rs ! unat i = [Bits w]" using b(4) by auto
  then show thesis using that [of w] v(1) b(1-3) i' len by (simp add: kai_vec_scalar_at_def opt_def)
qed

section \<open>Witnesses\<close>

lemma kai_vec_slice_impl_slices_witness:
  "gives (\<lambda>_. 0) {#0#} {#} shared_heap [S_atom (A_int 2)] (kai_vec_slice_impl 1 (Node 0) 1 1 shared_heap)"
  using kai_vec_slice_impl_slices [of 0 "{#0#}" "{#}" shared_heap 1 "\<lambda>_. 0" _ 1 1] shared_ok shared_den by simp


end
